(* ===== verification/Prelude.thy ===== *)
theory Prelude
  imports Main "HOL-Library.Monad_Syntax"
begin

text \<open>
  What every other theory shares: the C++ integer operations whose result differs from
  the mathematical one, a monadic fold for loops whose body may abort, facts about
  slices of lists, and the collections of rewrite rules the component theories extend.

  \<^item> A failed \<open>assert\<close> (the build type is Debug, so asserts are on) or any other abort
    is the value \<^term>\<open>None\<close> of an option.
  \<^item> \<open>size_t\<close> is \<^typ>\<open>nat\<close>. Sums of sizes of objects in memory stay below
    \<open>2 ^ 64\<close>; a difference that would go below zero wraps, which \<open>sz_sub\<close> writes out.
  \<^item> Bytes are of type \<^typ>\<open>char\<close>, which has exactly 256 values.
\<close>

named_theorems model_defs \<open>definitions of accessors that proofs unfold everywhere\<close>
named_theorems inv_intros \<open>preservation of the components' invariants\<close>

section \<open>Machine arithmetic\<close>

text \<open>Subtraction of two \<open>size_t\<close> values (64 bits, unsigned).\<close>

definition sz_sub :: "nat \<Rightarrow> nat \<Rightarrow> nat" where
  "sz_sub a b = (if b \<le> a then a - b else 2 ^ 64 + a - b)"

lemma sz_sub_le [simp]: "b \<le> a \<Longrightarrow> sz_sub a b = a - b"
  by (simp add: sz_sub_def)

text \<open>Division and remainder of C++ truncate towards zero.\<close>

definition cdiv :: "int \<Rightarrow> int \<Rightarrow> int" where
  "cdiv a b = sgn a * sgn b * (\<bar>a\<bar> div \<bar>b\<bar>)"

definition cmod :: "int \<Rightarrow> int \<Rightarrow> int" where
  "cmod a b = a - b * cdiv a b"

lemma cdiv_nonneg [simp]: "0 \<le> a \<Longrightarrow> 0 < b \<Longrightarrow> cdiv a b = a div b"
  by (cases "a = 0") (auto simp: cdiv_def)

lemma cmod_nonneg [simp]: "0 \<le> a \<Longrightarrow> 0 < b \<Longrightarrow> cmod a b = a mod b"
  by (simp add: cmod_def minus_mult_div_eq_mod)

lemma cmod_neg: "a < 0 \<Longrightarrow> 0 < b \<Longrightarrow> cmod a b = - ((- a) mod b)"
  by (simp add: cmod_def cdiv_def minus_mult_div_eq_mod [symmetric])

lemma cdiv_neg: "a < 0 \<Longrightarrow> 0 < b \<Longrightarrow> cdiv a b = - ((- a) div b)"
  by (simp add: cdiv_def)

section \<open>Loops whose body may abort\<close>

fun bind_fold :: "('a \<Rightarrow> 's \<Rightarrow> 's option) \<Rightarrow> 'a list \<Rightarrow> 's \<Rightarrow> 's option" where
  "bind_fold f [] s = Some s"
| "bind_fold f (x # xs) s = do { s' \<leftarrow> f x s; bind_fold f xs s' }"

text \<open>The same equations between functions, for goals the simplifier has eta-contracted.\<close>

lemma bind_fold_fun:
  "bind_fold f [] = Some"
  "bind_fold f (x # xs) = (\<lambda>s. f x s \<bind> bind_fold f xs)"
  "bind_fold f (xs @ ys) = (\<lambda>s. bind_fold f xs s \<bind> bind_fold f ys)"
proof -
  show "bind_fold f [] = Some" "bind_fold f (x # xs) = (\<lambda>s. f x s \<bind> bind_fold f xs)"
    by (rule ext, simp)+
  have "bind_fold f (xs @ ys) s = bind_fold f xs s \<bind> bind_fold f ys" for s
    by (induction xs arbitrary: s) (auto split: Option.bind_splits)
  then show "bind_fold f (xs @ ys) = (\<lambda>s. bind_fold f xs s \<bind> bind_fold f ys)"
    by (rule ext)
qed

declare bind_fold_fun(1) [simp]

lemma bind_fold_append:
  "bind_fold f (xs @ ys) s = do { s' \<leftarrow> bind_fold f xs s; bind_fold f ys s' }"
  by (induction xs arbitrary: s) (auto split: Option.bind_splits)

lemma bind_fold_invariant:
  assumes step: "\<And>x s s'. x \<in> set xs \<Longrightarrow> P s \<Longrightarrow> f x s = Some s' \<Longrightarrow> P s'"
    and "P s" and "bind_fold f xs s = Some s'"
  shows "P s'"
  using assms
  by (induction xs arbitrary: s) (auto split: Option.bind_splits)

section \<open>Slices of lists\<close>

text \<open>The bytes of the range that starts at offset \<open>i\<close> and is \<open>n\<close> long.\<close>

definition slice :: "nat \<Rightarrow> nat \<Rightarrow> 'a list \<Rightarrow> 'a list" where
  "slice i n xs = take n (drop i xs)"

text \<open>Writing \<open>ys\<close> over the elements that start at offset \<open>i\<close>.\<close>

definition overwrite :: "nat \<Rightarrow> 'a list \<Rightarrow> 'a list \<Rightarrow> 'a list" where
  "overwrite i ys xs = take i xs @ ys @ drop (i + length ys) xs"

lemma length_slice: "i + n \<le> length xs \<Longrightarrow> length (slice i n xs) = n"
  by (simp add: slice_def)

lemma length_overwrite [simp]:
  "i + length ys \<le> length xs \<Longrightarrow> length (overwrite i ys xs) = length xs"
  by (simp add: overwrite_def)

lemma slice_overwrite_before:
  "j + n \<le> i \<Longrightarrow> i \<le> length xs \<Longrightarrow> slice j n (overwrite i ys xs) = slice j n xs"
  by (simp add: slice_def overwrite_def take_drop min_def)

lemma slice_overwrite_same:
  "i \<le> length xs \<Longrightarrow> slice i (length ys) (overwrite i ys xs) = ys"
  by (simp add: slice_def overwrite_def)

lemma slice_split:
  "slice i (m + n) xs = slice i m xs @ slice (i + m) n xs"
  by (simp add: slice_def take_add add.commute)

lemma slice_append_left: "i + n \<le> length xs \<Longrightarrow> slice i n (xs @ ys) = slice i n xs"
  by (simp add: slice_def)

lemma slice_drop: "k \<le> n \<Longrightarrow> slice (i + k) (n - k) xs = drop k (slice i n xs)"
  by (simp add: slice_def drop_take add.commute)

lemma takeWhile_neq_mem: "x \<notin> set (takeWhile (\<lambda>y. y \<noteq> x) xs)"
  using set_takeWhileD by force

lemma takeWhile_neq_append:
  "x \<notin> set xs \<Longrightarrow> takeWhile (\<lambda>y. y \<noteq> x) (xs @ x # ys) = xs"
  by (induction xs) auto

lemma dropWhile_neq_append:
  "x \<notin> set xs \<Longrightarrow> dropWhile (\<lambda>y. y \<noteq> x) (xs @ x # ys) = x # ys"
  by (induction xs) auto

lemma takeWhile_neq_id: "x \<notin> set xs \<Longrightarrow> takeWhile (\<lambda>y. y \<noteq> x) xs = xs"
  by (induction xs) auto

end
