(* ===== verification/C_Format.thy ===== *)
theory C_Format
  imports Prelude
begin

text \<open>
  The pieces of \<open>printf\<close> formatting and \<open>ctype.h\<close> the program uses: decimal printing
  (\<open>%d\<close>, \<open>%zd\<close>, \<open>%u\<close>, \<open>PRId64\<close>), zero padding (\<open>%02d\<close>, \<open>%06d\<close>), the
  truncation of \<open>snprintf\<close> to its buffer, and \<open>isspace\<close>. The lemmas show that decimal
  text reads back as the number it prints, hence that printing is injective.
\<close>

definition NUL :: char where "NUL = CHR 0x00"
definition CR :: char where "CR = CHR 0x0D"
definition LF :: char where "LF = CHR 0x0A"
definition SP :: char where "SP = CHR '' ''"
definition CRLF :: string where "CRLF = [CR, LF]"

definition isspace :: "char \<Rightarrow> bool" where
  "isspace c \<longleftrightarrow> c \<in> {CHR '' '', CHR 0x09, CHR 0x0A, CHR 0x0B, CHR 0x0C, CHR 0x0D}"

lemma isspace_SP [simp]: "isspace SP"
  by (simp add: isspace_def SP_def)

section \<open>Decimal digits\<close>

definition digit :: "nat \<Rightarrow> char" where
  "digit n = char_of (48 + n)"

definition digit_val :: "char \<Rightarrow> nat" where
  "digit_val c = of_char c - 48"

definition is_digit :: "char \<Rightarrow> bool" where
  "is_digit c \<longleftrightarrow> 48 \<le> (of_char c :: nat) \<and> (of_char c :: nat) \<le> 57"

lemma of_char_digit: "n < 10 \<Longrightarrow> (of_char (digit n) :: nat) = 48 + n"
  by (simp add: digit_def)

lemma digit_val_digit [simp]: "n < 10 \<Longrightarrow> digit_val (digit n) = n"
  by (simp add: digit_val_def of_char_digit)

lemma is_digit_digit [simp]: "n < 10 \<Longrightarrow> is_digit (digit n)"
  by (simp add: is_digit_def of_char_digit)

fun dec :: "nat \<Rightarrow> string" where
  "dec n = (if n < 10 then [digit n] else dec (n div 10) @ [digit (n mod 10)])"

declare dec.simps [simp del]

fun undec_from :: "nat \<Rightarrow> string \<Rightarrow> nat" where
  "undec_from a [] = a"
| "undec_from a (c # cs) = undec_from (10 * a + digit_val c) cs"

definition undec :: "string \<Rightarrow> nat" where
  "undec s = undec_from 0 s"

lemma undec_from_append: "undec_from a (s @ t) = undec_from (undec_from a s) t"
  by (induction a s rule: undec_from.induct) auto

lemma undec_dec [simp]: "undec (dec n) = n"
proof (induction n rule: dec.induct)
  case (1 n)
  then show ?case
    by (cases "n < 10") (simp_all add: dec.simps [of n] undec_def undec_from_append)
qed

lemma dec_inj: "dec m = dec n \<Longrightarrow> m = n"
  by (metis undec_dec)

lemma dec_not_Nil [simp]: "dec n \<noteq> []"
  by (simp add: dec.simps [of n])

lemma dec_digits: "c \<in> set (dec n) \<Longrightarrow> is_digit c"
proof (induction n rule: dec.induct)
  case (1 n)
  then show ?case
    by (cases "n < 10") (auto simp: dec.simps [of n])
qed

lemma length_dec_le: "n < 10 ^ k \<Longrightarrow> 0 < k \<Longrightarrow> length (dec n) \<le> k"
proof (induction k arbitrary: n)
  case 0
  then show ?case by simp
next
  case (Suc k)
  show ?case
  proof (cases "n < 10")
    case True
    then show ?thesis by (simp add: dec.simps [of n])
  next
    case False
    with Suc.prems have "n div 10 < 10 ^ k" "0 < k"
      by (auto intro!: less_mult_imp_div_less simp: mult.commute intro: gr0I Nat.gr0I)
    with Suc.IH False show ?thesis by (simp add: dec.simps [of n])
  qed
qed

section \<open>Signed numbers, padding and truncation\<close>

definition dec_int :: "int \<Rightarrow> string" where
  "dec_int i = (if i < 0 then CHR ''-'' # dec (nat (- i)) else dec (nat i))"

definition undec_int :: "string \<Rightarrow> int" where
  "undec_int s = (case s of c # cs \<Rightarrow>
     (if c = CHR ''-'' then - int (undec cs) else int (undec s)) | [] \<Rightarrow> 0)"

lemma minus_not_digit [simp]: "\<not> is_digit CHR ''-''"
  by (simp add: is_digit_def)

lemma undec_int_dec_int [simp]: "undec_int (dec_int i) = i"
proof (cases "i < 0")
  case True
  then show ?thesis by (simp add: undec_int_def dec_int_def)
next
  case False
  obtain c cs where dec: "dec (nat i) = c # cs"
    by (cases "dec (nat i)") auto
  then have "c \<noteq> CHR ''-''"
    using dec_digits [of c "nat i"] by auto
  with dec False have "undec_int (dec_int i) = int (undec (dec (nat i)))"
    by (simp add: undec_int_def dec_int_def del: undec_dec)
  with False show ?thesis by simp
qed

lemma dec_int_inj: "dec_int i = dec_int j \<Longrightarrow> i = j"
  by (metis undec_int_dec_int)

lemma length_dec_int_le: "\<bar>i\<bar> < 10 ^ k \<Longrightarrow> 0 < k \<Longrightarrow> length (dec_int i) \<le> Suc k"
proof -
  assume "\<bar>i\<bar> < 10 ^ k" and k: "0 < k"
  then have "nat \<bar>i\<bar> < 10 ^ k"
    by (simp add: nat_less_iff)
  from length_dec_le [OF this k] show ?thesis
    by (auto simp: dec_int_def abs_if split: if_splits)
qed

text \<open>\<open>%0wd\<close>: zeros between the sign and the digits, up to width \<open>w\<close>.\<close>

definition pad0 :: "nat \<Rightarrow> string \<Rightarrow> string" where
  "pad0 w s = replicate (w - length s) CHR ''0'' @ s"

definition dec_int_pad :: "nat \<Rightarrow> int \<Rightarrow> string" where
  "dec_int_pad w i =
     (if i < 0 then CHR ''-'' # pad0 (w - 1) (dec (nat (- i))) else pad0 w (dec (nat i)))"

lemma undec_pad0 [simp]: "undec (pad0 w s) = undec s"
proof -
  have "undec_from 0 (replicate k CHR ''0'' @ s) = undec_from 0 s" for k
    by (induction k) (simp_all add: digit_val_def)
  then show ?thesis by (simp add: pad0_def undec_def)
qed

lemma length_pad0: "length s \<le> w \<Longrightarrow> length (pad0 w s) = w"
  by (simp add: pad0_def)

text \<open>
  \<open>snprintf (buf, n, ...)\<close> keeps the first \<open>n - 1\<close> bytes of the formatted text and
  terminates it; reading \<open>buf\<close> as a C string then stops at the first NUL.
\<close>

definition snprintf :: "nat \<Rightarrow> string \<Rightarrow> string" where
  "snprintf n s = take (n - 1) s"

definition c_str :: "string \<Rightarrow> string" where
  "c_str s = takeWhile (\<lambda>c. c \<noteq> NUL) s"

lemma snprintf_fits [simp]: "length s < n \<Longrightarrow> snprintf n s = s"
  by (simp add: snprintf_def)

lemma c_str_id [simp]: "NUL \<notin> set s \<Longrightarrow> c_str s = s"
  by (simp add: c_str_def takeWhile_neq_id)

end
