(* ===== verification/Time_Stamp.thy ===== *)
theory Time_Stamp
  imports Complex_Main C_Format
begin

text \<open>
  \<open>include/Timestamp.h\<close> and \<open>src/base/Timestamp.cc\<close>: microseconds since the epoch in an
  \<open>int64_t\<close>, ordered by value. A \<open>double\<close> is the rational it stands for, and every
  operation on doubles rounds its exact result with the argument \<open>fl\<close>; \<open>fl_ok\<close> states
  what IEEE 754 documents of the rounding. Signed overflow is undefined in C++, so values
  are mathematical integers and the theorems that need it bound them by 63 bits.
\<close>

datatype timestamp = Timestamp (microSecondSinceEpoch: int)

text \<open>\<open>operator<\<close>, which is the order of the type below.\<close>

definition timestamp_less :: "timestamp \<Rightarrow> timestamp \<Rightarrow> bool" where
  "timestamp_less lhs rhs \<longleftrightarrow> microSecondSinceEpoch lhs < microSecondSinceEpoch rhs"

instantiation timestamp :: linorder
begin

definition less_timestamp :: "timestamp \<Rightarrow> timestamp \<Rightarrow> bool" where
  "less_timestamp lhs rhs \<longleftrightarrow> timestamp_less lhs rhs"

definition less_eq_timestamp :: "timestamp \<Rightarrow> timestamp \<Rightarrow> bool" where
  "less_eq_timestamp lhs rhs \<longleftrightarrow> microSecondSinceEpoch lhs \<le> microSecondSinceEpoch rhs"

instance
  by standard
    (auto simp: less_timestamp_def timestamp_less_def less_eq_timestamp_def intro: timestamp.expand)

end

lemmas timestamp_order = less_timestamp_def timestamp_less_def less_eq_timestamp_def

lemma Timestamp_less [simp]: "Timestamp a < Timestamp b \<longleftrightarrow> a < b" "Timestamp a \<le> Timestamp b \<longleftrightarrow> a \<le> b"
  by (simp_all add: timestamp_order)

definition ts_default :: timestamp where "ts_default = Timestamp 0"

definition ts_invalid :: timestamp where "ts_invalid = ts_default"

definition ts_swap :: "timestamp \<Rightarrow> timestamp \<Rightarrow> timestamp \<times> timestamp" where
  "ts_swap this that = (that, this)"

definition valid :: "timestamp \<Rightarrow> bool" where
  "valid t \<longleftrightarrow> 0 < microSecondSinceEpoch t"

definition kMicroSecondsPerSecond :: int where "kMicroSecondsPerSecond = 1000 * 1000"

definition secondSinceEpoch :: "timestamp \<Rightarrow> int" where
  "secondSinceEpoch t = cdiv (microSecondSinceEpoch t) kMicroSecondsPerSecond"

text \<open>\<open>now\<close>, given the \<open>timeval\<close> that \<open>gettimeofday\<close> filled in.\<close>

definition ts_now :: "int \<times> int \<Rightarrow> timestamp" where
  "ts_now tv = (case tv of (tv_sec, tv_usec) \<Rightarrow>
     Timestamp (tv_sec * kMicroSecondsPerSecond + tv_usec))"

definition ts_toString :: "timestamp \<Rightarrow> string" where
  "ts_toString t =
     snprintf 32 (dec_int (cdiv (microSecondSinceEpoch t) kMicroSecondsPerSecond) @ ''.'' @
       dec_int_pad 6 (cmod (microSecondSinceEpoch t) kMicroSecondsPerSecond))"

text \<open>The fields of \<open>struct tm\<close> that the program prints; \<open>localtime\<close> is an argument.\<close>

record tm =
  tm_year :: int
  tm_mon :: int
  tm_mday :: int
  tm_hour :: int
  tm_min :: int
  tm_sec :: int

text \<open>\<open>%4d\<close>: blanks in front up to width 4.\<close>

definition dec_int_blank :: "nat \<Rightarrow> int \<Rightarrow> string" where
  "dec_int_blank w i = replicate (w - length (dec_int i)) SP @ dec_int i"

definition ts_toFormattedString :: "(int \<Rightarrow> tm) \<Rightarrow> bool \<Rightarrow> timestamp \<Rightarrow> string" where
  "ts_toFormattedString localtime showMicroseconds t =
     (let seconds = cdiv (microSecondSinceEpoch t) kMicroSecondsPerSecond;
          tm_time = localtime seconds;
          date = dec_int_blank 4 (tm_year tm_time + 1900) @ dec_int_pad 2 (tm_mon tm_time + 1) @
            dec_int_pad 2 (tm_mday tm_time) @ '' '' @ dec_int_pad 2 (tm_hour tm_time) @ '':'' @
            dec_int_pad 2 (tm_min tm_time) @ '':'' @ dec_int_pad 2 (tm_sec tm_time)
      in if showMicroseconds
         then snprintf 64 (date @ ''.'' @
                dec_int_pad 6 (cmod (microSecondSinceEpoch t) kMicroSecondsPerSecond))
         else snprintf 64 date)"

section \<open>Adding seconds given as a double\<close>

type_synonym double = rat

text \<open>\<open>static_cast<int64_t>\<close> of a double.\<close>

definition trunc :: "double \<Rightarrow> int" where
  "trunc x = (if 0 \<le> x then \<lfloor>x\<rfloor> else \<lceil>x\<rceil>)"

definition addTime :: "(double \<Rightarrow> double) \<Rightarrow> timestamp \<Rightarrow> double \<Rightarrow> timestamp" where
  "addTime fl t seconds =
     (let delta = trunc (fl (seconds * of_int kMicroSecondsPerSecond))
      in Timestamp (microSecondSinceEpoch t + delta))"

definition fl_ok :: "(double \<Rightarrow> double) \<Rightarrow> bool" where
  "fl_ok fl \<longleftrightarrow> mono fl \<and> (\<forall>k::int. \<bar>k\<bar> \<le> 2 ^ 53 \<longrightarrow> fl (of_int k) = of_int k)"

lemma fl_ok_id: "fl_ok (\<lambda>x. x)"
  by (simp add: fl_ok_def mono_def)

lemma fl_ok_int: "fl_ok fl \<Longrightarrow> \<bar>k\<bar> \<le> 2 ^ 53 \<Longrightarrow> fl (of_int k) = of_int k"
  by (simp add: fl_ok_def)

lemma fl_ok_nonneg: "fl_ok fl \<Longrightarrow> 0 \<le> x \<Longrightarrow> 0 \<le> fl x"
  using fl_ok_int [of fl 0] by (auto simp: fl_ok_def dest: monoD [of fl 0 x])

lemma trunc_of_int [simp]: "trunc (of_int k) = k"
  by (simp add: trunc_def)

lemma trunc_nonneg: "0 \<le> x \<Longrightarrow> 0 \<le> trunc x"
  by (simp add: trunc_def)

lemma addTime_mono_zero:
  "fl_ok fl \<Longrightarrow> 0 \<le> s \<Longrightarrow> microSecondSinceEpoch t \<le> microSecondSinceEpoch (addTime fl t s)"
  by (simp add: addTime_def fl_ok_nonneg trunc_nonneg kMicroSecondsPerSecond_def)

lemma addTime_exact:
  assumes "fl_ok fl" and "s * 1000000 = of_int k" and "\<bar>k\<bar> \<le> 2 ^ 53"
  shows "addTime fl t s = Timestamp (microSecondSinceEpoch t + k)"
proof -
  have "fl (s * of_int kMicroSecondsPerSecond) = of_int k"
    using assms by (simp add: kMicroSecondsPerSecond_def fl_ok_int)
  then show ?thesis by (simp add: addTime_def)
qed

section \<open>Printing\<close>

text \<open>What \<open>toString\<close> prints reads back as the timestamp: seconds, a point, six digits.\<close>

definition ts_parse :: "string \<Rightarrow> timestamp" where
  "ts_parse s = Timestamp (int (undec (takeWhile (\<lambda>c. c \<noteq> CHR ''.'') s)) * kMicroSecondsPerSecond
     + int (undec (drop 1 (dropWhile (\<lambda>c. c \<noteq> CHR ''.'') s))))"

lemma point_not_in_dec: "CHR ''.'' \<notin> set (dec n)"
  using dec_digits [of "CHR ''.''" n] by (auto simp: is_digit_def)

lemma ts_toString_eq:
  assumes "0 \<le> us" and "us < 2 ^ 63"
  shows "ts_toString (Timestamp us) =
    dec (nat (us div 1000000)) @ ''.'' @ pad0 6 (dec (nat (us mod 1000000)))"
proof -
  have "nat (us div 1000000) < 10 ^ 13" using assms by auto
  from length_dec_le [OF this] have l1: "length (dec (nat (us div 1000000))) \<le> 13" by simp
  have "nat (us mod 1000000) < 10 ^ 6" by auto
  from length_dec_le [OF this] have "length (pad0 6 (dec (nat (us mod 1000000)))) = 6"
    by (simp add: length_pad0)
  moreover have "(us div 1000000 < 0) = False" "(us mod 1000000 < 0) = False"
    using assms(1) by (simp_all add: not_less pos_imp_zdiv_nonneg_iff)
  ultimately show ?thesis using l1 assms
    by (simp add: ts_toString_def kMicroSecondsPerSecond_def dec_int_def dec_int_pad_def)
qed

text \<open>
  For every non-negative 63-bit timestamp, the text of \<open>Timestamp::toString\<close> fits its
  32-byte buffer and reads back as the same timestamp; so distinct timestamps print
  differently.
\<close>

theorem ts_toString_roundtrip:
  assumes "0 \<le> us" and "us < 2 ^ 63"
  shows "ts_parse (ts_toString (Timestamp us)) = Timestamp us"
proof -
  let ?s = "dec (nat (us div 1000000))" and ?u = "pad0 6 (dec (nat (us mod 1000000)))"
  have eq: "ts_toString (Timestamp us) = ?s @ CHR ''.'' # ?u"
    using ts_toString_eq [OF assms] by simp
  have "ts_parse (?s @ CHR ''.'' # ?u) = Timestamp (us div 1000000 * 1000000 + us mod 1000000)"
    using assms(1) pos_imp_zdiv_nonneg_iff [of 1000000 us]
    by (simp add: ts_parse_def takeWhile_neq_append dropWhile_neq_append point_not_in_dec
        kMicroSecondsPerSecond_def)
  then show ?thesis by (simp only: eq div_mult_mod_eq)
qed

theorem ts_toString_roundtrip_witness:
  "ts_parse (ts_toString (Timestamp 1700000000000042)) = Timestamp 1700000000000042"
  by (rule ts_toString_roundtrip) simp_all

end
