(* ===== verification/Http_Request.thy ===== *)
theory Http_Request
  imports Time_Stamp
begin

text \<open>
  \<open>include/HttpRequest.h\<close>: the parsed request and its setters. A pair of pointers into the
  buffer is the list of bytes between them; the header table is a partial map.
\<close>

datatype http_method = kInvalid | kGet | kPost | kHead | kPut | kDelete
datatype http_version = kUnknown | kHttp10 | kHttp11

record http_request =
  rq_method :: http_method
  rq_version :: http_version
  rq_path :: string
  rq_query :: string
  rq_receiveTime :: timestamp
  rq_headers :: "string \<rightharpoonup> string"

definition new_request :: http_request where
  "new_request = \<lparr>rq_method = kInvalid, rq_version = kUnknown, rq_path = [], rq_query = [],
     rq_receiveTime = ts_default, rq_headers = Map.empty\<rparr>"

definition setVersion :: "http_version \<Rightarrow> http_request \<Rightarrow> http_request" where
  "setVersion v rq = rq\<lparr>rq_version := v\<rparr>"

definition setMethod :: "string \<Rightarrow> http_request \<Rightarrow> bool \<times> http_request" where
  "setMethod m rq =
     (let method =
        (if m = ''GET'' then kGet
         else if m = ''POST'' then kPost
         else if m = ''HEAD'' then kHead
         else if m = ''PUT'' then kPut
         else if m = ''DELETE'' then kDelete
         else kInvalid)
      in (method \<noteq> kInvalid, rq\<lparr>rq_method := method\<rparr>))"

fun methodString :: "http_method \<Rightarrow> string" where
  "methodString kGet = ''GET''"
| "methodString kPost = ''POST''"
| "methodString kHead = ''HEAD''"
| "methodString kPut = ''PUT''"
| "methodString kDelete = ''DELETE''"
| "methodString kInvalid = ''UNKNOWN''"

definition setPath :: "string \<Rightarrow> http_request \<Rightarrow> http_request" where
  "setPath p rq = rq\<lparr>rq_path := p\<rparr>"

definition setQuery :: "string \<Rightarrow> http_request \<Rightarrow> http_request" where
  "setQuery q rq = rq\<lparr>rq_query := q\<rparr>"

definition setreceiveTime :: "timestamp \<Rightarrow> http_request \<Rightarrow> http_request" where
  "setreceiveTime t rq = rq\<lparr>rq_receiveTime := t\<rparr>"

text \<open>The loop that shortens \<open>value\<close> while its last byte is a blank.\<close>

fun strip_trailing :: "string \<Rightarrow> string" where
  "strip_trailing v = (if v \<noteq> [] \<and> isspace (last v) then strip_trailing (butlast v) else v)"

declare strip_trailing.simps [simp del]

text \<open>\<open>addHeader start colon end\<close>: the field name, and the bytes from the colon on.\<close>

definition addHeader :: "string \<Rightarrow> string \<Rightarrow> http_request \<Rightarrow> http_request" where
  "addHeader field colon_to_end rq =
     (let value = strip_trailing (dropWhile isspace (tl colon_to_end))
      in rq\<lparr>rq_headers := (rq_headers rq)(field \<mapsto> value)\<rparr>)"

definition getHeader :: "string \<Rightarrow> http_request \<Rightarrow> string" where
  "getHeader field rq = (case rq_headers rq field of None \<Rightarrow> [] | Some v \<Rightarrow> v)"

definition request_swap :: "http_request \<Rightarrow> http_request \<Rightarrow> http_request \<times> http_request" where
  "request_swap rq rhs =
     (rq\<lparr>rq_method := rq_method rhs, rq_version := rq_version rhs, rq_path := rq_path rhs,
        rq_query := rq_query rhs, rq_receiveTime := rq_receiveTime rhs, rq_headers := rq_headers rhs\<rparr>,
      rhs\<lparr>rq_method := rq_method rq, rq_version := rq_version rq, rq_path := rq_path rq,
        rq_query := rq_query rq, rq_receiveTime := rq_receiveTime rq, rq_headers := rq_headers rq\<rparr>)"

section \<open>Lemmas\<close>

lemma setMethod_methodString:
  "m \<noteq> kInvalid \<Longrightarrow> setMethod (methodString m) rq = (True, rq\<lparr>rq_method := m\<rparr>)"
  by (cases m) (simp_all add: setMethod_def)

lemma setMethod_valid_iff:
  "fst (setMethod s rq) \<longleftrightarrow> s \<in> {''GET'', ''POST'', ''HEAD'', ''PUT'', ''DELETE''}"
  by (simp add: setMethod_def Let_def)

text \<open>A header value that neither starts nor ends with white space.\<close>

definition trimmed :: "string \<Rightarrow> bool" where
  "trimmed v \<longleftrightarrow> (v \<noteq> [] \<longrightarrow> \<not> isspace (hd v) \<and> \<not> isspace (last v))"

lemma strip_trailing_trimmed: "trimmed v \<Longrightarrow> strip_trailing v = v"
  by (auto simp: strip_trailing.simps [of v] trimmed_def)

lemma dropWhile_trimmed: "trimmed v \<Longrightarrow> dropWhile isspace v = v"
  by (cases v) (auto simp: trimmed_def)

lemma strip_trailing_not_blank: "strip_trailing v \<noteq> [] \<Longrightarrow> \<not> isspace (last (strip_trailing v))"
proof (induction v rule: strip_trailing.induct)
  case (1 v)
  then show ?case
    by (cases "v \<noteq> [] \<and> isspace (last v)") (auto simp: strip_trailing.simps [of v])
qed

lemma addHeader_value:
  "trimmed v \<Longrightarrow>
    addHeader f (CHR '':'' # SP # v) rq = rq\<lparr>rq_headers := (rq_headers rq)(f \<mapsto> v)\<rparr>"
  by (simp add: addHeader_def dropWhile_trimmed strip_trailing_trimmed)

end
