(* ===== verification/Byte_Buffer.thy ===== *)
theory Byte_Buffer
  imports C_Format
begin

text \<open>
  The growable byte buffer of \<open>include/Buffer.h\<close> and \<open>src/net/Buffer.cc\<close>: a vector of
  bytes with a read and a write index. A \<open>const char*\<close> into the buffer is its offset
  from the start of the vector. The last part gives the interface \<open>byte_queue\<close> that the
  connection and the HTTP code rely on, and shows that the buffer provides it.
\<close>

section \<open>State\<close>

record buffer =
  b_buffer :: "char list"
  b_readIndex :: nat
  b_writeIndex :: nat

definition kCheapPrepend :: nat where "kCheapPrepend = 8"
definition kInitialSize :: nat where "kInitialSize = 1024"

definition new_buffer :: "nat \<Rightarrow> buffer" where
  "new_buffer initialSize =
     \<lparr>b_buffer = replicate (kCheapPrepend + initialSize) NUL,
      b_readIndex = kCheapPrepend, b_writeIndex = kCheapPrepend\<rparr>"

definition readableBytes :: "buffer \<Rightarrow> nat" where
  "readableBytes b = sz_sub (b_writeIndex b) (b_readIndex b)"

definition writableBytes :: "buffer \<Rightarrow> nat" where
  "writableBytes b = sz_sub (length (b_buffer b)) (b_writeIndex b)"

definition prependableByes :: "buffer \<Rightarrow> nat" where
  "prependableByes b = b_readIndex b"

definition peek :: "buffer \<Rightarrow> nat" where
  "peek b = b_readIndex b"

definition beginWrite :: "buffer \<Rightarrow> nat" where
  "beginWrite b = b_writeIndex b"

section \<open>Operations\<close>

definition buf_swap :: "buffer \<Rightarrow> buffer \<Rightarrow> buffer \<times> buffer" where
  "buf_swap b rhs =
     (b\<lparr>b_buffer := b_buffer rhs, b_readIndex := b_readIndex rhs,
        b_writeIndex := b_writeIndex rhs\<rparr>,
      rhs\<lparr>b_buffer := b_buffer b, b_readIndex := b_readIndex b,
        b_writeIndex := b_writeIndex b\<rparr>)"

definition rertrieveAll :: "buffer \<Rightarrow> buffer" where
  "rertrieveAll b = b\<lparr>b_readIndex := kCheapPrepend, b_writeIndex := kCheapPrepend\<rparr>"

definition retrieve :: "nat \<Rightarrow> buffer \<Rightarrow> buffer" where
  "retrieve len b =
     (if len \<le> readableBytes b then b\<lparr>b_readIndex := b_readIndex b + len\<rparr>
      else rertrieveAll b)"

text \<open>\<open>retrieveAsString\<close> and \<open>retrieveUntil\<close> start with asserts.\<close>

definition retrieveAsString :: "nat \<Rightarrow> buffer \<Rightarrow> (string \<times> buffer) option" where
  "retrieveAsString len b =
     (if len \<le> readableBytes b
      then Some (slice (peek b) len (b_buffer b), retrieve len b) else None)"

definition retrieveAllAsString :: "buffer \<Rightarrow> (string \<times> buffer) option" where
  "retrieveAllAsString b = retrieveAsString (readableBytes b) b"

definition retrieveUntil :: "nat \<Rightarrow> buffer \<Rightarrow> buffer option" where
  "retrieveUntil fin b =
     (if peek b \<le> fin \<and> fin \<le> beginWrite b then Some (retrieve (fin - peek b) b) else None)"

text \<open>\<open>std::search\<close> for the two bytes of \<open>kCRLF\<close>: the offset of the first match.\<close>

fun search_crlf :: "string \<Rightarrow> nat option" where
  "search_crlf (x # y # cs) =
     (if x = CR \<and> y = LF then Some 0 else map_option Suc (search_crlf (y # cs)))"
| "search_crlf _ = None"

definition findCRLF_from :: "nat \<Rightarrow> buffer \<Rightarrow> nat option" where
  "findCRLF_from start b =
     map_option (\<lambda>k. start + k)
       (search_crlf (slice start (sz_sub (beginWrite b) start) (b_buffer b)))"

definition findCRLF :: "buffer \<Rightarrow> nat option" where
  "findCRLF b =
     map_option (\<lambda>k. peek b + k)
       (search_crlf (slice (peek b) (sz_sub (beginWrite b) (peek b)) (b_buffer b)))"

fun memchr :: "char \<Rightarrow> string \<Rightarrow> nat option" where
  "memchr c [] = None"
| "memchr c (x # xs) = (if x = c then Some 0 else map_option Suc (memchr c xs))"

definition findEOL :: "buffer \<Rightarrow> nat option" where
  "findEOL b =
     map_option (\<lambda>k. peek b + k) (memchr LF (slice (peek b) (readableBytes b) (b_buffer b)))"

definition hasWritten :: "nat \<Rightarrow> buffer \<Rightarrow> buffer" where
  "hasWritten len b = b\<lparr>b_writeIndex := b_writeIndex b + len\<rparr>"

definition unwrite :: "nat \<Rightarrow> buffer \<Rightarrow> buffer" where
  "unwrite len b = b\<lparr>b_writeIndex := sz_sub (b_writeIndex b) len\<rparr>"

text \<open>\<open>std::vector::resize\<close>: shrink, or extend with zero bytes.\<close>

definition vec_resize :: "nat \<Rightarrow> char list \<Rightarrow> char list" where
  "vec_resize n v = take n v @ replicate (n - length v) NUL"

definition makeSpace :: "nat \<Rightarrow> buffer \<Rightarrow> buffer" where
  "makeSpace len b =
     (if writableBytes b + prependableByes b < len + kCheapPrepend
      then b\<lparr>b_buffer := vec_resize (b_writeIndex b + len) (b_buffer b)\<rparr>
      else
        (let readable = readableBytes b in
         b\<lparr>b_buffer := overwrite kCheapPrepend (slice (b_readIndex b) readable (b_buffer b)) (b_buffer b),
           b_readIndex := kCheapPrepend,
           b_writeIndex := kCheapPrepend + readable\<rparr>))"

definition ensureWritableBytes :: "nat \<Rightarrow> buffer \<Rightarrow> buffer option" where
  "ensureWritableBytes len b =
     (let b' = (if writableBytes b < len then makeSpace len b else b)
      in if len \<le> writableBytes b' then Some b' else None)"

definition buf_append :: "string \<Rightarrow> buffer \<Rightarrow> buffer option" where
  "buf_append data b = do {
     b' \<leftarrow> ensureWritableBytes (length data) b;
     Some (hasWritten (length data)
       (b'\<lparr>b_buffer := overwrite (beginWrite b') data (b_buffer b')\<rparr>))
   }"

text \<open>
  \<open>readFd\<close> scatters one \<open>readv\<close> over the writable bytes and, when they are fewer than
  65536, a stack buffer of that size. The call is the argument \<open>readv\<close>: given the total
  room it returns an errno or the bytes read.
\<close>

definition extrabuf_size :: nat where "extrabuf_size = 65536"

definition readFd_room :: "buffer \<Rightarrow> nat" where
  "readFd_room b =
     (if writableBytes b < extrabuf_size then writableBytes b + extrabuf_size
      else writableBytes b)"

definition readFd :: "(nat \<Rightarrow> int + string) \<Rightarrow> buffer \<Rightarrow> ((int + nat) \<times> buffer) option" where
  "readFd readv b =
     (let writable = writableBytes b
      in case readv (readFd_room b) of
           Inl err \<Rightarrow> Some (Inl err, b)
         | Inr bytes \<Rightarrow>
             (let n = length bytes;
                  b1 = b\<lparr>b_buffer := overwrite (b_writeIndex b) (take writable bytes) (b_buffer b)\<rparr>
              in if n \<le> writable
                 then Some (Inr n, b1\<lparr>b_writeIndex := b_writeIndex b1 + n\<rparr>)
                 else do {
                   b2 \<leftarrow> buf_append (drop writable bytes)
                          (b1\<lparr>b_writeIndex := length (b_buffer b1)\<rparr>);
                   Some (Inr n, b2)
                 }))"

definition writeFd :: "(string \<Rightarrow> int + nat) \<Rightarrow> buffer \<Rightarrow> int + nat" where
  "writeFd write b = write (slice (peek b) (readableBytes b) (b_buffer b))"

section \<open>Invariant and abstraction\<close>

text \<open>
  The picture at the top of the class: \<open>0 \<le> readerIndex \<le> writerIndex \<le> size\<close>, with the
  cheap-prepend area always in front. The content is the byte range between the indices.
\<close>

definition buf_inv :: "buffer \<Rightarrow> bool" where
  "buf_inv b \<longleftrightarrow> kCheapPrepend \<le> b_readIndex b \<and> b_readIndex b \<le> b_writeIndex b
     \<and> b_writeIndex b \<le> length (b_buffer b)"

definition content :: "buffer \<Rightarrow> string" where
  "content b = slice (b_readIndex b) (b_writeIndex b - b_readIndex b) (b_buffer b)"

lemmas buf_accessors [model_defs] =
  readableBytes_def writableBytes_def prependableByes_def peek_def beginWrite_def

lemma buf_invD:
  assumes "buf_inv b"
  shows "8 \<le> b_readIndex b" "b_readIndex b \<le> b_writeIndex b"
    "b_writeIndex b \<le> length (b_buffer b)"
  using assms by (simp_all add: buf_inv_def kCheapPrepend_def)

lemma buf_inv_new [simp, inv_intros]: "buf_inv (new_buffer n)"
  by (simp add: buf_inv_def new_buffer_def)

lemma content_new [simp]: "content (new_buffer n) = []"
  by (simp add: content_def new_buffer_def slice_def)

lemma length_content: "buf_inv b \<Longrightarrow> length (content b) = b_writeIndex b - b_readIndex b"
  by (simp add: content_def length_slice buf_invD)

lemma readableBytes_eq: "buf_inv b \<Longrightarrow> readableBytes b = length (content b)"
  by (simp add: readableBytes_def length_content buf_invD)

lemma peek_slice: "buf_inv b \<Longrightarrow> slice (peek b) (readableBytes b) (b_buffer b) = content b"
  by (simp add: content_def model_defs buf_invD)

lemma rertrieveAll_inv [inv_intros]: "buf_inv b \<Longrightarrow> buf_inv (rertrieveAll b)"
  by (auto simp: buf_inv_def rertrieveAll_def)

lemma content_rertrieveAll [simp]: "content (rertrieveAll b) = []"
  by (simp add: content_def rertrieveAll_def slice_def)

lemma retrieve_inv [inv_intros]: "buf_inv b \<Longrightarrow> buf_inv (retrieve len b)"
  by (cases "len \<le> readableBytes b")
    (auto simp: retrieve_def rertrieveAll_def readableBytes_def buf_inv_def)

lemma content_retrieve: "buf_inv b \<Longrightarrow> content (retrieve len b) = drop len (content b)"
proof (cases "len \<le> readableBytes b")
  case True
  assume inv: "buf_inv b"
  with True have "len \<le> b_writeIndex b - b_readIndex b"
    by (simp add: readableBytes_def buf_invD)
  with True show ?thesis
    by (simp add: retrieve_def content_def slice_drop diff_diff_left [symmetric] del: diff_diff_left)
next
  case False
  assume "buf_inv b"
  with False show ?thesis
    by (simp add: retrieve_def readableBytes_eq)
qed

section \<open>Making room and appending\<close>

lemma makeSpace_spec:
  assumes inv: "buf_inv b" and few: "writableBytes b < len"
  shows "buf_inv (makeSpace len b) \<and> content (makeSpace len b) = content b
    \<and> len \<le> writableBytes (makeSpace len b)"
proof (cases "writableBytes b + prependableByes b < len + kCheapPrepend")
  case True
  have take_id: "take (b_writeIndex b + len) (b_buffer b) = b_buffer b"
    using inv few by (simp add: model_defs buf_invD)
  with True inv show ?thesis
    by (auto simp: makeSpace_def buf_inv_def content_def vec_resize_def model_defs
        slice_append_left)
next
  case False
  define n where "n = b_writeIndex b - b_readIndex b"
  note I = buf_invD [OF inv]
  have len_sl: "length (slice (b_readIndex b) n (b_buffer b)) = n"
    using I by (simp add: length_slice n_def)
  have fits: "8 + n \<le> length (b_buffer b)"
    using I by (simp add: n_def)
  have len_ow: "length (overwrite 8 (slice (b_readIndex b) n (b_buffer b)) (b_buffer b))
      = length (b_buffer b)"
    using fits len_sl by simp
  have room: "len \<le> length (b_buffer b) - (8 + n)"
    using False I by (simp add: model_defs kCheapPrepend_def n_def)
  have same: "slice 8 n (overwrite 8 (slice (b_readIndex b) n (b_buffer b)) (b_buffer b))
      = slice (b_readIndex b) n (b_buffer b)"
    using slice_overwrite_same [of 8 "b_buffer b" "slice (b_readIndex b) n (b_buffer b)"]
      len_sl fits by simp
  have mk: "makeSpace len b = b\<lparr>b_buffer := overwrite 8 (slice (b_readIndex b) n (b_buffer b)) (b_buffer b),
      b_readIndex := 8, b_writeIndex := 8 + n\<rparr>"
    using False I by (simp add: makeSpace_def Let_def readableBytes_def kCheapPrepend_def n_def)
  show ?thesis
    unfolding mk using fits room len_ow same
    by (simp add: buf_inv_def content_def writableBytes_def kCheapPrepend_def n_def)
qed

lemma ensureWritableBytes_spec:
  assumes "buf_inv b"
  shows "\<exists>b'. ensureWritableBytes len b = Some b' \<and> buf_inv b' \<and> content b' = content b
    \<and> len \<le> writableBytes b'"
  using makeSpace_spec [OF assms, of len] assms
  by (auto simp: ensureWritableBytes_def Let_def)

text \<open>Writing bytes at the write index and advancing it appends them to the content.\<close>

lemma write_at_end:
  assumes inv: "buf_inv b" and fits: "b_writeIndex b + length d \<le> length (b_buffer b)"
  defines "b' \<equiv> b\<lparr>b_buffer := overwrite (b_writeIndex b) d (b_buffer b),
                  b_writeIndex := b_writeIndex b + length d\<rparr>"
  shows "buf_inv b'" "content b' = content b @ d"
proof -
  note I = buf_invD [OF inv]
  have split: "b_writeIndex b + length d - b_readIndex b
      = (b_writeIndex b - b_readIndex b) + length d"
    using I by simp
  have "slice (b_readIndex b) (b_writeIndex b - b_readIndex b)
          (overwrite (b_writeIndex b) d (b_buffer b)) = content b"
    using I by (simp add: content_def slice_overwrite_before)
  moreover have "slice (b_writeIndex b) (length d)
      (overwrite (b_writeIndex b) d (b_buffer b)) = d"
    using I by (simp add: slice_overwrite_same)
  ultimately have "slice (b_readIndex b) (b_writeIndex b + length d - b_readIndex b)
      (overwrite (b_writeIndex b) d (b_buffer b)) = content b @ d"
    unfolding split slice_split using I by simp
  then show "content b' = content b @ d"
    by (simp add: b'_def content_def)
  show "buf_inv b'"
    using I fits by (simp add: b'_def buf_inv_def kCheapPrepend_def)
qed

lemma buf_append_spec:
  assumes "buf_inv b"
  shows "\<exists>b'. buf_append d b = Some b' \<and> buf_inv b' \<and> content b' = content b @ d"
proof -
  obtain b1 where b1: "ensureWritableBytes (length d) b = Some b1" "buf_inv b1"
      "content b1 = content b" "length d \<le> writableBytes b1"
    using ensureWritableBytes_spec [OF assms] by blast
  then have fits: "b_writeIndex b1 + length d \<le> length (b_buffer b1)"
    by (simp add: writableBytes_def buf_invD le_diff_conv2)
  from write_at_end [OF b1(2) fits] b1 show ?thesis
    by (auto simp: buf_append_def hasWritten_def beginWrite_def)
qed


section \<open>The interface of a byte queue\<close>

text \<open>
  What \<open>TcpConnection\<close>, \<open>HttpContext\<close> and \<open>HttpResponse\<close> use of a buffer: bytes go in at the
  end, come out at the front, and nothing else changes the content.
\<close>

locale byte_queue =
  fixes inv :: "'b \<Rightarrow> bool"
    and bytes :: "'b \<Rightarrow> string"
    and len :: "'b \<Rightarrow> nat"
    and put :: "string \<Rightarrow> 'b \<Rightarrow> 'b option"
    and discard :: "nat \<Rightarrow> 'b \<Rightarrow> 'b"
  assumes put_ok: "inv b \<Longrightarrow> \<exists>b'. put d b = Some b' \<and> inv b' \<and> bytes b' = bytes b @ d"
    and len_ok: "inv b \<Longrightarrow> len b = length (bytes b)"
    and discard_inv: "inv b \<Longrightarrow> inv (discard n b)"
    and discard_bytes: "inv b \<Longrightarrow> bytes (discard n b) = drop n (bytes b)"
begin

lemma put_Some: "inv b \<Longrightarrow> put d b = Some b' \<Longrightarrow> inv b' \<and> bytes b' = bytes b @ d"
  using put_ok [of b d] by auto

lemma put_total: "inv b \<Longrightarrow> put d b \<noteq> None"
  using put_ok [of b d] by auto

lemma put_all:
  "inv b \<Longrightarrow> \<exists>b'. bind_fold put ds b = Some b' \<and> inv b' \<and> bytes b' = bytes b @ concat ds"
proof (induction ds arbitrary: b)
  case Nil
  then show ?case by simp
next
  case (Cons d ds)
  obtain b1 where b1: "put d b = Some b1" "inv b1" "bytes b1 = bytes b @ d"
    using put_ok [OF Cons.prems] by blast
  with Cons.IH [OF b1(2)] show ?case by auto
qed

lemma len_zero_iff: "inv b \<Longrightarrow> len b = 0 \<longleftrightarrow> bytes b = []"
  by (simp add: len_ok)

lemma put_discard:
  "inv b \<Longrightarrow> put d b = Some b' \<Longrightarrow> n \<le> len b \<Longrightarrow> bytes (discard n b') = drop n (bytes b) @ d"
  using put_Some by (simp add: discard_bytes len_ok)

end

interpretation buffer_queue: byte_queue buf_inv content readableBytes buf_append retrieve
  by unfold_locales
    (auto simp: buf_append_spec readableBytes_eq retrieve_inv content_retrieve)

lemmas buffer_simps = readableBytes_eq content_retrieve peek_slice length_content

section \<open>Searching for line ends\<close>

lemma search_crlf_None_no_CR: "CR \<notin> set s \<Longrightarrow> search_crlf s = None"
  by (induction s rule: search_crlf.induct) auto

lemma search_crlf_append:
  "CR \<notin> set pre \<Longrightarrow> search_crlf (pre @ CRLF @ post) = Some (length pre)"
proof (induction pre)
  case Nil
  then show ?case by (simp add: CRLF_def)
next
  case (Cons x pre)
  then show ?case by (cases pre) (auto simp: CRLF_def)
qed

lemma search_crlf_Some:
  "search_crlf s = Some k \<Longrightarrow> k + 2 \<le> length s \<and> s = take k s @ CRLF @ drop (k + 2) s"
  by (induction s arbitrary: k rule: search_crlf.induct)
    (auto simp: CRLF_def split: if_splits)

lemma search_crlf_found: "\<exists>k \<le> length pre. search_crlf (pre @ CRLF @ post) = Some k"
proof (induction pre)
  case Nil
  then show ?case by (simp add: CRLF_def)
next
  case (Cons x pre)
  then obtain k where k: "k \<le> length pre" "search_crlf (pre @ CRLF @ post) = Some k"
    by blast
  obtain y cs where eq: "pre @ CRLF @ post = y # cs"
    by (cases "pre @ CRLF @ post") (auto simp: CRLF_def)
  show ?case
    using k by (auto simp: eq simp del: append_assoc)
qed

lemma search_crlf_first:
  "search_crlf (pre @ CRLF @ post) = Some k \<Longrightarrow> k \<le> length pre"
  using search_crlf_found [of pre post] by auto

lemma search_crlf_None_iff: "search_crlf s = None \<longleftrightarrow> (\<nexists>pre post. s = pre @ CRLF @ post)"
  using search_crlf_Some [of s] search_crlf_found by (cases "search_crlf s") fastforce+

lemma findCRLF_eq:
  "buf_inv b \<Longrightarrow> findCRLF b = map_option (\<lambda>k. b_readIndex b + k) (search_crlf (content b))"
  by (simp add: findCRLF_def content_def model_defs buf_invD)

lemma retrieveUntil_line:
  assumes "buf_inv b" and "findCRLF b = Some p"
  shows "\<exists>b'. retrieveUntil (p + 2) b = Some b' \<and> buf_inv b'
    \<and> content b' = drop (p + 2 - b_readIndex b) (content b)"
proof -
  from assms obtain k where k: "search_crlf (content b) = Some k" "p = b_readIndex b + k"
    by (auto simp: findCRLF_eq)
  with search_crlf_Some [OF k(1)] assms(1)
  have "k + 2 \<le> b_writeIndex b - b_readIndex b"
    by (simp add: length_content)
  then have "p + 2 \<le> b_writeIndex b" using k by simp
  with k assms(1) show ?thesis
    by (simp add: retrieveUntil_def model_defs content_retrieve retrieve_inv)
qed

section \<open>Reading from a descriptor\<close>

text \<open>
  What \<open>readv\<close> documents: it returns at most as many bytes as the vectors hold. Under
  that contract \<open>readFd\<close> appends exactly the bytes read, whether they fit into the
  writable area, spill into the stack buffer, or hit the one-vector case.
\<close>

definition readv_ok :: "(nat \<Rightarrow> int + string) \<Rightarrow> bool" where
  "readv_ok readv \<longleftrightarrow> (\<forall>n. case readv n of Inl _ \<Rightarrow> True | Inr bs \<Rightarrow> length bs \<le> n)"

lemma readv_okD: "readv_ok readv \<Longrightarrow> readv n = Inr bs \<Longrightarrow> length bs \<le> n"
  by (auto simp: readv_ok_def split: sum.splits dest: spec [of _ n])

lemma readFd_bytes:
  assumes inv: "buf_inv b" and ok: "readv_ok readv" and rd: "readv (readFd_room b) = Inr bs"
  shows "\<exists>b'. readFd readv b = Some (Inr (length bs), b') \<and> buf_inv b' \<and> content b' = content b @ bs"
proof (cases "length bs \<le> writableBytes b")
  case True
  then have "b_writeIndex b + length bs \<le> length (b_buffer b)"
    using inv by (simp add: writableBytes_def buf_invD le_diff_conv2 add.commute)
  from write_at_end [OF inv this] True rd show ?thesis
    by (simp add: readFd_def Let_def)
next
  case False
  define w where "w = writableBytes b"
  define b1 where "b1 = b\<lparr>b_buffer := overwrite (b_writeIndex b) (take w bs) (b_buffer b),
    b_writeIndex := length (b_buffer b)\<rparr>"
  have sum: "b_writeIndex b + w = length (b_buffer b)"
    using buf_invD [OF inv] by (simp add: w_def writableBytes_def)
  have len: "length (take w bs) = w" using False by (simp add: w_def)
  then have "b_writeIndex b + length (take w bs) \<le> length (b_buffer b)"
    using sum by simp
  from write_at_end [OF inv this] have b1: "buf_inv b1" "content b1 = content b @ take w bs"
    unfolding b1_def len sum by simp_all
  obtain b2 where b2: "buf_append (drop w bs) b1 = Some b2" "buf_inv b2"
      "content b2 = content b1 @ drop w bs"
    using buf_append_spec [OF b1(1)] by blast
  have "readFd readv b = Some (Inr (length bs), b2)"
    using False rd b2(1) len sum by (simp add: readFd_def b1_def w_def [symmetric])
  with b1 b2 show ?thesis by simp
qed

lemma readFd_error: "readv (readFd_room b) = Inl err \<Longrightarrow> readFd readv b = Some (Inl err, b)"
  by (simp add: readFd_def)

section \<open>Runs of operations\<close>

text \<open>
  A client's use of a buffer. The state carries, beside the buffer, every byte put in so
  far and every byte taken out so far.
\<close>

datatype buf_op = Append string | ReadFd "nat \<Rightarrow> int + string" | RetrieveAsString nat

fun buf_step :: "buf_op \<Rightarrow> buffer \<times> string \<times> string \<Rightarrow> (buffer \<times> string \<times> string) option" where
  "buf_step (Append d) (b, fed, taken) = do { b' \<leftarrow> buf_append d b; Some (b', fed @ d, taken) }"
| "buf_step (ReadFd readv) (b, fed, taken) =
     do { (_, b') \<leftarrow> readFd readv b;
          Some (b', (case readv (readFd_room b) of Inl _ \<Rightarrow> fed | Inr bs \<Rightarrow> fed @ bs), taken) }"
| "buf_step (RetrieveAsString n) (b, fed, taken) =
     do { (d, b') \<leftarrow> retrieveAsString n b; Some (b', fed, taken @ d) }"

definition op_ok :: "buf_op \<Rightarrow> bool" where
  "op_ok p \<longleftrightarrow> (case p of ReadFd readv \<Rightarrow> readv_ok readv | _ \<Rightarrow> True)"

definition fifo :: "buffer \<times> string \<times> string \<Rightarrow> bool" where
  "fifo s = (case s of (b, fed, taken) \<Rightarrow> buf_inv b \<and> taken @ content b = fed)"

lemma retrieveAsString_spec:
  assumes "buf_inv b"
  shows "retrieveAsString n b =
    (if n \<le> length (content b) then Some (take n (content b), retrieve n b) else None)"
  using assms
  by (auto simp: retrieveAsString_def readableBytes_eq length_content content_def slice_def
      peek_def min_def buf_invD)

lemma buf_step_fifo:
  assumes ok: "op_ok p" and inv: "fifo s"
  shows "(\<forall>s'. buf_step p s = Some s' \<longrightarrow> fifo s')
    \<and> (buf_step p s = None \<longleftrightarrow> (\<exists>n. p = RetrieveAsString n \<and> length (content (fst s)) < n))"
proof -
  obtain b fed taken where s: "s = (b, fed, taken)" by (cases s)
  with inv have b: "buf_inv b" "fed = taken @ content b" by (auto simp: fifo_def)
  show ?thesis
  proof (cases p)
    case (Append d)
    with buf_append_spec [OF b(1), of d] b s show ?thesis by (auto simp: fifo_def)
  next
    case (ReadFd readv)
    show ?thesis
    proof (cases "readv (readFd_room b)")
      case (Inl e)
      with ReadFd b s show ?thesis by (simp add: readFd_error fifo_def)
    next
      case (Inr bs)
      from readFd_bytes [of b readv bs] ok ReadFd Inr b s show ?thesis
        by (auto simp: op_ok_def fifo_def)
    qed
  next
    case (RetrieveAsString n)
    with b s show ?thesis
      by (auto simp: retrieveAsString_spec content_retrieve retrieve_inv fifo_def)
  qed
qed

lemma buf_run_fifo:
  assumes ok: "\<forall>p \<in> set ops. op_ok p" and inv: "fifo s" and run: "bind_fold buf_step ops s = Some s'"
  shows "fifo s'"
proof (rule bind_fold_invariant [where P = fifo, OF _ inv run])
  fix p s s' assume "p \<in> set ops" "fifo s" "buf_step p s = Some s'"
  with ok buf_step_fifo show "fifo s'" by blast
qed

lemma buf_run_total:
  assumes "\<forall>p \<in> set ops. op_ok p \<and> \<not> (\<exists>n. p = RetrieveAsString n)" and "fifo s"
  shows "bind_fold buf_step ops s \<noteq> None"
  using assms
proof (induction ops arbitrary: s)
  case (Cons p ops)
  then have "buf_step p s \<noteq> None" using buf_step_fifo [of p s] by auto
  then obtain s1 where s1: "buf_step p s = Some s1" by auto
  with Cons.prems buf_step_fifo [of p s] have "fifo s1" by auto
  with Cons.IH Cons.prems s1 show ?case by simp
qed simp

text \<open>
  A valid buffer accepts any byte string: the assert in \<open>ensureWritableBytes\<close> never
  fires, the indices stay in order within the vector, and the readable content grows by
  exactly those bytes at the end, whether \<open>makeSpace\<close> grows the vector, moves the content
  to the front, or is not needed. Discarding \<open>n\<close> bytes afterwards drops them from the front.
\<close>

theorem buffer_append_content:
  assumes "buf_inv b"
  shows "\<exists>b'. buf_append d b = Some b' \<and> buf_inv b' \<and> content b' = content b @ d
    \<and> content (retrieve n b') = drop n (content b @ d)"
  using buffer_queue.put_ok [OF assms, of d] by (auto simp: buffer_queue.discard_bytes)

theorem buffer_append_content_witness:
  "buf_inv (new_buffer 2) \<and>
   (\<exists>b'. buf_append ''abc'' (new_buffer 2) = Some b' \<and> buf_inv b' \<and> content b' = ''abc''
     \<and> content (retrieve 1 b') = ''bc'')"
  using buffer_append_content [of "new_buffer 2" "''abc''" 1] by simp

text \<open>
  C16: Every run of appends, \<open>readFd\<close> calls and \<open>retrieveAsString\<close> calls that starts from a
  new buffer is first in, first out: the bytes taken out followed by the bytes still
  readable are the bytes put in, in order, none lost and none invented, whatever moves and
  growths of the vector happen in between; and only \<open>retrieveAsString\<close> can abort.
\<close>

theorem buffer_runs_fifo:
  assumes "\<forall>p \<in> set ops. op_ok p"
  shows "(\<forall>b fed taken. bind_fold buf_step ops (new_buffer n, [], []) = Some (b, fed, taken)
        \<longrightarrow> buf_inv b \<and> taken @ content b = fed)
    \<and> ((\<forall>p \<in> set ops. \<not> (\<exists>k. p = RetrieveAsString k))
        \<longrightarrow> bind_fold buf_step ops (new_buffer n, [], []) \<noteq> None)"
proof -
  have new: "fifo (new_buffer n, [], [])" by (simp add: fifo_def)
  show ?thesis
    using buf_run_fifo [OF assms new] buf_run_total [OF _ new, of ops] assms
    by (fastforce simp: fifo_def)
qed

theorem buffer_runs_fifo_witness:
  "\<exists>b. bind_fold buf_step
      [Append ''ab'', ReadFd (\<lambda>n. Inr (take n ''cd'')), Append ''e''] (new_buffer 1, [], []) =
        Some (b, ''abcde'', []) \<and> content b = ''abcde''"
proof -
  let ?ops = "[Append ''ab'', ReadFd (\<lambda>n. Inr (take n ''cd'')), Append ''e'']"
  have ok: "\<forall>p \<in> set ?ops. op_ok p" by (simp add: op_ok_def readv_ok_def)
  obtain b fed taken where run: "bind_fold buf_step ?ops (new_buffer 1, [], []) = Some (b, fed, taken)"
    using buffer_runs_fifo [OF ok, of 1] by fastforce
  then have "fed = ''abcde''" "taken = []"
    by (auto split: Option.bind_splits prod.splits simp: readFd_room_def extrabuf_size_def min_def)
  with run buffer_runs_fifo [OF ok, of 1] show ?thesis by fastforce
qed

text \<open>
  \<open>findCRLF\<close> finds the first line end of the readable bytes: when the content is a line
  without a carriage return followed by CR LF, it points at that line end, and
  \<open>retrieveUntil\<close> up to just behind it passes its asserts and leaves exactly the rest; it
  returns null exactly when the content holds no CR LF at all.
\<close>

theorem findCRLF_splits_line:
  assumes "buf_inv b" and "content b = line @ CRLF @ rest" and "CR \<notin> set line"
  shows "findCRLF b = Some (peek b + length line)
    \<and> (\<exists>b'. retrieveUntil (peek b + length line + 2) b = Some b' \<and> buf_inv b' \<and> content b' = rest)
    \<and> (\<forall>b0. buf_inv b0 \<longrightarrow> (findCRLF b0 = None \<longleftrightarrow> (\<nexists>pre post. content b0 = pre @ CRLF @ post)))"
proof -
  have found: "findCRLF b = Some (peek b + length line)"
    using assms by (simp add: findCRLF_eq search_crlf_append peek_def)
  from retrieveUntil_line [OF assms(1) found] assms(2)
  have "\<exists>b'. retrieveUntil (peek b + length line + 2) b = Some b' \<and> buf_inv b' \<and> content b' = rest"
    by (simp add: peek_def CRLF_def)
  with found show ?thesis by (simp add: findCRLF_eq search_crlf_None_iff)
qed

theorem findCRLF_splits_line_witness:
  "\<exists>b b'. buf_append (''GET'' @ CRLF @ ''rest'') (new_buffer 4) = Some b
     \<and> findCRLF b = Some (peek b + 3) \<and> retrieveUntil (peek b + 3 + 2) b = Some b' \<and> content b' = ''rest''"
proof -
  obtain b where b: "buf_append (''GET'' @ CRLF @ ''rest'') (new_buffer 4) = Some b"
      "buf_inv b" "content b = ''GET'' @ CRLF @ ''rest''"
    using buf_append_spec [of "new_buffer 4"] by fastforce
  have "CR \<notin> set ''GET''" by (simp add: CR_def)
  from findCRLF_splits_line [OF b(2,3) this] b(1) show ?thesis
    unfolding list.size by (metis numeral_3_eq_3 One_nat_def add_Suc_right add_0_right)
qed

end
