(* ===== verification/Http_Context.thy ===== *)
theory Http_Context
  imports Http_Request Byte_Buffer
begin

text \<open>
  \<open>include/HttpContext.h\<close> and \<open>src/http/HttpContext.cc\<close>: the incremental parser of a
  request. One turn of the \<open>while (hasMore)\<close> loop is \<open>parse_step\<close>; the loop itself is a
  partial function, since from the states \<open>kExpectBody\<close> and \<open>kGotAll\<close> the code spins.
\<close>

datatype parse_state = kExpectRequestLine | kExpectHeaders | kExpectBody | kGotAll

record http_context =
  hc_state :: parse_state
  hc_request :: http_request

definition new_context :: http_context where
  "new_context = \<lparr>hc_state = kExpectRequestLine, hc_request = new_request\<rparr>"

definition gotAll :: "http_context \<Rightarrow> bool" where
  "gotAll c \<longleftrightarrow> hc_state c = kGotAll"

definition context_reset :: "http_context \<Rightarrow> http_context" where
  "context_reset c =
     c\<lparr>hc_state := kExpectRequestLine, hc_request := fst (request_swap (hc_request c) new_request)\<rparr>"

section \<open>The request line\<close>

text \<open>
  \<open>std::find (start, end, c)\<close> splits the range at the first \<open>c\<close>: \<open>upto_char\<close> is the part
  before it, \<open>from_char\<close> the part from it on, empty when \<open>find\<close> returns \<open>end\<close>.
\<close>

definition upto_char :: "char \<Rightarrow> string \<Rightarrow> string" where
  "upto_char c s = takeWhile (\<lambda>x. x \<noteq> c) s"

definition from_char :: "char \<Rightarrow> string \<Rightarrow> string" where
  "from_char c s = dropWhile (\<lambda>x. x \<noteq> c) s"

definition QMARK :: char where "QMARK = CHR ''?''"
definition COLON :: char where "COLON = CHR '':''"

definition processRequestLine :: "string \<Rightarrow> http_context \<Rightarrow> bool \<times> http_context" where
  "processRequestLine line c =
     (let space = from_char SP line in
      if space = [] then (False, c)
      else
        (let (known, rq) = setMethod (upto_char SP line) (hc_request c) in
         if \<not> known then (False, c\<lparr>hc_request := rq\<rparr>)
         else
           (let start = tl space; uri = upto_char SP start; space2 = from_char SP start in
            if space2 = [] then (False, c\<lparr>hc_request := rq\<rparr>)
            else
              (let question = from_char QMARK uri;
                   rq = (if question \<noteq> [] then setQuery question (setPath (upto_char QMARK uri) rq)
                         else setPath uri rq);
                   ver = tl space2
               in if length ver = 8 \<and> take 7 ver = ''HTTP/1.'' then
                    (if last ver = CHR ''1'' then (True, c\<lparr>hc_request := setVersion kHttp11 rq\<rparr>)
                     else if last ver = CHR ''0'' then (True, c\<lparr>hc_request := setVersion kHttp10 rq\<rparr>)
                     else (False, c\<lparr>hc_request := rq\<rparr>))
                  else (False, c\<lparr>hc_request := rq\<rparr>)))))"

section \<open>The loop\<close>

text \<open>
  A turn returns \<open>hasMore\<close>, \<open>ok\<close>, the context and the buffer; \<open>None\<close> is a failed assert of
  \<open>retrieveUntil\<close>. The line is the byte range from \<open>peek\<close> to the CR found.
\<close>

definition parse_step ::
  "timestamp \<Rightarrow> bool \<Rightarrow> http_context \<Rightarrow> buffer \<Rightarrow> (bool \<times> bool \<times> http_context \<times> buffer) option" where
  "parse_step receiveTime ok c b = (case hc_state c of
     kExpectRequestLine \<Rightarrow>
       (case findCRLF b of
          None \<Rightarrow> Some (False, ok, c, b)
        | Some crlf \<Rightarrow>
            (case processRequestLine (slice (peek b) (crlf - peek b) (b_buffer b)) c of (ok', c') \<Rightarrow>
               if ok' then do {
                 b' \<leftarrow> retrieveUntil (crlf + 2) b;
                 Some (True, ok',
                   c'\<lparr>hc_request := setreceiveTime receiveTime (hc_request c'),
                      hc_state := kExpectHeaders\<rparr>, b')
               }
               else Some (False, ok', c', b)))
   | kExpectHeaders \<Rightarrow>
       (case findCRLF b of
          None \<Rightarrow> Some (False, ok, c, b)
        | Some crlf \<Rightarrow>
            (let line = slice (peek b) (crlf - peek b) (b_buffer b);
                 colon = from_char COLON line;
                 (hasMore, c') =
                   (if colon \<noteq> []
                    then (True, c\<lparr>hc_request := addHeader (upto_char COLON line) colon (hc_request c)\<rparr>)
                    else (False, c\<lparr>hc_state := kGotAll\<rparr>))
             in do { b' \<leftarrow> retrieveUntil (crlf + 2) b; Some (hasMore, ok, c', b') }))
   | kExpectBody \<Rightarrow> Some (True, ok, c, b)
   | kGotAll \<Rightarrow> Some (True, ok, c, b))"

partial_function (option) parse_loop ::
  "timestamp \<Rightarrow> bool \<Rightarrow> http_context \<Rightarrow> buffer \<Rightarrow> (bool \<times> http_context \<times> buffer) option" where
  "parse_loop receiveTime ok c b = do {
     (hasMore, ok', c', b') \<leftarrow> parse_step receiveTime ok c b;
     if hasMore then parse_loop receiveTime ok' c' b' else Some (ok', c', b')
   }"

definition parseRequest ::
  "timestamp \<Rightarrow> http_context \<Rightarrow> buffer \<Rightarrow> (bool \<times> http_context \<times> buffer) option" where
  "parseRequest receiveTime c b = parse_loop receiveTime False c b"

section \<open>What one turn does to the content\<close>

text \<open>The first line of the readable bytes, without its line end, and what follows it.\<close>

definition first_line :: "string \<Rightarrow> (string \<times> string) option" where
  "first_line s = map_option (\<lambda>k. (take k s, drop (k + 2) s)) (search_crlf s)"

lemma first_line_append:
  "CR \<notin> set line \<Longrightarrow> first_line (line @ CRLF @ rest) = Some (line, rest)"
  by (simp add: first_line_def search_crlf_append) (simp add: CRLF_def)

lemma first_line_shorter: "first_line s = Some (l, rest) \<Longrightarrow> length rest < length s"
  by (auto simp: first_line_def dest!: search_crlf_Some)

lemma line_of_buffer:
  assumes inv: "buf_inv b" and line: "first_line (content b) = Some (l, rest)"
  obtains crlf b' where "findCRLF b = Some crlf" "slice (peek b) (crlf - peek b) (b_buffer b) = l"
    "retrieveUntil (crlf + 2) b = Some b'" "buf_inv b'" "content b' = rest"
proof -
  from line obtain k where k: "search_crlf (content b) = Some k" "l = take k (content b)"
      "rest = drop (k + 2) (content b)"
    by (auto simp: first_line_def)
  from k(1) inv have crlf: "findCRLF b = Some (b_readIndex b + k)" by (simp add: findCRLF_eq)
  have "k \<le> b_writeIndex b - b_readIndex b"
    using search_crlf_Some [OF k(1)] by (simp add: length_content [OF inv])
  then have "slice (peek b) (b_readIndex b + k - peek b) (b_buffer b) = l"
    using k(2) by (simp add: content_def slice_def peek_def min_def)
  moreover obtain b' where "retrieveUntil (b_readIndex b + k + 2) b = Some b'" "buf_inv b'"
      "content b' = rest"
    using retrieveUntil_line [OF inv crlf] k(3) by auto
  ultimately show ?thesis using that crlf by blast
qed

lemma no_line_of_buffer: "buf_inv b \<Longrightarrow> first_line (content b) = None \<Longrightarrow> findCRLF b = None"
  by (simp add: findCRLF_eq first_line_def)

text \<open>The parser on the content alone.\<close>

definition line_step ::
  "timestamp \<Rightarrow> bool \<Rightarrow> http_context \<Rightarrow> string \<Rightarrow> bool \<times> bool \<times> http_context \<times> string" where
  "line_step t ok c s = (case hc_state c of
     kExpectRequestLine \<Rightarrow>
       (case first_line s of
          None \<Rightarrow> (False, ok, c, s)
        | Some (l, rest) \<Rightarrow>
            (case processRequestLine l c of (ok', c') \<Rightarrow>
               if ok' then (True, ok', c'\<lparr>hc_request := setreceiveTime t (hc_request c'),
                                        hc_state := kExpectHeaders\<rparr>, rest)
               else (False, ok', c', s)))
   | kExpectHeaders \<Rightarrow>
       (case first_line s of
          None \<Rightarrow> (False, ok, c, s)
        | Some (l, rest) \<Rightarrow>
            if from_char COLON l \<noteq> []
            then (True, ok, c\<lparr>hc_request := addHeader (upto_char COLON l) (from_char COLON l) (hc_request c)\<rparr>, rest)
            else (False, ok, c\<lparr>hc_state := kGotAll\<rparr>, rest))
   | _ \<Rightarrow> (True, ok, c, s))"

lemma parse_step_eq_line_step:
  assumes inv: "buf_inv b"
  shows "\<exists>again ok' c' b'. parse_step t ok c b = Some (again, ok', c', b') \<and> buf_inv b'
    \<and> line_step t ok c (content b) = (again, ok', c', content b')"
proof (cases "first_line (content b)")
  case None
  with no_line_of_buffer [OF inv None] inv show ?thesis
    by (cases "hc_state c") (auto simp: parse_step_def line_step_def)
next
  case (Some p)
  then obtain l rest where line: "first_line (content b) = Some (l, rest)" by (cases p) auto
  obtain crlf b' where b': "findCRLF b = Some crlf" "slice (peek b) (crlf - peek b) (b_buffer b) = l"
      "retrieveUntil (crlf + 2) b = Some b'" "buf_inv b'" "content b' = rest"
    using line_of_buffer [OF inv line] by blast
  show ?thesis
  proof (cases "hc_state c")
    case kExpectRequestLine
    with b' line inv show ?thesis
      by (auto simp: parse_step_def line_step_def split: prod.splits)
  next
    case kExpectHeaders
    with b' line show ?thesis
      by (auto simp: parse_step_def line_step_def Let_def)
  qed (use inv in \<open>auto simp: parse_step_def line_step_def\<close>)
qed

section \<open>The loop on the content alone\<close>

text \<open>
  The reference parser: lines are taken off a string until the parser stops. It is total;
  the two states the code spins in return at once, and are excluded where it matters.
\<close>

definition parsing :: "http_context \<Rightarrow> bool" where
  "parsing c \<longleftrightarrow> hc_state c = kExpectRequestLine \<or> hc_state c = kExpectHeaders"

lemma parsing_new [simp]: "parsing new_context"
  by (simp add: parsing_def new_context_def)

lemma line_step_more:
  assumes "parsing c" and "line_step t ok c s = (True, ok', c', s')"
  shows "hc_state c' = kExpectHeaders \<and> length s' < length s"
  using assms
  by (auto simp: line_step_def parsing_def split: option.splits prod.splits if_splits
      dest!: first_line_shorter)

function line_loop :: "timestamp \<Rightarrow> bool \<Rightarrow> http_context \<Rightarrow> string \<Rightarrow> bool \<times> http_context \<times> string" where
  "line_loop t ok c s =
     (if parsing c
      then (case line_step t ok c s of (again, ok', c', s') \<Rightarrow>
              if again then line_loop t ok' c' s' else (ok', c', s'))
      else (ok, c, s))"
  by pat_completeness auto
termination
  by (relation "measure (\<lambda>(t, ok, c, s). length s)") (auto intro: line_step_more [OF _ sym, THEN conjunct2])

declare line_loop.simps [simp del]

lemma parse_loop_eq_line_loop:
  assumes "buf_inv b" and "parsing c"
  shows "\<exists>ok' c' b'. parse_loop t ok c b = Some (ok', c', b') \<and> buf_inv b'
    \<and> line_loop t ok c (content b) = (ok', c', content b')"
  using assms
proof (induction "length (content b)" arbitrary: ok c b rule: less_induct)
  case less
  obtain again ok1 c1 b1 where step: "parse_step t ok c b = Some (again, ok1, c1, b1)" "buf_inv b1"
      "line_step t ok c (content b) = (again, ok1, c1, content b1)"
    using parse_step_eq_line_step [OF less.prems(1)] by blast
  show ?case
  proof (cases again)
    case True
    with line_step_more [OF less.prems(2)] step(3)
    have "parsing c1" and "length (content b1) < length (content b)"
      by (auto simp: parsing_def)
    from less.hyps [OF this(2) step(2) this(1), of ok1] True step less.prems
    show ?thesis
      by (subst parse_loop.simps, subst line_loop.simps) auto
  next
    case False
    with step less.prems show ?thesis
      by (subst parse_loop.simps, subst line_loop.simps) auto
  qed
qed

text \<open>From any other state the loop never returns.\<close>

lemma parse_loop_spins: "\<not> parsing c \<Longrightarrow> parse_loop t ok c b = None"
proof (rule ccontr)
  assume spin: "\<not> parsing c" and "parse_loop t ok c b \<noteq> None"
  then obtain r where ret: "parse_loop t ok c b = Some r" by auto
  have "parsing c"
  proof (rule parse_loop.raw_induct [where P = "\<lambda>t ok c b r. parsing c", OF _ ret])
    fix f t ok c b r
    assume IH: "\<And>t ok c b r. f t ok c b = Some r \<Longrightarrow> parsing c"
      and eq: "Option.bind (parse_step t ok c b)
        (\<lambda>(hasMore, ok', c', b'). if hasMore then f t ok' c' b' else Some (ok', c', b')) = Some r"
    show "parsing c"
    proof (cases "hc_state c")
      case kExpectBody
      with eq have "f t ok c b = Some r" by (simp add: parse_step_def)
      then show ?thesis by (rule IH)
    next
      case kGotAll
      with eq have "f t ok c b = Some r" by (simp add: parse_step_def)
      then show ?thesis by (rule IH)
    qed (simp_all add: parsing_def)
  qed
  with spin show False by contradiction
qed

section \<open>Printing a request\<close>

text \<open>The wire form of a request, and when its parts can be read back.\<close>

definition version_text :: "http_version \<Rightarrow> string" where
  "version_text v = (if v = kHttp11 then ''HTTP/1.1'' else ''HTTP/1.0'')"

definition request_line :: "http_method \<Rightarrow> string \<Rightarrow> string \<Rightarrow> http_version \<Rightarrow> string" where
  "request_line m path query v =
     methodString m @ SP # path @ query @ SP # version_text v"

definition header_line :: "string \<times> string \<Rightarrow> string" where
  "header_line h = fst h @ COLON # SP # snd h"

definition request_text ::
  "http_method \<Rightarrow> string \<Rightarrow> string \<Rightarrow> http_version \<Rightarrow> (string \<times> string) list \<Rightarrow> string" where
  "request_text m path query v hs =
     request_line m path query v @ CRLF @ concat (map (\<lambda>h. header_line h @ CRLF) hs) @ CRLF"

definition path_ok :: "string \<Rightarrow> bool" where
  "path_ok p \<longleftrightarrow> SP \<notin> set p \<and> QMARK \<notin> set p \<and> CR \<notin> set p"

definition query_ok :: "string \<Rightarrow> bool" where
  "query_ok q \<longleftrightarrow> SP \<notin> set q \<and> CR \<notin> set q \<and> (q \<noteq> [] \<longrightarrow> hd q = QMARK)"

definition header_ok :: "string \<times> string \<Rightarrow> bool" where
  "header_ok h \<longleftrightarrow> COLON \<notin> set (fst h) \<and> CR \<notin> set (fst h) \<and> CR \<notin> set (snd h) \<and> trimmed (snd h)"

lemma upto_char_append [simp]: "c \<notin> set s \<Longrightarrow> upto_char c (s @ c # t) = s"
  by (simp add: upto_char_def takeWhile_neq_append)

lemma from_char_append [simp]: "c \<notin> set s \<Longrightarrow> from_char c (s @ c # t) = c # t"
  by (simp add: from_char_def dropWhile_neq_append)

lemma from_char_Nil [simp]: "from_char c s = [] \<longleftrightarrow> c \<notin> set s"
  by (auto simp: from_char_def)

lemma SP_not_method: "SP \<notin> set (methodString m)" and CR_not_method: "CR \<notin> set (methodString m)"
  by (cases m; simp add: SP_def CR_def)+

lemma CR_neq [simp]: "CR \<noteq> SP" "CR \<noteq> COLON" "SP \<noteq> CR" "COLON \<noteq> CR" "QMARK \<noteq> SP" "SP \<noteq> QMARK"
  by (simp_all add: CR_def SP_def COLON_def QMARK_def)

lemma CR_not_version: "CR \<notin> set (version_text v)"
  by (simp add: version_text_def CR_def)

lemma processRequestLine_text:
  assumes "m \<noteq> kInvalid" and "path_ok path" and "query_ok query" and "v \<noteq> kUnknown"
  shows "processRequestLine (request_line m path query v) c =
    (True, c\<lparr>hc_request := (hc_request c)\<lparr>rq_method := m, rq_path := path,
       rq_query := (if query = [] then rq_query (hc_request c) else query), rq_version := v\<rparr>\<rparr>)"
proof -
  have sp: "SP \<notin> set (path @ query)"
    using assms by (auto simp: path_ok_def query_ok_def)
  have ver: "length (version_text v) = 8" "take 7 (version_text v) = ''HTTP/1.''"
    "last (version_text v) = (if v = kHttp11 then CHR ''1'' else CHR ''0'')"
    by (simp_all add: version_text_def)
  have split: "upto_char SP (path @ query @ SP # version_text v) = path @ query"
    "from_char SP (path @ query @ SP # version_text v) = SP # version_text v"
    using upto_char_append [OF sp] from_char_append [OF sp] by simp_all
  show ?thesis
  proof (cases query)
    case Nil
    with assms split ver show ?thesis
      by (cases v) (simp_all add: processRequestLine_def request_line_def SP_not_method
          setMethod_methodString path_ok_def setPath_def setVersion_def Let_def)
  next
    case (Cons q query')
    then have q: "query = QMARK # query'"
      using assms(3) by (simp add: query_ok_def)
    with assms split ver show ?thesis
      by (cases v) (simp_all add: processRequestLine_def request_line_def SP_not_method
          setMethod_methodString path_ok_def setPath_def setQuery_def setVersion_def Let_def)
  qed
qed

lemma line_step_header:
  assumes "header_ok h" and "hc_state c = kExpectHeaders"
  shows "line_step t ok c (header_line h @ CRLF @ rest) =
    (True, ok, c\<lparr>hc_request := (hc_request c)\<lparr>rq_headers := (rq_headers (hc_request c))(fst h \<mapsto> snd h)\<rparr>\<rparr>, rest)"
proof -
  have "CR \<notin> set (header_line h)"
    using assms(1) by (auto simp: header_line_def header_ok_def)
  with assms show ?thesis
    by (simp add: line_step_def first_line_append)
      (simp add: header_line_def header_ok_def addHeader_value [folded COLON_def])
qed

lemma line_loop_headers:
  assumes "\<forall>h \<in> set hs. header_ok h" and "hc_state c = kExpectHeaders"
  shows "line_loop t ok c (concat (map (\<lambda>h. header_line h @ CRLF) hs) @ CRLF @ rest) =
    (ok, c\<lparr>hc_state := kGotAll, hc_request := (hc_request c)
       \<lparr>rq_headers := (rq_headers (hc_request c)) ++ map_of (rev hs)\<rparr>\<rparr>, rest)"
  using assms
proof (induction hs arbitrary: c)
  case Nil
  have "first_line (CRLF @ rest) = Some ([], rest)"
    using first_line_append [of "[]"] by simp
  with Nil show ?case
    by (simp add: line_loop.simps [of t ok c] parsing_def line_step_def)
next
  case (Cons h hs)
  then have "parsing c" by (simp add: parsing_def)
  with Cons line_step_header [of h c t ok] show ?case
    by (simp add: line_loop.simps [of t ok c])
qed

lemma line_loop_request:
  assumes "m \<noteq> kInvalid" "path_ok path" "query_ok query" "v \<noteq> kUnknown" "\<forall>h \<in> set hs. header_ok h"
  shows "line_loop t False new_context (request_text m path query v hs @ rest) =
    (True, \<lparr>hc_state = kGotAll, hc_request = \<lparr>rq_method = m, rq_version = v, rq_path = path,
       rq_query = query, rq_receiveTime = t, rq_headers = map_of (rev hs)\<rparr>\<rparr>, rest)"
proof -
  have "CR \<notin> set (request_line m path query v)"
    using assms by (auto simp: request_line_def CR_not_method CR_not_version path_ok_def query_ok_def)
  then have "first_line (request_text m path query v hs @ rest) =
      Some (request_line m path query v, concat (map (\<lambda>h. header_line h @ CRLF) hs) @ CRLF @ rest)"
    by (simp add: request_text_def first_line_append)
  then have "line_step t False new_context (request_text m path query v hs @ rest) =
      (True, True, \<lparr>hc_state = kExpectHeaders, hc_request = \<lparr>rq_method = m, rq_version = v, rq_path = path,
         rq_query = query, rq_receiveTime = t, rq_headers = Map.empty\<rparr>\<rparr>,
       concat (map (\<lambda>h. header_line h @ CRLF) hs) @ CRLF @ rest)"
    by (simp add: line_step_def processRequestLine_text [OF assms(1-4)] new_context_def
        new_request_def setreceiveTime_def)
  then show ?thesis
    by (subst line_loop.simps) (simp add: line_loop_headers [OF assms(5)])
qed

text \<open>
  C17: A request printed on the wire is parsed back completely: for any known method, path,
  optional query, version and header list whose texts contain none of the separators, a
  fresh \<open>HttpContext\<close> given a buffer that starts with the printed request accepts it,
  reaches \<open>kGotAll\<close>, holds exactly these parts (a repeated header keeps its last value),
  and leaves in the buffer exactly the bytes after the request.
\<close>

theorem parseRequest_roundtrip:
  assumes "buf_inv b" and "content b = request_text m path query v hs @ rest"
    and "m \<noteq> kInvalid" and "path_ok path" and "query_ok query" and "v \<noteq> kUnknown"
    and "\<forall>h \<in> set hs. header_ok h"
  shows "\<exists>c b'. parseRequest t new_context b = Some (True, c, b') \<and> gotAll c
    \<and> hc_request c = \<lparr>rq_method = m, rq_version = v, rq_path = path, rq_query = query,
        rq_receiveTime = t, rq_headers = map_of (rev hs)\<rparr>
    \<and> content b' = rest"
  using parse_loop_eq_line_loop [OF assms(1) parsing_new, of t False]
    line_loop_request [OF assms(3-7), of t rest]
  by (auto simp: parseRequest_def assms(2) gotAll_def)

theorem parseRequest_roundtrip_witness:
  "\<exists>b c b'. buf_append (request_text kPost ''/add'' ''?x=1'' kHttp11 [(''Host'', ''localhost'')] @ ''body'')
       (new_buffer 16) = Some b
     \<and> parseRequest (Timestamp 7) new_context b = Some (True, c, b') \<and> gotAll c
     \<and> rq_path (hc_request c) = ''/add'' \<and> content b' = ''body''"
proof -
  let ?s = "request_text kPost ''/add'' ''?x=1'' kHttp11 [(''Host'', ''localhost'')] @ ''body''"
  obtain b where b: "buf_append ?s (new_buffer 16) = Some b" "buf_inv b" "content b = ?s"
    using buf_append_spec [of "new_buffer 16" ?s] by auto
  have "path_ok ''/add''" "query_ok ''?x=1''" "header_ok (''Host'', ''localhost'')"
    by (simp_all add: path_ok_def query_ok_def header_ok_def trimmed_def isspace_def
        SP_def QMARK_def CR_def COLON_def)
  with parseRequest_roundtrip [OF b(2,3), of "Timestamp 7"] b(1) show ?thesis by fastforce
qed

text \<open>
  C32: \<open>parseRequest\<close> returns on every valid buffer when the context still expects the
  request line or headers, whatever bytes arrived: the asserts of \<open>retrieveUntil\<close> hold and
  the loop ends, with the result of the line-by-line reference parser and a valid buffer.
  From \<open>kGotAll\<close> and \<open>kExpectBody\<close> the \<open>while\<close> loop has no branch that ends it: the call
  never returns.
\<close>

theorem parseRequest_total:
  assumes "buf_inv b"
  shows "(parsing c \<longrightarrow> (\<exists>ok c' b'. parseRequest t c b = Some (ok, c', b') \<and> buf_inv b'
      \<and> line_loop t False c (content b) = (ok, c', content b')))
    \<and> (\<not> parsing c \<longrightarrow> parseRequest t c b = None)"
  using parse_loop_eq_line_loop [OF assms, of c t False] parse_loop_spins [of c t False b]
  by (auto simp: parseRequest_def)

theorem parseRequest_total_witness:
  "(\<exists>ok c' b'. parseRequest (Timestamp 0) new_context (new_buffer 0) = Some (ok, c', b'))
   \<and> parseRequest (Timestamp 0) (new_context\<lparr>hc_state := kGotAll\<rparr>) (new_buffer 0) = None"
proof -
  have "\<not> parsing (new_context\<lparr>hc_state := kGotAll\<rparr>)" by (simp add: parsing_def)
  with parseRequest_total [OF buf_inv_new [of 0], of "new_context\<lparr>hc_state := kGotAll\<rparr>" "Timestamp 0"]
    parseRequest_total [OF buf_inv_new [of 0], of new_context "Timestamp 0"]
  show ?thesis by auto
qed

text \<open>What a rejected or incomplete request leaves behind.\<close>

lemma parseRequest_no_line:
  assumes "buf_inv b" and "\<nexists>pre post. content b = pre @ CRLF @ post"
  shows "\<exists>b'. parseRequest t new_context b = Some (False, new_context, b') \<and> buf_inv b' \<and> content b' = content b"
proof -
  have "first_line (content b) = None"
    using assms(2) by (simp add: first_line_def search_crlf_None_iff)
  then have "line_loop t False new_context (content b) = (False, new_context, content b)"
    by (simp add: line_loop.simps [of t False] line_step_def new_context_def parsing_def)
  with parse_loop_eq_line_loop [OF assms(1) parsing_new, of t False] show ?thesis
    by (auto simp: parseRequest_def)
qed

lemma parseRequest_bad_line:
  assumes "buf_inv b" and "content b = line @ CRLF @ rest" and "CR \<notin> set line"
    and "\<not> fst (processRequestLine line new_context)"
  shows "\<exists>c' b'. parseRequest t new_context b = Some (False, c', b') \<and> \<not> gotAll c'
    \<and> buf_inv b' \<and> content b' = content b"
proof -
  obtain c' where c': "processRequestLine line new_context = (False, c')"
    using assms(4) by (cases "processRequestLine line new_context") auto
  then have "hc_state c' = kExpectRequestLine"
    by (auto simp: processRequestLine_def new_context_def Let_def split: prod.splits if_splits)
  moreover have "line_loop t False new_context (content b) = (False, c', content b)"
    using c' first_line_append [OF assms(3), of rest]
    by (simp add: line_loop.simps [of t False] line_step_def new_context_def parsing_def assms(2))
  ultimately show ?thesis
    using parse_loop_eq_line_loop [OF assms(1) parsing_new, of t False]
    by (auto simp: parseRequest_def gotAll_def)
qed


section \<open>What a parsed request looks like\<close>

text \<open>
  The type of the requests the parser hands out: a known method and version, a path and a query
  that split at the first question mark, field names without a colon and trimmed values.
\<close>

definition request_ok :: "http_request \<Rightarrow> bool" where
  "request_ok rq \<longleftrightarrow> rq_method rq \<noteq> kInvalid \<and> rq_version rq \<noteq> kUnknown
     \<and> SP \<notin> set (rq_path rq) \<and> QMARK \<notin> set (rq_path rq)
     \<and> SP \<notin> set (rq_query rq) \<and> (rq_query rq \<noteq> [] \<longrightarrow> hd (rq_query rq) = QMARK)
     \<and> (\<forall>f v. rq_headers rq f = Some v \<longrightarrow> COLON \<notin> set f \<and> trimmed v)"

definition context_ok :: "http_context \<Rightarrow> bool" where
  "context_ok c \<longleftrightarrow> (if hc_state c = kExpectRequestLine then rq_query (hc_request c) = [] \<and> rq_headers (hc_request c) = Map.empty
     else request_ok (hc_request c))"

lemma upto_char_free: "c \<notin> set (upto_char c s)"
  unfolding upto_char_def by (rule takeWhile_neq_mem)

lemma hd_from_char: "from_char c s \<noteq> [] \<Longrightarrow> hd (from_char c s) = c"
  using hd_dropWhile [of "\<lambda>x. x \<noteq> c" s] by (simp add: from_char_def)

lemma upto_from_char: "upto_char c s @ from_char c s = s"
  by (simp add: upto_char_def from_char_def)

lemma upto_char_all: "from_char c s = [] \<Longrightarrow> upto_char c s = s"
  by (metis upto_from_char append_Nil2)

lemma hd_strip_trailing: "strip_trailing v \<noteq> [] \<Longrightarrow> hd (strip_trailing v) = hd v"
proof (induction v rule: strip_trailing.induct)
  case (1 v)
  show ?case
  proof (cases "v \<noteq> [] \<and> isspace (last v)")
    case True
    then have eq: "strip_trailing v = strip_trailing (butlast v)" by (simp add: strip_trailing.simps [of v])
    with 1 True have "hd (strip_trailing v) = hd (butlast v)" "butlast v \<noteq> []"
      by (auto simp: strip_trailing.simps [of "[]"])
    then show ?thesis using True by (cases v) auto
  next
    case False
    then show ?thesis by (simp only: strip_trailing.simps [of v] if_False)
  qed
qed

lemma trimmed_value: "trimmed (strip_trailing (dropWhile isspace s))"
proof (cases "strip_trailing (dropWhile isspace s) = []")
  case False
  then have "dropWhile isspace s \<noteq> []" by (metis strip_trailing.simps)
  then have "\<not> isspace (hd (dropWhile isspace s))" by (rule hd_dropWhile)
  with False show ?thesis
    using hd_strip_trailing strip_trailing_not_blank unfolding trimmed_def by metis
qed (simp add: trimmed_def)

lemma addHeader_ok: "request_ok rq \<Longrightarrow> request_ok (addHeader (upto_char COLON l) s rq)"
  by (auto simp: request_ok_def addHeader_def Let_def upto_char_free trimmed_value)

lemma processRequestLine_ok:
  assumes "processRequestLine l c = (ok, c')" and "rq_query (hc_request c) = []" and "rq_headers (hc_request c) = Map.empty"
  shows "hc_state c' = hc_state c" "rq_headers (hc_request c') = Map.empty" "ok \<Longrightarrow> request_ok (hc_request c')"
proof -
  show "hc_state c' = hc_state c" "rq_headers (hc_request c') = Map.empty"
    using assms(1,3) by (auto simp: processRequestLine_def Let_def setMethod_def setQuery_def setPath_def setVersion_def
        split: if_splits)
  show "request_ok (hc_request c')" if ok
  proof -
    let ?start = "tl (from_char SP l)"
    let ?uri = "upto_char SP ?start"
    have sp: "SP \<notin> set ?uri" by (rule upto_char_free)
    have parts: "set (upto_char QMARK ?uri) \<subseteq> set ?uri" "set (from_char QMARK ?uri) \<subseteq> set ?uri"
      by (metis upto_from_char set_append Un_upper1, metis upto_from_char set_append Un_upper2)
    with sp have "SP \<notin> set (upto_char QMARK ?uri)" "SP \<notin> set (from_char QMARK ?uri)" by auto
    moreover have "QMARK \<notin> set (upto_char QMARK ?uri)" by (rule upto_char_free)
    ultimately show ?thesis using assms that sp hd_from_char [of QMARK ?uri] upto_char_all [of QMARK ?uri]
      by (auto simp: processRequestLine_def Let_def setMethod_def setQuery_def setPath_def setVersion_def request_ok_def
          split: if_splits)
  qed
qed


lemma line_step_request_ok:
  assumes "line_step t ok c s = (again, ok', c', s')" and "parsing c" and "context_ok c"
  shows "hc_state c' \<noteq> kExpectRequestLine \<longrightarrow> request_ok (hc_request c')"
proof (cases "hc_state c = kExpectRequestLine")
  case True
  then have fresh: "rq_query (hc_request c) = []" "rq_headers (hc_request c) = Map.empty"
    using assms(3) by (simp_all add: context_ok_def)
  show ?thesis
  proof (cases "first_line s")
    case None
    with assms(1) True show ?thesis by (simp add: line_step_def)
  next
    case (Some p)
    obtain l rest where p: "p = (l, rest)" by (cases p)
    obtain k c1 where c1: "processRequestLine l c = (k, c1)" by (cases "processRequestLine l c")
    note P = processRequestLine_ok [OF c1 fresh]
    have "request_ok (setreceiveTime t (hc_request c1))" if k
      using P(3) [OF that] by (simp add: request_ok_def setreceiveTime_def)
    with assms(1) True Some p c1 P(1) show ?thesis by (auto simp: line_step_def split: if_splits)
  qed
next
  case False
  then have "hc_state c = kExpectHeaders" "request_ok (hc_request c)"
    using assms(2,3) by (simp_all add: parsing_def context_ok_def)
  with assms(1) show ?thesis by (auto simp: line_step_def addHeader_ok split: option.splits if_splits)
qed

lemma line_loop_request_ok:
  assumes "line_loop t ok c s = (ok', c', s')" and "parsing c" and "context_ok c"
  shows "hc_state c' \<noteq> kExpectRequestLine \<longrightarrow> request_ok (hc_request c')"
  using assms
proof (induction t ok c s rule: line_loop.induct)
  case (1 t ok c s)
  obtain again ok1 c1 s1 where step: "line_step t ok c s = (again, ok1, c1, s1)"
    using prod_cases4 by blast
  note good = line_step_request_ok [OF step "1.prems"(2,3)]
  show ?case
  proof (cases again)
    case True
    have st: "hc_state c1 = kExpectHeaders" using line_step_more [OF "1.prems"(2)] step True by metis
    then have "parsing c1" "context_ok c1" using good by (simp_all add: parsing_def context_ok_def)
    moreover have "line_loop t ok1 c1 s1 = (ok', c', s')"
      using "1.prems"(1,2) step True by (subst (asm) line_loop.simps) simp
    ultimately show ?thesis using "1.IH" [OF "1.prems"(2) step [symmetric] refl refl True] by blast
  next
    case False
    with "1.prems"(1,2) step good show ?thesis by (subst (asm) line_loop.simps) simp
  qed
qed

text \<open>
  C22: The parser is well-typed: from a new context, or one in the middle of the headers, whatever
  bytes arrive, a context past the request line holds a request with a known method and version, a
  path without blanks or question marks, a query that is empty or starts with the question mark,
  and headers whose names have no colon and whose values neither start nor end with white space.
\<close>
theorem parsed_request_typed:
  assumes "context_ok c" and "parseRequest t c b = Some (ok, c', b')" and "buf_inv b"
  shows "hc_state c' \<noteq> kExpectRequestLine \<longrightarrow> request_ok (hc_request c') \<and> context_ok c'"
proof (cases "parsing c")
  case True
  obtain ok2 c2 b2 where "parse_loop t False c b = Some (ok2, c2, b2)"
      "line_loop t False c (content b) = (ok2, c2, content b2)"
    using parse_loop_eq_line_loop [OF assms(3) True] by blast
  with assms(2) line_loop_request_ok [OF _ True assms(1)] show ?thesis
    by (auto simp: parseRequest_def context_ok_def)
next
  case False
  with parse_loop_spins [OF False] assms(2) show ?thesis by (simp add: parseRequest_def)
qed

theorem parsed_request_typed_witness:
  "\<exists>b ok c b'. parseRequest (Timestamp 1) new_context b = Some (ok, c, b') \<and> gotAll c \<and> request_ok (hc_request c)
     \<and> rq_headers (hc_request c) ''Host'' = Some ''a''"
proof -
  let ?s = "request_text kGet ''/'' [] kHttp11 [(''Host'', ''a'')]"
  obtain b where b: "buf_inv b" "content b = ?s"
    using buf_append_spec [of "new_buffer kInitialSize" ?s] by auto
  have ok: "path_ok ''/''" "query_ok []" "\<forall>h \<in> set [(''Host'', ''a'')]. header_ok h"
    by (simp_all add: path_ok_def query_ok_def header_ok_def trimmed_def isspace_def SP_def QMARK_def CR_def COLON_def)
  obtain c b' where 1: "parse_loop (Timestamp 1) False new_context b = Some (True, c, b')" "hc_state c = kGotAll"
      "rq_headers (hc_request c) ''Host'' = Some ''a''"
    using parse_loop_eq_line_loop [OF b(1) parsing_new, of "Timestamp 1" False]
      line_loop_request [OF _ ok(1,2) _ ok(3), of kGet kHttp11 "Timestamp 1" "[]"] by (auto simp: b(2))
  then have p: "parseRequest (Timestamp 1) new_context b = Some (True, c, b')" by (simp add: parseRequest_def)
  have "context_ok new_context" by (simp add: context_ok_def new_context_def new_request_def)
  from parsed_request_typed [OF this p b(1)] 1 p show ?thesis by (auto simp: gotAll_def)
qed

end
