(* ===== verification/Http_Response.thy ===== *)
theory Http_Response
  imports Http_Context "HOL-Library.List_Lexorder" "HOL-Library.Char_ord"
begin

text \<open>
  \<open>include/HttpResponse.h\<close> and \<open>src/http/HttpResponse.cc\<close>: the response object and its
  printing into a buffer. The order in which \<open>std::unordered_map\<close> enumerates the headers is
  the argument \<open>order\<close>; \<open>order_ok\<close> is what the library documents of it.
\<close>

datatype http_status = s_Unknown | s_200Ok | s_301MovedPermanently | s_400BadRequest | s_404NotFound

fun status_code :: "http_status \<Rightarrow> nat" where
  "status_code s_Unknown = 0"
| "status_code s_200Ok = 200"
| "status_code s_301MovedPermanently = 301"
| "status_code s_400BadRequest = 400"
| "status_code s_404NotFound = 404"

record http_response =
  rs_headers :: "string \<rightharpoonup> string"
  rs_statusCode :: http_status
  rs_statusMessage :: string
  rs_closeConnection :: bool
  rs_body :: string

definition new_response :: "bool \<Rightarrow> http_response" where
  "new_response close = \<lparr>rs_headers = Map.empty, rs_statusCode = s_Unknown, rs_statusMessage = [],
     rs_closeConnection = close, rs_body = []\<rparr>"

definition setStatusCode :: "http_status \<Rightarrow> http_response \<Rightarrow> http_response" where
  "setStatusCode c rs = rs\<lparr>rs_statusCode := c\<rparr>"

definition setStatusMessage :: "string \<Rightarrow> http_response \<Rightarrow> http_response" where
  "setStatusMessage m rs = rs\<lparr>rs_statusMessage := m\<rparr>"

definition setCloseConnection :: "bool \<Rightarrow> http_response \<Rightarrow> http_response" where
  "setCloseConnection on rs = rs\<lparr>rs_closeConnection := on\<rparr>"

definition response_addHeader :: "string \<Rightarrow> string \<Rightarrow> http_response \<Rightarrow> http_response" where
  "response_addHeader key val rs = rs\<lparr>rs_headers := (rs_headers rs)(key \<mapsto> val)\<rparr>"

definition setContentType :: "string \<Rightarrow> http_response \<Rightarrow> http_response" where
  "setContentType type rs = response_addHeader ''Content-Type'' type rs"

definition setBody :: "string \<Rightarrow> http_response \<Rightarrow> http_response" where
  "setBody body rs = rs\<lparr>rs_body := body\<rparr>"

type_synonym header_order = "(string \<rightharpoonup> string) \<Rightarrow> (string \<times> string) list"

definition order_ok :: "header_order \<Rightarrow> bool" where
  "order_ok order \<longleftrightarrow>
     (\<forall>m. finite (dom m) \<longrightarrow> map_of (order m) = m \<and> distinct (map fst (order m)))"

definition append_header :: "string \<times> string \<Rightarrow> buffer \<Rightarrow> buffer option" where
  "append_header h b = do {
     b \<leftarrow> buf_append (fst h) b;
     b \<leftarrow> buf_append '': '' b;
     b \<leftarrow> buf_append (snd h) b;
     buf_append CRLF b
   }"

definition appendToBuffer :: "header_order \<Rightarrow> http_response \<Rightarrow> buffer \<Rightarrow> buffer option" where
  "appendToBuffer order rs b = do {
     b \<leftarrow> buf_append (snprintf 32 (''HTTP/1.1 '' @ dec (status_code (rs_statusCode rs)))) b;
     b \<leftarrow> buf_append (rs_statusMessage rs) b;
     b \<leftarrow> buf_append CRLF b;
     b \<leftarrow> (if rs_closeConnection rs then buf_append (''Connection: close'' @ CRLF) b
          else do {
            b \<leftarrow> buf_append (snprintf 32 (''Content-Length: '' @ dec (length (rs_body rs)) @ CRLF)) b;
            buf_append (''Connection: Keep-Alive'' @ CRLF) b
          });
     b \<leftarrow> bind_fold append_header (order (rs_headers rs)) b;
     b \<leftarrow> buf_append CRLF b;
     buf_append (rs_body rs) b
   }"

section \<open>What is printed\<close>

text \<open>The pieces \<open>appendToBuffer\<close> hands to the buffer, in order.\<close>

definition response_pieces :: "header_order \<Rightarrow> http_response \<Rightarrow> string list" where
  "response_pieces order rs =
     [snprintf 32 (''HTTP/1.1 '' @ dec (status_code (rs_statusCode rs))), rs_statusMessage rs, CRLF] @
     (if rs_closeConnection rs then [''Connection: close'' @ CRLF]
      else [snprintf 32 (''Content-Length: '' @ dec (length (rs_body rs)) @ CRLF),
            ''Connection: Keep-Alive'' @ CRLF]) @
     concat (map (\<lambda>h. [fst h, '': '', snd h, CRLF]) (order (rs_headers rs))) @
     [CRLF, rs_body rs]"

lemma append_header_fold: "append_header h b = bind_fold buf_append [fst h, '': '', snd h, CRLF] b"
  by (simp add: append_header_def bind_fold_fun)

lemma append_headers_fold:
  "bind_fold append_header hs b =
    bind_fold buf_append (concat (map (\<lambda>h. [fst h, '': '', snd h, CRLF]) hs)) b"
proof -
  have "bind_fold append_header hs =
      bind_fold buf_append (concat (map (\<lambda>h. [fst h, '': '', snd h, CRLF]) hs))"
    by (induction hs) (simp_all add: append_header_fold bind_fold_fun)
  then show ?thesis by simp
qed

lemma appendToBuffer_fold:
  "appendToBuffer order rs b = bind_fold buf_append (response_pieces order rs) b"
  by (simp add: appendToBuffer_def response_pieces_def append_headers_fold bind_fold_fun)

lemma status_snprintf [simp]:
  "snprintf 32 (''HTTP/1.1 '' @ dec (status_code c)) = ''HTTP/1.1 '' @ dec (status_code c)"
proof -
  have "length (dec (status_code c)) \<le> 3"
    by (rule length_dec_le) (cases c; simp)+
  then show ?thesis by simp
qed

text \<open>The status line, the header lines and the body as one text.\<close>

definition connection_lines :: "http_response \<Rightarrow> string" where
  "connection_lines rs =
     (if rs_closeConnection rs then ''Connection: close'' @ CRLF
      else ''Content-Length: '' @ dec (length (rs_body rs)) @ CRLF @ ''Connection: Keep-Alive'' @ CRLF)"

definition response_text :: "header_order \<Rightarrow> http_response \<Rightarrow> string" where
  "response_text order rs =
     ''HTTP/1.1 '' @ dec (status_code (rs_statusCode rs)) @ rs_statusMessage rs @ CRLF @
     connection_lines rs @
     concat (map (\<lambda>h. header_line h @ CRLF) (order (rs_headers rs))) @ CRLF @ rs_body rs"

lemma concat_header_pieces:
  "concat (concat (map (\<lambda>h. [fst h, '': '', snd h, CRLF]) hs)) = concat (map (\<lambda>h. header_line h @ CRLF) hs)"
  by (induction hs) (simp_all add: header_line_def COLON_def SP_def)

lemma response_pieces_text:
  assumes "length (rs_body rs) < 10 ^ 13"
  shows "concat (response_pieces order rs) = response_text order rs"
proof -
  have "length (dec (length (rs_body rs))) \<le> 13"
    by (rule length_dec_le [OF assms]) simp
  then have "snprintf 32 (''Content-Length: '' @ dec (length (rs_body rs)) @ CRLF) =
      ''Content-Length: '' @ dec (length (rs_body rs)) @ CRLF"
    by (simp add: CRLF_def)
  then show ?thesis using status_snprintf [of "rs_statusCode rs"]
    by (simp add: response_pieces_def response_text_def connection_lines_def concat_header_pieces)
qed

lemma appendToBuffer_ok:
  assumes "buf_inv b" and "length (rs_body rs) < 10 ^ 13"
  shows "\<exists>b'. appendToBuffer order rs b = Some b' \<and> buf_inv b'
    \<and> content b' = content b @ response_text order rs"
  using buffer_queue.put_all [OF assms(1), of "response_pieces order rs"] assms(2)
  by (simp add: appendToBuffer_fold response_pieces_text)

text \<open>
  Printing a response never aborts and appends, after what the buffer held, the status
  line, either \<open>Connection: close\<close> or the exact body length and \<open>Keep-Alive\<close>, one line per
  header in the map's order, an empty line and the body; every header of the response is on
  one of these lines. The status line has no space between the code and the message.
\<close>

theorem appendToBuffer_text:
  assumes "buf_inv b" and "length (rs_body rs) < 10 ^ 13" and "order_ok order"
    and "finite (dom (rs_headers rs))"
  shows "(\<exists>b'. appendToBuffer order rs b = Some b' \<and> buf_inv b'
      \<and> content b' = content b @ ''HTTP/1.1 '' @ dec (status_code (rs_statusCode rs)) @
          rs_statusMessage rs @ CRLF @ connection_lines rs @
          concat (map (\<lambda>h. header_line h @ CRLF) (order (rs_headers rs))) @ CRLF @ rs_body rs)
    \<and> set (order (rs_headers rs)) = {(k, v). rs_headers rs k = Some v}"
proof -
  have "map_of (order (rs_headers rs)) = rs_headers rs" "distinct (map fst (order (rs_headers rs)))"
    using assms(3,4) by (simp_all add: order_ok_def)
  then have "set (order (rs_headers rs)) = {(k, v). rs_headers rs k = Some v}"
    using map_of_eq_Some_iff [of "order (rs_headers rs)"] by auto
  with appendToBuffer_ok [OF assms(1,2), of order] show ?thesis
    by (simp add: response_text_def)
qed

text \<open>One order the library could use: by key.\<close>

definition key_order :: header_order where
  "key_order m = map (\<lambda>k. (k, the (m k))) (sorted_list_of_set (dom m))"

lemma key_order_ok: "order_ok key_order"
proof -
  have "map_of (key_order m) = m \<and> distinct (map fst (key_order m))" if "finite (dom m)"
    for m :: "string \<rightharpoonup> string"
  proof
    show "map_of (key_order m) = m"
    proof
      fix k
      show "map_of (key_order m) k = m k"
        using that by (cases "m k") (auto simp: key_order_def map_of_map_restrict restrict_map_def)
    qed
    show "distinct (map fst (key_order m))"
      by (simp add: key_order_def comp_def)
  qed
  then show ?thesis by (simp add: order_ok_def)
qed

theorem appendToBuffer_text_witness:
  "\<exists>b'. appendToBuffer key_order
        (setStatusMessage ''Not Found'' (setStatusCode s_404NotFound (new_response True))) (new_buffer 8) = Some b'
     \<and> content b' = ''HTTP/1.1 '' @ dec 404 @ ''Not Found'' @ CRLF @ ''Connection: close'' @ CRLF @ CRLF"
  using appendToBuffer_text [OF buf_inv_new [of 8], of
      "setStatusMessage ''Not Found'' (setStatusCode s_404NotFound (new_response True))" key_order]
  by (auto simp: key_order_ok setStatusMessage_def setStatusCode_def new_response_def
      connection_lines_def key_order_def)

end
