(* ===== verification/Event_Channel.thy ===== *)
theory Event_Channel
  imports Time_Stamp "HOL-Library.Word"
begin

unbundle bit_operations_syntax

text \<open>
  \<open>include/Channel.h\<close> and \<open>src/net/Channel.cc\<close>: the event mask of one descriptor and the
  dispatch of the events a poller returned. The four callbacks are names of type \<open>'cb\<close>, so
  \<open>handleEvent\<close> yields the calls it makes, in order. The methods that end in \<open>update ()\<close>
  are completed in the theory of the event loop, which owns the poller.
\<close>

section \<open>State\<close>

type_synonym events = "32 word"

definition EPOLLIN :: events where "EPOLLIN = 1"
definition EPOLLPRI :: events where "EPOLLPRI = 2"
definition EPOLLOUT :: events where "EPOLLOUT = 4"
definition EPOLLERR :: events where "EPOLLERR = 8"
definition EPOLLHUP :: events where "EPOLLHUP = 16"

definition kNoneEvent :: events where "kNoneEvent = 0"
definition kReadEvent :: events where "kReadEvent = EPOLLIN OR EPOLLPRI"
definition kWriteEvent :: events where "kWriteEvent = EPOLLOUT"

record 'cb channel =
  ch_fd :: int
  ch_events :: events
  ch_revents :: events
  ch_index :: int
  ch_tie :: "nat option"
  ch_tied :: bool
  ch_readCallback :: "'cb option"
  ch_writeCallback :: "'cb option"
  ch_closeCallback :: "'cb option"
  ch_errorCallback :: "'cb option"

definition new_channel :: "int \<Rightarrow> 'cb channel" where
  "new_channel fd = \<lparr>ch_fd = fd, ch_events = 0, ch_revents = 0, ch_index = -1, ch_tie = None,
     ch_tied = False, ch_readCallback = None, ch_writeCallback = None, ch_closeCallback = None,
     ch_errorCallback = None\<rparr>"

definition setReadCallback :: "'cb \<Rightarrow> 'cb channel \<Rightarrow> 'cb channel" where
  "setReadCallback cb c = c\<lparr>ch_readCallback := Some cb\<rparr>"

definition setWriteCallback :: "'cb \<Rightarrow> 'cb channel \<Rightarrow> 'cb channel" where
  "setWriteCallback cb c = c\<lparr>ch_writeCallback := Some cb\<rparr>"

definition setCloseCallback :: "'cb \<Rightarrow> 'cb channel \<Rightarrow> 'cb channel" where
  "setCloseCallback cb c = c\<lparr>ch_closeCallback := Some cb\<rparr>"

definition setErrorCallback :: "'cb \<Rightarrow> 'cb channel \<Rightarrow> 'cb channel" where
  "setErrorCallback cb c = c\<lparr>ch_errorCallback := Some cb\<rparr>"

definition tie :: "nat \<Rightarrow> 'cb channel \<Rightarrow> 'cb channel" where
  "tie obj c = c\<lparr>ch_tie := Some obj, ch_tied := True\<rparr>"

text \<open>The mask part of \<open>enableReading\<close> and its companions.\<close>

definition ev_enableReading :: "events \<Rightarrow> events" where "ev_enableReading e = e OR kReadEvent"
definition ev_disableReading :: "events \<Rightarrow> events" where "ev_disableReading e = e AND NOT kReadEvent"
definition ev_enableWriting :: "events \<Rightarrow> events" where "ev_enableWriting e = e OR kWriteEvent"
definition ev_disableWriting :: "events \<Rightarrow> events" where "ev_disableWriting e = e AND NOT kWriteEvent"
definition ev_disableAll :: "events \<Rightarrow> events" where "ev_disableAll e = e AND kNoneEvent"

definition isNoneEvent :: "'cb channel \<Rightarrow> bool" where
  "isNoneEvent c \<longleftrightarrow> ch_events c = kNoneEvent"

definition isReading :: "'cb channel \<Rightarrow> bool" where
  "isReading c \<longleftrightarrow> ch_events c AND kReadEvent \<noteq> 0"

definition isWriting :: "'cb channel \<Rightarrow> bool" where
  "isWriting c \<longleftrightarrow> ch_events c AND kWriteEvent \<noteq> 0"

definition set_revents :: "events \<Rightarrow> 'cb channel \<Rightarrow> 'cb channel" where
  "set_revents revt c = c\<lparr>ch_revents := revt\<rparr>"

definition set_index :: "int \<Rightarrow> 'cb channel \<Rightarrow> 'cb channel" where
  "set_index idx c = c\<lparr>ch_index := idx\<rparr>"

section \<open>Dispatch\<close>

text \<open>A call of a callback; the read callback gets the receive time.\<close>

datatype 'cb invocation = Call 'cb | ReadCall 'cb timestamp

definition call_if :: "bool \<Rightarrow> 'cb option \<Rightarrow> 'cb invocation list" where
  "call_if b cb = (if b then (case cb of None \<Rightarrow> [] | Some f \<Rightarrow> [Call f]) else [])"

definition read_if :: "bool \<Rightarrow> 'cb option \<Rightarrow> timestamp \<Rightarrow> 'cb invocation list" where
  "read_if b cb t = (if b then (case cb of None \<Rightarrow> [] | Some f \<Rightarrow> [ReadCall f t]) else [])"

definition handleEventWithGuard :: "timestamp \<Rightarrow> 'cb channel \<Rightarrow> 'cb invocation list" where
  "handleEventWithGuard receiveTime c =
     call_if (ch_revents c AND EPOLLHUP \<noteq> 0 \<and> \<not> (ch_revents c AND EPOLLIN \<noteq> 0)) (ch_closeCallback c) @
     call_if (ch_revents c AND EPOLLERR \<noteq> 0) (ch_errorCallback c) @
     read_if (ch_revents c AND (EPOLLIN OR EPOLLPRI) \<noteq> 0) (ch_readCallback c) receiveTime @
     call_if (ch_revents c AND EPOLLOUT \<noteq> 0) (ch_writeCallback c)"

text \<open>\<open>alive\<close> says which tied objects can still be locked.\<close>

definition handleEvent :: "(nat \<Rightarrow> bool) \<Rightarrow> timestamp \<Rightarrow> 'cb channel \<Rightarrow> 'cb invocation list" where
  "handleEvent alive receiveTime c =
     (if ch_tied c
      then (case ch_tie c of
              None \<Rightarrow> []
            | Some obj \<Rightarrow> if alive obj then handleEventWithGuard receiveTime c else [])
      else handleEventWithGuard receiveTime c)"

section \<open>The event mask\<close>

lemmas event_consts = EPOLLIN_def EPOLLPRI_def EPOLLOUT_def EPOLLERR_def EPOLLHUP_def
  kNoneEvent_def kReadEvent_def kWriteEvent_def

lemmas event_masks = ev_enableReading_def ev_disableReading_def ev_enableWriting_def
  ev_disableWriting_def ev_disableAll_def

lemma mask_read_write: "(kReadEvent :: events) AND kWriteEvent = 0"
  by (simp add: event_consts)

lemma bit_events_bound: "bit e n \<Longrightarrow> n < 32" for e :: events
  by (drule bit_imp_le_length) simp

lemma mask_zero_iff: "(e AND m = 0) \<longleftrightarrow> (\<forall>n. bit e n \<longrightarrow> \<not> bit m n)" for e m :: events
  by (auto simp: bit_eq_iff bit_and_iff dest: bit_events_bound)

lemma mask_disjoint: "(m AND k :: events) = 0 \<Longrightarrow> bit m n \<Longrightarrow> \<not> bit k n"
  by (simp add: mask_zero_iff)

lemma mask_write_ne: "kWriteEvent \<noteq> (0 :: events)" and mask_read_ne: "kReadEvent \<noteq> (0 :: events)"
  by (simp_all add: event_consts)

lemma bit_event_masks:
  "bit (ev_enableReading e) n \<longleftrightarrow> bit e n \<or> bit kReadEvent n"
  "bit (ev_enableWriting e) n \<longleftrightarrow> bit e n \<or> bit kWriteEvent n"
  "bit (ev_disableReading e) n \<longleftrightarrow> bit e n \<and> \<not> bit kReadEvent n"
  "bit (ev_disableWriting e) n \<longleftrightarrow> bit e n \<and> \<not> bit kWriteEvent n"
  "\<not> bit (ev_disableAll e) n"
  by (auto simp: event_masks bit_or_iff bit_and_iff bit_not_iff kNoneEvent_def
      dest: bit_imp_le_length)

lemma ex_bit: "m \<noteq> 0 \<Longrightarrow> \<exists>n. bit m n" for m :: events
  by (auto simp: bit_eq_iff)

text \<open>Each mask operation changes its own interest and no other.\<close>

lemma writing_masks [simp]:
  "ev_enableWriting e AND kWriteEvent \<noteq> 0"
  "ev_disableWriting e AND kWriteEvent = 0"
  "ev_enableReading e AND kWriteEvent = e AND kWriteEvent"
  "ev_disableReading e AND kWriteEvent = e AND kWriteEvent"
  "ev_disableAll e = 0"
  using ex_bit [OF mask_write_ne] mask_disjoint [OF mask_read_write]
  by (auto simp: bit_eq_iff bit_and_iff bit_event_masks dest: bit_events_bound)

lemma reading_masks [simp]:
  "ev_enableReading e AND kReadEvent \<noteq> 0"
  "ev_disableReading e AND kReadEvent = 0"
  "ev_enableWriting e AND kReadEvent = e AND kReadEvent"
  "ev_disableWriting e AND kReadEvent = e AND kReadEvent"
  using ex_bit [OF mask_read_ne] mask_disjoint [OF mask_read_write]
  by (auto simp: bit_eq_iff bit_and_iff bit_event_masks dest: bit_events_bound)

lemma disableWriting_enableReading_only:
  "ev_disableWriting (ev_enableWriting (ev_enableReading 0)) = kReadEvent"
  by (simp add: event_masks event_consts)

text \<open>
  The interest methods act on their own bits only: enabling or disabling writing makes
  \<open>isWriting\<close> true or false and leaves \<open>isReading\<close> as it was, and the other way round;
  \<open>disableAll\<close> leaves no interest.
\<close>

theorem interest_masks_independent:
  fixes c :: "'cb channel"
  shows "isWriting (c\<lparr>ch_events := ev_enableWriting (ch_events c)\<rparr>)
    \<and> \<not> isWriting (c\<lparr>ch_events := ev_disableWriting (ch_events c)\<rparr>)
    \<and> isReading (c\<lparr>ch_events := ev_enableReading (ch_events c)\<rparr>)
    \<and> \<not> isReading (c\<lparr>ch_events := ev_disableReading (ch_events c)\<rparr>)
    \<and> isReading (c\<lparr>ch_events := ev_enableWriting (ch_events c)\<rparr>) = isReading c
    \<and> isReading (c\<lparr>ch_events := ev_disableWriting (ch_events c)\<rparr>) = isReading c
    \<and> isWriting (c\<lparr>ch_events := ev_enableReading (ch_events c)\<rparr>) = isWriting c
    \<and> isWriting (c\<lparr>ch_events := ev_disableReading (ch_events c)\<rparr>) = isWriting c
    \<and> isNoneEvent (c\<lparr>ch_events := ev_disableAll (ch_events c)\<rparr>)"
  by (simp add: isWriting_def isReading_def isNoneEvent_def kNoneEvent_def)

text \<open>
  Dispatch order: \<open>handleEvent\<close> makes at most one call of each callback, in the order
  close, error, read, write, each exactly when its event bits are set (close only on a hang-up
  without input); a tied channel whose object is gone makes no call.
\<close>

theorem handleEvent_order:
  fixes c :: "'cb channel"
  assumes cbs: "ch_closeCallback c = Some cl" "ch_errorCallback c = Some er"
      "ch_readCallback c = Some rd" "ch_writeCallback c = Some wr"
  shows "(ch_tied c \<and> (\<forall>obj. ch_tie c = Some obj \<longrightarrow> \<not> alive obj) \<longrightarrow> handleEvent alive t c = [])
    \<and> (\<not> ch_tied c \<or> (\<exists>obj. ch_tie c = Some obj \<and> alive obj) \<longrightarrow>
        (\<exists>hup err inp out. handleEvent alive t c =
            (if hup then [Call cl] else []) @ (if err then [Call er] else []) @
            (if inp then [ReadCall rd t] else []) @ (if out then [Call wr] else [])
          \<and> hup = (ch_revents c AND EPOLLHUP \<noteq> 0 \<and> ch_revents c AND EPOLLIN = 0)
          \<and> err = (ch_revents c AND EPOLLERR \<noteq> 0)
          \<and> inp = (ch_revents c AND kReadEvent \<noteq> 0)
          \<and> out = (ch_revents c AND EPOLLOUT \<noteq> 0)))"
  using assms
  by (auto simp: handleEvent_def handleEventWithGuard_def call_if_def read_if_def kReadEvent_def
      split: option.splits)

theorem handleEvent_order_witness:
  "\<exists>hup err inp out. handleEvent (\<lambda>_. True) (Timestamp 1)
      (setReadCallback ''r'' (setWriteCallback ''w'' (setCloseCallback ''c'' (setErrorCallback ''e''
        (set_revents 5 (new_channel 3)))))) =
      (if hup then [Call ''c''] else []) @ (if err then [Call ''e''] else []) @
      (if inp then [ReadCall ''r'' (Timestamp 1)] else []) @ (if out then [Call ''w''] else [])
    \<and> \<not> hup \<and> \<not> err \<and> inp \<and> out"
  using handleEvent_order [of "setReadCallback ''r'' (setWriteCallback ''w'' (setCloseCallback ''c''
      (setErrorCallback ''e'' (set_revents 5 (new_channel 3)))))" "''c''" "''e''" "''r''" "''w''"
      "\<lambda>_. True" "Timestamp 1"]
  by (simp add: setReadCallback_def setWriteCallback_def setCloseCallback_def setErrorCallback_def
      set_revents_def new_channel_def event_consts)

end
