(* ===== verification/Pollers.thy ===== *)
theory Pollers
  imports Event_Channel
begin

text \<open>
  \<open>include/Poller.h\<close>, \<open>EpollPoller\<close> and \<open>PollPoller\<close>: the two implementations of the
  virtual interface that keeps a loop's channels registered with the kernel. Channels are
  objects in a heap \<open>'cb chans\<close>, addressed by number (\<open>Channel*\<close>); a poller's operation
  takes the heap and its own state and returns both, or \<^term>\<open>None\<close> where the code aborts
  (\<open>LOG_FATAL\<close>) or reads outside a container. The interface is the locale \<open>poller_iface\<close>,
  interpreted for both classes and for the choice \<open>newDefaultPoller\<close> makes.
\<close>

type_synonym 'cb chans = "nat \<Rightarrow> 'cb channel"

section \<open>The epoll implementation\<close>

definition kNew :: int where "kNew = -1"
definition kAdded :: int where "kAdded = 1"
definition kDeleted :: int where "kDeleted = 2"

datatype ctl_op = EPOLL_CTL_ADD | EPOLL_CTL_MOD | EPOLL_CTL_DEL

text \<open>
  \<open>ep_interest\<close> is the kernel's interest list (events and data pointer per descriptor), and
  \<open>ep_ctl\<close> decides whether \<open>epoll_ctl\<close> succeeds on it; \<open>ctl_ok\<close> is its documented outcome
  when resources suffice.
\<close>

type_synonym interest = "int \<rightharpoonup> events \<times> nat"

record epoll_poller =
  ep_channels :: "int \<rightharpoonup> nat"
  ep_interest :: interest
  ep_ctl :: "interest \<Rightarrow> ctl_op \<Rightarrow> int \<Rightarrow> bool"
  ep_events_size :: nat

definition kInitEventListSize :: nat where "kInitEventListSize = 16"

definition new_epoll :: "(interest \<Rightarrow> ctl_op \<Rightarrow> int \<Rightarrow> bool) \<Rightarrow> epoll_poller" where
  "new_epoll ctl = \<lparr>ep_channels = Map.empty, ep_interest = Map.empty, ep_ctl = ctl,
     ep_events_size = kInitEventListSize\<rparr>"

definition ctl_ok :: "(interest \<Rightarrow> ctl_op \<Rightarrow> int \<Rightarrow> bool) \<Rightarrow> bool" where
  "ctl_ok ctl \<longleftrightarrow> (\<forall>m op fd. ctl m op fd = (if op = EPOLL_CTL_ADD then m fd = None else m fd \<noteq> None))"

definition epoll_update ::
  "ctl_op \<Rightarrow> nat \<Rightarrow> 'cb chans \<times> epoll_poller \<Rightarrow> ('cb chans \<times> epoll_poller) option" where
  "epoll_update operation ch s = (case s of (cs, p) \<Rightarrow>
     (let fd = ch_fd (cs ch); event = (ch_events (cs ch), ch) in
      if ep_ctl p (ep_interest p) operation fd
      then Some (cs, p\<lparr>ep_interest := (ep_interest p)
             (fd := (if operation = EPOLL_CTL_DEL then None else Some event))\<rparr>)
      else if operation = EPOLL_CTL_DEL then Some (cs, p)
      else None))"

definition epoll_updateChannel ::
  "nat \<Rightarrow> 'cb chans \<times> epoll_poller \<Rightarrow> ('cb chans \<times> epoll_poller) option" where
  "epoll_updateChannel ch s = (case s of (cs, p) \<Rightarrow>
     (let index = ch_index (cs ch) in
      if index = kNew \<or> index = kDeleted then
        (let fd = ch_fd (cs ch);
             p = (if index = kNew then p\<lparr>ep_channels := (ep_channels p)(fd \<mapsto> ch)\<rparr> else p)
         in epoll_update EPOLL_CTL_ADD ch (cs(ch := set_index kAdded (cs ch)), p))
      else if isNoneEvent (cs ch) then do {
        (cs, p) \<leftarrow> epoll_update EPOLL_CTL_DEL ch (cs, p);
        Some (cs(ch := set_index kDeleted (cs ch)), p)
      }
      else epoll_update EPOLL_CTL_MOD ch (cs, p)))"

definition epoll_removeChannel ::
  "nat \<Rightarrow> 'cb chans \<times> epoll_poller \<Rightarrow> ('cb chans \<times> epoll_poller) option" where
  "epoll_removeChannel ch s = (case s of (cs, p) \<Rightarrow>
     (let p = p\<lparr>ep_channels := (ep_channels p)(ch_fd (cs ch) := None)\<rparr> in do {
        (cs, p) \<leftarrow> (if ch_index (cs ch) = kAdded then epoll_update EPOLL_CTL_DEL ch (cs, p)
                    else Some (cs, p));
        Some (cs(ch := set_index kNew (cs ch)), p)
      }))"

definition epoll_hasChannel :: "nat \<Rightarrow> 'cb chans \<times> epoll_poller \<Rightarrow> bool" where
  "epoll_hasChannel ch s = (case s of (cs, p) \<Rightarrow> ep_channels p (ch_fd (cs ch)) = Some ch)"

text \<open>\<open>fillActiveChannels\<close> copies the returned events into the channels, in order.\<close>

fun epoll_fillActiveChannels :: "(events \<times> nat) list \<Rightarrow> 'cb chans \<Rightarrow> 'cb chans \<times> nat list" where
  "epoll_fillActiveChannels [] cs = (cs, [])"
| "epoll_fillActiveChannels ((ev, ch) # evs) cs =
     (case epoll_fillActiveChannels evs (cs(ch := set_revents ev (cs ch))) of
        (cs', active) \<Rightarrow> (cs', ch # active))"

text \<open>\<open>poll\<close>, given what \<open>epoll_wait\<close> returned: an errno or the ready events.\<close>

definition epoll_poll ::
  "int + (events \<times> nat) list \<Rightarrow> 'cb chans \<times> epoll_poller \<Rightarrow> ('cb chans \<times> epoll_poller) \<times> nat list" where
  "epoll_poll ret s = (case s of (cs, p) \<Rightarrow>
     (case ret of
        Inl err \<Rightarrow> ((cs, p), [])
      | Inr evs \<Rightarrow>
          if length evs = 0 then ((cs, p), [])
          else (case epoll_fillActiveChannels evs cs of (cs', active) \<Rightarrow>
            ((cs', if length evs = ep_events_size p
                   then p\<lparr>ep_events_size := ep_events_size p * 2\<rparr> else p), active))))"

section \<open>The poll implementation\<close>

record pollfd =
  pfd_fd :: int
  pfd_events :: "16 word"
  pfd_revents :: int

record poll_poller =
  pp_channels :: "int \<rightharpoonup> nat"
  pp_pollfds :: "pollfd list"

definition new_pollpoller :: poll_poller where
  "new_pollpoller = \<lparr>pp_channels = Map.empty, pp_pollfds = []\<rparr>"

definition poll_updateChannel ::
  "nat \<Rightarrow> 'cb chans \<times> poll_poller \<Rightarrow> ('cb chans \<times> poll_poller) option" where
  "poll_updateChannel ch s = (case s of (cs, p) \<Rightarrow>
     (if ch_index (cs ch) < 0 then
        (let pfd = \<lparr>pfd_fd = ch_fd (cs ch), pfd_events = ucast (ch_events (cs ch)), pfd_revents = 0\<rparr>;
             fds = pp_pollfds p @ [pfd];
             idx = int (length fds) - 1
         in Some (cs(ch := set_index idx (cs ch)),
              p\<lparr>pp_pollfds := fds, pp_channels := (pp_channels p)(pfd_fd pfd \<mapsto> ch)\<rparr>))
      else
        (let idx = nat (ch_index (cs ch)) in
         if idx < length (pp_pollfds p) then
           (let pfd = \<lparr>pfd_fd = ch_fd (cs ch), pfd_events = ucast (ch_events (cs ch)), pfd_revents = 0\<rparr>;
                pfd = (if isNoneEvent (cs ch) then pfd\<lparr>pfd_fd := - ch_fd (cs ch) - 1\<rparr> else pfd)
            in Some (cs, p\<lparr>pp_pollfds := (pp_pollfds p)[idx := pfd]\<rparr>))
         else None)))"

definition poll_removeChannel ::
  "nat \<Rightarrow> 'cb chans \<times> poll_poller \<Rightarrow> ('cb chans \<times> poll_poller) option" where
  "poll_removeChannel ch s = (case s of (cs, p) \<Rightarrow>
     (let idx = ch_index (cs ch); fds = pp_pollfds p in
      if 0 \<le> idx \<and> nat idx < length fds then
        (let i = nat idx;
             p = p\<lparr>pp_channels := (pp_channels p)(ch_fd (cs ch) := None)\<rparr>
         in if i = length fds - 1 then Some (cs, p\<lparr>pp_pollfds := butlast fds\<rparr>)
            else
              (let channelAtEnd = pfd_fd (last fds);
                   fds = fds[i := last fds, length fds - 1 := fds ! i];
                   channelAtEnd = (if channelAtEnd < 0 then - channelAtEnd - 1 else channelAtEnd)
               in case pp_channels p channelAtEnd of
                    None \<Rightarrow> None
                  | Some other \<Rightarrow> Some (cs(other := set_index idx (cs other)), p\<lparr>pp_pollfds := butlast fds\<rparr>)))
      else None))"

definition poll_hasChannel :: "nat \<Rightarrow> 'cb chans \<times> poll_poller \<Rightarrow> bool" where
  "poll_hasChannel ch s = (case s of (cs, p) \<Rightarrow> pp_channels p (ch_fd (cs ch)) = Some ch)"

text \<open>
  \<open>fillActiveChannels\<close> walks the array until it has seen \<open>numEvents\<close> entries with events;
  dereferencing the end iterator of a failed lookup is \<^term>\<open>None\<close>.
\<close>

fun poll_fillActiveChannels ::
  "(int \<rightharpoonup> nat) \<Rightarrow> nat \<Rightarrow> pollfd list \<Rightarrow> 'cb chans \<Rightarrow> ('cb chans \<times> nat list) option" where
  "poll_fillActiveChannels channels numEvents [] cs = Some (cs, [])"
| "poll_fillActiveChannels channels numEvents (pfd # pfds) cs =
     (if numEvents = 0 then Some (cs, [])
      else if 0 < pfd_revents pfd then
        (case channels (pfd_fd pfd) of
           None \<Rightarrow> None
         | Some ch \<Rightarrow> do {
             (cs', active) \<leftarrow> poll_fillActiveChannels channels (numEvents - 1) pfds
                (cs(ch := set_revents (word_of_int (pfd_revents pfd)) (cs ch)));
             Some (cs', ch # active)
           })
      else poll_fillActiveChannels channels numEvents pfds cs)"

text \<open>\<open>poll\<close>, given what the system call returned: an errno, or the count and the \<open>revents\<close>.\<close>

definition poll_poll ::
  "int + (nat \<times> int list) \<Rightarrow> 'cb chans \<times> poll_poller \<Rightarrow> (('cb chans \<times> poll_poller) \<times> nat list) option" where
  "poll_poll ret s = (case s of (cs, p) \<Rightarrow>
     (case ret of
        Inl err \<Rightarrow> Some ((cs, p), [])
      | Inr (numEvents, revs) \<Rightarrow>
          (let p = p\<lparr>pp_pollfds := map2 (\<lambda>pfd r. pfd\<lparr>pfd_revents := r\<rparr>) (pp_pollfds p) revs\<rparr> in
           if numEvents = 0 then Some ((cs, p), [])
           else do {
             (cs', active) \<leftarrow> poll_fillActiveChannels (pp_channels p) numEvents (pp_pollfds p) cs;
             Some ((cs', p), active)
           })))"

section \<open>The interface\<close>

text \<open>Two heaps that agree but for the \<open>index\<close> field, which belongs to the poller.\<close>

definition same_but_index :: "'cb chans \<Rightarrow> 'cb chans \<Rightarrow> bool" where
  "same_but_index cs cs' \<longleftrightarrow> (\<forall>c. \<exists>i. cs' c = set_index i (cs c))"

text \<open>Interest of a channel replaced by \<open>e\<close>: what the methods do before \<open>update ()\<close>.\<close>

definition put_events :: "events \<Rightarrow> nat \<Rightarrow> 'cb chans \<Rightarrow> 'cb chans" where
  "put_events e ch cs = cs(ch := (cs ch)\<lparr>ch_events := e\<rparr>)"

text \<open>A channel that may be updated: tracked, or new and the only one for its descriptor.\<close>

definition usable :: "(int \<rightharpoonup> nat) \<Rightarrow> nat \<Rightarrow> 'cb chans \<Rightarrow> bool" where
  "usable tr ch cs \<longleftrightarrow> 0 \<le> ch_fd (cs ch)
     \<and> (tr (ch_fd (cs ch)) = Some ch \<or> ch_index (cs ch) = -1 \<and> tr (ch_fd (cs ch)) = None)"

lemma same_but_index_refl [simp]: "same_but_index cs cs"
  by (auto simp: same_but_index_def set_index_def intro!: exI channel.equality)

lemma same_but_index_upd [simp]: "same_but_index cs (cs(ch := set_index i (cs ch)))"
  by (auto simp: same_but_index_def set_index_def intro!: exI channel.equality)

lemma set_index_twice [simp]: "set_index j (set_index i c) = set_index j c"
  by (simp add: set_index_def)

lemma same_but_index_trans:
  assumes "same_but_index a b" and "same_but_index b c"
  shows "same_but_index a c"
  unfolding same_but_index_def
proof
  fix x
  from assms obtain i j where "b x = set_index i (a x)" "c x = set_index j (b x)"
    unfolding same_but_index_def by blast
  then show "\<exists>i. c x = set_index i (a x)" by auto
qed

lemma same_but_indexD:
  assumes "same_but_index cs cs'"
  shows "ch_events (cs' c) = ch_events (cs c)" "ch_fd (cs' c) = ch_fd (cs c)"
    "isWriting (cs' c) = isWriting (cs c)" "isReading (cs' c) = isReading (cs c)"
    "ch_tied (cs' c) = ch_tied (cs c)" "ch_tie (cs' c) = ch_tie (cs c)"
proof -
  obtain i where "cs' c = set_index i (cs c)" using assms by (auto simp: same_but_index_def)
  then show "ch_events (cs' c) = ch_events (cs c)" "ch_fd (cs' c) = ch_fd (cs c)"
    "isWriting (cs' c) = isWriting (cs c)" "isReading (cs' c) = isReading (cs c)"
    "ch_tied (cs' c) = ch_tied (cs c)" "ch_tie (cs' c) = ch_tie (cs c)"
    by (simp_all add: set_index_def isWriting_def isReading_def)
qed

locale poller_iface =
  fixes upd :: "nat \<Rightarrow> 'cb chans \<times> 'p \<Rightarrow> ('cb chans \<times> 'p) option"
    and rem :: "nat \<Rightarrow> 'cb chans \<times> 'p \<Rightarrow> ('cb chans \<times> 'p) option"
    and tracked :: "'p \<Rightarrow> int \<rightharpoonup> nat"
    and wf :: "'cb chans \<times> 'p \<Rightarrow> bool"
  assumes upd_keeps: "upd ch (cs, p) = Some (cs', p') \<Longrightarrow> same_but_index cs cs'"
    and rem_keeps: "rem ch (cs, p) = Some (cs', p') \<Longrightarrow> same_but_index cs cs'"
    and upd_ok: "wf (cs, p) \<Longrightarrow> usable (tracked p) ch cs \<Longrightarrow>
      \<exists>cs' p'. upd ch (put_events e ch cs, p) = Some (cs', p') \<and> wf (cs', p')
        \<and> tracked p' = (tracked p)(ch_fd (cs ch) \<mapsto> ch)"
    and rem_ok: "wf (cs, p) \<Longrightarrow> tracked p (ch_fd (cs ch)) = Some ch \<Longrightarrow>
      \<exists>cs' p'. rem ch (cs, p) = Some (cs', p') \<and> wf (cs', p')
        \<and> tracked p' = (tracked p)(ch_fd (cs ch) := None)"
begin

lemma upd_events:
  assumes "upd ch (put_events e ch cs, p) = Some (cs', p')"
  shows "ch_events (cs' ch) = e" "c \<noteq> ch \<Longrightarrow> ch_events (cs' c) = ch_events (cs c)"
    "ch_fd (cs' c) = ch_fd (cs c)"
  using same_but_indexD [OF upd_keeps [OF assms]] by (simp_all add: put_events_def)

lemma upd_usable:
  assumes "wf (cs, p)" and "usable (tracked p) ch cs"
    and "upd ch (put_events e ch cs, p) = Some (cs', p')"
  shows "wf (cs', p')" "usable (tracked p') ch cs'" "tracked p' (ch_fd (cs' ch)) = Some ch"
  using upd_ok [OF assms(1,2), of e] assms(2,3) upd_events [OF assms(3)]
  by (auto simp: usable_def)

text \<open>Any interest changes of a usable channel, then its removal, all succeed.\<close>

lemma upd_list_then_rem:
  assumes "wf (cs, p)" and "usable (tracked p) ch cs"
  shows "\<exists>cs' p' cs'' p''. bind_fold (\<lambda>e (cs, p). upd ch (put_events e ch cs, p)) (e # es) (cs, p) = Some (cs', p')
    \<and> rem ch (cs', p') = Some (cs'', p'') \<and> wf (cs'', p'')
    \<and> tracked p'' = (tracked p)(ch_fd (cs ch) := None)"
  using assms
proof (induction es arbitrary: cs p e)
  case Nil
  obtain cs1 p1 where u: "upd ch (put_events e ch cs, p) = Some (cs1, p1)" "wf (cs1, p1)"
      "tracked p1 = (tracked p)(ch_fd (cs ch) \<mapsto> ch)"
    using upd_ok [OF Nil] by blast
  have fd: "ch_fd (cs1 ch) = ch_fd (cs ch)" using upd_events [OF u(1)] by simp
  have "(tracked p1)(ch_fd (cs1 ch) := None) = (tracked p)(ch_fd (cs ch) := None)"
    by (simp add: u(3) fd)
  moreover have "tracked p1 (ch_fd (cs1 ch)) = Some ch" by (simp add: u(3) fd)
  ultimately show ?case using u rem_ok [of cs1 p1 ch] by (auto simp del: fun_upd_apply)
next
  case (Cons e' es)
  obtain cs1 p1 where u: "upd ch (put_events e ch cs, p) = Some (cs1, p1)" "wf (cs1, p1)"
      "tracked p1 = (tracked p)(ch_fd (cs ch) \<mapsto> ch)"
    using upd_ok [OF Cons.prems] by blast
  have fd: "ch_fd (cs1 ch) = ch_fd (cs ch)" using upd_events [OF u(1)] by simp
  have "(tracked p1)(ch_fd (cs1 ch) := None) = (tracked p)(ch_fd (cs ch) := None)"
    by (simp add: u(3) fd)
  with Cons.IH [OF u(2) upd_usable(2) [OF Cons.prems u(1)], of e'] u show ?case
    by (auto simp del: fun_upd_apply)
qed

end

section \<open>Epoll provides the interface\<close>

text \<open>The state of one descriptor: untracked, registered with its events, or switched off.\<close>

definition epoll_slot :: "'cb chans \<Rightarrow> epoll_poller \<Rightarrow> int \<Rightarrow> bool" where
  "epoll_slot cs p fd \<longleftrightarrow> (case ep_channels p fd of
     None \<Rightarrow> ep_interest p fd = None
   | Some ch \<Rightarrow> ch_fd (cs ch) = fd
       \<and> (ch_index (cs ch) = kAdded \<and> ep_interest p fd = Some (ch_events (cs ch), ch)
          \<or> ch_index (cs ch) = kDeleted \<and> ep_interest p fd = None \<and> isNoneEvent (cs ch)))"

definition epoll_wf :: "'cb chans \<times> epoll_poller \<Rightarrow> bool" where
  "epoll_wf s \<longleftrightarrow> (case s of (cs, p) \<Rightarrow> (\<forall>fd. epoll_slot cs p fd) \<and> ctl_ok (ep_ctl p))"

lemma epoll_slot_frame:
  assumes "epoll_slot cs p fd" and "fd \<noteq> ch_fd (cs ch)"
    and "ep_channels p' fd = ep_channels p fd" and "ep_interest p' fd = ep_interest p fd"
    and "\<And>c. c \<noteq> ch \<Longrightarrow> cs' c = cs c"
  shows "epoll_slot cs' p' fd"
proof (cases "ep_channels p fd")
  case (Some c)
  with assms(1,2) have "c \<noteq> ch" by (auto simp: epoll_slot_def)
  with assms Some show ?thesis by (simp add: epoll_slot_def)
qed (use assms in \<open>simp add: epoll_slot_def\<close>)

lemma epoll_wf_step:
  assumes wf: "epoll_wf (cs, p)"
    and other: "\<And>fd. fd \<noteq> ch_fd (cs ch) \<Longrightarrow>
      ep_channels p' fd = ep_channels p fd \<and> ep_interest p' fd = ep_interest p fd"
    and heap: "\<And>c. c \<noteq> ch \<Longrightarrow> cs' c = cs c"
    and own: "epoll_slot cs' p' (ch_fd (cs ch))" and ctl: "ep_ctl p' = ep_ctl p"
  shows "epoll_wf (cs', p')"
proof -
  have "epoll_slot cs' p' fd" for fd
  proof (cases "fd = ch_fd (cs ch)")
    case True
    with own show ?thesis by simp
  next
    case False
    have "epoll_slot cs p fd" using wf by (simp add: epoll_wf_def)
    from epoll_slot_frame [OF this False, of p' cs'] other [OF False] heap show ?thesis by simp
  qed
  with wf ctl show ?thesis by (auto simp: epoll_wf_def)
qed

lemma set_same_index: "ch_index c = i \<Longrightarrow> c\<lparr>ch_events := e, ch_index := i\<rparr> = c\<lparr>ch_events := e\<rparr>"
  by (cases c) simp

lemmas epoll_defs = set_same_index Let_def epoll_updateChannel_def epoll_update_def epoll_removeChannel_def
  set_index_def put_events_def isNoneEvent_def kNew_def kAdded_def kDeleted_def kNoneEvent_def

lemma epoll_upd_keeps:
  "epoll_updateChannel ch (cs, p) = Some (cs', p') \<Longrightarrow> same_but_index cs cs'"
  by (auto simp: epoll_updateChannel_def epoll_update_def Let_def
      split: if_splits Option.bind_splits)

lemma epoll_rem_keeps:
  "epoll_removeChannel ch (cs, p) = Some (cs', p') \<Longrightarrow> same_but_index cs cs'"
  by (auto simp: epoll_removeChannel_def epoll_update_def Let_def
      split: if_splits Option.bind_splits)

lemma ctl_okD: "ctl_ok ctl \<Longrightarrow> ctl m op fd = (if op = EPOLL_CTL_ADD then m fd = None else m fd \<noteq> None)"
  by (simp add: ctl_ok_def)

text \<open>The cases of a usable channel, and of a tracked one.\<close>

lemma epoll_tracked_cases:
  assumes "epoll_wf (cs, p)" and "ep_channels p (ch_fd (cs ch)) = Some ch"
  obtains "ch_index (cs ch) = 1" "ep_interest p (ch_fd (cs ch)) = Some (ch_events (cs ch), ch)"
    | "ch_index (cs ch) = 2" "ep_interest p (ch_fd (cs ch)) = None"
proof -
  have "epoll_slot cs p (ch_fd (cs ch))" using assms(1) by (simp add: epoll_wf_def)
  with assms(2) that show ?thesis by (auto simp: epoll_slot_def kAdded_def kDeleted_def)
qed

lemma epoll_upd_ok:
  assumes wf: "epoll_wf (cs, p)" and us: "usable (ep_channels p) ch cs"
  shows "\<exists>cs' p'. epoll_updateChannel ch (put_events e ch cs, p) = Some (cs', p') \<and> epoll_wf (cs', p')
    \<and> ep_channels p' = (ep_channels p)(ch_fd (cs ch) \<mapsto> ch)"
proof -
  have ctl: "ctl_ok (ep_ctl p)" using wf by (simp add: epoll_wf_def)
  note c = ctl_okD [OF ctl]
  let ?fd = "ch_fd (cs ch)" and ?c = "(cs ch)\<lparr>ch_events := e\<rparr>"
  let ?added = "(cs(ch := set_index 1 ?c), p\<lparr>ep_channels := (ep_channels p)(?fd \<mapsto> ch),
      ep_interest := (ep_interest p)(?fd \<mapsto> (e, ch))\<rparr>)"
  let ?off = "(cs(ch := set_index 2 ?c), p\<lparr>ep_channels := (ep_channels p)(?fd \<mapsto> ch),
      ep_interest := (ep_interest p)(?fd := None)\<rparr>)"
  have "epoll_wf ?added"
    by (rule epoll_wf_step [OF wf, of ch])
      (simp_all add: epoll_slot_def set_index_def kAdded_def)
  moreover have "epoll_wf ?off" if "e = 0"
    by (rule epoll_wf_step [OF wf, of ch])
      (simp_all add: epoll_slot_def set_index_def kDeleted_def isNoneEvent_def kNoneEvent_def that)
  moreover have "epoll_updateChannel ch (put_events e ch cs, p) = Some ?added
    \<or> e = 0 \<and> epoll_updateChannel ch (put_events e ch cs, p) = Some ?off"
  proof (cases "ep_channels p ?fd = Some ch")
    case True
    then have same: "(ep_channels p)(?fd \<mapsto> ch) = ep_channels p" by (simp add: fun_upd_idem)
    from wf True show ?thesis
    proof (cases rule: epoll_tracked_cases)
      case 1
      then show ?thesis
        by (cases "e = 0") (simp_all add: epoll_defs c same fun_upd_idem)
    next
      case 2
      then show ?thesis by (simp add: epoll_defs c same)
    qed
  next
    case False
    with us have new: "ch_index (cs ch) = -1" "ep_channels p ?fd = None"
      by (auto simp: usable_def)
    moreover have "epoll_slot cs p ?fd" using wf by (simp add: epoll_wf_def)
    ultimately have "ep_interest p ?fd = None" by (simp add: epoll_slot_def)
    with new show ?thesis by (simp add: epoll_defs c)
  qed
  ultimately show ?thesis by fastforce
qed

lemma epoll_rem_ok:
  assumes wf: "epoll_wf (cs, p)" and tr: "ep_channels p (ch_fd (cs ch)) = Some ch"
  shows "\<exists>cs' p'. epoll_removeChannel ch (cs, p) = Some (cs', p') \<and> epoll_wf (cs', p')
    \<and> ep_channels p' = (ep_channels p)(ch_fd (cs ch) := None)"
proof -
  have ctl: "ctl_ok (ep_ctl p)" using wf by (simp add: epoll_wf_def)
  note c = ctl_okD [OF ctl]
  let ?fd = "ch_fd (cs ch)"
  let ?gone = "(cs(ch := set_index (-1) (cs ch)), p\<lparr>ep_channels := (ep_channels p)(?fd := None),
      ep_interest := (ep_interest p)(?fd := None)\<rparr>)"
  have "epoll_wf ?gone"
    by (rule epoll_wf_step [OF wf, of ch]) (simp_all add: epoll_slot_def)
  moreover from wf tr have "epoll_removeChannel ch (cs, p) = Some ?gone"
    by (cases rule: epoll_tracked_cases) (simp_all add: epoll_defs c fun_upd_idem)
  ultimately show ?thesis by auto
qed

interpretation epoll_iface: poller_iface epoll_updateChannel epoll_removeChannel ep_channels epoll_wf
  by unfold_locales (rule epoll_upd_keeps epoll_rem_keeps epoll_upd_ok epoll_rem_ok, assumption+)+

lemma epoll_wf_new: "ctl_ok ctl \<Longrightarrow> epoll_wf (cs, new_epoll ctl)"
  by (simp add: epoll_wf_def epoll_slot_def new_epoll_def)

section \<open>Poll provides the interface\<close>

text \<open>An array entry is switched off by storing \<open>- fd - 1\<close>; this undoes it.\<close>

definition decode_fd :: "int \<Rightarrow> int" where
  "decode_fd x = (if x < 0 then - x - 1 else x)"

lemma decode_fd [simp]: "0 \<le> fd \<Longrightarrow> decode_fd fd = fd" "0 \<le> fd \<Longrightarrow> decode_fd (- fd - 1) = fd"
  by (simp_all add: decode_fd_def)

definition entry_of :: "pollfd \<Rightarrow> 'cb channel \<Rightarrow> bool" where
  "entry_of q c \<longleftrightarrow> (pfd_fd q = ch_fd c \<or> pfd_fd q = - ch_fd c - 1 \<and> isNoneEvent c)
     \<and> pfd_events q = ucast (ch_events c)"

definition poll_wf :: "'cb chans \<times> poll_poller \<Rightarrow> bool" where
  "poll_wf s \<longleftrightarrow> (case s of (cs, p) \<Rightarrow>
     (\<forall>fd ch. pp_channels p fd = Some ch \<longrightarrow> ch_fd (cs ch) = fd \<and> 0 \<le> fd \<and> 0 \<le> ch_index (cs ch)
        \<and> nat (ch_index (cs ch)) < length (pp_pollfds p)
        \<and> entry_of (pp_pollfds p ! nat (ch_index (cs ch))) (cs ch))
     \<and> (\<forall>i < length (pp_pollfds p). \<exists>ch. pp_channels p (decode_fd (pfd_fd (pp_pollfds p ! i))) = Some ch
        \<and> ch_index (cs ch) = int i))"

lemma poll_wf_entry:
  "poll_wf (cs, p) \<Longrightarrow> pp_channels p fd = Some ch \<Longrightarrow> ch_fd (cs ch) = fd \<and> 0 \<le> fd
    \<and> 0 \<le> ch_index (cs ch) \<and> nat (ch_index (cs ch)) < length (pp_pollfds p)
    \<and> entry_of (pp_pollfds p ! nat (ch_index (cs ch))) (cs ch)"
  by (simp add: poll_wf_def)

lemma poll_wf_index:
  "poll_wf (cs, p) \<Longrightarrow> i < length (pp_pollfds p) \<Longrightarrow>
    \<exists>ch. pp_channels p (decode_fd (pfd_fd (pp_pollfds p ! i))) = Some ch \<and> ch_index (cs ch) = int i"
  by (simp add: poll_wf_def)

lemma entry_decode: "0 \<le> ch_fd c \<Longrightarrow> entry_of q c \<Longrightarrow> decode_fd (pfd_fd q) = ch_fd c"
  by (auto simp: entry_of_def)

text \<open>No two tracked channels share an index.\<close>

lemma poll_wf_inj:
  assumes wf: "poll_wf (cs, p)" and a: "pp_channels p fa = Some a" and b: "pp_channels p fb = Some b"
    and eq: "ch_index (cs a) = ch_index (cs b)"
  shows "a = b"
proof -
  let ?q = "pp_pollfds p ! nat (ch_index (cs a))"
  have "decode_fd (pfd_fd ?q) = fa" "decode_fd (pfd_fd ?q) = fb"
    using poll_wf_entry [OF wf a] poll_wf_entry [OF wf b] eq entry_decode by metis+
  with a b show ?thesis by simp
qed

lemma poll_upd_keeps: "poll_updateChannel ch (cs, p) = Some (cs', p') \<Longrightarrow> same_but_index cs cs'"
  by (auto simp: poll_updateChannel_def Let_def split: if_splits)

lemma poll_rem_keeps: "poll_removeChannel ch (cs, p) = Some (cs', p') \<Longrightarrow> same_but_index cs cs'"
  by (auto simp: poll_removeChannel_def Let_def split: if_splits option.splits)

text \<open>Well-formedness of a new state, from its entries.\<close>

lemma poll_wfI:
  assumes "\<And>fd c. pp_channels p fd = Some c \<Longrightarrow> ch_fd (cs c) = fd \<and> 0 \<le> fd \<and> 0 \<le> ch_index (cs c)
      \<and> nat (ch_index (cs c)) < length (pp_pollfds p)
      \<and> entry_of (pp_pollfds p ! nat (ch_index (cs c))) (cs c)"
    and "\<And>i. i < length (pp_pollfds p) \<Longrightarrow>
      \<exists>c. pp_channels p (decode_fd (pfd_fd (pp_pollfds p ! i))) = Some c \<and> ch_index (cs c) = int i"
  shows "poll_wf (cs, p)"
  using assms by (simp add: poll_wf_def)

lemma poll_upd_tracked:
  assumes wf: "poll_wf (cs, p)" and tr: "pp_channels p (ch_fd (cs ch)) = Some ch"
  shows "\<exists>p'. poll_updateChannel ch (put_events e ch cs, p) = Some (put_events e ch cs, p')
    \<and> poll_wf (put_events e ch cs, p') \<and> pp_channels p' = pp_channels p"
proof -
  define k where "k = nat (ch_index (cs ch))"
  define q where "q = \<lparr>pfd_fd = (if e = 0 then - ch_fd (cs ch) - 1 else ch_fd (cs ch)),
    pfd_events = ucast e, pfd_revents = 0\<rparr>"
  define p' where "p' = p\<lparr>pp_pollfds := (pp_pollfds p)[k := q]\<rparr>"
  note own = poll_wf_entry [OF wf tr]
  then have k: "k < length (pp_pollfds p)" "int k = ch_index (cs ch)" by (auto simp: k_def)
  have nonneg: "(ch_index (cs ch) < 0) = False" using own by simp
  have eq: "poll_updateChannel ch (put_events e ch cs, p) = Some (put_events e ch cs, p')"
    using nonneg k(1) by (simp add: poll_updateChannel_def put_events_def isNoneEvent_def kNoneEvent_def
        p'_def q_def k_def)
  have dq: "decode_fd (pfd_fd q) = ch_fd (cs ch)" using own by (simp add: q_def)
  have "poll_wf (put_events e ch cs, p')"
  proof (rule poll_wfI, goal_cases)
    case (1 fd c)
    then have c: "pp_channels p fd = Some c" by (simp add: p'_def)
    show ?case
    proof (cases "c = ch")
      case True
      then show ?thesis using poll_wf_entry [OF wf c] k(1) unfolding k_def
        by (auto simp: p'_def put_events_def entry_of_def q_def k_def isNoneEvent_def kNoneEvent_def)
    next
      case False
      then have "nat (ch_index (cs c)) \<noteq> k"
        using poll_wf_inj [OF wf c tr] poll_wf_entry [OF wf c] k by auto
      with False show ?thesis using poll_wf_entry [OF wf c]
        by (simp add: p'_def put_events_def)
    qed
  next
    case (2 i)
    then have i: "i < length (pp_pollfds p)" by (simp add: p'_def)
    show ?case
    proof (cases "i = k")
      case True
      with i k dq tr show ?thesis by (auto simp: p'_def put_events_def)
    next
      case False
      obtain c where "pp_channels p (decode_fd (pfd_fd (pp_pollfds p ! i))) = Some c"
          "ch_index (cs c) = int i"
        using poll_wf_index [OF wf i] by blast
      with False k show ?thesis by (auto simp: p'_def put_events_def)
    qed
  qed
  with eq show ?thesis by (auto simp: p'_def)
qed

lemma poll_upd_new:
  assumes wf: "poll_wf (cs, p)" and new: "pp_channels p (ch_fd (cs ch)) = None"
    and idx: "ch_index (cs ch) = -1" and fd: "0 \<le> ch_fd (cs ch)"
  shows "\<exists>cs' p'. poll_updateChannel ch (put_events e ch cs, p) = Some (cs', p')
    \<and> poll_wf (cs', p') \<and> pp_channels p' = (pp_channels p)(ch_fd (cs ch) \<mapsto> ch)"
proof -
  let ?n = "length (pp_pollfds p)"
  define q where "q = \<lparr>pfd_fd = ch_fd (cs ch), pfd_events = ucast e, pfd_revents = 0\<rparr>"
  define p' where "p' = p\<lparr>pp_pollfds := pp_pollfds p @ [q],
    pp_channels := (pp_channels p)(ch_fd (cs ch) \<mapsto> ch)\<rparr>"
  define cs' where "cs' = cs(ch := (cs ch)\<lparr>ch_events := e, ch_index := int ?n\<rparr>)"
  have eq: "poll_updateChannel ch (put_events e ch cs, p) = Some (cs', p')"
    using idx by (simp add: poll_updateChannel_def put_events_def set_index_def p'_def cs'_def q_def)
  have "poll_wf (cs', p')"
  proof (rule poll_wfI, goal_cases)
    case (1 fd c)
    show ?case
    proof (cases "fd = ch_fd (cs ch)")
      case True
      with 1 fd show ?thesis by (simp add: p'_def cs'_def entry_of_def q_def)
    next
      case False
      with 1 have c: "pp_channels p fd = Some c" by (simp add: p'_def)
      with False have "c \<noteq> ch" using poll_wf_entry [OF wf c] by auto
      with poll_wf_entry [OF wf c] show ?thesis by (simp add: p'_def cs'_def nth_append)
    qed
  next
    case (2 i)
    show ?case
    proof (cases "i = ?n")
      case True
      with fd show ?thesis by (simp add: p'_def cs'_def q_def)
    next
      case False
      with 2 have i: "i < ?n" by (simp add: p'_def)
      obtain c where c: "pp_channels p (decode_fd (pfd_fd (pp_pollfds p ! i))) = Some c"
          "ch_index (cs c) = int i"
        using poll_wf_index [OF wf i] by blast
      with i idx new show ?thesis by (auto simp: p'_def cs'_def nth_append)
    qed
  qed
  with eq show ?thesis by (auto simp: p'_def)
qed

lemma poll_upd_ok:
  assumes wf: "poll_wf (cs, p)" and us: "usable (pp_channels p) ch cs"
  shows "\<exists>cs' p'. poll_updateChannel ch (put_events e ch cs, p) = Some (cs', p') \<and> poll_wf (cs', p')
    \<and> pp_channels p' = (pp_channels p)(ch_fd (cs ch) \<mapsto> ch)"
proof (cases "pp_channels p (ch_fd (cs ch)) = Some ch")
  case True
  with poll_upd_tracked [OF wf True, of e] show ?thesis by (auto simp: fun_upd_idem)
next
  case False
  with us poll_upd_new [OF wf, of ch e] show ?thesis by (simp add: usable_def)
qed

lemma nth_butlast_swap:
  assumes "i < length xs - 1" and "j < length xs - 1"
  shows "butlast (xs[i := last xs, length xs - 1 := y]) ! j = (if j = i then last xs else xs ! j)"
  using assms by (simp add: nth_butlast)

lemma poll_rem_ok:
  assumes wf: "poll_wf (cs, p)" and tr: "pp_channels p (ch_fd (cs ch)) = Some ch"
  shows "\<exists>cs' p'. poll_removeChannel ch (cs, p) = Some (cs', p') \<and> poll_wf (cs', p')
    \<and> pp_channels p' = (pp_channels p)(ch_fd (cs ch) := None)"
proof -
  define k where "k = nat (ch_index (cs ch))"
  define fds where "fds = pp_pollfds p"
  define l where "l = length fds - 1"
  define m where "m = (pp_channels p)(ch_fd (cs ch) := None)"
  note own = poll_wf_entry [OF wf tr]
  then have k: "k < length fds" "int k = ch_index (cs ch)" by (auto simp: k_def fds_def)
  have m_Some: "m fd = Some c \<Longrightarrow> pp_channels p fd = Some c \<and> c \<noteq> ch \<and> nat (ch_index (cs c)) \<noteq> k" for fd c
    using poll_wf_entry [OF wf, of fd c] poll_wf_inj [OF wf _ tr, of fd c] k
    by (auto simp: m_def split: if_splits)
  have m_I: "pp_channels p fd = Some c \<Longrightarrow> c \<noteq> ch \<Longrightarrow> m fd = Some c" for fd c
    using tr by (auto simp: m_def)
  show ?thesis
  proof (cases "k = l")
    case True
    define p' where "p' = p\<lparr>pp_channels := m, pp_pollfds := butlast fds\<rparr>"
    have eq: "poll_removeChannel ch (cs, p) = Some (cs, p')"
      using own True by (simp add: poll_removeChannel_def p'_def m_def k_def l_def fds_def)
    have "poll_wf (cs, p')"
    proof (rule poll_wfI, goal_cases)
      case (1 fd c)
      with m_Some [of fd c] have c: "pp_channels p fd = Some c" "nat (ch_index (cs c)) \<noteq> l"
        using True by (auto simp: p'_def)
      moreover have "nat (ch_index (cs c)) < length (pp_pollfds p)"
        using poll_wf_entry [OF wf c(1)] by simp
      ultimately have "nat (ch_index (cs c)) < l"
        unfolding l_def fds_def by linarith
      with poll_wf_entry [OF wf c(1)] show ?case
        by (simp add: p'_def l_def fds_def nth_butlast)
    next
      case (2 i)
      then have i: "i < l" by (simp add: p'_def l_def)
      then have "i < length (pp_pollfds p)" unfolding l_def fds_def by linarith
      then obtain c where "pp_channels p (decode_fd (pfd_fd (fds ! i))) = Some c" "ch_index (cs c) = int i"
        using poll_wf_index [OF wf] unfolding fds_def by blast
      moreover from this have "c \<noteq> ch" using i True k by auto
      ultimately show ?case using m_I i by (auto simp: p'_def nth_butlast l_def)
    qed
    with eq show ?thesis by (auto simp: p'_def m_def)
  next
    case False
    with k have kl: "k < l" "l < length fds" by (auto simp: l_def)
    then have "fds \<noteq> []" by auto
    then have last: "last fds = fds ! l" by (simp add: last_conv_nth l_def)
    obtain other where o: "pp_channels p (decode_fd (pfd_fd (last fds))) = Some other"
        "ch_index (cs other) = int l"
      using poll_wf_index [OF wf, of l] kl(2) unfolding last unfolding fds_def by blast
    have ne: "other \<noteq> ch" using o(2) k kl by auto
    define fds' where "fds' = butlast (fds[k := last fds, l := fds ! k])"
    define cs' where "cs' = cs(other := set_index (int k) (cs other))"
    define p' where "p' = p\<lparr>pp_channels := m, pp_pollfds := fds'\<rparr>"
    have nth': "j < l \<Longrightarrow> fds' ! j = (if j = k then last fds else fds ! j)" for j
      using nth_butlast_swap [of k fds j "fds ! k"] kl by (simp add: fds'_def l_def)
    have len': "length fds' = l" by (simp add: fds'_def l_def)
    have eq: "poll_removeChannel ch (cs, p) = Some (cs', p')"
      using own False k(1) m_I [OF o(1) ne]
      unfolding p'_def cs'_def m_def k_def l_def fds_def fds'_def
      by (auto simp: poll_removeChannel_def Let_def decode_fd_def split: if_splits)
    have "poll_wf (cs', p')"
    proof (rule poll_wfI, goal_cases)
      case (1 fd c)
      with m_Some [of fd c] have c: "pp_channels p fd = Some c" "nat (ch_index (cs c)) \<noteq> k"
        by (auto simp: p'_def)
      note e = poll_wf_entry [OF wf c(1)]
      show ?case
      proof (cases "c = other")
        case True
        with e o(2) kl show ?thesis
          by (auto simp: p'_def cs'_def len' nth' set_index_def entry_of_def isNoneEvent_def
              last [unfolded fds_def] fds_def)
      next
        case False
        then have "nat (ch_index (cs c)) \<noteq> l"
          using poll_wf_inj [OF wf c(1) o(1)] e o(2) by auto
        moreover have "nat (ch_index (cs c)) < length (pp_pollfds p)" using e by simp
        ultimately have "nat (ch_index (cs c)) < l" unfolding l_def fds_def by linarith
        with e c(2) False show ?thesis by (simp add: p'_def cs'_def len' nth' fds_def)
      qed
    next
      case (2 i)
      then have i: "i < l" by (simp add: p'_def len')
      show ?case
      proof (cases "i = k")
        case True
        with i m_I [OF o(1) ne] show ?thesis by (auto simp: p'_def nth' cs'_def set_index_def)
      next
        case False
        have "i < length (pp_pollfds p)" using i kl by (simp add: fds_def)
        then obtain c where c: "pp_channels p (decode_fd (pfd_fd (fds ! i))) = Some c" "ch_index (cs c) = int i"
          using poll_wf_index [OF wf] unfolding fds_def by blast
        then have "c \<noteq> ch" "c \<noteq> other" using False i k o(2) by auto
        with c i False m_I show ?thesis by (auto simp: p'_def nth' cs'_def)
      qed
    qed
    with eq show ?thesis by (auto simp: p'_def m_def)
  qed
qed

interpretation poll_iface: poller_iface poll_updateChannel poll_removeChannel pp_channels poll_wf
  by unfold_locales (rule poll_upd_keeps poll_rem_keeps poll_upd_ok poll_rem_ok, assumption+)+

lemma poll_wf_new: "poll_wf (cs, new_pollpoller)"
  by (simp add: poll_wf_def new_pollpoller_def)

section \<open>The default poller\<close>

datatype poller = Epoll epoll_poller | Poll poll_poller

text \<open>\<open>Poller::newDefaultPoller\<close>: the choice is the environment variable \<open>USE_POLL\<close>.\<close>

definition newDefaultPoller :: "bool \<Rightarrow> (interest \<Rightarrow> ctl_op \<Rightarrow> int \<Rightarrow> bool) \<Rightarrow> poller" where
  "newDefaultPoller use_poll ctl = (if use_poll then Poll new_pollpoller else Epoll (new_epoll ctl))"

definition poller_updateChannel :: "nat \<Rightarrow> 'cb chans \<times> poller \<Rightarrow> ('cb chans \<times> poller) option" where
  "poller_updateChannel ch s = (case s of
     (cs, Epoll p) \<Rightarrow> map_option (apsnd Epoll) (epoll_updateChannel ch (cs, p))
   | (cs, Poll p) \<Rightarrow> map_option (apsnd Poll) (poll_updateChannel ch (cs, p)))"

definition poller_removeChannel :: "nat \<Rightarrow> 'cb chans \<times> poller \<Rightarrow> ('cb chans \<times> poller) option" where
  "poller_removeChannel ch s = (case s of
     (cs, Epoll p) \<Rightarrow> map_option (apsnd Epoll) (epoll_removeChannel ch (cs, p))
   | (cs, Poll p) \<Rightarrow> map_option (apsnd Poll) (poll_removeChannel ch (cs, p)))"

definition poller_channels :: "poller \<Rightarrow> int \<rightharpoonup> nat" where
  "poller_channels p = (case p of Epoll q \<Rightarrow> ep_channels q | Poll q \<Rightarrow> pp_channels q)"

definition hasChannel :: "nat \<Rightarrow> 'cb chans \<times> poller \<Rightarrow> bool" where
  "hasChannel ch s = (case s of
     (cs, Epoll p) \<Rightarrow> epoll_hasChannel ch (cs, p)
   | (cs, Poll p) \<Rightarrow> poll_hasChannel ch (cs, p))"

definition poller_wf :: "'cb chans \<times> poller \<Rightarrow> bool" where
  "poller_wf s \<longleftrightarrow> (case s of
     (cs, Epoll p) \<Rightarrow> epoll_wf (cs, p)
   | (cs, Poll p) \<Rightarrow> poll_wf (cs, p))"

lemmas poller_defs = poller_updateChannel_def poller_removeChannel_def poller_channels_def poller_wf_def

lemma hasChannel_eq: "hasChannel ch (cs, p) \<longleftrightarrow> poller_channels p (ch_fd (cs ch)) = Some ch"
  by (simp add: hasChannel_def poller_channels_def epoll_hasChannel_def poll_hasChannel_def
      split: poller.split)

lemma poller_upd_keeps: "poller_updateChannel ch (cs, p) = Some (cs', p') \<Longrightarrow> same_but_index cs cs'"
  by (auto simp: poller_defs split: poller.splits intro: epoll_upd_keeps poll_upd_keeps)

lemma poller_rem_keeps: "poller_removeChannel ch (cs, p) = Some (cs', p') \<Longrightarrow> same_but_index cs cs'"
  by (auto simp: poller_defs split: poller.splits intro: epoll_rem_keeps poll_rem_keeps)

lemma poller_upd_ok:
  assumes "poller_wf (cs, p)" and "usable (poller_channels p) ch cs"
  shows "\<exists>cs' p'. poller_updateChannel ch (put_events e ch cs, p) = Some (cs', p') \<and> poller_wf (cs', p')
    \<and> poller_channels p' = (poller_channels p)(ch_fd (cs ch) \<mapsto> ch)"
proof (cases p)
  case (Epoll q)
  with assms epoll_iface.upd_ok [of cs q ch e] show ?thesis by (fastforce simp: poller_defs)
next
  case (Poll q)
  with assms poll_iface.upd_ok [of cs q ch e] show ?thesis by (fastforce simp: poller_defs)
qed

lemma poller_rem_ok:
  assumes "poller_wf (cs, p)" and "poller_channels p (ch_fd (cs ch)) = Some ch"
  shows "\<exists>cs' p'. poller_removeChannel ch (cs, p) = Some (cs', p') \<and> poller_wf (cs', p')
    \<and> poller_channels p' = (poller_channels p)(ch_fd (cs ch) := None)"
proof (cases p)
  case (Epoll q)
  with assms epoll_iface.rem_ok [of cs q ch] show ?thesis by (fastforce simp: poller_defs)
next
  case (Poll q)
  with assms poll_iface.rem_ok [of cs q ch] show ?thesis by (fastforce simp: poller_defs)
qed

interpretation poller_if: poller_iface poller_updateChannel poller_removeChannel poller_channels poller_wf
  by unfold_locales (rule poller_upd_keeps poller_rem_keeps poller_upd_ok poller_rem_ok, assumption+)+

lemma poller_wf_new: "ctl_ok ctl \<Longrightarrow> poller_wf (cs, newDefaultPoller up ctl)"
  by (simp add: newDefaultPoller_def poller_wf_def epoll_wf_new poll_wf_new)

section \<open>Histories of a poller\<close>

text \<open>
  What a loop may do with its poller: change the interest of a usable channel, remove a
  tracked one, and construct or destroy a channel that is not tracked.
\<close>

inductive poller_reach ::
  "bool \<Rightarrow> (interest \<Rightarrow> ctl_op \<Rightarrow> int \<Rightarrow> bool) \<Rightarrow> 'cb chans \<times> poller \<Rightarrow> bool" for up ctl where
  start: "poller_reach up ctl (cs, newDefaultPoller up ctl)"
| update: "poller_reach up ctl (cs, p) \<Longrightarrow> usable (poller_channels p) ch cs \<Longrightarrow>
    poller_updateChannel ch (put_events e ch cs, p) = Some s' \<Longrightarrow> poller_reach up ctl s'"
| remove: "poller_reach up ctl (cs, p) \<Longrightarrow> hasChannel ch (cs, p) \<Longrightarrow>
    poller_removeChannel ch (cs, p) = Some s' \<Longrightarrow> poller_reach up ctl s'"
| renew: "poller_reach up ctl (cs, p) \<Longrightarrow> \<not> hasChannel ch (cs, p) \<Longrightarrow>
    poller_reach up ctl (cs(ch := c), p)"

lemma poller_wf_renew:
  assumes wf: "poller_wf (cs, p)" and "\<not> hasChannel ch (cs, p)"
  shows "poller_wf (cs(ch := c), p)"
proof (cases p)
  case (Epoll q)
  have slot: "epoll_slot cs q fd" for fd using wf Epoll by (simp add: poller_defs epoll_wf_def)
  have "ep_channels q fd \<noteq> Some ch" for fd
    using assms(2) slot [of fd] by (auto simp: Epoll hasChannel_eq poller_defs epoll_slot_def)
  then have "epoll_slot (cs(ch := c)) q fd" for fd
    using slot [of fd] by (auto simp: epoll_slot_def split: option.splits)
  with wf Epoll show ?thesis by (auto simp: poller_defs epoll_wf_def)
next
  case (Poll q)
  with wf have q: "poll_wf (cs, q)" by (simp add: poller_defs)
  have ne: "pp_channels q fd \<noteq> Some ch" for fd
    using assms(2) poll_wf_entry [OF q, of fd ch] by (auto simp: Poll hasChannel_eq poller_defs)
  have "poll_wf (cs(ch := c), q)"
  proof (rule poll_wfI, goal_cases)
    case (1 fd d)
    with ne have "d \<noteq> ch" by auto
    with poll_wf_entry [OF q 1] show ?case by simp
  next
    case (2 i)
    obtain d where d: "pp_channels q (decode_fd (pfd_fd (pp_pollfds q ! i))) = Some d"
        "ch_index (cs d) = int i"
      using poll_wf_index [OF q 2] by blast
    with ne have "d \<noteq> ch" by auto
    with d show ?case by simp
  qed
  with Poll show ?thesis by (simp add: poller_defs)
qed

lemma poller_reach_wf:
  assumes "ctl_ok ctl" and "poller_reach up ctl s"
  shows "poller_wf s"
  using assms(2)
proof induction
  case (start cs)
  from assms(1) show ?case by (rule poller_wf_new)
next
  case (update cs p ch e s')
  then show ?case using poller_upd_ok [of cs p ch e] by auto
next
  case (remove cs p ch s')
  then show ?case using poller_rem_ok [of cs p ch] by (auto simp: hasChannel_eq)
next
  case (renew cs p ch c)
  then show ?case by (simp add: poller_wf_renew)
qed

text \<open>
  C30: A loop that follows the protocol of its default poller, by \<open>epoll\<close> or by \<open>poll\<close>: it updates channels
  with a descriptor that is not negative, and only those that are tracked under it or that have the index -1, while
  nothing is tracked under it, and it removes channels that are tracked. Then the next registration, interest
  change or removal never aborts and never reads outside the descriptor array: an update leaves the channel tracked
  under its descriptor with the requested interest, a removal leaves it untracked, and neither changes what
  is tracked for another descriptor. New channels have the index -1, and so have those that \<open>epoll\<close> has
  removed; a channel that \<open>poll\<close> has removed keeps its index, and to update it again breaks the protocol
  (\<open>poll_remove_then_update\<close>).
\<close>
theorem poller_protocol_safe:
  assumes "ctl_ok ctl" and "poller_reach up ctl (cs, p)"
  shows "(usable (poller_channels p) ch cs \<longrightarrow>
      (\<exists>cs' p'. poller_updateChannel ch (put_events e ch cs, p) = Some (cs', p')
        \<and> ch_events (cs' ch) = e \<and> poller_channels p' = (poller_channels p)(ch_fd (cs ch) \<mapsto> ch)))
    \<and> (hasChannel ch (cs, p) \<longrightarrow>
      (\<exists>cs' p'. poller_removeChannel ch (cs, p) = Some (cs', p')
        \<and> poller_channels p' = (poller_channels p)(ch_fd (cs ch) := None)))"
proof (intro conjI impI)
  note wf = poller_reach_wf [OF assms]
  show "\<exists>cs' p'. poller_updateChannel ch (put_events e ch cs, p) = Some (cs', p')
      \<and> ch_events (cs' ch) = e \<and> poller_channels p' = (poller_channels p)(ch_fd (cs ch) \<mapsto> ch)"
    if "usable (poller_channels p) ch cs"
    using poller_if.upd_ok [OF wf that, of e] poller_if.upd_events(1) by blast
next
  note wf = poller_reach_wf [OF assms]
  show "\<exists>cs' p'. poller_removeChannel ch (cs, p) = Some (cs', p')
      \<and> poller_channels p' = (poller_channels p)(ch_fd (cs ch) := None)"
    if "hasChannel ch (cs, p)"
    using poller_if.rem_ok [OF wf that [unfolded hasChannel_eq]] by blast
qed

definition linux_ctl :: "interest \<Rightarrow> ctl_op \<Rightarrow> int \<Rightarrow> bool" where
  "linux_ctl m operation fd = (if operation = EPOLL_CTL_ADD then m fd = None else m fd \<noteq> None)"

lemma linux_ctl_ok: "ctl_ok linux_ctl"
  by (simp add: ctl_ok_def linux_ctl_def)

definition witness_chans :: "unit chans" where
  "witness_chans i = new_channel (int i + 5)"

theorem poller_protocol_safe_witness:
  "let s = (witness_chans, newDefaultPoller True linux_ctl) in
    usable (poller_channels (snd s)) 2 (fst s)
    \<and> (\<exists>cs' p'. poller_updateChannel 2 (put_events 3 2 (fst s), snd s) = Some (cs', p')
      \<and> ch_events (cs' 2) = 3 \<and> poller_channels p' = (poller_channels (snd s))(7 \<mapsto> 2))"
proof -
  have us: "usable (poller_channels (newDefaultPoller True linux_ctl)) 2 witness_chans"
    by (simp add: usable_def witness_chans_def new_channel_def newDefaultPoller_def
        poller_channels_def new_pollpoller_def)
  have "ch_fd (witness_chans 2) = 7" by (simp add: witness_chans_def new_channel_def)
  with us poller_protocol_safe [OF linux_ctl_ok start [of True linux_ctl witness_chans], of 2 3]
  show ?thesis by simp
qed

text \<open>
  C31: With \<open>epoll\<close> the kernel's interest list stays exactly the set of channels marked \<open>kAdded\<close>,
  each with its current event mask, and every tracked channel that wants some event is in it.
\<close>
theorem epoll_kernel_in_sync:
  assumes "ctl_ok ctl" and "poller_reach False ctl (cs, Epoll p)"
  shows "(ep_interest p fd = Some (ev, ch) \<longleftrightarrow>
      ep_channels p fd = Some ch \<and> ch_index (cs ch) = kAdded \<and> ev = ch_events (cs ch))
    \<and> (hasChannel ch (cs, Epoll p) \<and> \<not> isNoneEvent (cs ch) \<longrightarrow>
      ep_interest p (ch_fd (cs ch)) = Some (ch_events (cs ch), ch))"
proof (intro conjI impI)
  have slot: "epoll_slot cs p fd" for fd
    using poller_reach_wf [OF assms] by (simp add: poller_wf_def epoll_wf_def)
  show "ep_interest p fd = Some (ev, ch) \<longleftrightarrow>
      ep_channels p fd = Some ch \<and> ch_index (cs ch) = kAdded \<and> ev = ch_events (cs ch)"
    using slot [of fd] by (auto simp: epoll_slot_def kAdded_def kDeleted_def split: option.splits)
next
  have slot: "epoll_slot cs p fd" for fd
    using poller_reach_wf [OF assms] by (simp add: poller_wf_def epoll_wf_def)
  show "ep_interest p (ch_fd (cs ch)) = Some (ch_events (cs ch), ch)"
    if "hasChannel ch (cs, Epoll p) \<and> \<not> isNoneEvent (cs ch)"
    using that slot [of "ch_fd (cs ch)"]
    by (auto simp: hasChannel_def epoll_hasChannel_def epoll_slot_def)
qed

theorem epoll_kernel_in_sync_witness:
  "\<exists>(cs :: unit chans) p. poller_reach False linux_ctl (cs, Epoll p) \<and> hasChannel 2 (cs, Epoll p)
    \<and> ep_interest p 7 = Some (3, 2)"
proof -
  let ?s = "(witness_chans, Epoll (new_epoll linux_ctl))"
  have 0: "poller_reach False linux_ctl ?s"
    using start [of False linux_ctl witness_chans] by (simp add: newDefaultPoller_def)
  have us: "usable (poller_channels (Epoll (new_epoll linux_ctl))) 2 witness_chans"
    by (simp add: usable_def witness_chans_def new_channel_def poller_channels_def new_epoll_def)
  obtain cs p where u: "poller_updateChannel 2 (put_events 3 2 witness_chans, Epoll (new_epoll linux_ctl))
      = Some (cs, Epoll p)" and h: "ch_fd (cs 2) = 7" "ch_events (cs 2) = 3"
      "ep_channels p = [7 \<mapsto> 2]"
    by (simp add: poller_defs epoll_defs new_epoll_def witness_chans_def new_channel_def linux_ctl_def)
  have 1: "poller_reach False linux_ctl (cs, Epoll p)" by (rule update [OF 0 us u])
  have 2: "hasChannel 2 (cs, Epoll p)" by (simp add: hasChannel_def epoll_hasChannel_def h)
  have "ep_interest p 7 = Some (3, 2)"
    using epoll_kernel_in_sync [OF linux_ctl_ok 1, of 7 3 2] 2 h by (simp add: isNoneEvent_def kNoneEvent_def)
  with 1 2 show ?thesis by blast
qed

text \<open>
  \<open>PollPoller::removeChannel\<close> does not reset the removed channel's index (as
  \<open>EpollPoller\<close> does, with \<open>kNew\<close>), so registering the same channel again either writes
  outside the descriptor array or overwrites the entry of another channel, and the
  channel does not become tracked.
\<close>
theorem poll_remove_then_update:
  assumes "ctl_ok ctl" and "poller_reach up ctl (cs, Poll p)" and "hasChannel ch (cs, Poll p)"
    and "poll_removeChannel ch (cs, p) = Some (cs', p')"
  shows "case poll_updateChannel ch (put_events e ch cs', p') of
      None \<Rightarrow> True
    | Some (cs'', p'') \<Rightarrow> \<not> poll_hasChannel ch (cs'', p'')
        \<and> (\<exists>other \<noteq> ch. poll_hasChannel other (cs', p') \<and> ch_index (cs' other) = ch_index (cs' ch)
             \<and> decode_fd (pfd_fd (pp_pollfds p'' ! nat (ch_index (cs' other)))) = ch_fd (cs' ch))"
proof -
  have wf: "poll_wf (cs, p)" using poller_reach_wf [OF assms(1,2)] by (simp add: poller_wf_def)
  have tr: "pp_channels p (ch_fd (cs ch)) = Some ch"
    using assms(3) by (simp add: hasChannel_def poll_hasChannel_def)
  have wf': "poll_wf (cs', p')" "pp_channels p' = (pp_channels p)(ch_fd (cs ch) := None)"
    using poll_rem_ok [OF wf tr] assms(4) by auto
  have fd: "ch_fd (cs' ch) = ch_fd (cs ch)"
    using same_but_indexD(2) [OF poll_rem_keeps [OF assms(4)]] .
  have idx: "ch_index (cs' ch) = ch_index (cs ch)"
  proof -
    have "x \<noteq> ch_fd (cs ch) \<Longrightarrow> pp_channels p x = Some c \<Longrightarrow> c \<noteq> ch" for x c
      using poll_wf_entry [OF wf, of x c] by auto
    then show ?thesis using assms(4)
      by (auto simp: poll_removeChannel_def Let_def set_index_def split: if_splits option.splits)
  qed
  let ?k = "nat (ch_index (cs ch))"
  have nonneg: "0 \<le> ch_index (cs ch)" using poll_wf_entry [OF wf tr] by simp
  show ?thesis
  proof (cases "?k < length (pp_pollfds p')")
    case True
    then obtain other where o: "pp_channels p' (decode_fd (pfd_fd (pp_pollfds p' ! ?k))) = Some other"
        "ch_index (cs' other) = int ?k"
      using poll_wf_index [OF wf'(1)] by blast
    then have "pp_channels p' (ch_fd (cs' other)) = Some other" and "other \<noteq> ch"
      using poll_wf_entry [OF wf'(1) o(1)] fd by (auto simp: wf'(2))
    moreover have "poll_updateChannel ch (put_events e ch cs', p') = Some (put_events e ch cs',
        p'\<lparr>pp_pollfds := (pp_pollfds p')[?k := \<lparr>pfd_fd = (if e = 0 then - ch_fd (cs ch) - 1 else ch_fd (cs ch)),
          pfd_events = ucast e, pfd_revents = 0\<rparr>]\<rparr>)"
      using True nonneg
      by (simp add: poll_updateChannel_def Let_def put_events_def idx fd isNoneEvent_def kNoneEvent_def)
    moreover have "0 \<le> ch_fd (cs ch)" using poll_wf_entry [OF wf tr] by simp
    ultimately show ?thesis using True o(2) nonneg
      by (auto simp: poll_hasChannel_def put_events_def idx fd wf'(2) intro!: exI [of _ other])
  next
    case False
    with nonneg show ?thesis
      by (simp add: poll_updateChannel_def Let_def put_events_def idx)
  qed
qed

text \<open>Two channels registered by \<open>poll\<close>, the first removed and updated again.\<close>

definition two_registered :: "unit chans \<times> poll_poller" where
  "two_registered = the (bind_fold (\<lambda>ch (cs, p). poll_updateChannel ch (put_events 3 ch cs, p)) [0, 1]
     (witness_chans, new_pollpoller))"

lemmas two_eval = two_registered_def poll_updateChannel_def poll_removeChannel_def put_events_def
  witness_chans_def new_channel_def new_pollpoller_def set_index_def Let_def

lemma two_reach: "poller_reach True linux_ctl (fst two_registered, Poll (snd two_registered))"
proof -
  let ?s0 = "(witness_chans, Poll new_pollpoller)"
  have 0: "poller_reach True linux_ctl ?s0"
    using start [of True linux_ctl witness_chans] by (simp add: newDefaultPoller_def)
  obtain cs1 p1 where u1: "poll_updateChannel 0 (put_events 3 0 witness_chans, new_pollpoller) = Some (cs1, p1)"
      and f1: "ch_fd (cs1 1) = 6" "ch_index (cs1 1) = -1" "pp_channels p1 = [5 \<mapsto> 0]"
    by (simp add: two_eval)
  obtain cs2 p2 where u2: "poll_updateChannel 1 (put_events 3 1 cs1, p1) = Some (cs2, p2)"
    using f1 by (simp add: poll_updateChannel_def put_events_def Let_def)
  have 1: "poller_reach True linux_ctl (cs1, Poll p1)"
  proof (rule update [OF 0, of 0 3])
    show "usable (poller_channels (Poll new_pollpoller)) 0 witness_chans"
      by (simp add: usable_def poller_defs witness_chans_def new_channel_def new_pollpoller_def)
  qed (simp add: poller_defs u1)
  have 2: "poller_reach True linux_ctl (cs2, Poll p2)"
    by (rule update [OF 1, of 1 3]) (simp_all add: usable_def poller_defs f1 [simplified] u2 [simplified])
  have eq: "two_registered = (cs2, p2)" by (simp add: two_registered_def u1 u2 [simplified])
  from 2 show ?thesis unfolding eq fst_conv snd_conv .
qed

theorem poll_remove_then_update_witness:
  "\<exists>cs' p'. poll_removeChannel 0 two_registered = Some (cs', p')
    \<and> (\<exists>cs'' p''. poll_updateChannel 0 (put_events 3 0 cs', p') = Some (cs'', p'')
        \<and> \<not> poll_hasChannel 0 (cs'', p''))"
proof -
  have h: "hasChannel 0 (fst two_registered, Poll (snd two_registered))"
    by (simp add: hasChannel_def poll_hasChannel_def two_eval)
  obtain cs' p' where r: "poll_removeChannel 0 two_registered = Some (cs', p')"
      and i: "ch_index (cs' 0) = 0" and l: "length (pp_pollfds p') = 1"
    by (simp add: two_eval)
  obtain cs'' p'' where u: "poll_updateChannel 0 (put_events 3 0 cs', p') = Some (cs'', p'')"
  proof -
    have "pp_pollfds p' \<noteq> []" using l by auto
    with i that show ?thesis by (simp add: poll_updateChannel_def put_events_def Let_def)
  qed
  from poll_remove_then_update [OF linux_ctl_ok two_reach h, of cs' p' 3] r u show ?thesis by simp
qed

text \<open>What \<open>fillActiveChannels\<close> of \<open>PollPoller\<close> does on an array whose ready entries are tracked.\<close>

abbreviation ready :: "pollfd \<Rightarrow> bool" where
  "ready q \<equiv> 0 < pfd_revents q"

lemma poll_fill_ready:
  assumes "\<And>q. q \<in> set fds \<Longrightarrow> ready q \<Longrightarrow> channels (pfd_fd q) = Some (g q)"
    and "n = length (filter ready fds)"
  shows "poll_fillActiveChannels channels n fds cs =
    Some (foldl (\<lambda>cs q. cs(g q := set_revents (word_of_int (pfd_revents q)) (cs (g q)))) cs (filter ready fds),
      map g (filter ready fds))"
  using assms
proof (induction fds arbitrary: n cs)
  case (Cons q fds)
  show ?case
  proof (cases "n = 0")
    case True
    with Cons.prems(2) have "filter ready (q # fds) = []" by (metis length_0_conv)
    with True show ?thesis by simp
  next
    case False
    with Cons show ?thesis by (auto simp del: fun_upd_apply)
  qed
qed simp

lemma foldl_set_other:
  "c \<notin> g ` set qs \<Longrightarrow> foldl (\<lambda>cs q. cs(g q := set_revents (r q) (cs (g q)))) cs qs c = cs c"
  by (induction qs arbitrary: cs) auto

lemma foldl_set_revents:
  assumes "distinct (map g qs)" and "q \<in> set qs"
  shows "foldl (\<lambda>cs q. cs(g q := set_revents (r q) (cs (g q)))) cs qs (g q) = set_revents (r q) (cs (g q))"
  using assms
proof (induction qs arbitrary: cs)
  case (Cons x qs)
  have x: "g x \<notin> g ` set qs" using Cons.prems by auto
  show ?case
  proof (cases "q \<in> set qs")
    case True
    with x have "g q \<noteq> g x" by (metis imageI)
    with Cons True show ?thesis by simp
  next
    case False
    then have "q = x" using Cons.prems by simp
    then show ?thesis by (simp add: foldl_set_other [OF x] del: fun_upd_apply) simp
  qed
qed simp

lemma filter_by_index: "filter P xs = map (\<lambda>i. xs ! i) (filter (\<lambda>i. P (xs ! i)) [0..<length xs])"
proof -
  have "filter P xs = filter P (map (\<lambda>i. xs ! i) [0..<length xs])" by (simp add: map_nth)
  then show ?thesis by (simp only: filter_map comp_def)
qed

lemma poll_poll_effect:
  assumes wf: "poll_wf (cs, p)"
    and revs: "length revs = length (pp_pollfds p)"
      "\<And>i. i < length revs \<Longrightarrow> 0 \<le> revs ! i \<and> (pfd_fd (pp_pollfds p ! i) < 0 \<longrightarrow> revs ! i = 0)"
    and "numEvents = length (filter (\<lambda>r. r \<noteq> 0) revs)"
  shows "\<exists>cs' active. poll_poll (Inr (numEvents, revs)) (cs, p)
      = Some ((cs', p\<lparr>pp_pollfds := map2 (\<lambda>pfd r. pfd\<lparr>pfd_revents := r\<rparr>) (pp_pollfds p) revs\<rparr>), active)
    \<and> map (\<lambda>ch. nat (ch_index (cs ch))) active = filter (\<lambda>i. revs ! i \<noteq> 0) [0..<length revs] \<and> distinct active
    \<and> (\<forall>ch \<in> set active. poll_hasChannel ch (cs, p)
        \<and> cs' ch = set_revents (word_of_int (revs ! nat (ch_index (cs ch)))) (cs ch))
    \<and> (\<forall>c. c \<notin> set active \<longrightarrow> cs' c = cs c)"
proof -
  define fds where "fds = map2 (\<lambda>pfd r. pfd\<lparr>pfd_revents := r\<rparr>) (pp_pollfds p) revs"
  have len: "length fds = length revs" by (simp add: fds_def revs(1))
  have nth: "fds ! i = (pp_pollfds p ! i)\<lparr>pfd_revents := revs ! i\<rparr>" if "i < length revs" for i
    using that by (simp add: fds_def revs(1))
  define idxs where "idxs = filter (\<lambda>i. revs ! i \<noteq> 0) [0..<length revs]"
  define g where "g q = the (pp_channels p (pfd_fd q))" for q :: pollfd
  have g: "pp_channels p (pfd_fd (fds ! i)) = Some (g (fds ! i)) \<and> ch_index (cs (g (fds ! i))) = int i"
    if "i < length revs" "revs ! i \<noteq> 0" for i
    using poll_wf_index [OF wf, of i] that revs(1) revs(2) [OF that(1)]
    by (auto simp: nth g_def decode_fd_def)
  have filt: "filter ready fds = map (\<lambda>i. fds ! i) idxs"
  proof -
    have "filter (\<lambda>i. ready (fds ! i)) [0..<length revs] = idxs"
      unfolding idxs_def using revs(2) by (intro filter_cong) (auto simp: nth order_less_le)
    then show ?thesis by (subst filter_by_index) (simp add: len)
  qed
  have ready_g: "channels = pp_channels p \<Longrightarrow> q \<in> set fds \<Longrightarrow> ready q \<Longrightarrow> channels (pfd_fd q) = Some (g q)"
    for q channels
    using g by (auto simp: in_set_conv_nth len nth)
  have num: "numEvents = length (filter ready fds)"
    using assms(4) filter_by_index [of "\<lambda>r. r \<noteq> 0" revs] by (simp add: filt idxs_def)
  have idx: "map (\<lambda>ch. nat (ch_index (cs ch))) (map g (filter ready fds)) = idxs"
    using g by (auto simp: filt idxs_def intro!: map_idI)
  have dist: "distinct (map g (filter ready fds))"
  proof -
    have "distinct (map (\<lambda>ch. nat (ch_index (cs ch))) (map g (filter ready fds)))"
      unfolding idx by (simp add: idxs_def)
    then show ?thesis by (rule distinct_map [THEN iffD1, THEN conjunct1])
  qed
  define cs' where "cs' = foldl (\<lambda>cs q. cs(g q := set_revents (word_of_int (pfd_revents q)) (cs (g q))))
    cs (filter ready fds)"
  have "poll_fillActiveChannels (pp_channels p) numEvents fds cs = Some (cs', map g (filter ready fds))"
    unfolding cs'_def by (rule poll_fill_ready) (use ready_g num in auto)
  moreover have "cs' = cs" if "numEvents = 0" using that num by (simp add: cs'_def)
  ultimately have "poll_poll (Inr (numEvents, revs)) (cs, p)
      = Some ((cs', p\<lparr>pp_pollfds := fds\<rparr>), map g (filter ready fds))"
    using num by (auto simp: poll_poll_def fds_def [symmetric] Let_def)
  moreover have own: "pp_channels p (ch_fd (cs (g (fds ! i)))) = Some (g (fds ! i))"
    if "i < length revs" "revs ! i \<noteq> 0" for i
    using g [OF that] poll_wf_entry [OF wf] by metis
  moreover have "poll_hasChannel ch (cs, p) \<and> cs' ch = set_revents (word_of_int (revs ! nat (ch_index (cs ch)))) (cs ch)"
    if active: "ch \<in> set (map g (filter ready fds))" for ch
  proof -
    obtain i where i: "i \<in> set idxs" "ch = g (fds ! i)" using active unfolding filt by auto
    then have q: "fds ! i \<in> set (filter ready fds)" "i < length revs" "revs ! i \<noteq> 0" by (auto simp: filt idxs_def)
    have "cs' ch = set_revents (word_of_int (revs ! i)) (cs ch)"
      using foldl_set_revents [OF dist q(1), of "\<lambda>q. word_of_int (pfd_revents q)" cs] nth [OF q(2)]
      by (simp add: cs'_def i(2))
    with g [OF q(2,3)] own [OF q(2,3)] i(2) show ?thesis by (simp add: poll_hasChannel_def)
  qed
  moreover have "cs' c = cs c" if "c \<notin> set (map g (filter ready fds))" for c
    using foldl_set_other [of c g "filter ready fds"] that by (simp add: cs'_def)
  ultimately show ?thesis using idx dist by (auto simp: idxs_def fds_def)
qed

text \<open>
  When the kernel answers \<open>poll\<close> as documented (no events for an entry with a negative
  descriptor, and the count of entries that have some), every ready channel is reported once, in
  array order, with the events the kernel gave, and the lookup of its descriptor never fails.
\<close>
theorem poll_poll_reports_ready:
  assumes "ctl_ok ctl" and "poller_reach up ctl (cs, Poll p)"
    and revs: "length revs = length (pp_pollfds p)"
      "\<And>i. i < length revs \<Longrightarrow> 0 \<le> revs ! i \<and> (pfd_fd (pp_pollfds p ! i) < 0 \<longrightarrow> revs ! i = 0)"
    and "numEvents = length (filter (\<lambda>r. r \<noteq> 0) revs)"
  shows "\<exists>cs' p' active. poll_poll (Inr (numEvents, revs)) (cs, p) = Some ((cs', p'), active)
    \<and> map (\<lambda>ch. nat (ch_index (cs ch))) active = filter (\<lambda>i. revs ! i \<noteq> 0) [0..<length revs]
    \<and> list_all (\<lambda>ch. poll_hasChannel ch (cs, p)
        \<and> ch_revents (cs' ch) = word_of_int (revs ! nat (ch_index (cs ch)))) active"
proof -
  have wf: "poll_wf (cs, p)" using poller_reach_wf [OF assms(1,2)] by (simp add: poller_wf_def)
  obtain cs' active where
    e: "poll_poll (Inr (numEvents, revs)) (cs, p)
        = Some ((cs', p\<lparr>pp_pollfds := map2 (\<lambda>pfd r. pfd\<lparr>pfd_revents := r\<rparr>) (pp_pollfds p) revs\<rparr>), active)"
      "map (\<lambda>ch. nat (ch_index (cs ch))) active = filter (\<lambda>i. revs ! i \<noteq> 0) [0..<length revs]"
      "\<forall>ch \<in> set active. poll_hasChannel ch (cs, p)
        \<and> cs' ch = set_revents (word_of_int (revs ! nat (ch_index (cs ch)))) (cs ch)"
    using poll_poll_effect [OF wf revs(1) _ assms(5)] revs(2) by blast
  then show ?thesis by (auto simp: list_all_iff set_revents_def)
qed

theorem poll_poll_reports_ready_witness:
  "\<exists>cs' p' active. poll_poll (Inr (1, [0, 1])) two_registered = Some ((cs', p'), active)
    \<and> map (\<lambda>ch. nat (ch_index (fst two_registered ch))) active = [1]"
proof -
  have "length (pp_pollfds (snd two_registered)) = 2" "0 \<le> pfd_fd (pp_pollfds (snd two_registered) ! 1)"
    by (simp_all add: two_eval isNoneEvent_def kNoneEvent_def)
  then have "0 \<le> ([0, 1] :: int list) ! i
      \<and> (pfd_fd (pp_pollfds (snd two_registered) ! i) < 0 \<longrightarrow> ([0, 1] :: int list) ! i = 0)"
      and "length ([0, 1] :: int list) = length (pp_pollfds (snd two_registered))"
    if "i < length ([0, 1] :: int list)" for i
    using that by (auto simp: less_Suc_eq)
  from poll_poll_reports_ready [OF linux_ctl_ok two_reach this(2) this(1), of 0 1]
  show ?thesis by auto
qed

end
