(* ===== verification/Event_Loop.thy ===== *)
theory Event_Loop
  imports Pollers
begin

text \<open>
  \<open>include/EventLoop.h\<close> and \<open>net/EventLoop.cc\<close>: the loop of one thread, its poller, its wake-up
  descriptor and the queue of functors other threads post. A functor is a value of type \<open>'f\<close>
  and a channel callback a value of type \<open>'cb\<close>; what they do is the argument \<open>exec\<close>, or \<open>call\<close>,
  of the operations that run them, a function on the loop and the objects \<open>'o\<close> it serves. The
  contract of such functions is the locale \<open>loop_client\<close>. The interleaving of the loop with
  posting threads is the step relation \<open>loop_step\<close>.
\<close>

record ('f, 'cb) evloop =
  el_looping :: bool
  el_quit :: bool
  el_calling :: bool
  el_threadId :: int
  el_pollReturnTime :: timestamp
  el_chans :: "'cb chans"
  el_poller :: poller
  el_wakeupChannel :: nat
  el_eventfd :: nat
  el_active :: "nat list"
  el_current :: "nat option"
  el_pending :: "'f list"

section \<open>Channels through the loop\<close>

definition el_updateChannel :: "nat \<Rightarrow> ('f, 'cb) evloop \<Rightarrow> ('f, 'cb) evloop option" where
  "el_updateChannel ch el = do {
     (cs, p) \<leftarrow> poller_updateChannel ch (el_chans el, el_poller el);
     Some (el\<lparr>el_chans := cs, el_poller := p\<rparr>)
   }"

definition el_removeChannel :: "nat \<Rightarrow> ('f, 'cb) evloop \<Rightarrow> ('f, 'cb) evloop option" where
  "el_removeChannel ch el = do {
     (cs, p) \<leftarrow> poller_removeChannel ch (el_chans el, el_poller el);
     Some (el\<lparr>el_chans := cs, el_poller := p\<rparr>)
   }"

definition el_hasChannel :: "nat \<Rightarrow> ('f, 'cb) evloop \<Rightarrow> bool" where
  "el_hasChannel ch el = hasChannel ch (el_chans el, el_poller el)"

text \<open>The interest methods of \<open>Channel\<close>: change the mask, then \<open>update ()\<close>.\<close>

definition set_interest :: "(events \<Rightarrow> events) \<Rightarrow> nat \<Rightarrow> ('f, 'cb) evloop \<Rightarrow> ('f, 'cb) evloop option" where
  "set_interest m ch el = el_updateChannel ch
     (el\<lparr>el_chans := put_events (m (ch_events (el_chans el ch))) ch (el_chans el)\<rparr>)"

definition enableReading :: "nat \<Rightarrow> ('f, 'cb) evloop \<Rightarrow> ('f, 'cb) evloop option" where
  "enableReading = set_interest ev_enableReading"

definition disableReading :: "nat \<Rightarrow> ('f, 'cb) evloop \<Rightarrow> ('f, 'cb) evloop option" where
  "disableReading = set_interest ev_disableReading"

definition enableWriting :: "nat \<Rightarrow> ('f, 'cb) evloop \<Rightarrow> ('f, 'cb) evloop option" where
  "enableWriting = set_interest ev_enableWriting"

definition disableWriting :: "nat \<Rightarrow> ('f, 'cb) evloop \<Rightarrow> ('f, 'cb) evloop option" where
  "disableWriting = set_interest ev_disableWriting"

definition disableAll :: "nat \<Rightarrow> ('f, 'cb) evloop \<Rightarrow> ('f, 'cb) evloop option" where
  "disableAll = set_interest ev_disableAll"

section \<open>Construction and the wake-up descriptor\<close>

text \<open>
  \<open>EventLoop::EventLoop\<close> in thread \<open>tid\<close>: a second loop of the thread is fatal. Channel 0 is the
  wake-up channel, on the eventfd \<open>fd\<close>; its callback \<open>rd\<close> is \<open>handleRead\<close>.
\<close>

definition new_evloop ::
  "int \<Rightarrow> bool \<Rightarrow> poller \<Rightarrow> int \<Rightarrow> 'cb \<Rightarrow> 'cb chans \<Rightarrow> ('f, 'cb) evloop option" where
  "new_evloop tid loopInThisThread p fd rd cs =
     (if fd < 0 \<or> loopInThisThread then None
      else enableReading 0
        \<lparr>el_looping = False, el_quit = False, el_calling = False, el_threadId = tid,
         el_pollReturnTime = ts_default, el_chans = cs(0 := setReadCallback rd (new_channel fd)),
         el_poller = p, el_wakeupChannel = 0, el_eventfd = 0, el_active = [], el_current = None,
         el_pending = []\<rparr>)"

definition destroy_evloop :: "('f, 'cb) evloop \<Rightarrow> ('f, 'cb) evloop option" where
  "destroy_evloop el = do {
     el \<leftarrow> disableAll (el_wakeupChannel el) el;
     el_removeChannel (el_wakeupChannel el) el
   }"

text \<open>
  The counter of the non-blocking eventfd: a write adds one unless the counter is at its
  maximum (the write then fails and is logged), a read resets it.
\<close>

definition eventfd_max :: int where "eventfd_max = 2 ^ 64 - 2"

definition wakeup :: "('f, 'cb) evloop \<Rightarrow> ('f, 'cb) evloop" where
  "wakeup el = (if int (el_eventfd el) < eventfd_max then el\<lparr>el_eventfd := el_eventfd el + 1\<rparr> else el)"

definition el_handleRead :: "('f, 'cb) evloop \<Rightarrow> ('f, 'cb) evloop" where
  "el_handleRead el = el\<lparr>el_eventfd := 0\<rparr>"

section \<open>Posting work\<close>

definition isInLoopThread :: "int \<Rightarrow> ('f, 'cb) evloop \<Rightarrow> bool" where
  "isInLoopThread tid el \<longleftrightarrow> el_threadId el = tid"

definition queueInLoop :: "int \<Rightarrow> 'f \<Rightarrow> ('f, 'cb) evloop \<Rightarrow> ('f, 'cb) evloop" where
  "queueInLoop tid f el =
     (let el = el\<lparr>el_pending := el_pending el @ [f]\<rparr> in
      if \<not> isInLoopThread tid el \<or> el_calling el then wakeup el else el)"

definition quit :: "int \<Rightarrow> ('f, 'cb) evloop \<Rightarrow> ('f, 'cb) evloop" where
  "quit tid el =
     (let el = el\<lparr>el_quit := True\<rparr> in
      if \<not> isInLoopThread tid el then wakeup el else el)"

type_synonym ('f, 'cb, 'o) world = "('f, 'cb) evloop \<times> 'o"

definition runInLoop ::
  "('f \<Rightarrow> ('f, 'cb, 'o) world \<Rightarrow> ('f, 'cb, 'o) world option) \<Rightarrow> int \<Rightarrow> 'f
    \<Rightarrow> ('f, 'cb, 'o) world \<Rightarrow> ('f, 'cb, 'o) world option" where
  "runInLoop exec tid f w =
     (if isInLoopThread tid (fst w) then exec f w else Some (apfst (queueInLoop tid f) w))"

definition begin_pending :: "('f, 'cb) evloop \<Rightarrow> ('f, 'cb) evloop \<times> 'f list" where
  "begin_pending el = (el\<lparr>el_calling := True, el_pending := []\<rparr>, el_pending el)"

definition doPendingFunctors ::
  "('f \<Rightarrow> ('f, 'cb, 'o) world \<Rightarrow> ('f, 'cb, 'o) world option)
    \<Rightarrow> ('f, 'cb, 'o) world \<Rightarrow> ('f, 'cb, 'o) world option" where
  "doPendingFunctors exec w =
     (case begin_pending (fst w) of (el, functors) \<Rightarrow> do {
        w \<leftarrow> bind_fold exec functors (el, snd w);
        Some (apfst (\<lambda>el. el\<lparr>el_calling := False\<rparr>) w)
      })"

section \<open>The loop\<close>

datatype kernel_answer = EpollWait "int + (events \<times> nat) list" | PollCall "int + (nat \<times> int list)"

definition poller_poll ::
  "kernel_answer \<Rightarrow> 'cb chans \<times> poller \<Rightarrow> (('cb chans \<times> poller) \<times> nat list) option" where
  "poller_poll ans s = (case (ans, s) of
     (EpollWait r, cs, Epoll p) \<Rightarrow>
       (case epoll_poll r (cs, p) of ((cs', p'), active) \<Rightarrow> Some ((cs', Epoll p'), active))
   | (PollCall r, cs, Poll p) \<Rightarrow> do {
       ((cs', p'), active) \<leftarrow> poll_poll r (cs, p);
       Some ((cs', Poll p'), active)
     }
   | _ \<Rightarrow> None)"

definition el_poll :: "kernel_answer \<Rightarrow> timestamp \<Rightarrow> ('f, 'cb) evloop \<Rightarrow> ('f, 'cb) evloop option" where
  "el_poll ans t el = do {
     ((cs, p), active) \<leftarrow> poller_poll ans (el_chans el, el_poller el);
     Some (el\<lparr>el_chans := cs, el_poller := p, el_active := active, el_pollReturnTime := t\<rparr>)
   }"

text \<open>One active channel: \<open>alive\<close> says whether a tied object still exists.\<close>

definition dispatch ::
  "('cb invocation \<Rightarrow> ('f, 'cb, 'o) world \<Rightarrow> ('f, 'cb, 'o) world option) \<Rightarrow> ('o \<Rightarrow> nat \<Rightarrow> bool)
    \<Rightarrow> nat \<Rightarrow> ('f, 'cb, 'o) world \<Rightarrow> ('f, 'cb, 'o) world option" where
  "dispatch call alive ch w = (case w of (el, ob) \<Rightarrow>
     bind_fold call (handleEvent (alive ob) (el_pollReturnTime el) (el_chans el ch))
       (el\<lparr>el_current := Some ch\<rparr>, ob))"

definition loop_iteration ::
  "('cb invocation \<Rightarrow> ('f, 'cb, 'o) world \<Rightarrow> ('f, 'cb, 'o) world option) \<Rightarrow> ('o \<Rightarrow> nat \<Rightarrow> bool)
    \<Rightarrow> ('f \<Rightarrow> ('f, 'cb, 'o) world \<Rightarrow> ('f, 'cb, 'o) world option)
    \<Rightarrow> kernel_answer \<times> timestamp \<Rightarrow> ('f, 'cb, 'o) world \<Rightarrow> ('f, 'cb, 'o) world option" where
  "loop_iteration call alive exec i w = do {
     el \<leftarrow> el_poll (fst i) (snd i) (fst w);
     w \<leftarrow> bind_fold (dispatch call alive) (el_active el) (el, snd w);
     doPendingFunctors exec (apfst (\<lambda>el. el\<lparr>el_current := None\<rparr>) w)
   }"

text \<open>\<open>loop ()\<close> for as long as the kernel answers \<open>poll\<close>, or until it has been told to quit.\<close>

fun loop_while ::
  "('cb invocation \<Rightarrow> ('f, 'cb, 'o) world \<Rightarrow> ('f, 'cb, 'o) world option) \<Rightarrow> ('o \<Rightarrow> nat \<Rightarrow> bool)
    \<Rightarrow> ('f \<Rightarrow> ('f, 'cb, 'o) world \<Rightarrow> ('f, 'cb, 'o) world option)
    \<Rightarrow> (kernel_answer \<times> timestamp) list \<Rightarrow> ('f, 'cb, 'o) world \<Rightarrow> ('f, 'cb, 'o) world option" where
  "loop_while call alive exec inputs w =
     (if el_quit (fst w) then Some (apfst (\<lambda>el. el\<lparr>el_looping := False\<rparr>) w)
      else case inputs of
        [] \<Rightarrow> Some w
      | i # inputs \<Rightarrow> loop_iteration call alive exec i w \<bind> loop_while call alive exec inputs)"

declare loop_while.simps [simp del]

definition el_loop ::
  "('cb invocation \<Rightarrow> ('f, 'cb, 'o) world \<Rightarrow> ('f, 'cb, 'o) world option) \<Rightarrow> ('o \<Rightarrow> nat \<Rightarrow> bool)
    \<Rightarrow> ('f \<Rightarrow> ('f, 'cb, 'o) world \<Rightarrow> ('f, 'cb, 'o) world option)
    \<Rightarrow> (kernel_answer \<times> timestamp) list \<Rightarrow> ('f, 'cb, 'o) world \<Rightarrow> ('f, 'cb, 'o) world option" where
  "el_loop call alive exec inputs w =
     loop_while call alive exec inputs (apfst (\<lambda>el. el\<lparr>el_looping := True, el_quit := False\<rparr>) w)"

section \<open>Interest changes succeed\<close>

definition loop_wf :: "('f, 'cb) evloop \<Rightarrow> bool" where
  "loop_wf el \<longleftrightarrow> poller_wf (el_chans el, el_poller el)"

definition registrable :: "nat \<Rightarrow> ('f, 'cb) evloop \<Rightarrow> bool" where
  "registrable ch el \<longleftrightarrow> usable (poller_channels (el_poller el)) ch (el_chans el)"

lemma set_interest_ok:
  assumes "loop_wf el" and "registrable ch el"
  obtains cs p where "set_interest m ch el = Some (el\<lparr>el_chans := cs, el_poller := p\<rparr>)"
    and "loop_wf (el\<lparr>el_chans := cs, el_poller := p\<rparr>)"
    and "registrable ch (el\<lparr>el_chans := cs, el_poller := p\<rparr>)"
    and "el_hasChannel ch (el\<lparr>el_chans := cs, el_poller := p\<rparr>)"
    and "same_but_index (put_events (m (ch_events (el_chans el ch))) ch (el_chans el)) cs"
proof -
  let ?e = "m (ch_events (el_chans el ch))"
  note w = assms [unfolded loop_wf_def registrable_def]
  obtain cs p where u: "poller_updateChannel ch (put_events ?e ch (el_chans el), el_poller el) = Some (cs, p)"
    using poller_if.upd_ok [OF w, of ?e] by auto
  note w' = poller_if.upd_usable [OF w u]
  show ?thesis
  proof
    show "set_interest m ch el = Some (el\<lparr>el_chans := cs, el_poller := p\<rparr>)"
      using u by (simp add: set_interest_def el_updateChannel_def)
    show "same_but_index (put_events ?e ch (el_chans el)) cs" by (rule poller_if.upd_keeps [OF u])
  qed (use w' in \<open>simp_all add: loop_wf_def registrable_def el_hasChannel_def hasChannel_eq\<close>)
qed

lemma removeChannel_ok:
  assumes "loop_wf el" and "el_hasChannel ch el"
  obtains cs p where "el_removeChannel ch el = Some (el\<lparr>el_chans := cs, el_poller := p\<rparr>)"
    and "loop_wf (el\<lparr>el_chans := cs, el_poller := p\<rparr>)"
    and "poller_channels p = (poller_channels (el_poller el))(ch_fd (el_chans el ch) := None)"
    and "same_but_index (el_chans el) cs"
proof -
  have w: "poller_wf (el_chans el, el_poller el)"
      "poller_channels (el_poller el) (ch_fd (el_chans el ch)) = Some ch"
    using assms by (simp_all add: loop_wf_def el_hasChannel_def hasChannel_eq)
  obtain cs p where r: "poller_removeChannel ch (el_chans el, el_poller el) = Some (cs, p)" "poller_wf (cs, p)"
      "poller_channels p = (poller_channels (el_poller el))(ch_fd (el_chans el ch) := None)"
    using poller_if.rem_ok [OF w] by auto
  show ?thesis
    by (rule that [of p cs]) (use r poller_if.rem_keeps [OF r(1)] in
      \<open>simp_all add: el_removeChannel_def loop_wf_def\<close>)
qed

lemma poller_wf_fd: "poller_wf (cs, p) \<Longrightarrow> poller_channels p fd = Some ch \<Longrightarrow> ch_fd (cs ch) = fd"
proof (cases p)
  case (Epoll q)
  assume "poller_wf (cs, p)" "poller_channels p fd = Some ch"
  then have "epoll_slot cs q fd" "ep_channels q fd = Some ch"
    by (simp_all add: Epoll poller_defs epoll_wf_def)
  then show ?thesis by (simp add: epoll_slot_def)
next
  case (Poll q)
  assume "poller_wf (cs, p)" "poller_channels p fd = Some ch"
  then show ?thesis using poll_wf_entry [of cs q fd ch] by (simp add: Poll poller_defs)
qed

text \<open>Changing anything but descriptor, events and index of channels keeps the poller in order.\<close>

lemma poller_wf_cong:
  assumes "poller_wf (cs, p)"
    and "\<And>c. ch_fd (cs' c) = ch_fd (cs c) \<and> ch_events (cs' c) = ch_events (cs c) \<and> ch_index (cs' c) = ch_index (cs c)"
  shows "poller_wf (cs', p)"
proof (cases p)
  case (Epoll q)
  have "epoll_slot cs' q fd = epoll_slot cs q fd" for fd
    using assms(2) by (simp add: epoll_slot_def isNoneEvent_def split: option.split)
  with assms(1) Epoll show ?thesis by (auto simp: poller_defs epoll_wf_def)
next
  case (Poll q)
  have "entry_of e (cs' c) = entry_of e (cs c)" for e c
    using assms(2) by (simp add: entry_of_def isNoneEvent_def)
  with assms Poll show ?thesis by (simp add: poller_defs poll_wf_def)
qed

section \<open>What a functor or callback may do to the queue\<close>

text \<open>
  Clients reach the queue by \<open>queueInLoop\<close> only: work is appended, and when the loop is already
  running its functors an append leaves the eventfd readable. Outside that phase the callback
  of the wake-up channel may also reset the eventfd.
\<close>

definition newly :: "('f, 'cb, 'o) world \<Rightarrow> ('f, 'cb, 'o) world \<Rightarrow> 'f list" where
  "newly w w' = drop (length (el_pending (fst w))) (el_pending (fst w'))"

definition posts_only :: "('f, 'cb, 'o) world \<Rightarrow> ('f, 'cb, 'o) world \<Rightarrow> bool" where
  "posts_only w w' \<longleftrightarrow> el_pending (fst w') = el_pending (fst w) @ newly w w'
     \<and> el_calling (fst w') = el_calling (fst w) \<and> el_threadId (fst w') = el_threadId (fst w)
     \<and> (el_calling (fst w) \<longrightarrow>
          (newly w w' \<noteq> [] \<or> 0 < el_eventfd (fst w)) \<longrightarrow> 0 < el_eventfd (fst w'))"

lemma posts_onlyI:
  assumes "el_pending (fst w') = el_pending (fst w) @ qs" and "el_calling (fst w') = el_calling (fst w)"
    and "el_threadId (fst w') = el_threadId (fst w)"
    and "el_calling (fst w) \<Longrightarrow> qs \<noteq> [] \<or> 0 < el_eventfd (fst w) \<Longrightarrow> 0 < el_eventfd (fst w')"
  shows "posts_only w w'"
  using assms by (simp add: posts_only_def newly_def)

lemma posts_only_refl [simp, intro]: "posts_only w w"
  by (rule posts_onlyI [of _ _ "[]"]) simp_all

lemma posts_only_trans [trans]:
  assumes "posts_only a b" and "posts_only b c"
  shows "posts_only a c"
  by (rule posts_onlyI [of _ _ "newly a b @ newly b c"]) (use assms in \<open>auto simp: posts_only_def\<close>)

text \<open>A change of the loop outside its queue.\<close>

lemma posts_only_frame [simp]:
  "el_pending el' = el_pending el \<Longrightarrow> el_calling el' = el_calling el \<Longrightarrow> el_threadId el' = el_threadId el
    \<Longrightarrow> el_eventfd el' = el_eventfd el \<Longrightarrow> posts_only (el, x) (el', x')"
  by (rule posts_onlyI [of _ _ "[]"]) simp_all

lemma posts_only_queueInLoop [simp]: "posts_only (el, x) (queueInLoop tid f el, x')"
  by (rule posts_onlyI [of _ _ "[f]"]) (auto simp: queueInLoop_def wakeup_def Let_def eventfd_max_def)

lemma posts_only_handleRead [simp]: "\<not> el_calling el \<Longrightarrow> posts_only (el, x) (el_handleRead el, x')"
  by (rule posts_onlyI [of _ _ "[]"]) (simp_all add: el_handleRead_def)

lemma set_interest_queue:
  assumes "set_interest m ch el = Some el'"
  shows "el_pending el' = el_pending el" "el_calling el' = el_calling el"
    "el_threadId el' = el_threadId el" "el_eventfd el' = el_eventfd el"
  using assms by (auto simp: set_interest_def el_updateChannel_def split: Option.bind_splits)

lemma removeChannel_queue:
  assumes "el_removeChannel ch el = Some el'"
  shows "el_pending el' = el_pending el" "el_calling el' = el_calling el"
    "el_threadId el' = el_threadId el" "el_eventfd el' = el_eventfd el"
  using assms by (auto simp: el_removeChannel_def split: Option.bind_splits)

lemmas interest_defs = enableReading_def disableReading_def enableWriting_def disableWriting_def disableAll_def

lemma bind_fold_posts:
  assumes "\<And>a w w'. f a w = Some w' \<Longrightarrow> posts_only w w'" and "bind_fold f xs w = Some w'"
  shows "posts_only w w'"
  using assms(2)
proof (induction xs arbitrary: w)
  case (Cons x xs)
  then obtain w1 where "f x w = Some w1" "bind_fold f xs w1 = Some w'"
    by (auto split: Option.bind_splits)
  with Cons.IH assms(1) posts_only_trans show ?case by blast
qed simp

section \<open>The loop and the threads that post to it\<close>

text \<open>
  The phases of one iteration; other threads may take a step of \<open>queueInLoop\<close> at any time, and
  their append and their write to the eventfd are separate steps. The state carries the number
  of threads between the two, what has been posted so far, in order, and what has been run.
\<close>

datatype 'f phase = Polling | Handling "nat list" | Running "'f list"

type_synonym ('f, 'cb, 'o) loop_state = "'f phase \<times> nat \<times> 'f list \<times> 'f list \<times> ('f, 'cb, 'o) world"

inductive loop_step ::
  "('cb invocation \<Rightarrow> ('f, 'cb, 'o) world \<Rightarrow> ('f, 'cb, 'o) world option) \<Rightarrow> ('o \<Rightarrow> nat \<Rightarrow> bool)
    \<Rightarrow> ('f \<Rightarrow> ('f, 'cb, 'o) world \<Rightarrow> ('f, 'cb, 'o) world option)
    \<Rightarrow> ('f, 'cb, 'o) loop_state \<Rightarrow> ('f, 'cb, 'o) loop_state \<Rightarrow> bool" for call alive exec where
  step_poll: "el_poll ans t el = Some el' \<Longrightarrow>
    loop_step call alive exec (Polling, n, ps, xs, (el, ob)) (Handling (el_active el'), n, ps, xs, (el', ob))"
| step_handle: "\<not> el_calling (fst w) \<Longrightarrow> dispatch call alive ch w = Some w' \<Longrightarrow>
    loop_step call alive exec (Handling (ch # chs), n, ps, xs, w) (Handling chs, n, ps @ newly w w', xs, w')"
| step_begin: "begin_pending el = (el', fs) \<Longrightarrow>
    loop_step call alive exec (Handling [], n, ps, xs, (el, ob))
      (Running fs, n, ps, xs, (el'\<lparr>el_current := None\<rparr>, ob))"
| step_run: "exec f w = Some w' \<Longrightarrow>
    loop_step call alive exec (Running (f # fs), n, ps, xs, w) (Running fs, n, ps @ newly w w', xs @ [f], w')"
| step_end: "loop_step call alive exec (Running [], n, ps, xs, (el, ob))
      (Polling, n, ps, xs, (el\<lparr>el_calling := False\<rparr>, ob))"
| post_append: "loop_step call alive exec (ph, n, ps, xs, (el, ob))
      (ph, Suc n, ps @ [f], xs, (el\<lparr>el_pending := el_pending el @ [f]\<rparr>, ob))"
| post_wakeup: "loop_step call alive exec (ph, Suc n, ps, xs, (el, ob)) (ph, n, ps, xs, (wakeup el, ob))"

inductive loop_reach ::
  "('cb invocation \<Rightarrow> ('f, 'cb, 'o) world \<Rightarrow> ('f, 'cb, 'o) world option) \<Rightarrow> ('o \<Rightarrow> nat \<Rightarrow> bool)
    \<Rightarrow> ('f \<Rightarrow> ('f, 'cb, 'o) world \<Rightarrow> ('f, 'cb, 'o) world option)
    \<Rightarrow> ('f, 'cb, 'o) world \<Rightarrow> ('f, 'cb, 'o) loop_state \<Rightarrow> bool" for call alive exec w where
  loop_start: "loop_reach call alive exec w (Polling, 0, [], [], w)"
| loop_next: "loop_reach call alive exec w s \<Longrightarrow> loop_step call alive exec s s'
    \<Longrightarrow> loop_reach call alive exec w s'"

inductive_cases loop_stepE: "loop_step call alive exec s s'"

fun running :: "'f phase \<Rightarrow> 'f list" where
  "running (Running fs) = fs"
| "running _ = []"

fun queue_ok :: "('f, 'cb, 'o) loop_state \<Rightarrow> bool" where
  "queue_ok (ph, n, ps, xs, (el, ob)) \<longleftrightarrow> ps = xs @ running ph @ el_pending el
     \<and> (el_calling el \<longleftrightarrow> (\<exists>fs. ph = Running fs))
     \<and> ((\<exists>chs. ph = Handling chs) \<or> el_pending el = [] \<or> 0 < el_eventfd el \<or> 0 < n)"

locale loop_client =
  fixes call :: "'cb invocation \<Rightarrow> ('f, 'cb, 'o) world \<Rightarrow> ('f, 'cb, 'o) world option"
    and alive :: "'o \<Rightarrow> nat \<Rightarrow> bool"
    and exec :: "'f \<Rightarrow> ('f, 'cb, 'o) world \<Rightarrow> ('f, 'cb, 'o) world option"
  assumes call_posts: "\<not> el_calling (fst w) \<Longrightarrow> call i w = Some w' \<Longrightarrow> posts_only w w'"
    and exec_posts: "el_calling (fst w) \<Longrightarrow> exec f w = Some w' \<Longrightarrow> posts_only w w'"
begin

lemma calls_post:
  assumes "\<not> el_calling (fst w)" and "bind_fold call is w = Some w'"
  shows "posts_only w w'"
  using assms
proof (induction "is" arbitrary: w)
  case (Cons i "is")
  then obtain w1 where 1: "call i w = Some w1" "bind_fold call is w1 = Some w'"
    by (auto split: Option.bind_splits)
  have "posts_only w w1" using call_posts Cons.prems(1) 1(1) .
  moreover from this Cons.prems(1) have "\<not> el_calling (fst w1)" by (simp add: posts_only_def)
  ultimately show ?case using Cons.IH 1(2) posts_only_trans by blast
qed simp

lemma dispatch_posts:
  assumes "\<not> el_calling (fst w)" and "dispatch call alive ch w = Some w'"
  shows "posts_only w w'"
proof -
  obtain el ob where w: "w = (el, ob)" by (cases w)
  have "posts_only w (el\<lparr>el_current := Some ch\<rparr>, ob)" by (simp add: w)
  also have "posts_only \<dots> w'"
    by (rule calls_post) (use assms in \<open>auto simp: w dispatch_def\<close>)
  finally show ?thesis .
qed

lemma functors_run:
  assumes "el_calling (fst w)" and "bind_fold exec fs w = Some w'"
  shows "posts_only w w'"
  using assms
proof (induction fs arbitrary: w)
  case (Cons f fs)
  then obtain w1 where 1: "exec f w = Some w1" "bind_fold exec fs w1 = Some w'"
    by (auto split: Option.bind_splits)
  have "posts_only w w1" using exec_posts Cons.prems(1) 1(1) .
  moreover from this Cons.prems(1) have "el_calling (fst w1)" by (simp add: posts_only_def)
  ultimately show ?case using Cons.IH 1(2) posts_only_trans by blast
qed simp

text \<open>Functors queued by the functors of a batch wait for the next one, with the eventfd readable.\<close>

lemma doPendingFunctors_batch:
  assumes "doPendingFunctors exec w = Some w'"
  shows "\<exists>w1. bind_fold exec (el_pending (fst w)) ((fst w)\<lparr>el_calling := True, el_pending := []\<rparr>, snd w) = Some w1
    \<and> el_pending (fst w') = el_pending (fst w1) \<and> \<not> el_calling (fst w')
    \<and> (el_pending (fst w') \<noteq> [] \<longrightarrow> 0 < el_eventfd (fst w'))"
proof -
  let ?w0 = "((fst w)\<lparr>el_calling := True, el_pending := []\<rparr>, snd w)"
  obtain w1 where 1: "bind_fold exec (el_pending (fst w)) ?w0 = Some w1"
      and w': "w' = apfst (\<lambda>el. el\<lparr>el_calling := False\<rparr>) w1"
    using assms by (auto simp: doPendingFunctors_def begin_pending_def split: Option.bind_splits)
  have "posts_only ?w0 w1" by (rule functors_run [OF _ 1]) simp
  with 1 w' show ?thesis by (auto simp: posts_only_def)
qed

lemma step_queue_ok:
  assumes "loop_step call alive exec s s'" and "queue_ok s"
  shows "queue_ok s'"
  using assms
proof induction
  case (step_poll ans t el el' n ps xs ob)
  then show ?case by (auto simp: el_poll_def split: Option.bind_splits)
next
  case (step_handle w ch w' chs n ps xs)
  then have "posts_only w w'" by (blast intro: dispatch_posts)
  with step_handle show ?case by (cases w; cases w') (auto simp: posts_only_def)
next
  case (step_begin el el' fs n ps xs ob)
  then show ?case by (auto simp: begin_pending_def)
next
  case (step_run f w w' fs n ps xs)
  then have c: "el_calling (fst w)" by (cases w) auto
  from exec_posts [OF this step_run.hyps] c step_run.prems show ?case
    by (cases w; cases w') (auto simp: posts_only_def)
next
  case (post_wakeup ph n ps xs el ob)
  then show ?case by (auto simp: wakeup_def eventfd_max_def)
qed auto

lemma reach_queue_ok:
  assumes "loop_reach call alive exec w s" and "el_pending (fst w) = []" and "\<not> el_calling (fst w)"
  shows "queue_ok s"
  using assms(1)
proof induction
  case loop_start
  with assms(2,3) show ?case by (cases w) simp
next
  case (loop_next s s')
  then show ?case using step_queue_ok by blast
qed

lemma posted_in_order:
  assumes "loop_reach call alive exec w (ph, n, ps, xs, (el, ob))"
    and "el_pending (fst w) = []" and "\<not> el_calling (fst w)"
  shows "ps = xs @ running ph @ el_pending el"
  using reach_queue_ok [OF assms] by simp

lemma no_lost_wakeup:
  assumes "loop_reach call alive exec w (Polling, n, ps, xs, (el, ob))"
    and "el_pending (fst w) = []" and "\<not> el_calling (fst w)" and "el_pending el \<noteq> []"
  shows "0 < el_eventfd el \<or> 0 < n"
  using reach_queue_ok [OF assms(1-3)] assms(4) by auto

end

end
