(* ===== verification/Tcp_Connection.thy ===== *)
theory Tcp_Connection
  imports Event_Loop Byte_Buffer
begin

text \<open>
  \<open>include/TcpConnection.h\<close> and \<open>net/TcpConnection.cc\<close>: one connection served by its loop. The
  operations act on the loop and the connection together. The system calls on the socket are
  the fields \<open>tc_write\<close> and \<open>tc_read\<close>, and the user's callbacks the field \<open>tc_user\<close>, each a
  function of how much has happened so far, so that they may behave differently at each call.
  \<open>tc_trace\<close> records, in order, what the connection did: data accepted for sending, bytes put
  on the wire, the half-close, and the callbacks made.
\<close>

datatype conn_state = kDisconnected | kConnecting | kConnected | kDisconnecting

datatype callback = ConnectionCb bool | MessageCb string timestamp | WriteCompleteCb | HighWaterCb nat | CloseCb

datatype conn_event = Accepted string | Wire string | WriteFailed int | ReadFailed int | ShutWr | Called callback

text \<open>
  What user code may call on the connection. \<open>ASendString s late\<close> is \<open>send (const std::string &)\<close>:
  \<open>late\<close> is what the memory of \<open>s\<close> holds when the loop reads it, if another thread sends (the
  functor binds \<open>s.c_str ()\<close>, not a copy), and \<open>None\<close> if it was freed by then: the functor's read is undefined. \<open>AQueueDestroyed\<close> is what the owner's close callback
  queues.
\<close>

datatype api = ASendPtr string "string option" | ASendString string "string option" | ASendBuffer buffer | ASendInput
  | AShutdown | AForceClose | ARetrieve nat | AQueueDestroyed

datatype conn_functor = SendInLoop "string option" | ShutdownInLoop | ForceCloseInLoop
  | ConnectEstablished | ConnectDestroyed | WriteCompleteF | HighWaterF nat

datatype conn_handler = HandleRead | HandleWrite | HandleClose | HandleError | WakeupRead

record tcp_conn =
  tc_state :: conn_state
  tc_reading :: bool
  tc_name :: string
  tc_channel :: nat
  tc_hasWriteComplete :: bool
  tc_hasHighWater :: bool
  tc_highWaterMark :: nat
  tc_input :: buffer
  tc_output :: buffer
  tc_write :: "nat \<Rightarrow> string \<Rightarrow> int + nat"
  tc_read :: "nat \<Rightarrow> nat \<Rightarrow> int + string"
  tc_user :: "nat \<Rightarrow> callback \<Rightarrow> api list"
  tc_trace :: "conn_event list"

type_synonym conn_world = "(conn_functor, conn_handler, tcp_conn) world"

definition EPIPE :: int where "EPIPE = 32"
definition ECONNRESET :: int where "ECONNRESET = 104"
definition EWOULDBLOCK :: int where "EWOULDBLOCK = 11"

section \<open>Construction\<close>

definition conn_callbacks :: "conn_handler channel \<Rightarrow> conn_handler channel" where
  "conn_callbacks c = setErrorCallback HandleError (setCloseCallback HandleClose
     (setWriteCallback HandleWrite (setReadCallback HandleRead c)))"

definition new_conn ::
  "string \<Rightarrow> int \<Rightarrow> nat \<Rightarrow> (nat \<Rightarrow> string \<Rightarrow> int + nat) \<Rightarrow> (nat \<Rightarrow> nat \<Rightarrow> int + string)
    \<Rightarrow> (nat \<Rightarrow> callback \<Rightarrow> api list) \<Rightarrow> (conn_functor, conn_handler) evloop \<Rightarrow> conn_world" where
  "new_conn name sockfd ch write read user el =
     (el\<lparr>el_chans := (el_chans el)(ch := conn_callbacks (new_channel sockfd))\<rparr>,
      \<lparr>tc_state = kConnecting, tc_reading = True, tc_name = name, tc_channel = ch,
       tc_hasWriteComplete = False, tc_hasHighWater = False, tc_highWaterMark = 64 * 1024 * 1024,
       tc_input = new_buffer kInitialSize, tc_output = new_buffer kInitialSize,
       tc_write = write, tc_read = read, tc_user = user, tc_trace = []\<rparr>)"

definition setWriteCompleteCallback :: "tcp_conn \<Rightarrow> tcp_conn" where
  "setWriteCompleteCallback c = c\<lparr>tc_hasWriteComplete := True\<rparr>"

definition setHighWaterMarkCallback :: "nat \<Rightarrow> tcp_conn \<Rightarrow> tcp_conn" where
  "setHighWaterMarkCallback mark c = c\<lparr>tc_hasHighWater := True, tc_highWaterMark := mark\<rparr>"

definition connected :: "tcp_conn \<Rightarrow> bool" where
  "connected c \<longleftrightarrow> tc_state c = kConnected"

definition disconnected :: "tcp_conn \<Rightarrow> bool" where
  "disconnected c \<longleftrightarrow> tc_state c = kDisconnected"

definition setState :: "conn_state \<Rightarrow> tcp_conn \<Rightarrow> tcp_conn" where
  "setState st c = c\<lparr>tc_state := st\<rparr>"

definition trace :: "conn_event \<Rightarrow> tcp_conn \<Rightarrow> tcp_conn" where
  "trace e c = c\<lparr>tc_trace := tc_trace c @ [e]\<rparr>"

definition conn_writing :: "conn_world \<Rightarrow> bool" where
  "conn_writing w = isWriting (el_chans (fst w) (tc_channel (snd w)))"

text \<open>\<open>queueInLoop\<close> from the loop's own thread.\<close>

definition queue_here :: "conn_functor \<Rightarrow> conn_world \<Rightarrow> conn_world" where
  "queue_here f w = apfst (queueInLoop (el_threadId (fst w)) f) w"

definition on_channel ::
  "(nat \<Rightarrow> (conn_functor, conn_handler) evloop \<Rightarrow> (conn_functor, conn_handler) evloop option)
    \<Rightarrow> conn_world \<Rightarrow> conn_world option" where
  "on_channel m w = do {
     el \<leftarrow> m (tc_channel (snd w)) (fst w);
     Some (el, snd w)
   }"

section \<open>Sending\<close>

text \<open>
  The first part of \<open>sendInLoop\<close>: when nothing is being written, try the socket. The result is
  \<open>nwrote\<close> with \<open>faultError\<close>, which every branch of the code leaves false.
\<close>

definition send_direct :: "string \<Rightarrow> conn_world \<Rightarrow> (nat \<times> bool) \<times> conn_world" where
  "send_direct data w = (case w of (el, c) \<Rightarrow>
     (if \<not> conn_writing w \<and> readableBytes (tc_output c) = 0 then
        (case tc_write c (length (tc_trace c)) data of
           Inr nwrote \<Rightarrow>
             (let w = (el, trace (Wire (take nwrote data)) c);
                  remaining = sz_sub (length data) nwrote
              in ((nwrote, False),
                  if remaining = 0 \<and> tc_hasWriteComplete c then queue_here WriteCompleteF w else w))
         | Inl err \<Rightarrow>
             (let faultError = (if err \<noteq> EWOULDBLOCK then (if err = EPIPE \<or> err = ECONNRESET then False else False)
                                else False)
              in ((0, faultError), (el, trace (WriteFailed err) c))))
      else ((0, False), w)))"

text \<open>The second part: keep what is left.\<close>

definition send_rest :: "nat \<Rightarrow> string \<Rightarrow> conn_world \<Rightarrow> conn_world option" where
  "send_rest nwrote data w =
     (let remaining = sz_sub (length data) nwrote;
          oldLen = readableBytes (tc_output (snd w));
          w = (if tc_highWaterMark (snd w) \<le> oldLen + remaining \<and> oldLen < tc_highWaterMark (snd w)
                  \<and> tc_hasHighWater (snd w)
               then queue_here (HighWaterF (oldLen + remaining)) w else w)
      in do {
        out \<leftarrow> buf_append (Prelude.slice nwrote remaining data) (tc_output (snd w));
        let w = (fst w, (snd w)\<lparr>tc_output := out\<rparr>);
        if \<not> conn_writing w then on_channel enableWriting w else Some w
      })"

definition sendInLoop :: "string \<Rightarrow> conn_world \<Rightarrow> conn_world option" where
  "sendInLoop data w =
     (if tc_state (snd w) = kDisconnected then Some w
      else (case send_direct data (apsnd (trace (Accepted data)) w) of
        ((nwrote, faultError), w) \<Rightarrow>
          if \<not> faultError \<and> 0 < sz_sub (length data) nwrote then send_rest nwrote data w else Some w))"

text \<open>\<open>sendInLoop\<close> on bytes that are read when it is called: not at all, if their memory was freed.\<close>

definition send_bound :: "string option \<Rightarrow> conn_world \<Rightarrow> conn_world option" where
  "send_bound bytes w = (case bytes of Some data \<Rightarrow> sendInLoop data w | None \<Rightarrow> None)"

lemma send_bound_simps [simp]: "send_bound (Some data) w = sendInLoop data w" "send_bound None w = None"
  by (simp_all add: send_bound_def)

text \<open>The three overloads of \<open>send\<close>, in thread \<open>tid\<close>.\<close>

definition send_string :: "int \<Rightarrow> string \<Rightarrow> string option \<Rightarrow> conn_world \<Rightarrow> conn_world option" where
  "send_string tid buf late w =
     (if tc_state (snd w) = kConnected
      then if isInLoopThread tid (fst w) then sendInLoop buf w
           else runInLoop (\<lambda>_. send_bound late) tid (SendInLoop late) w
      else Some w)"

text \<open>\<open>send (const void *, int)\<close> ignores the length and stops at the first NUL.\<close>

definition send_ptr :: "int \<Rightarrow> string \<Rightarrow> nat \<Rightarrow> string option \<Rightarrow> conn_world \<Rightarrow> conn_world option" where
  "send_ptr tid message len late w = send_string tid (c_str message) late w"

definition send_buffer :: "int \<Rightarrow> buffer \<Rightarrow> conn_world \<Rightarrow> (conn_world \<times> buffer) option" where
  "send_buffer tid buf w =
     (if tc_state (snd w) = kConnected
      then if isInLoopThread tid (fst w) then do {
             w \<leftarrow> sendInLoop (Prelude.slice (peek buf) (readableBytes buf) (b_buffer buf)) w;
             Some (w, rertrieveAll buf)
           }
           else do {
             (message, buf) \<leftarrow> retrieveAllAsString buf;
             w \<leftarrow> runInLoop (\<lambda>_. sendInLoop message) tid (SendInLoop (Some message)) w;
             Some (w, buf)
           }
      else Some (w, buf))"

section \<open>Closing\<close>

definition shutdownInLoop :: "conn_world \<Rightarrow> conn_world option" where
  "shutdownInLoop w = Some (if \<not> conn_writing w then apsnd (trace ShutWr) w else w)"

definition shutdown :: "int \<Rightarrow> conn_world \<Rightarrow> conn_world option" where
  "shutdown tid w =
     (if tc_state (snd w) = kConnected
      then runInLoop (\<lambda>_. shutdownInLoop) tid ShutdownInLoop (apsnd (setState kDisconnecting) w)
      else Some w)"

definition forceClose :: "int \<Rightarrow> conn_world \<Rightarrow> conn_world" where
  "forceClose tid w =
     (if tc_state (snd w) = kConnected \<or> tc_state (snd w) = kDisconnecting
      then apfst (queueInLoop tid ForceCloseInLoop) (apsnd (setState kDisconnecting) w)
      else w)"

section \<open>User callbacks\<close>

definition api_call :: "int \<Rightarrow> api \<Rightarrow> conn_world \<Rightarrow> conn_world option" where
  "api_call tid a w = (case a of
     ASendPtr message late \<Rightarrow> send_ptr tid message (length message) late w
   | ASendString s late \<Rightarrow> send_string tid s late w
   | ASendBuffer b \<Rightarrow> map_option fst (send_buffer tid b w)
   | ASendInput \<Rightarrow> do {
       ((el, c), b) \<leftarrow> send_buffer tid (tc_input (snd w)) w;
       Some (el, c\<lparr>tc_input := b\<rparr>)
     }
   | AShutdown \<Rightarrow> shutdown tid w
   | AForceClose \<Rightarrow> Some (forceClose tid w)
   | ARetrieve n \<Rightarrow> Some (apsnd (\<lambda>c. c\<lparr>tc_input := retrieve n (tc_input c)\<rparr>) w)
   | AQueueDestroyed \<Rightarrow> Some (apfst (queueInLoop tid ConnectDestroyed) w))"

definition invoke :: "callback \<Rightarrow> conn_world \<Rightarrow> conn_world option" where
  "invoke cb w = bind_fold (api_call (el_threadId (fst w))) (tc_user (snd w) (length (tc_trace (snd w))) cb)
     (apsnd (trace (Called cb)) w)"

section \<open>Handlers\<close>

definition connectEstablished :: "conn_world \<Rightarrow> conn_world option" where
  "connectEstablished w =
     (case apsnd (setState kConnected) w of (el, c) \<Rightarrow> do {
        let el = el\<lparr>el_chans := (el_chans el)(tc_channel c := tie (tc_channel c) (el_chans el (tc_channel c)))\<rparr>;
        w \<leftarrow> on_channel enableReading (el, c);
        invoke (ConnectionCb True) w
      })"

definition connectDestroyed :: "conn_world \<Rightarrow> conn_world option" where
  "connectDestroyed w = do {
     w \<leftarrow> (if tc_state (snd w) = kConnected then do {
             w \<leftarrow> on_channel disableAll (apsnd (setState kDisconnected) w);
             invoke (ConnectionCb False) w
           } else Some w);
     on_channel el_removeChannel w
   }"

definition handleClose :: "conn_world \<Rightarrow> conn_world option" where
  "handleClose w = do {
     w \<leftarrow> on_channel disableAll (apsnd (setState kDisconnected) w);
     w \<leftarrow> invoke (ConnectionCb False) w;
     invoke CloseCb w
   }"

definition forceCloseInLoop :: "conn_world \<Rightarrow> conn_world option" where
  "forceCloseInLoop w =
     (if tc_state (snd w) = kConnected \<or> tc_state (snd w) = kDisconnecting then handleClose w else Some w)"

text \<open>\<open>handleError\<close> only reads \<open>SO_ERROR\<close> and logs.\<close>

definition handleError :: "conn_world \<Rightarrow> conn_world option" where
  "handleError w = Some w"

definition handleRead :: "timestamp \<Rightarrow> conn_world \<Rightarrow> conn_world option" where
  "handleRead receiveTime w = (case w of (el, c) \<Rightarrow> do {
     (n, input) \<leftarrow> readFd (tc_read c (length (tc_trace c))) (tc_input c);
     let w = (el, c\<lparr>tc_input := input\<rparr>);
     case n of
       Inr n \<Rightarrow> if 0 < n then invoke (MessageCb (content input) receiveTime) w else handleClose w
     | Inl err \<Rightarrow> handleError (apsnd (trace (ReadFailed err)) w)
   })"

definition handleWrite :: "conn_world \<Rightarrow> conn_world option" where
  "handleWrite w = (case w of (el, c) \<Rightarrow>
     (if conn_writing w then
        (case writeFd (tc_write c (length (tc_trace c))) (tc_output c) of
           Inr n \<Rightarrow>
             if 0 < n then
               (let wire = take n (Prelude.slice (peek (tc_output c)) (readableBytes (tc_output c)) (b_buffer (tc_output c)));
                    c = trace (Wire wire) (c\<lparr>tc_output := retrieve n (tc_output c)\<rparr>)
                in if readableBytes (tc_output c) = 0 then do {
                     w \<leftarrow> on_channel disableWriting (el, c);
                     let w = (if tc_hasWriteComplete (snd w) then queue_here WriteCompleteF w else w);
                     if tc_state (snd w) = kDisconnecting then shutdownInLoop w else Some w
                   } else Some (el, c))
             else Some (el, trace (Wire []) c)
         | Inl err \<Rightarrow> Some (el, trace (WriteFailed err) c))
      else Some w))"

section \<open>What the loop runs\<close>

fun exec_functor :: "conn_functor \<Rightarrow> conn_world \<Rightarrow> conn_world option" where
  "exec_functor (SendInLoop bytes) w = send_bound bytes w"
| "exec_functor ShutdownInLoop w = shutdownInLoop w"
| "exec_functor ForceCloseInLoop w = forceCloseInLoop w"
| "exec_functor ConnectEstablished w = connectEstablished w"
| "exec_functor ConnectDestroyed w = connectDestroyed w"
| "exec_functor WriteCompleteF w = invoke WriteCompleteCb w"
| "exec_functor (HighWaterF n) w = invoke (HighWaterCb n) w"

fun call_handler :: "conn_handler invocation \<Rightarrow> conn_world \<Rightarrow> conn_world option" where
  "call_handler (Call HandleWrite) w = handleWrite w"
| "call_handler (Call HandleClose) w = handleClose w"
| "call_handler (Call HandleError) w = handleError w"
| "call_handler (ReadCall HandleRead t) w = handleRead t w"
| "call_handler (ReadCall WakeupRead t) w = Some (apfst el_handleRead w)"
| "call_handler _ w = None"

section \<open>What the trace says\<close>

definition wire :: "conn_event list \<Rightarrow> string" where
  "wire tr = concat (map (\<lambda>e. case e of Wire s \<Rightarrow> s | _ \<Rightarrow> []) tr)"

definition accepted :: "conn_event list \<Rightarrow> string" where
  "accepted tr = concat (map (\<lambda>e. case e of Accepted s \<Rightarrow> s | _ \<Rightarrow> []) tr)"

text \<open>
  The callback protocol as an automaton: 0 before the connection callback, 1 while it is up,
  2 after the connection callback has said it is down, 3 after the close callback.
\<close>

fun cb_step :: "callback \<Rightarrow> nat \<Rightarrow> nat option" where
  "cb_step (ConnectionCb True) p = (if p = 0 then Some 1 else None)"
| "cb_step (ConnectionCb False) p = (if p = 1 then Some 2 else None)"
| "cb_step (MessageCb s t) p = (if p = 1 then Some 1 else None)"
| "cb_step CloseCb p = (if p = 2 then Some 3 else None)"
| "cb_step WriteCompleteCb p = (if 1 \<le> p then Some p else None)"
| "cb_step (HighWaterCb n) p = (if 1 \<le> p then Some p else None)"

definition event_step :: "conn_event \<Rightarrow> nat \<Rightarrow> nat option" where
  "event_step e p = (case e of Called cb \<Rightarrow> cb_step cb p | _ \<Rightarrow> Some p)"

definition cb_phase :: "conn_event list \<Rightarrow> nat option" where
  "cb_phase tr = bind_fold event_step tr 0"

definition is_down :: "conn_event list \<Rightarrow> bool" where
  "is_down tr \<longleftrightarrow> Called (ConnectionCb False) \<in> set tr"

text \<open>A half-close of an open connection happens only when everything accepted is on the wire.\<close>

definition drained :: "conn_event list \<Rightarrow> bool" where
  "drained tr \<longleftrightarrow> (\<forall>pre suf. tr = pre @ ShutWr # suf \<longrightarrow> \<not> is_down pre \<longrightarrow> wire pre = accepted pre)"

lemma event_step_quiet [simp]:
  "event_step (Accepted s) = Some" "event_step (Wire s) = Some" "event_step (WriteFailed e) = Some"
  "event_step (ReadFailed e) = Some" "event_step ShutWr = Some" "event_step (Called cb) = cb_step cb"
  by (rule ext, simp add: event_step_def)+

lemma trace_reads [simp]:
  "wire [] = []" "accepted [] = []" "cb_phase [] = Some 0" "\<not> is_down []" "drained []"
  by (simp_all add: wire_def accepted_def cb_phase_def is_down_def drained_def)

lemma wire_snoc [simp]: "wire (tr @ [e]) = wire tr @ (case e of Wire s \<Rightarrow> s | _ \<Rightarrow> [])"
  by (simp add: wire_def)

lemma accepted_snoc [simp]: "accepted (tr @ [e]) = accepted tr @ (case e of Accepted s \<Rightarrow> s | _ \<Rightarrow> [])"
  by (simp add: accepted_def)

lemma cb_phase_snoc [simp]: "cb_phase (tr @ [e]) = cb_phase tr \<bind> event_step e"
  by (simp add: cb_phase_def bind_fold_append)

lemma is_down_snoc [simp]: "is_down (tr @ [e]) \<longleftrightarrow> is_down tr \<or> e = Called (ConnectionCb False)"
  by (auto simp: is_down_def)

lemma drained_snoc [simp]:
  "drained (tr @ [e]) \<longleftrightarrow> drained tr \<and> (e = ShutWr \<and> \<not> is_down tr \<longrightarrow> wire tr = accepted tr)"
proof
  assume *: "drained tr \<and> (e = ShutWr \<and> \<not> is_down tr \<longrightarrow> wire tr = accepted tr)"
  show "drained (tr @ [e])"
    unfolding drained_def
  proof (intro allI impI)
    fix pre suf assume "tr @ [e] = pre @ ShutWr # suf" "\<not> is_down pre"
    with * show "wire pre = accepted pre"
      by (cases suf rule: rev_cases) (auto simp: drained_def)
  qed
qed (auto simp: drained_def)

section \<open>Invariant\<close>

fun phase_ok :: "conn_state \<Rightarrow> nat \<Rightarrow> bool" where
  "phase_ok kConnecting p = (p = 0)"
| "phase_ok kConnected p = (p = 1)"
| "phase_ok kDisconnecting p = (p = 1)"
| "phase_ok kDisconnected p = (p = 2 \<or> p = 3)"

text \<open>\<open>rest\<close> is data that has been accepted and is neither on the wire nor in the output buffer.\<close>

definition data_but :: "string \<Rightarrow> tcp_conn \<Rightarrow> bool" where
  "data_but rest c \<longleftrightarrow> buf_inv (tc_input c) \<and> buf_inv (tc_output c)
     \<and> wire (tc_trace c) @ content (tc_output c) @ rest = accepted (tc_trace c)
     \<and> drained (tc_trace c) \<and> (is_down (tc_trace c) \<longleftrightarrow> tc_state c = kDisconnected)
     \<and> (\<exists>p. cb_phase (tc_trace c) = Some p \<and> phase_ok (tc_state c) p)
     \<and> (\<forall>k s n. tc_write c k s = Inr n \<longrightarrow> n \<le> length s) \<and> (\<forall>k. readv_ok (tc_read c k))
     \<and> (\<forall>k cb. list_all (\<lambda>a. case a of ASendBuffer b \<Rightarrow> buf_inv b | _ \<Rightarrow> True) (tc_user c k cb))"

abbreviation data_ok :: "tcp_conn \<Rightarrow> bool" where
  "data_ok \<equiv> data_but []"

definition chan_ok :: "(conn_functor, conn_handler) evloop \<Rightarrow> tcp_conn \<Rightarrow> bool" where
  "chan_ok el c \<longleftrightarrow> (let chan = el_chans el (tc_channel c) in loop_wf el
     \<and> ch_readCallback chan = Some HandleRead \<and> ch_writeCallback chan = Some HandleWrite
     \<and> ch_closeCallback chan = Some HandleClose \<and> ch_errorCallback chan = Some HandleError
     \<and> (tc_state c \<noteq> kDisconnected \<longrightarrow> registrable (tc_channel c) el
          \<and> (isWriting chan \<longleftrightarrow> content (tc_output c) \<noteq> []))
     \<and> (tc_state c = kDisconnected \<longrightarrow> isNoneEvent chan))"

definition conn_ok :: "conn_world \<Rightarrow> bool" where
  "conn_ok w \<longleftrightarrow> data_ok (snd w) \<and> chan_ok (fst w) (snd w)"

fun rank :: "conn_state \<Rightarrow> nat" where
  "rank kConnecting = 0"
| "rank kConnected = 1"
| "rank kDisconnecting = 2"
| "rank kDisconnected = 3"

text \<open>What every operation but the removal of the channel respects.\<close>

definition steady :: "conn_world \<Rightarrow> conn_world \<Rightarrow> bool" where
  "steady w w' \<longleftrightarrow> posts_only w w' \<and> ConnectEstablished \<notin> set (newly w w')
     \<and> tc_channel (snd w') = tc_channel (snd w) \<and> tc_user (snd w') = tc_user (snd w)
     \<and> rank (tc_state (snd w)) \<le> rank (tc_state (snd w'))
     \<and> (el_hasChannel (tc_channel (snd w)) (fst w) \<longrightarrow> el_hasChannel (tc_channel (snd w)) (fst w'))"

lemma steady_refl [simp, intro]: "steady w w"
  by (simp add: steady_def newly_def)

lemma newly_trans: "posts_only a b \<Longrightarrow> posts_only b c \<Longrightarrow> newly a c = newly a b @ newly b c"
  by (simp add: posts_only_def newly_def [of a c])

lemma steady_trans [trans]:
  assumes "steady a b" and "steady b c"
  shows "steady a c"
proof -
  note p = assms [unfolded steady_def, THEN conjunct1]
  have "newly a c = newly a b @ newly b c" by (rule newly_trans [OF p])
  moreover have "posts_only a c" by (rule posts_only_trans [OF p])
  ultimately show ?thesis using assms by (simp add: steady_def)
qed

section \<open>Every operation keeps the invariant\<close>

text \<open>Worlds stay whole in existential goals.\<close>

declare split_paired_Ex [simp del]

lemma queueInLoop_frame [simp]:
  "el_chans (queueInLoop tid f el) = el_chans el" "el_poller (queueInLoop tid f el) = el_poller el"
  "el_threadId (queueInLoop tid f el) = el_threadId el"
  "loop_wf (queueInLoop tid f el) = loop_wf el" "registrable ch (queueInLoop tid f el) = registrable ch el"
  "el_hasChannel ch (queueInLoop tid f el) = el_hasChannel ch el"
  "el_pending (queueInLoop tid f el) = el_pending el @ [f]"
  by (simp_all add: queueInLoop_def wakeup_def Let_def loop_wf_def registrable_def el_hasChannel_def)

lemma queue_steady:
  assumes "f \<noteq> ConnectEstablished"
  shows "steady (el, c) (queueInLoop tid f el, c)"
  using assms by (simp add: steady_def newly_def)

lemma chan_ok_queue [simp]: "chan_ok (queueInLoop tid f el) c = chan_ok el c"
  by (simp add: chan_ok_def)

text \<open>An update of the connection alone.\<close>

lemma steady_conn [simp]:
  "tc_channel c' = tc_channel c \<Longrightarrow> tc_user c' = tc_user c \<Longrightarrow> rank (tc_state c) \<le> rank (tc_state c')
    \<Longrightarrow> steady (el, c) (el, c')"
  by (simp add: steady_def newly_def)

lemma conn_simps [simp]:
  "tc_trace (trace e c) = tc_trace c @ [e]" "tc_channel (trace e c) = tc_channel c"
  "tc_state (trace e c) = tc_state c" "tc_output (trace e c) = tc_output c"
  "tc_input (trace e c) = tc_input c" "tc_user (trace e c) = tc_user c"
  "tc_write (trace e c) = tc_write c" "tc_read (trace e c) = tc_read c"
  "tc_highWaterMark (trace e c) = tc_highWaterMark c" "tc_hasHighWater (trace e c) = tc_hasHighWater c"
  "tc_hasWriteComplete (trace e c) = tc_hasWriteComplete c"
  "tc_trace (setState st c) = tc_trace c" "tc_channel (setState st c) = tc_channel c"
  "tc_state (setState st c) = st" "tc_output (setState st c) = tc_output c"
  "tc_input (setState st c) = tc_input c" "tc_user (setState st c) = tc_user c"
  "tc_write (setState st c) = tc_write c" "tc_read (setState st c) = tc_read c"
  by (simp_all add: trace_def setState_def)

lemma chan_ok_trace [simp]: "chan_ok el (trace e c) = chan_ok el c"
  by (simp add: chan_ok_def)

lemma isWriting_cong: "ch_events a = ch_events b \<Longrightarrow> isWriting a = isWriting b"
  "ch_events a = ch_events b \<Longrightarrow> isNoneEvent a = isNoneEvent b"
  by (simp_all add: isWriting_def isNoneEvent_def)

text \<open>
  An interest change of the connection's channel: it succeeds, and leaves the loop's queue and
  the channel's callbacks alone.
\<close>

lemma on_channel_interest:
  assumes "loop_wf el" and "registrable (tc_channel c) el"
  obtains el' where "on_channel (set_interest m) (el, c) = Some (el', c)"
    and "steady (el, c) (el', c)" and "el_hasChannel (tc_channel c) el'"
    and "loop_wf el'" and "registrable (tc_channel c) el'" and "el_threadId el' = el_threadId el"
    and "ch_events (el_chans el' (tc_channel c)) = m (ch_events (el_chans el (tc_channel c)))"
    and "ch_readCallback (el_chans el' (tc_channel c)) = ch_readCallback (el_chans el (tc_channel c))"
    and "ch_writeCallback (el_chans el' (tc_channel c)) = ch_writeCallback (el_chans el (tc_channel c))"
    and "ch_closeCallback (el_chans el' (tc_channel c)) = ch_closeCallback (el_chans el (tc_channel c))"
    and "ch_errorCallback (el_chans el' (tc_channel c)) = ch_errorCallback (el_chans el (tc_channel c))"
proof -
  let ?ch = "tc_channel c"
  obtain cs p where u: "set_interest m ?ch el = Some (el\<lparr>el_chans := cs, el_poller := p\<rparr>)"
      "loop_wf (el\<lparr>el_chans := cs, el_poller := p\<rparr>)"
      "registrable ?ch (el\<lparr>el_chans := cs, el_poller := p\<rparr>)"
      "el_hasChannel ?ch (el\<lparr>el_chans := cs, el_poller := p\<rparr>)"
      and same: "same_but_index (put_events (m (ch_events (el_chans el ?ch))) ?ch (el_chans el)) cs"
    by (rule set_interest_ok [OF assms])
  obtain i where i: "cs ?ch = set_index i ((el_chans el ?ch)\<lparr>ch_events := m (ch_events (el_chans el ?ch))\<rparr>)"
    using same unfolding same_but_index_def put_events_def by (metis fun_upd_same)
  show ?thesis
    by (rule that [of "el\<lparr>el_chans := cs, el_poller := p\<rparr>"])
      (use u in \<open>simp_all add: on_channel_def steady_def newly_def i set_index_def\<close>)
qed

text \<open>What the invariant says of the channel, in the shape the operations use.\<close>

lemma chan_okI:
  assumes "chan_ok el c" and "loop_wf el'" and "tc_channel c' = tc_channel c"
    and "ch_readCallback (el_chans el' (tc_channel c)) = ch_readCallback (el_chans el (tc_channel c))"
    and "ch_writeCallback (el_chans el' (tc_channel c)) = ch_writeCallback (el_chans el (tc_channel c))"
    and "ch_closeCallback (el_chans el' (tc_channel c)) = ch_closeCallback (el_chans el (tc_channel c))"
    and "ch_errorCallback (el_chans el' (tc_channel c)) = ch_errorCallback (el_chans el (tc_channel c))"
    and "tc_state c' \<noteq> kDisconnected \<Longrightarrow> registrable (tc_channel c) el'
      \<and> (isWriting (el_chans el' (tc_channel c)) \<longleftrightarrow> content (tc_output c') \<noteq> [])"
    and "tc_state c' = kDisconnected \<Longrightarrow> isNoneEvent (el_chans el' (tc_channel c))"
  shows "chan_ok el' c'"
  using assms by (simp add: chan_ok_def Let_def)

lemma chan_ok_same:
  "chan_ok el c \<Longrightarrow> tc_channel c' = tc_channel c \<Longrightarrow> content (tc_output c') = content (tc_output c)
    \<Longrightarrow> (tc_state c = kDisconnected) = (tc_state c' = kDisconnected) \<Longrightarrow> chan_ok el c'"
  by (simp add: chan_ok_def Let_def)

lemma conn_okD:
  assumes "conn_ok (el, c)"
  shows "buf_inv (tc_input c)" "buf_inv (tc_output c)" "data_ok c" "chan_ok el c" "loop_wf el"
    "tc_state c \<noteq> kDisconnected \<Longrightarrow> registrable (tc_channel c) el"
    "tc_state c \<noteq> kDisconnected \<Longrightarrow> conn_writing (el, c) \<longleftrightarrow> content (tc_output c) \<noteq> []"
    "tc_state c = kDisconnected \<Longrightarrow> \<not> conn_writing (el, c)"
  using assms by (auto simp: conn_ok_def data_but_def chan_ok_def Let_def conn_writing_def
      isNoneEvent_def isWriting_def kNoneEvent_def)

lemma write_bound: "data_but r c \<Longrightarrow> tc_write c k s = Inr n \<Longrightarrow> n \<le> length s"
  by (simp add: data_but_def)

lemma data_but_state: "data_but r c \<Longrightarrow> (\<exists>p. cb_phase (tc_trace c) = Some p)"
  by (auto simp: data_but_def)

lemma data_accept: "data_ok c \<Longrightarrow> data_but data (trace (Accepted data) c)"
  by (simp add: data_but_def)

lemma data_wire:
  "data_but data c \<Longrightarrow> content (tc_output c) = [] \<Longrightarrow> data_but (drop n data) (trace (Wire (take n data)) c)"
  by (simp add: data_but_def)

lemma data_failed [simp]:
  "data_but r (trace (WriteFailed e) c) = data_but r c" "data_but r (trace (ReadFailed e) c) = data_but r c"
  by (simp_all add: data_but_def)

lemma data_keep:
  "data_but r c \<Longrightarrow> buf_inv out \<Longrightarrow> content out = content (tc_output c) @ r \<Longrightarrow> data_ok (c\<lparr>tc_output := out\<rparr>)"
  by (auto simp: data_but_def)

text \<open>\<open>sendInLoop\<close>: the direct write, then the rest.\<close>

lemma queue_here_Pair: "queue_here f (el, c) = (queueInLoop (el_threadId el) f el, c)"
  by (simp add: queue_here_def)

lemma send_direct_ok:
  assumes d: "data_but data c" and ch: "chan_ok el c"
  obtains el' c' nwrote where "send_direct data (el, c) = ((nwrote, False), (el', c'))"
    and "nwrote \<le> length data" and "steady (el, c) (el', c')" and "chan_ok el' c'"
    and "data_but (drop nwrote data) c'" and "tc_state c' = tc_state c"
proof (cases "\<not> conn_writing (el, c) \<and> readableBytes (tc_output c) = 0")
  case False
  then have "send_direct data (el, c) = ((0, False), (el, c))" by (auto simp: send_direct_def)
  with that [of 0 el c] d ch show ?thesis by simp
next
  case True
  have empty: "content (tc_output c) = []"
    using True d readableBytes_eq [of "tc_output c"] by (simp add: data_but_def)
  show ?thesis
  proof (cases "tc_write c (length (tc_trace c)) data")
    case (Inl err)
    with True have "send_direct data (el, c) = ((0, False), (el, trace (WriteFailed err) c))"
      by (simp add: send_direct_def)
    with that [of 0 el "trace (WriteFailed err) c"] d ch show ?thesis by simp
  next
    case (Inr n)
    let ?c = "trace (Wire (take n data)) c"
    have d': "data_but (drop n data) ?c" by (rule data_wire [OF d empty])
    note n = write_bound [OF d Inr]
    show ?thesis
    proof (cases "sz_sub (length data) n = 0 \<and> tc_hasWriteComplete c")
      case True': True
      have "send_direct data (el, c) = ((n, False), (queueInLoop (el_threadId el) WriteCompleteF el, ?c))"
        using True True' Inr by (simp add: send_direct_def Let_def queue_here_Pair)
      moreover have "steady (el, c) (queueInLoop (el_threadId el) WriteCompleteF el, ?c)"
        by (rule steady_trans [OF _ queue_steady]) simp_all
      ultimately show ?thesis using that n d' ch by auto
    next
      case False
      then have "send_direct data (el, c) = ((n, False), (el, ?c))"
        using True Inr by (auto simp: send_direct_def Let_def)
      with that n d' ch show ?thesis by auto
    qed
  qed
qed

lemma send_rest_ok:
  assumes d: "data_but (drop n data) c" and ch: "chan_ok el c" and st: "tc_state c \<noteq> kDisconnected"
    and n: "n < length data"
  obtains w' where "send_rest n data (el, c) = Some w'" and "conn_ok w'" and "steady (el, c) w'"
    and "tc_state (snd w') = tc_state c"
proof -
  let ?rem = "sz_sub (length data) n" and ?old = "readableBytes (tc_output c)"
  let ?hw = "tc_highWaterMark c \<le> ?old + ?rem \<and> ?old < tc_highWaterMark c \<and> tc_hasHighWater c"
  define el1 where "el1 = (if ?hw then queueInLoop (el_threadId el) (HighWaterF (?old + ?rem)) el else el)"
  have ch1: "chan_ok el1 c" and s1: "steady (el, c) (el1, c)"
    using ch by (simp_all add: el1_def queue_steady)
  have rem: "Prelude.slice n ?rem data = drop n data" "drop n data \<noteq> []"
    using n by (simp_all add: Prelude.slice_def)
  obtain out where out: "buf_append (drop n data) (tc_output c) = Some out" "buf_inv out"
      "content out = content (tc_output c) @ drop n data"
    using buf_append_spec [of "tc_output c" "drop n data"] d by (auto simp: data_but_def)
  let ?c = "c\<lparr>tc_output := out\<rparr>"
  have d2: "data_ok ?c" using data_keep [OF d out(2,3)] .
  have eq: "send_rest n data (el, c) =
      (if \<not> conn_writing (el1, ?c) then on_channel enableWriting (el1, ?c) else Some (el1, ?c))"
    using out(1) by (simp add: send_rest_def Let_def rem el1_def queue_here_Pair)
  have s2: "steady (el, c) (el1, ?c)" by (rule steady_trans [OF s1]) simp
  show ?thesis
  proof (cases "conn_writing (el1, ?c)")
    case True
    have "chan_ok el1 ?c"
      by (rule chan_okI [OF ch1]) (use ch1 st True out(3) rem(2) in
        \<open>auto simp: chan_ok_def conn_writing_def Let_def\<close>)
    with that [of "(el1, ?c)"] True d2 s2 show ?thesis by (simp add: eq conn_ok_def)
  next
    case False
    have "loop_wf el1" "registrable (tc_channel ?c) el1"
      using ch1 st by (simp_all add: chan_ok_def Let_def)
    from on_channel_interest [OF this, of ev_enableWriting] obtain el2 where
      u: "on_channel enableWriting (el1, ?c) = Some (el2, ?c)" "steady (el1, ?c) (el2, ?c)"
        "loop_wf el2" "registrable (tc_channel ?c) el2"
        "ch_events (el_chans el2 (tc_channel ?c)) = ev_enableWriting (ch_events (el_chans el1 (tc_channel ?c)))"
        "ch_readCallback (el_chans el2 (tc_channel ?c)) = ch_readCallback (el_chans el1 (tc_channel ?c))"
        "ch_writeCallback (el_chans el2 (tc_channel ?c)) = ch_writeCallback (el_chans el1 (tc_channel ?c))"
        "ch_closeCallback (el_chans el2 (tc_channel ?c)) = ch_closeCallback (el_chans el1 (tc_channel ?c))"
        "ch_errorCallback (el_chans el2 (tc_channel ?c)) = ch_errorCallback (el_chans el1 (tc_channel ?c))"
      unfolding enableWriting_def by metis
    have "chan_ok el2 ?c"
      by (rule chan_okI [OF ch1]) (use u st out(3) rem(2) in \<open>simp_all add: isWriting_def\<close>)
    moreover have "steady (el, c) (el2, ?c)" by (rule steady_trans [OF s2 u(2)])
    ultimately show ?thesis using that [of "(el2, ?c)"] False d2 u(1) by (simp add: eq conn_ok_def)
  qed
qed

lemma sendInLoop_ok:
  assumes ok: "conn_ok w"
  obtains w' where "sendInLoop data w = Some w'" and "conn_ok w'" and "steady w w'"
    and "tc_state (snd w') = tc_state (snd w)"
proof -
  obtain el c where w: "w = (el, c)" by (cases w)
  show ?thesis
  proof (cases "tc_state c = kDisconnected")
    case True
    with that [of w] ok show ?thesis by (simp add: sendInLoop_def w)
  next
    case False
    let ?c = "trace (Accepted data) c"
    have d: "data_but data ?c" and ch: "chan_ok el ?c"
      using ok data_accept by (simp_all add: w conn_ok_def)
    from send_direct_ok [OF d ch] obtain el1 c1 n where
      1: "send_direct data (el, ?c) = ((n, False), (el1, c1))" "n \<le> length data"
        "steady (el, ?c) (el1, c1)" "chan_ok el1 c1" "data_but (drop n data) c1" "tc_state c1 = tc_state ?c"
      by metis
    have s1: "steady (el, c) (el1, c1)" by (rule steady_trans [OF _ 1(3)]) simp
    show ?thesis
    proof (cases "n < length data")
      case True
      have "tc_state c1 \<noteq> kDisconnected" using False 1(6) by simp
      from send_rest_ok [OF 1(5,4) this True] obtain w2 where
        2: "send_rest n data (el1, c1) = Some w2" "conn_ok w2" "steady (el1, c1) w2"
          "tc_state (snd w2) = tc_state c1" by metis
      have "sendInLoop data w = Some w2"
        using False True 1(1) 2(1) by (simp add: sendInLoop_def w sz_sub_def)
      moreover have "steady w w2" unfolding w by (rule steady_trans [OF s1 2(3)])
      ultimately show ?thesis using that 2(2,4) 1(6) by (simp add: w)
    next
      case False': False
      have "sendInLoop data w = Some (el1, c1)"
        using False False' 1(1,2) by (simp add: sendInLoop_def w sz_sub_def)
      moreover have "conn_ok (el1, c1)" using 1(4,5) False' by (simp add: conn_ok_def)
      ultimately show ?thesis using that s1 1(6) by (simp add: w)
    qed
  qed
qed

text \<open>Work that runs here, or is queued for the loop.\<close>

lemma runInLoop_ok:
  assumes ok: "conn_ok w" and f: "f \<noteq> ConnectEstablished"
    and run: "\<exists>w'. g w = Some w' \<and> conn_ok w' \<and> steady w w'"
  shows "\<exists>w'. runInLoop (\<lambda>_. g) tid f w = Some w' \<and> conn_ok w' \<and> steady w w'"
proof (cases "isInLoopThread tid (fst w)")
  case True
  with run show ?thesis by (simp add: runInLoop_def)
next
  case False
  obtain el c where w: "w = (el, c)" by (cases w)
  from False ok queue_steady [OF f, of el c tid] show ?thesis
    by (simp add: w runInLoop_def conn_ok_def)
qed

lemma send_string_ok:
  assumes "conn_ok w"
  shows "\<exists>w'. send_string tid buf late w = Some w' \<and> conn_ok w' \<and> steady w w'"
proof -
  have send: "\<exists>w'. sendInLoop d w = Some w' \<and> conn_ok w' \<and> steady w w'" for d
    using sendInLoop_ok [OF assms] by metis
  show ?thesis
  proof (cases "isInLoopThread tid (fst w)")
    case True
    with send [of buf] assms show ?thesis by (simp add: send_string_def)
  next
    case False
    then have "runInLoop (\<lambda>_. send_bound late) tid (SendInLoop late) w
        = runInLoop (\<lambda>_. sendInLoop buf) tid (SendInLoop late) w"
      by (simp add: runInLoop_def)
    with False runInLoop_ok [where g = "sendInLoop buf", OF assms _ send, of "SendInLoop late" tid] assms
    show ?thesis by (simp add: send_string_def)
  qed
qed

lemma conn_ok_input:
  "conn_ok (el, c) \<Longrightarrow> buf_inv b \<Longrightarrow> conn_ok (el, c\<lparr>tc_input := b\<rparr>)"
  by (auto simp: conn_ok_def data_but_def chan_ok_def Let_def)

lemma retrieveAllAsString_ok: "buf_inv b \<Longrightarrow> \<exists>s b'. retrieveAllAsString b = Some (s, b') \<and> buf_inv b'"
  by (simp add: retrieveAllAsString_def retrieveAsString_spec readableBytes_eq retrieve_inv)

lemma send_buffer_ok:
  assumes ok: "conn_ok w" and b: "buf_inv b"
  shows "\<exists>w' b'. send_buffer tid b w = Some (w', b') \<and> conn_ok w' \<and> steady w w' \<and> buf_inv b'"
proof -
  have send: "\<exists>w'. sendInLoop d w = Some w' \<and> conn_ok w' \<and> steady w w'" for d
    using sendInLoop_ok [OF ok] by metis
  obtain s b' where s: "retrieveAllAsString b = Some (s, b')" "buf_inv b'"
    using retrieveAllAsString_ok [OF b] by blast
  have run: "\<exists>w'. runInLoop (\<lambda>_. sendInLoop s) tid (SendInLoop (Some s)) w = Some w' \<and> conn_ok w' \<and> steady w w'"
    by (rule runInLoop_ok [where g = "sendInLoop s", OF ok _ send]) simp
  show ?thesis
    using send [of "Prelude.slice (peek b) (readableBytes b) (b_buffer b)"] run s ok b rertrieveAll_inv [OF b]
    by (auto simp: send_buffer_def)
qed

text \<open>A change from connected to disconnecting.\<close>

lemma conn_ok_disconnecting:
  assumes "conn_ok (el, c)" and "tc_state c = kConnected \<or> tc_state c = kDisconnecting"
  shows "conn_ok (el, setState kDisconnecting c)" "steady (el, c) (el, setState kDisconnecting c)"
proof -
  show "conn_ok (el, setState kDisconnecting c)"
    using assms by (auto simp: conn_ok_def data_but_def chan_ok_def Let_def)
  show "steady (el, c) (el, setState kDisconnecting c)"
    using assms(2) by (intro steady_conn) auto
qed

lemma shutdownInLoop_ok:
  assumes "conn_ok w"
  shows "\<exists>w'. shutdownInLoop w = Some w' \<and> conn_ok w' \<and> steady w w'"
proof -
  obtain el c where w: "w = (el, c)" by (cases w)
  note ok = assms [unfolded w]
  show ?thesis
  proof (cases "conn_writing (el, c)")
    case True
    with ok show ?thesis by (simp add: shutdownInLoop_def w)
  next
    case False
    have "wire (tc_trace c) = accepted (tc_trace c)" if "\<not> is_down (tc_trace c)"
    proof -
      have st: "tc_state c \<noteq> kDisconnected" using that ok by (simp add: conn_ok_def data_but_def)
      have "content (tc_output c) = []" using conn_okD(7) [OF ok st] False by simp
      with ok show ?thesis by (simp add: conn_ok_def data_but_def)
    qed
    then have "data_ok (trace ShutWr c)" using conn_okD(3) [OF ok] by (simp add: data_but_def)
    with False ok show ?thesis by (simp add: shutdownInLoop_def w conn_ok_def)
  qed
qed

lemma shutdown_ok:
  assumes "conn_ok w"
  shows "\<exists>w'. shutdown tid w = Some w' \<and> conn_ok w' \<and> steady w w'"
proof -
  obtain el c where w: "w = (el, c)" by (cases w)
  show ?thesis
  proof (cases "tc_state c = kConnected")
    case True
    let ?w = "(el, setState kDisconnecting c)"
    have 1: "conn_ok ?w" "steady w ?w"
      using conn_ok_disconnecting [of el c] assms True by (simp_all add: w)
    have "\<exists>w'. runInLoop (\<lambda>_. shutdownInLoop) tid ShutdownInLoop ?w = Some w' \<and> conn_ok w' \<and> steady ?w w'"
      by (rule runInLoop_ok [where g = shutdownInLoop, OF 1(1) _ shutdownInLoop_ok [OF 1(1)]]) simp
    with 1(2) True show ?thesis using steady_trans [of w ?w] by (auto simp: shutdown_def w)
  next
    case False
    with assms show ?thesis by (simp add: shutdown_def w)
  qed
qed

lemma forceClose_ok:
  assumes "conn_ok w"
  shows "conn_ok (forceClose tid w)" "steady w (forceClose tid w)"
proof -
  obtain el c where w: "w = (el, c)" by (cases w)
  have "conn_ok (forceClose tid w) \<and> steady w (forceClose tid w)"
  proof (cases "tc_state c = kConnected \<or> tc_state c = kDisconnecting")
    case True
    let ?c = "setState kDisconnecting c"
    have 1: "conn_ok (el, ?c)" "steady w (el, ?c)"
      using conn_ok_disconnecting [of el c] assms True by (simp_all add: w)
    have "steady w (queueInLoop tid ForceCloseInLoop el, ?c)"
      by (rule steady_trans [OF 1(2) queue_steady]) simp
    with 1(1) True show ?thesis by (simp add: forceClose_def w conn_ok_def)
  next
    case False
    with assms show ?thesis by (simp add: forceClose_def w)
  qed
  then show "conn_ok (forceClose tid w)" "steady w (forceClose tid w)" by simp_all
qed

text \<open>Any call of the user's.\<close>

fun api_ok :: "api \<Rightarrow> bool" where
  "api_ok (ASendBuffer b) = buf_inv b"
| "api_ok _ = True"

lemma api_call_ok:
  assumes ok: "conn_ok w" and a: "api_ok a"
  shows "\<exists>w'. api_call tid a w = Some w' \<and> conn_ok w' \<and> steady w w'"
proof -
  obtain el c where w: "w = (el, c)" by (cases w)
  show ?thesis
  proof (cases a)
    case (ASendBuffer b)
    with a send_buffer_ok [OF ok, of b tid] show ?thesis by (auto simp: api_call_def)
  next
    case ASendInput
    have "buf_inv (tc_input c)" using conn_okD(1) ok w by blast
    from send_buffer_ok [OF ok this, of tid] obtain el' c' b' where
      1: "send_buffer tid (tc_input c) w = Some ((el', c'), b')" "conn_ok (el', c')" "steady w (el', c')" "buf_inv b'"
      by auto
    have "steady w (el', c'\<lparr>tc_input := b'\<rparr>)" by (rule steady_trans [OF 1(3)]) simp
    with 1 conn_ok_input ASendInput show ?thesis by (auto simp: api_call_def w)
  next
    case (ARetrieve n)
    with ok conn_ok_input [of el c "retrieve n (tc_input c)"] conn_okD(1) [of el c] show ?thesis
      by (auto simp: api_call_def w retrieve_inv)
  next
    case AQueueDestroyed
    with ok queue_steady [of ConnectDestroyed el c tid] show ?thesis
      by (simp add: api_call_def w conn_ok_def)
  qed (use ok send_string_ok shutdown_ok forceClose_ok in \<open>auto simp: api_call_def send_ptr_def\<close>)
qed

lemma api_calls_ok:
  assumes "conn_ok w" and "list_all api_ok as"
  shows "\<exists>w'. bind_fold (api_call tid) as w = Some w' \<and> conn_ok w' \<and> steady w w'"
  using assms
proof (induction as arbitrary: w)
  case (Cons a as)
  then obtain w1 where 1: "api_call tid a w = Some w1" "conn_ok w1" "steady w w1"
    using api_call_ok [OF Cons.prems(1), of a tid] by auto
  with Cons.IH [OF 1(2)] Cons.prems(2) obtain w2 where
    "bind_fold (api_call tid) as w1 = Some w2" "conn_ok w2" "steady w1 w2" by auto
  with 1 show ?case by (auto intro: steady_trans)
qed simp

lemma user_api_ok: "data_but r c \<Longrightarrow> list_all api_ok (tc_user c k cb)"
proof -
  assume "data_but r c"
  then have "list_all (\<lambda>a. case a of ASendBuffer b \<Rightarrow> buf_inv b | _ \<Rightarrow> True) (tc_user c k cb)"
    by (simp add: data_but_def)
  then show ?thesis by (rule list.pred_mono_strong) (simp split: api.splits)
qed

lemma invoke_ok:
  assumes "conn_ok (el, trace (Called cb) c)"
  shows "\<exists>w'. invoke cb (el, c) = Some w' \<and> conn_ok w' \<and> steady (el, c) w'"
proof -
  let ?w = "(el, trace (Called cb) c)"
  have "list_all api_ok (tc_user c (length (tc_trace c)) cb)"
    using user_api_ok [of "[]" "trace (Called cb) c"] assms by (simp add: conn_ok_def)
  then obtain w' where 1: "bind_fold (api_call (el_threadId el)) (tc_user c (length (tc_trace c)) cb) ?w = Some w'"
      "conn_ok w'" "steady ?w w'"
    using api_calls_ok [OF assms] by blast
  have "steady (el, c) w'" by (rule steady_trans [OF _ 1(3)]) simp
  with 1 show ?thesis by (simp add: invoke_def)
qed

text \<open>A disconnected connection ignores its user.\<close>

lemma api_call_disconnected:
  assumes "tc_state (snd w) = kDisconnected" and "api_call tid a w = Some w'"
  shows "tc_state (snd w') = kDisconnected \<and> tc_trace (snd w') = tc_trace (snd w)"
  using assms
  by (cases w; cases a)
    (auto simp: api_call_def send_ptr_def send_string_def send_buffer_def shutdown_def forceClose_def)

lemma invoke_disconnected:
  assumes st: "tc_state (snd w) = kDisconnected" and run: "invoke cb w = Some w'"
  shows "tc_state (snd w') = kDisconnected \<and> tc_trace (snd w') = tc_trace (snd w) @ [Called cb]"
proof (rule bind_fold_invariant [where P = "\<lambda>w'. tc_state (snd w') = kDisconnected
    \<and> tc_trace (snd w') = tc_trace (snd w) @ [Called cb]"])
  show "bind_fold (api_call (el_threadId (fst w))) (tc_user (snd w) (length (tc_trace (snd w))) cb)
      (apsnd (trace (Called cb)) w) = Some w'"
    using run by (simp add: invoke_def)
qed (use st api_call_disconnected in \<open>auto simp: apsnd_def\<close>)

abbreviation is_open :: "tcp_conn \<Rightarrow> bool" where
  "is_open c \<equiv> tc_state c = kConnected \<or> tc_state c = kDisconnecting"

lemma open_phase: "data_but r c \<Longrightarrow> is_open c \<Longrightarrow> cb_phase (tc_trace c) = Some 1"
  by (auto simp: data_but_def)

lemma go_down:
  assumes ok: "conn_ok (el, c)" and st: "is_open c"
  obtains el' where "on_channel disableAll (el, setState kDisconnected c) = Some (el', setState kDisconnected c)"
    and "conn_ok (el', trace (Called (ConnectionCb False)) (setState kDisconnected c))"
    and "steady (el, c) (el', setState kDisconnected c)" and "el_threadId el' = el_threadId el"
proof -
  let ?c = "setState kDisconnected c"
  have "loop_wf el" "registrable (tc_channel ?c) el"
    using conn_okD(5,6) [OF ok] st by auto
  from on_channel_interest [OF this, of ev_disableAll] obtain el' where
    u: "on_channel disableAll (el, ?c) = Some (el', ?c)" "steady (el, ?c) (el', ?c)"
      "loop_wf el'" "registrable (tc_channel ?c) el'" "el_threadId el' = el_threadId el"
      "ch_events (el_chans el' (tc_channel ?c)) = ev_disableAll (ch_events (el_chans el (tc_channel ?c)))"
      "ch_readCallback (el_chans el' (tc_channel ?c)) = ch_readCallback (el_chans el (tc_channel ?c))"
      "ch_writeCallback (el_chans el' (tc_channel ?c)) = ch_writeCallback (el_chans el (tc_channel ?c))"
      "ch_closeCallback (el_chans el' (tc_channel ?c)) = ch_closeCallback (el_chans el (tc_channel ?c))"
      "ch_errorCallback (el_chans el' (tc_channel ?c)) = ch_errorCallback (el_chans el (tc_channel ?c))"
    unfolding disableAll_def by metis
  have "chan_ok el' (trace (Called (ConnectionCb False)) ?c)"
    by (rule chan_okI [OF conn_okD(4) [OF ok]])
      (use u in \<open>simp_all add: isNoneEvent_def kNoneEvent_def\<close>)
  moreover have "data_ok (trace (Called (ConnectionCb False)) ?c)"
    using conn_okD(3) [OF ok] open_phase [OF conn_okD(3) [OF ok] st] by (simp add: data_but_def)
  moreover have "steady (el, c) (el', ?c)"
    by (rule steady_trans [OF _ u(2)]) (use st in auto)
  ultimately show ?thesis using that u(1,5) by (simp add: conn_ok_def)
qed

lemma handleClose_ok:
  assumes "conn_ok w" and "is_open (snd w)"
  shows "\<exists>w'. handleClose w = Some w' \<and> conn_ok w' \<and> steady w w' \<and> tc_state (snd w') = kDisconnected"
proof -
  obtain el c where w: "w = (el, c)" by (cases w)
  let ?c = "setState kDisconnected c"
  from go_down [of el c] assms obtain el1 where
    1: "on_channel disableAll (el, ?c) = Some (el1, ?c)" "steady (el, c) (el1, ?c)"
      "conn_ok (el1, trace (Called (ConnectionCb False)) ?c)"
    unfolding w by (metis snd_conv)
  obtain el2 c2 where 2: "invoke (ConnectionCb False) (el1, ?c) = Some (el2, c2)" "conn_ok (el2, c2)"
      "steady (el1, ?c) (el2, c2)"
    using invoke_ok [OF 1(3)] by (metis surj_pair)
  have st2: "tc_state c2 = kDisconnected" "tc_trace c2 = tc_trace c @ [Called (ConnectionCb False)]"
    using invoke_disconnected [OF _ 2(1)] by simp_all
  have "cb_phase (tc_trace c) = Some 1"
    using open_phase [of "[]" c] assms by (simp add: w conn_ok_def)
  then have "cb_phase (tc_trace c2) = Some 2" by (simp add: st2(2))
  with 2(2) st2(1) have "conn_ok (el2, trace (Called CloseCb) c2)"
    by (simp add: conn_ok_def data_but_def)
  then obtain w3 where 3: "invoke CloseCb (el2, c2) = Some w3" "conn_ok w3" "steady (el2, c2) w3"
    using invoke_ok by blast
  have "tc_state (snd w3) = kDisconnected" using invoke_disconnected [OF _ 3(1)] st2(1) by simp
  moreover have "steady w w3" unfolding w by (rule steady_trans [OF 1(2) steady_trans [OF 2(3) 3(3)]])
  moreover have "handleClose w = Some w3" using 1(1) 2(1) 3(1) by (simp add: handleClose_def w)
  ultimately show ?thesis using 3(2) by blast
qed

lemma handleClose_trace:
  assumes "handleClose w = Some w'"
  shows "tc_trace (snd w') = tc_trace (snd w) @ [Called (ConnectionCb False), Called CloseCb]"
    and "tc_state (snd w') = kDisconnected"
proof -
  obtain w1 w2 where r: "on_channel disableAll (apsnd (setState kDisconnected) w) = Some w1"
      "invoke (ConnectionCb False) w1 = Some w2" "invoke CloseCb w2 = Some w'"
    using assms by (auto simp: handleClose_def split: Option.bind_splits)
  have "tc_state (snd w1) = kDisconnected" "tc_trace (snd w1) = tc_trace (snd w)"
    using r(1) by (cases w; auto simp: on_channel_def setState_def split: Option.bind_splits)+
  with invoke_disconnected [OF _ r(2)] invoke_disconnected [OF _ r(3)]
  show "tc_trace (snd w') = tc_trace (snd w) @ [Called (ConnectionCb False), Called CloseCb]"
      "tc_state (snd w') = kDisconnected"
    by simp_all
qed

lemma forceCloseInLoop_ok:
  assumes "conn_ok w"
  shows "\<exists>w'. forceCloseInLoop w = Some w' \<and> conn_ok w' \<and> steady w w'"
  using assms handleClose_ok [OF assms] by (auto simp: forceCloseInLoop_def)

lemma invoke_up:
  assumes "conn_ok w" and "is_open (snd w)" and "\<exists>s t. cb = MessageCb s t"
  shows "\<exists>w'. invoke cb w = Some w' \<and> conn_ok w' \<and> steady w w'"
proof -
  obtain el c where w: "w = (el, c)" by (cases w)
  have "conn_ok (el, trace (Called cb) c)"
    using assms open_phase [of "[]" c] by (auto simp: w conn_ok_def data_but_def)
  from invoke_ok [OF this] show ?thesis by (simp add: w)
qed

lemma invoke_notice:
  assumes "conn_ok w" and "tc_state (snd w) \<noteq> kConnecting" and "cb = WriteCompleteCb \<or> (\<exists>n. cb = HighWaterCb n)"
  shows "\<exists>w'. invoke cb w = Some w' \<and> conn_ok w' \<and> steady w w'"
proof -
  obtain el c where w: "w = (el, c)" by (cases w)
  have "conn_ok (el, trace (Called cb) c)"
    using assms by (cases "tc_state c") (auto simp: w conn_ok_def data_but_def)
  from invoke_ok [OF this] show ?thesis by (simp add: w)
qed

lemma handleRead_ok:
  assumes "conn_ok w" and "is_open (snd w)"
  shows "\<exists>w'. handleRead t w = Some w' \<and> conn_ok w' \<and> steady w w'"
proof -
  obtain el c where w: "w = (el, c)" by (cases w)
  let ?rd = "tc_read c (length (tc_trace c))"
  have inv: "buf_inv (tc_input c)" and rd: "readv_ok ?rd"
    using assms by (simp_all add: w conn_ok_def data_but_def)
  show ?thesis
  proof (cases "?rd (readFd_room (tc_input c))")
    case (Inl err)
    have "conn_ok (el, trace (ReadFailed err) c)" "steady (el, c) (el, trace (ReadFailed err) c)"
      using assms(1) by (simp_all add: w conn_ok_def)
    moreover have "c\<lparr>tc_input := tc_input c\<rparr> = c" by simp
    ultimately show ?thesis
      by (simp add: handleRead_def w readFd_error [where readv = "?rd" and b = "tc_input c", OF Inl] handleError_def)
  next
    case (Inr bs)
    obtain b where b: "readFd ?rd (tc_input c) = Some (Inr (length bs), b)" "buf_inv b"
      using readFd_bytes [OF inv rd Inr] by blast
    let ?w = "(el, c\<lparr>tc_input := b\<rparr>)"
    have 1: "conn_ok ?w" "is_open (snd ?w)" and s1: "steady w ?w"
      using conn_ok_input [of el c b] assms b(2) by (simp_all add: w)
    have "\<exists>w'. invoke (MessageCb (content b) t) ?w = Some w' \<and> conn_ok w' \<and> steady ?w w'"
      by (rule invoke_up [OF 1]) blast
    with handleClose_ok [OF 1] s1 steady_trans [OF s1] show ?thesis
      by (auto simp: handleRead_def w b(1) Let_def)
  qed
qed

lemma handleWrite_ok:
  assumes ok: "conn_ok w"
  shows "\<exists>w'. handleWrite w = Some w' \<and> conn_ok w' \<and> steady w w'"
proof -
  obtain el c where w: "w = (el, c)" by (cases w)
  show ?thesis
  proof (cases "conn_writing (el, c)")
    case False
    with ok show ?thesis by (simp add: handleWrite_def w)
  next
    case True
    note D = conn_okD [OF ok [unfolded w]]
    have st: "tc_state c \<noteq> kDisconnected" using D(8) True by blast
    let ?out = "tc_output c"
    have peek: "Prelude.slice (peek ?out) (readableBytes ?out) (b_buffer ?out) = content ?out"
      using peek_slice [OF D(2)] .
    show ?thesis
    proof (cases "tc_write c (length (tc_trace c)) (content ?out)")
      case (Inl err)
      with True ok show ?thesis by (simp add: handleWrite_def w writeFd_def peek conn_ok_def)
    next
      case (Inr n)
      have n: "n \<le> length (content ?out)" using write_bound [OF D(3) Inr] .
      let ?c = "trace (Wire (take n (content ?out))) (c\<lparr>tc_output := retrieve n ?out\<rparr>)"
      have out: "buf_inv (retrieve n ?out)" "content (retrieve n ?out) = drop n (content ?out)"
        using retrieve_inv content_retrieve D(2) by auto
      have d: "data_ok ?c" using D(3) out by (simp add: data_but_def append_assoc [symmetric])
      have s: "steady (el, c) (el, ?c)" by simp
      show ?thesis
      proof (cases "n = 0 \<or> n < length (content ?out)")
        case True': True
        have "chan_ok el ?c"
          by (rule chan_okI [OF D(4) D(5)])
            (use D(4) st True' out in \<open>auto simp: chan_ok_def Let_def\<close>)
        moreover have "data_ok (trace (Wire []) c)" using D(3) by (simp add: data_but_def)
        ultimately show ?thesis
          using True True' Inr d s D(4) out readableBytes_eq [OF out(1)]
          by (auto simp: handleWrite_def w writeFd_def peek conn_ok_def Let_def)
      next
        case False
        then have empty: "content (retrieve n ?out) = []" "0 < n" using n out by auto
        have rd: "readableBytes (tc_output ?c) = 0" using readableBytes_eq [OF out(1)] empty by simp
        from on_channel_interest [of el ?c ev_disableWriting] D(5,6) st obtain el' where
          u: "on_channel disableWriting (el, ?c) = Some (el', ?c)" "steady (el, ?c) (el', ?c)"
            "loop_wf el'" "registrable (tc_channel c) el'"
            "ch_events (el_chans el' (tc_channel c)) = ev_disableWriting (ch_events (el_chans el (tc_channel c)))"
            "ch_readCallback (el_chans el' (tc_channel c)) = ch_readCallback (el_chans el (tc_channel c))"
            "ch_writeCallback (el_chans el' (tc_channel c)) = ch_writeCallback (el_chans el (tc_channel c))"
            "ch_closeCallback (el_chans el' (tc_channel c)) = ch_closeCallback (el_chans el (tc_channel c))"
            "ch_errorCallback (el_chans el' (tc_channel c)) = ch_errorCallback (el_chans el (tc_channel c))"
          unfolding disableWriting_def by auto
        have ch: "chan_ok el' ?c"
          by (rule chan_okI [OF D(4) u(3)]) (use u st empty in \<open>simp_all add: isWriting_def\<close>)
        define el2 where "el2 = (if tc_hasWriteComplete c
          then queueInLoop (el_threadId el') WriteCompleteF el' else el')"
        have 2: "conn_ok (el2, ?c)" using ch d by (simp add: el2_def conn_ok_def)
        have "steady (el', ?c) (el2, ?c)" by (simp add: el2_def queue_steady)
        then have s2: "steady w (el2, ?c)" unfolding w by (rule steady_trans [OF s steady_trans [OF u(2)]])
        have "handleWrite w = (if tc_state c = kDisconnecting then shutdownInLoop (el2, ?c) else Some (el2, ?c))"
          using True Inr empty(2) rd u(1)
          by (simp add: handleWrite_def w writeFd_def peek Let_def el2_def queue_here_Pair)
        with shutdownInLoop_ok [OF 2] 2 s2 steady_trans [OF s2] show ?thesis by auto
      qed
    qed
  qed
qed

section \<open>Functors and dispatch\<close>

lemma connectEstablished_ok:
  assumes ok: "conn_ok w" and st: "tc_state (snd w) = kConnecting"
  shows "\<exists>w'. connectEstablished w = Some w' \<and> conn_ok w' \<and> steady w w'
    \<and> tc_state (snd w') \<noteq> kConnecting \<and> el_hasChannel (tc_channel (snd w)) (fst w')"
proof -
  obtain el c where w: "w = (el, c)" by (cases w)
  let ?ch = "tc_channel c" and ?c = "setState kConnected c"
  let ?el = "el\<lparr>el_chans := (el_chans el)(?ch := tie ?ch (el_chans el ?ch))\<rparr>"
  note D = conn_okD [OF ok [unfolded w]]
  have tied: "ch_fd (tie o' h) = ch_fd h" "ch_events (tie o' h) = ch_events h" "ch_index (tie o' h) = ch_index h"
    "ch_readCallback (tie o' h) = ch_readCallback h" "ch_writeCallback (tie o' h) = ch_writeCallback h"
    "ch_closeCallback (tie o' h) = ch_closeCallback h" "ch_errorCallback (tie o' h) = ch_errorCallback h"
    for o' and h :: "conn_handler channel" by (simp_all add: tie_def)
  have "poller_wf ((el_chans el)(?ch := tie ?ch (el_chans el ?ch)), el_poller el)"
    by (rule poller_wf_cong [OF D(5) [unfolded loop_wf_def]]) (simp add: tied)
  then have "loop_wf ?el" by (simp add: loop_wf_def)
  moreover have "registrable (tc_channel ?c) ?el"
    using D(6) st by (simp add: w registrable_def usable_def tied)
  ultimately obtain el1 where
    u: "on_channel enableReading (?el, ?c) = Some (el1, ?c)" "steady (?el, ?c) (el1, ?c)"
      "el_hasChannel ?ch el1" "loop_wf el1" "registrable ?ch el1"
      "ch_events (el_chans el1 ?ch) = ev_enableReading (ch_events (el_chans ?el ?ch))"
      "ch_readCallback (el_chans el1 ?ch) = ch_readCallback (el_chans ?el ?ch)"
      "ch_writeCallback (el_chans el1 ?ch) = ch_writeCallback (el_chans ?el ?ch)"
      "ch_closeCallback (el_chans el1 ?ch) = ch_closeCallback (el_chans ?el ?ch)"
      "ch_errorCallback (el_chans el1 ?ch) = ch_errorCallback (el_chans ?el ?ch)"
    using on_channel_interest [of ?el ?c ev_enableReading] unfolding enableReading_def by auto
  have "chan_ok el1 (trace (Called (ConnectionCb True)) ?c)"
    by (rule chan_okI [OF D(4)])
      (use u D(4) st in \<open>simp_all add: w tied isWriting_def chan_ok_def Let_def\<close>)
  moreover have "data_ok (trace (Called (ConnectionCb True)) ?c)"
    using D(3) st by (simp add: w data_but_def)
  ultimately have "conn_ok (el1, trace (Called (ConnectionCb True)) ?c)" by (simp add: conn_ok_def)
  from invoke_ok [OF this] obtain w2 where
    2: "invoke (ConnectionCb True) (el1, ?c) = Some w2" "conn_ok w2" "steady (el1, ?c) w2" by blast
  have "steady (el, c) (?el, ?c)" using st
    by (simp add: w steady_def newly_def el_hasChannel_def hasChannel_eq tied)
  then have s: "steady w w2" unfolding w by (rule steady_trans [OF _ steady_trans [OF u(2) 2(3)]])
  have "rank kConnected \<le> rank (tc_state (snd w2))" using 2(3) by (simp add: steady_def)
  then have "tc_state (snd w2) \<noteq> kConnecting" by auto
  moreover have "el_hasChannel ?ch (fst w2)" using 2(3) u(3) by (simp add: steady_def)
  moreover have "connectEstablished w = Some w2"
    using u(1) 2(1) by (simp add: connectEstablished_def w Let_def)
  ultimately show ?thesis using 2(2) s by (simp add: w)
qed

lemma remove_ok:
  assumes ok: "conn_ok (el, c)" and st: "tc_state c = kDisconnected" and has: "el_hasChannel (tc_channel c) el"
  obtains el' where "on_channel el_removeChannel (el, c) = Some (el', c)" and "conn_ok (el', c)"
    and "\<not> el_hasChannel (tc_channel c) el'" and "posts_only (el, c) (el', c)" and "newly (el, c) (el', c) = []"
proof -
  let ?ch = "tc_channel c"
  obtain cs p where r: "el_removeChannel ?ch el = Some (el\<lparr>el_chans := cs, el_poller := p\<rparr>)"
      "loop_wf (el\<lparr>el_chans := cs, el_poller := p\<rparr>)"
      "poller_channels p = (poller_channels (el_poller el))(ch_fd (el_chans el ?ch) := None)"
      and same: "same_but_index (el_chans el) cs"
    using removeChannel_ok [OF conn_okD(5) [OF ok] has] .
  obtain i where i: "cs ?ch = set_index i (el_chans el ?ch)" using same by (auto simp: same_but_index_def)
  let ?el = "el\<lparr>el_chans := cs, el_poller := p\<rparr>"
  have "chan_ok ?el c"
    by (rule chan_okI [OF conn_okD(4) [OF ok]])
      (use r i st conn_okD(4) [OF ok] in \<open>simp_all add: set_index_def chan_ok_def Let_def isNoneEvent_def\<close>)
  moreover have "\<not> el_hasChannel ?ch ?el"
    by (simp add: el_hasChannel_def hasChannel_eq i set_index_def r(3))
  ultimately show ?thesis using that [of ?el] r(1) conn_okD(3) [OF ok]
    by (simp add: on_channel_def conn_ok_def newly_def)
qed

text \<open>The first half of \<open>connectDestroyed\<close>: a connection still up is taken down.\<close>

lemma take_down_ok:
  assumes ok: "conn_ok (el, c)" and op: "is_open c"
  obtains el1 w2 where "on_channel disableAll (el, setState kDisconnected c) = Some (el1, setState kDisconnected c)"
    and "invoke (ConnectionCb False) (el1, setState kDisconnected c) = Some w2"
    and "conn_ok w2" and "steady (el, c) w2" and "tc_state (snd w2) = kDisconnected"
proof -
  obtain el1 where
    d: "on_channel disableAll (el, setState kDisconnected c) = Some (el1, setState kDisconnected c)"
      "conn_ok (el1, trace (Called (ConnectionCb False)) (setState kDisconnected c))"
      "steady (el, c) (el1, setState kDisconnected c)"
    by (rule go_down [OF ok op])
  obtain w2 where 2: "invoke (ConnectionCb False) (el1, setState kDisconnected c) = Some w2" "conn_ok w2"
      "steady (el1, setState kDisconnected c) w2"
    using invoke_ok [OF d(2)] by blast
  have "tc_state (snd w2) = kDisconnected" using invoke_disconnected [OF _ 2(1)] by simp
  with that d(1) 2(1,2) steady_trans [OF d(3) 2(3)] show ?thesis by blast
qed

definition after_destroy :: "conn_world \<Rightarrow> conn_world \<Rightarrow> bool" where
  "after_destroy w w' \<longleftrightarrow> conn_ok w' \<and> posts_only w w'
    \<and> ConnectEstablished \<notin> set (newly w w') \<and> tc_state (snd w') = kDisconnected
    \<and> tc_channel (snd w') = tc_channel (snd w) \<and> \<not> el_hasChannel (tc_channel (snd w)) (fst w')"

lemma remove_after:
  assumes ok: "conn_ok (el, c)" and st: "tc_state c = kDisconnected" and has: "el_hasChannel (tc_channel c) el"
    and w: "steady w (el, c)"
  shows "\<exists>w'. on_channel el_removeChannel (el, c) = Some w' \<and> after_destroy w w'"
proof -
  obtain el' where
    2: "on_channel el_removeChannel (el, c) = Some (el', c)" "conn_ok (el', c)"
      "\<not> el_hasChannel (tc_channel c) el'" "posts_only (el, c) (el', c)" "newly (el, c) (el', c) = []"
    by (rule remove_ok [OF ok st has])
  have p: "posts_only w (el, c)" "ConnectEstablished \<notin> set (newly w (el, c))" "tc_channel c = tc_channel (snd w)"
    using w by (simp_all add: steady_def)
  have "newly w (el', c) = newly w (el, c)" using newly_trans [OF p(1) 2(4)] 2(5) by simp
  then have "after_destroy w (el', c)"
    using 2(2,3) p st posts_only_trans [OF p(1) 2(4)] by (simp add: after_destroy_def)
  with 2(1) show ?thesis by blast
qed

lemma connectDestroyed_ok:
  assumes ok: "conn_ok w" and st: "tc_state (snd w) = kConnected \<or> tc_state (snd w) = kDisconnected"
    and has: "el_hasChannel (tc_channel (snd w)) (fst w)"
  shows "\<exists>w'. connectDestroyed w = Some w' \<and> after_destroy w w'"
proof -
  obtain el c where w: "w = (el, c)" by (cases w)
  show ?thesis
  proof (cases "tc_state c = kConnected")
    case True
    have ok': "conn_ok (el, c)" and op: "is_open c" using ok True by (simp_all add: w)
    obtain el1 w2 where
      d: "on_channel disableAll (el, setState kDisconnected c) = Some (el1, setState kDisconnected c)"
        "invoke (ConnectionCb False) (el1, setState kDisconnected c) = Some w2"
        "conn_ok w2" "steady (el, c) w2" "tc_state (snd w2) = kDisconnected"
      by (rule take_down_ok [OF ok' op])
    obtain el2 c2 where w2: "w2 = (el2, c2)" by (cases w2)
    have "el_hasChannel (tc_channel c2) el2" using d(4) has by (auto simp: w2 w steady_def)
    with remove_after [of el2 c2 w] d(3-5) obtain w3 where
      3: "on_channel el_removeChannel (el2, c2) = Some w3" "after_destroy w w3" by (auto simp: w2 w)
    have "connectDestroyed w = Some w3"
      using True d(1,2) 3(1) by (simp add: connectDestroyed_def w w2)
    with 3(2) show ?thesis by blast
  next
    case False
    with remove_after [of el c w] ok st has show ?thesis by (simp add: connectDestroyed_def w)
  qed
qed

text \<open>A functor whose bytes are gone when it is run.\<close>

definition dangling :: "conn_functor \<Rightarrow> bool" where
  "dangling f \<longleftrightarrow> f = SendInLoop None"

lemma exec_not_dangling: "exec_functor f w = Some w' \<Longrightarrow> \<not> dangling f"
  by (auto simp: dangling_def)

lemma exec_functor_ok:
  assumes "conn_ok w" and "tc_state (snd w) \<noteq> kConnecting" and "f \<noteq> ConnectEstablished" "f \<noteq> ConnectDestroyed"
    and "\<not> dangling f"
  shows "\<exists>w'. exec_functor f w = Some w' \<and> conn_ok w' \<and> steady w w'"
proof (cases f)
  case (SendInLoop bytes)
  with assms(5) obtain s where "f = SendInLoop (Some s)" by (cases bytes) (auto simp: dangling_def)
  with sendInLoop_ok [OF assms(1)] show ?thesis by (metis exec_functor.simps(1) send_bound_simps(1))
qed (use assms shutdownInLoop_ok forceCloseInLoop_ok invoke_notice in auto)

text \<open>
  The kernel reports a hang-up of a stream socket together with readability, so a hang-up that
  closes the connection comes without urgent data.
\<close>

definition tcp_revents :: "events \<Rightarrow> bool" where
  "tcp_revents r \<longleftrightarrow> (r AND EPOLLHUP \<noteq> 0 \<and> r AND EPOLLPRI \<noteq> 0 \<longrightarrow> r AND EPOLLIN \<noteq> 0)"

lemma handlers_run:
  assumes "conn_ok w" and "is_open (snd w)" and "el_hasChannel (tc_channel (snd w)) (fst w)"
    and "ch_readCallback chan = Some HandleRead" "ch_writeCallback chan = Some HandleWrite"
      "ch_closeCallback chan = Some HandleClose" "ch_errorCallback chan = Some HandleError"
    and tcp: "tcp_revents (ch_revents chan)"
  shows "\<exists>w'. bind_fold call_handler (handleEvent alive t chan) w = Some w' \<and> conn_ok w' \<and> steady w w'"
proof -
  have wr: "\<exists>w'. bind_fold call_handler (if b then [Call HandleWrite] else []) w = Some w' \<and> conn_ok w' \<and> steady w w'"
    if "conn_ok w" for b w
    using handleWrite_ok [OF that] that by auto
  have rw: "\<exists>w'. bind_fold call_handler ((if a then [ReadCall HandleRead t] else []) @ (if b then [Call HandleWrite] else [])) w
      = Some w' \<and> conn_ok w' \<and> steady w w'" if ok: "conn_ok w" and op: "a \<Longrightarrow> is_open (snd w)" for a b w
  proof (cases a)
    case True
    obtain w1 where 1: "handleRead t w = Some w1" "conn_ok w1" "steady w w1"
      using handleRead_ok [OF ok op [OF True]] by blast
    from wr [OF 1(2), of b] 1 True steady_trans [OF 1(3)] show ?thesis by auto
  qed (use wr [OF ok, of b] in simp)
  let ?guarded = "handleEventWithGuard t chan"
  let ?r = "ch_revents chan"
  have guarded: "\<exists>w'. bind_fold call_handler ?guarded w = Some w' \<and> conn_ok w' \<and> steady w w'"
  proof (cases "?r AND EPOLLHUP \<noteq> 0 \<and> ?r AND EPOLLIN = 0")
    case False
    then have "?guarded = (if ?r AND EPOLLERR \<noteq> 0 then [Call HandleError] else [])
        @ (if ?r AND (EPOLLIN OR EPOLLPRI) \<noteq> 0 then [ReadCall HandleRead t] else [])
        @ (if ?r AND EPOLLOUT \<noteq> 0 then [Call HandleWrite] else [])"
      using assms(4-7) by (auto simp: handleEventWithGuard_def call_if_def read_if_def)
    with rw [OF assms(1), of "?r AND (EPOLLIN OR EPOLLPRI) \<noteq> 0" "?r AND EPOLLOUT \<noteq> 0"] assms(2)
    show ?thesis by (auto simp: handleError_def bind_fold_append)
  next
    case True
    then have "?r AND (EPOLLIN OR EPOLLPRI) = 0" using tcp
      by (auto simp: tcp_revents_def bit.conj_disj_distrib)
    then have g: "?guarded = Call HandleClose # (if ?r AND EPOLLERR \<noteq> 0 then [Call HandleError] else [])
        @ (if ?r AND EPOLLOUT \<noteq> 0 then [Call HandleWrite] else [])"
      using assms(4-7) True by (auto simp: handleEventWithGuard_def call_if_def read_if_def)
    obtain w1 where 1: "handleClose w = Some w1" "conn_ok w1" "steady w w1"
      using handleClose_ok assms(1,2) by blast
    from wr [OF 1(2), of "?r AND EPOLLOUT \<noteq> 0"] 1 steady_trans [OF 1(3)] show ?thesis
      by (auto simp: g handleError_def bind_fold_append)
  qed
  then show ?thesis using assms(1) by (auto simp: handleEvent_def split: option.split)
qed

section \<open>Runs of a connection\<close>

text \<open>
  The loop and the other threads as they act on the connection. The state is the batch of
  functors still to run with the world. The loop dispatches an event of the registered channel,
  takes the queued functors and runs them one by one; another thread calls \<open>send\<close>, \<open>shutdown\<close> or
  \<open>forceClose\<close> at any time, in one step, although the code tests and changes the state in two
  (\<open>Conn_Race\<close> has those); and the connection is there as long as its functors are. The owner destroys the connection once its close callback has
  been made, or while it is up.
\<close>

abbreviation conn_alive :: "tcp_conn \<Rightarrow> nat \<Rightarrow> bool" where
  "conn_alive _ _ \<equiv> True"

fun remote :: "api \<Rightarrow> bool" where
  "remote (ASendPtr s l) = True"
| "remote (ASendString s l) = True"
| "remote (ASendBuffer b) = buf_inv b"
| "remote AShutdown = True"
| "remote AForceClose = True"
| "remote _ = False"

definition ready_channel :: "events \<Rightarrow> timestamp \<Rightarrow> conn_world \<Rightarrow> conn_world" where
  "ready_channel r t w = (case w of (el, c) \<Rightarrow>
     (el\<lparr>el_chans := (el_chans el)(tc_channel c := set_revents r (el_chans el (tc_channel c))),
         el_pollReturnTime := t\<rparr>, c))"

definition event_enabled :: "events \<Rightarrow> conn_world \<Rightarrow> bool" where
  "event_enabled r w \<longleftrightarrow> \<not> el_calling (fst w) \<and> el_hasChannel (tc_channel (snd w)) (fst w)
     \<and> \<not> isNoneEvent (el_chans (fst w) (tc_channel (snd w))) \<and> tcp_revents r"

definition conn_event :: "events \<Rightarrow> timestamp \<Rightarrow> conn_world \<Rightarrow> conn_world option" where
  "conn_event r t w = dispatch call_handler conn_alive (tc_channel (snd w)) (ready_channel r t w)"

definition functor_enabled :: "conn_functor \<Rightarrow> conn_world \<Rightarrow> bool" where
  "functor_enabled f w \<longleftrightarrow> (f = ConnectDestroyed \<longrightarrow>
     tc_state (snd w) \<noteq> kDisconnecting \<and> el_hasChannel (tc_channel (snd w)) (fst w))"

inductive conn_step :: "conn_functor list \<times> conn_world \<Rightarrow> conn_functor list \<times> conn_world \<Rightarrow> bool" where
  conn_dispatch: "event_enabled r w \<Longrightarrow> conn_event r t w = Some w' \<Longrightarrow> conn_step ([], w) ([], w')"
| conn_begin: "\<not> el_calling el \<Longrightarrow> begin_pending el = (el', fs) \<Longrightarrow> conn_step ([], (el, c)) (fs, (el', c))"
| conn_run: "functor_enabled f w \<Longrightarrow> exec_functor f w = Some w' \<Longrightarrow> conn_step (f # fs, w) (fs, w')"
| conn_end: "conn_step ([], (el, c)) ([], (el\<lparr>el_calling := False\<rparr>, c))"
| conn_remote: "tid \<noteq> el_threadId (fst w) \<Longrightarrow> remote a \<Longrightarrow> api_call tid a w = Some w' \<Longrightarrow>
    conn_step (fs, w) (fs, w')"

text \<open>
  A run starts when the owner has constructed the connection in a loop whose poller is in order
  and has handed \<open>connectEstablished\<close> to the loop: run at once, or queued.
\<close>

definition fresh_conn :: "conn_world \<Rightarrow> bool" where
  "fresh_conn w \<longleftrightarrow> conn_ok w \<and> tc_state (snd w) = kConnecting
     \<and> \<not> el_hasChannel (tc_channel (snd w)) (fst w)"

inductive conn_reach :: "conn_functor list \<times> conn_world \<Rightarrow> bool" where
  conn_start: "fresh_conn w \<Longrightarrow> el_pending (fst w) = [] \<Longrightarrow> conn_reach ([ConnectEstablished], w)"
| conn_queued: "fresh_conn w \<Longrightarrow> el_pending (fst w) = [ConnectEstablished] \<Longrightarrow> conn_reach ([], w)"
| conn_next: "conn_reach s \<Longrightarrow> conn_step s s' \<Longrightarrow> conn_reach s'"

definition run_ok :: "conn_functor list \<times> conn_world \<Rightarrow> bool" where
  "run_ok s \<longleftrightarrow> (case s of (fs, w) \<Rightarrow> conn_ok w
     \<and> (tc_state (snd w) \<noteq> kConnecting \<longrightarrow> ConnectEstablished \<notin> set (fs @ el_pending (fst w)))
     \<and> (tc_state (snd w) = kConnecting \<longrightarrow> fs @ el_pending (fst w) = [ConnectEstablished]
          \<and> \<not> el_hasChannel (tc_channel (snd w)) (fst w)))"

lemma ready_channel_ok:
  assumes "conn_ok w"
  shows "conn_ok (ready_channel r t w)"
proof -
  obtain el c where w: "w = (el, c)" by (cases w)
  let ?el = "fst (ready_channel r t w)"
  have "poller_wf (el_chans el, el_poller el)" using assms by (simp add: w conn_ok_def chan_ok_def Let_def loop_wf_def)
  then have "poller_wf (el_chans ?el, el_poller el)"
    by (rule poller_wf_cong) (simp add: ready_channel_def w set_revents_def)
  then have "loop_wf ?el" by (simp add: loop_wf_def ready_channel_def w)
  with assms show ?thesis
    by (simp add: w conn_ok_def chan_ok_def Let_def ready_channel_def set_revents_def registrable_def
        usable_def isWriting_def isNoneEvent_def)
qed

lemma conn_ok_current: "conn_ok (el, c) \<Longrightarrow> conn_ok (el\<lparr>el_current := x\<rparr>, c)"
  by (simp add: conn_ok_def chan_ok_def Let_def loop_wf_def registrable_def)

lemma hasChannel_open:
  assumes "run_ok (fs, w)" and "el_hasChannel (tc_channel (snd w)) (fst w)"
    and "\<not> isNoneEvent (el_chans (fst w) (tc_channel (snd w)))"
  shows "is_open (snd w)"
  using assms by (cases "tc_state (snd w)") (auto simp: run_ok_def conn_ok_def chan_ok_def Let_def)

lemma conn_event_ok:
  assumes ok: "run_ok (fs, w)" and en: "event_enabled r w"
  shows "\<exists>w'. conn_event r t w = Some w' \<and> conn_ok w' \<and> steady w w'"
proof -
  obtain el c where w: "w = (el, c)" by (cases w)
  let ?ch = "tc_channel c"
  obtain el1 where el1: "ready_channel r t w = (el1, c)" by (simp add: ready_channel_def w)
  let ?w1 = "(el1\<lparr>el_current := Some ?ch\<rparr>, c)"
  have has: "el_hasChannel ?ch el" and ne: "\<not> isNoneEvent (el_chans el ?ch)" and tcp: "tcp_revents r"
    using en by (simp_all add: event_enabled_def w)
  have op: "is_open c" using hasChannel_open [OF ok] has ne by (simp add: w)
  have "conn_ok (el1, c)" using ready_channel_ok [of w r t] ok by (simp add: el1 run_ok_def)
  then have 1: "conn_ok ?w1" by (rule conn_ok_current)
  have chan: "el_chans el1 ?ch = set_revents r (el_chans el ?ch)"
    using el1 by (auto simp: ready_channel_def w)
  have has1: "el_hasChannel ?ch el1" and s1: "steady w ?w1"
    using el1 has by (auto simp: ready_channel_def w steady_def newly_def el_hasChannel_def hasChannel_eq
        set_revents_def)
  have "\<exists>w'. bind_fold call_handler
      (handleEvent (\<lambda>_. True) (el_pollReturnTime el1) (set_revents r (el_chans el ?ch))) ?w1 = Some w'
    \<and> conn_ok w' \<and> steady ?w1 w'"
  proof (rule handlers_run [OF 1])
    show "is_open (snd ?w1)" using op by simp
    show "el_hasChannel (tc_channel (snd ?w1)) (fst ?w1)"
      using has1 by (simp add: el_hasChannel_def)
  qed (use conn_okD(4) [of el c] ok tcp in
      \<open>simp_all add: run_ok_def w set_revents_def chan_ok_def Let_def\<close>)
  then show ?thesis using steady_trans [OF s1]
    by (auto simp: conn_event_def el1 [unfolded w] dispatch_def w chan)
qed

text \<open>What other threads do leaves a connection that is not up yet alone.\<close>

lemma remote_connecting:
  "tc_state (snd w) = kConnecting \<Longrightarrow> remote a \<Longrightarrow> api_call tid a w = Some w' \<Longrightarrow> w' = w"
  by (cases a) (auto simp: api_call_def send_ptr_def send_string_def send_buffer_def shutdown_def forceClose_def)

lemma steady_pending:
  assumes "steady w w'" and "ConnectEstablished \<notin> set (fs @ el_pending (fst w))"
  shows "ConnectEstablished \<notin> set (fs @ el_pending (fst w'))"
  using assms by (simp add: steady_def posts_only_def)

lemma steady_run_ok:
  assumes "steady w w'" and "conn_ok w'" and "tc_state (snd w) \<noteq> kConnecting"
    and "ConnectEstablished \<notin> set (fs @ el_pending (fst w))"
  shows "run_ok (fs, w')"
proof -
  have "rank (tc_state (snd w)) \<noteq> 0" using assms(3) by (cases "tc_state (snd w)") auto
  moreover have "rank (tc_state (snd w)) \<le> rank (tc_state (snd w'))" using assms(1) by (simp add: steady_def)
  ultimately have "tc_state (snd w') \<noteq> kConnecting" by auto
  with assms(2) steady_pending [OF assms(1,4)] show ?thesis by (simp add: run_ok_def)
qed

text \<open>Every enabled step from a good state succeeds and leads to a good state.\<close>

lemma event_run_ok:
  assumes "run_ok ([], w)" and "event_enabled r w"
  shows "\<exists>w'. conn_event r t w = Some w' \<and> run_ok ([], w')"
proof -
  obtain w' where 1: "conn_event r t w = Some w'" "conn_ok w'" "steady w w'"
    using conn_event_ok [OF assms] by blast
  have "tc_state (snd w) \<noteq> kConnecting" using assms by (auto simp: run_ok_def event_enabled_def)
  moreover from this have "ConnectEstablished \<notin> set ([] @ el_pending (fst w))"
    using assms(1) by (simp add: run_ok_def)
  ultimately have "run_ok ([], w')" using steady_run_ok [OF 1(3,2)] by blast
  with 1(1) show ?thesis by blast
qed

lemma functor_run_ok:
  assumes ok: "run_ok (f # fs, w)" and en: "functor_enabled f w" and live: "\<not> dangling f"
  shows "\<exists>w'. exec_functor f w = Some w' \<and> run_ok (fs, w')"
proof (cases "tc_state (snd w) = kConnecting")
  case True
  then have f: "f = ConnectEstablished" "fs = []" "el_pending (fst w) = []" "conn_ok w"
    using ok by (auto simp: run_ok_def)
  obtain w' where 1: "connectEstablished w = Some w'" "conn_ok w'" "steady w w'" "tc_state (snd w') \<noteq> kConnecting"
    using connectEstablished_ok [OF f(4) True] by blast
  have "ConnectEstablished \<notin> set (el_pending (fst w'))" using steady_pending [OF 1(3), of "[]"] f(3) by simp
  with 1 f show ?thesis by (simp add: run_ok_def)
next
  case False
  have f: "f \<noteq> ConnectEstablished" "ConnectEstablished \<notin> set (fs @ el_pending (fst w))" "conn_ok w"
    using ok False by (auto simp: run_ok_def)
  show ?thesis
  proof (cases "f = ConnectDestroyed")
    case True
    then have "tc_state (snd w) = kConnected \<or> tc_state (snd w) = kDisconnected"
        "el_hasChannel (tc_channel (snd w)) (fst w)"
      using en False by (cases "tc_state (snd w)"; simp add: functor_enabled_def)+
    from connectDestroyed_ok [OF f(3) this] obtain w' where
      1: "connectDestroyed w = Some w'" "after_destroy w w'" by blast
    with f(2) True show ?thesis by (auto simp: run_ok_def after_destroy_def posts_only_def)
  next
    case False': False
    obtain w' where 1: "exec_functor f w = Some w'" "conn_ok w'" "steady w w'"
      using exec_functor_ok [OF f(3) False f(1) False' live] by blast
    from steady_run_ok [OF 1(3,2) False f(2)] 1(1) show ?thesis by blast
  qed
qed

lemma remote_run_ok:
  assumes ok: "run_ok (fs, w)" and a: "remote a"
  shows "\<exists>w'. api_call tid a w = Some w' \<and> run_ok (fs, w')"
proof -
  have "api_ok a" using a by (cases a) auto
  then obtain w' where 1: "api_call tid a w = Some w'" "conn_ok w'" "steady w w'"
    using api_call_ok ok by (fastforce simp: run_ok_def)
  show ?thesis
  proof (cases "tc_state (snd w) = kConnecting")
    case True
    with remote_connecting [OF True a 1(1)] 1(1) ok show ?thesis by simp
  next
    case False
    with steady_run_ok [OF 1(3,2) False] 1(1) ok show ?thesis by (auto simp: run_ok_def)
  qed
qed

lemma conn_ok_calling: "conn_ok (el\<lparr>el_calling := b\<rparr>, c) = conn_ok (el, c)"
    "conn_ok (el\<lparr>el_calling := b, el_pending := fs\<rparr>, c) = conn_ok (el, c)"
  by (simp_all add: conn_ok_def chan_ok_def Let_def loop_wf_def registrable_def)

lemma conn_step_ok:
  assumes "conn_step s s'" and "run_ok s"
  shows "run_ok s'"
  using assms
proof cases
  case (conn_dispatch r w t w')
  with assms(2) event_run_ok [of w r t] show ?thesis by auto
next
  case (conn_begin el el' fs c)
  with assms(2) show ?thesis
    by (auto simp: run_ok_def begin_pending_def conn_ok_calling el_hasChannel_def)
next
  case (conn_run f w w' fs)
  with assms(2) functor_run_ok [of f fs w] exec_not_dangling show ?thesis by fastforce
next
  case (conn_end el c)
  with assms(2) show ?thesis by (auto simp: run_ok_def conn_ok_calling el_hasChannel_def)
next
  case (conn_remote tid w a w' fs)
  with assms(2) remote_run_ok [of fs w a tid] show ?thesis by auto
qed

lemma conn_reach_ok: "conn_reach s \<Longrightarrow> run_ok s"
proof (induction rule: conn_reach.induct)
  case (conn_next s s')
  then show ?case by (blast intro: conn_step_ok)
qed (simp_all add: run_ok_def fresh_conn_def)

section \<open>Connections that can be run\<close>

lemma fresh_channel: "ch_fd (conn_callbacks (new_channel fd)) = fd" "ch_index (conn_callbacks (new_channel fd)) = -1"
  "ch_events (conn_callbacks (new_channel fd)) = 0"
  "ch_readCallback (conn_callbacks (new_channel fd)) = Some HandleRead"
  "ch_writeCallback (conn_callbacks (new_channel fd)) = Some HandleWrite"
  "ch_closeCallback (conn_callbacks (new_channel fd)) = Some HandleClose"
  "ch_errorCallback (conn_callbacks (new_channel fd)) = Some HandleError"
  by (simp_all add: conn_callbacks_def new_channel_def setReadCallback_def setWriteCallback_def
      setCloseCallback_def setErrorCallback_def)

lemma new_conn_fresh:
  assumes "loop_wf el" and "0 \<le> fd" and new: "poller_channels (el_poller el) fd = None"
    and "\<not> el_hasChannel ch el" and "\<And>k s n. wr k s = Inr n \<Longrightarrow> n \<le> length s"
    and "\<And>k. readv_ok (rd k)" and "\<And>k cb. list_all api_ok (user k cb)"
  shows "fresh_conn (new_conn name fd ch wr rd user el)"
proof -
  let ?cs = "(el_chans el)(ch := conn_callbacks (new_channel fd))"
  have "poller_wf (?cs, el_poller el)"
    by (rule poller_wf_renew) (use assms(1,4) in \<open>simp_all add: loop_wf_def el_hasChannel_def\<close>)
  moreover have "list_all (\<lambda>a. case a of ASendBuffer b \<Rightarrow> buf_inv b | _ \<Rightarrow> True) (user k cb)" for k cb
    using assms(7) [of k cb] by (rule list.pred_mono_strong) (auto split: api.splits)
  ultimately show ?thesis using assms(2,3,5,6)
    by (simp add: fresh_conn_def conn_ok_def data_but_def chan_ok_def new_conn_def loop_wf_def registrable_def
        usable_def fresh_channel isWriting_def el_hasChannel_def hasChannel_eq)
qed

text \<open>A loop with one connection, whose peer takes one byte per write.\<close>

definition demo_loop :: "(conn_functor, conn_handler) evloop" where
  "demo_loop = the (new_evloop 1 False (newDefaultPoller False linux_ctl) 3 WakeupRead (\<lambda>i. new_channel (int i + 5)))"

definition demo_conn :: conn_world where
  "demo_conn = new_conn ''demo'' 7 2 (\<lambda>k s. Inr (min 1 (length s))) (\<lambda>k n. Inr (take n ''q''))
     (\<lambda>k cb. case cb of MessageCb s t \<Rightarrow> [ASendInput, AShutdown] | _ \<Rightarrow> []) demo_loop"

lemmas demo_eval = demo_loop_def new_evloop_def enableReading_def set_interest_def el_updateChannel_def
  put_events_def poller_updateChannel_def newDefaultPoller_def new_epoll_def epoll_updateChannel_def
  epoll_update_def linux_ctl_def kNew_def kAdded_def kDeleted_def new_channel_def setReadCallback_def
  set_index_def Let_def

lemma demo_loop_wf: "loop_wf demo_loop"
proof -
  let ?cs = "(\<lambda>i. new_channel (int i + 5))(0 := setReadCallback WakeupRead (new_channel 3))"
  let ?p = "newDefaultPoller False linux_ctl"
  have "poller_reach False linux_ctl (?cs, ?p)" by (rule start)
  moreover have "usable (poller_channels ?p) 0 ?cs"
    by (simp add: usable_def setReadCallback_def new_channel_def newDefaultPoller_def poller_channels_def new_epoll_def)
  moreover have "poller_updateChannel 0 (put_events (ev_enableReading (ch_events (?cs 0))) 0 ?cs, ?p)
      = Some (el_chans demo_loop, el_poller demo_loop)"
    by (simp add: demo_eval)
  ultimately have "poller_reach False linux_ctl (el_chans demo_loop, el_poller demo_loop)" by (rule update)
  then show ?thesis by (simp add: loop_wf_def poller_reach_wf [OF linux_ctl_ok])
qed

lemma demo_loop_state: "poller_channels (el_poller demo_loop) 7 = None" "\<not> el_hasChannel 2 demo_loop"
    "el_pending demo_loop = []" "\<not> el_calling demo_loop" "el_threadId demo_loop = 1"
  by (simp_all add: demo_eval poller_channels_def el_hasChannel_def hasChannel_eq)

lemma demo_fresh: "fresh_conn demo_conn"
  unfolding demo_conn_def
  by (rule new_conn_fresh [OF demo_loop_wf]) (auto simp: demo_loop_state readv_ok_def split: callback.split)

lemma demo_start: "conn_reach ([ConnectEstablished], demo_conn)"
  by (rule conn_start [OF demo_fresh]) (simp add: demo_conn_def new_conn_def demo_loop_state)

text \<open>The connection comes up.\<close>

lemma demo_established:
  "\<exists>w. connectEstablished demo_conn = Some w \<and> tc_state (snd w) = kConnected
    \<and> tc_trace (snd w) = [Called (ConnectionCb True)] \<and> el_pending (fst w) = []
    \<and> \<not> isNoneEvent (el_chans (fst w) (tc_channel (snd w)))"
  by (simp add: demo_eval demo_conn_def new_conn_def connectEstablished_def on_channel_def conn_callbacks_def
      setWriteCallback_def setCloseCallback_def setErrorCallback_def tie_def setState_def invoke_def trace_def
      event_masks event_consts isNoneEvent_def split_paired_Ex)

lemma demo_up:
  obtains w where "conn_reach ([], w)" and "tc_state (snd w) = kConnected"
    and "tc_trace (snd w) = [Called (ConnectionCb True)]" and "el_pending (fst w) = []"
    and "\<not> el_calling (fst w)" and "el_threadId (fst w) = 1"
    and "el_hasChannel (tc_channel (snd w)) (fst w)"
    and "\<not> isNoneEvent (el_chans (fst w) (tc_channel (snd w)))"
proof -
  have ok: "conn_ok demo_conn" "tc_state (snd demo_conn) = kConnecting"
    using demo_fresh by (simp_all add: fresh_conn_def)
  obtain w where 1: "connectEstablished demo_conn = Some w" "steady demo_conn w"
      "el_hasChannel (tc_channel (snd demo_conn)) (fst w)"
    using connectEstablished_ok [OF ok] by blast
  have "conn_reach ([], w)"
    by (rule conn_next [OF demo_start conn_run]) (simp_all add: functor_enabled_def 1(1))
  moreover have "\<not> el_calling (fst w)" "el_threadId (fst w) = 1"
    using 1(2) by (simp_all add: steady_def posts_only_def demo_conn_def new_conn_def demo_loop_state)
  ultimately show ?thesis using that 1 demo_established by (simp add: steady_def)
qed

text \<open>A call of another thread that queues one functor, up to where the loop runs it.\<close>

lemma posted_functor:
  assumes "conn_reach ([], (el, c))" and "el_pending el = []" and "\<not> el_calling el" and "el_threadId el \<noteq> 9"
    and "remote a" and "api_call 9 a (el, c) = Some (queueInLoop 9 f el, c')"
  shows "conn_reach ([f], (fst (begin_pending (queueInLoop 9 f el)), c'))"
proof -
  let ?el = "queueInLoop 9 f el"
  have 1: "conn_reach ([], (?el, c'))"
    by (rule conn_next [OF assms(1) conn_remote [OF _ assms(5,6)]]) (use assms(4) in simp)
  have "\<not> el_calling ?el" using assms(3) by (simp add: queueInLoop_def wakeup_def Let_def)
  moreover have "begin_pending ?el = (fst (begin_pending ?el), [f])"
    using assms(2) by (simp add: begin_pending_def)
  ultimately show ?thesis by (rule conn_next [OF 1 conn_begin])
qed

section \<open>Properties\<close>

text \<open>\<open>sendInLoop\<close> accepts its data whole unless the connection is down.\<close>

lemma on_channel_conn: "on_channel m w = Some w' \<Longrightarrow> snd w' = snd w"
  by (auto simp: on_channel_def split: Option.bind_splits)

lemma send_direct_trace:
  "accepted (tc_trace (snd (snd (send_direct data w)))) = accepted (tc_trace (snd w))"
  by (cases w) (simp add: send_direct_def Let_def queue_here_def split: sum.split)

lemma send_rest_trace:
  assumes "send_rest n data w = Some w'"
  shows "tc_trace (snd w') = tc_trace (snd w)"
  using assms
  by (cases w) (auto simp: send_rest_def Let_def queue_here_Pair split: if_splits Option.bind_splits
      dest!: on_channel_conn)

lemma sendInLoop_accepts:
  assumes "sendInLoop data w = Some w'" and "tc_state (snd w) \<noteq> kDisconnected"
  shows "accepted (tc_trace (snd w')) = accepted (tc_trace (snd w)) @ data"
  using assms send_direct_trace [of data "apsnd (trace (Accepted data)) w"]
  by (cases w) (auto simp: sendInLoop_def split: prod.splits if_splits dest!: send_rest_trace)

text \<open>
  C1: Stream integrity: at every moment of every run, whatever the socket accepts at each write
  and however threads interleave, the bytes already on the wire followed by the output buffer
  are exactly the bytes accepted for sending, in order; and while the connection is not down the
  loop watches the socket for writability exactly when the buffer holds something.
\<close>

theorem conn_stream_integrity:
  assumes "conn_reach (fs, (el, c))"
  shows "wire (tc_trace c) @ content (tc_output c) = accepted (tc_trace c)
    \<and> (tc_state c \<noteq> kDisconnected \<longrightarrow> (conn_writing (el, c) \<longleftrightarrow> content (tc_output c) \<noteq> []))"
proof -
  have ok: "conn_ok (el, c)" using conn_reach_ok [OF assms] by (simp add: run_ok_def)
  have "wire (tc_trace c) @ content (tc_output c) = accepted (tc_trace c)"
    using ok by (simp add: conn_ok_def data_but_def)
  with conn_okD(7) [OF ok] show ?thesis by blast
qed

theorem conn_stream_integrity_witness:
  "\<exists>el c. conn_reach ([], (el, c)) \<and> accepted (tc_trace c) = ''hi''
    \<and> wire (tc_trace c) @ content (tc_output c) = ''hi''"
proof -
  obtain w where w: "conn_reach ([], w)" "tc_state (snd w) = kConnected" "el_threadId (fst w) = 1"
      "tc_trace (snd w) = [Called (ConnectionCb True)]" "el_pending (fst w) = []" "\<not> el_calling (fst w)"
    by (rule demo_up)
  obtain el c where wc: "w = (el, c)" by (cases w)
  let ?el = "queueInLoop 9 (SendInLoop (Some ''hi'')) el"
  have 1: "conn_reach ([SendInLoop (Some ''hi'')], (fst (begin_pending ?el), c))"
    by (rule posted_functor [of el c "ASendString ''hi'' (Some ''hi'')"])
      (use w in \<open>simp_all add: wc api_call_def send_string_def isInLoopThread_def runInLoop_def\<close>)
  have en: "functor_enabled (SendInLoop (Some ''hi'')) (fst (begin_pending ?el), c)" by (simp add: functor_enabled_def)
  obtain w' where w': "exec_functor (SendInLoop (Some ''hi'')) (fst (begin_pending ?el), c) = Some w'"
    using functor_run_ok [OF conn_reach_ok [OF 1] en] by (auto simp: dangling_def)
  obtain el' c' where "w' = (el', c')" by (cases w')
  with w' have 2: "sendInLoop ''hi'' (fst (begin_pending ?el), c) = Some (el', c')"
    by (simp only: exec_functor.simps send_bound_simps)
  have 3: "conn_reach ([], (el', c'))"
    by (rule conn_next [OF 1 conn_run [OF en]]) (simp only: exec_functor.simps send_bound_simps 2)
  have acc: "accepted (tc_trace c') = ''hi''"
    using sendInLoop_accepts [OF 2] w(2,4) by (simp add: wc accepted_def)
  with conn_stream_integrity [OF 3] have "wire (tc_trace c') @ content (tc_output c') = ''hi''" by (simp only:)
  with 3 acc show ?thesis by blast
qed

text \<open>
  C12: Graceful close: in every run, whenever the connection half-closes its socket while it is
  not down, everything accepted for sending before is already on the wire.
\<close>

theorem conn_shutdown_drained:
  assumes "conn_reach (fs, (el, c))" and "tc_trace c = before @ ShutWr # after" and "\<not> is_down before"
  shows "wire before = accepted before"
  using conn_reach_ok [OF assms(1)] assms(2,3) by (auto simp: run_ok_def conn_ok_def data_but_def drained_def)

theorem conn_shutdown_drained_witness:
  "\<exists>el c before. conn_reach ([], (el, c)) \<and> tc_trace c = before @ [ShutWr]
    \<and> \<not> is_down before \<and> wire before = accepted before"
proof -
  obtain w where w: "conn_reach ([], w)" "tc_state (snd w) = kConnected" "el_threadId (fst w) = 1"
      "tc_trace (snd w) = [Called (ConnectionCb True)]" "el_pending (fst w) = []" "\<not> el_calling (fst w)"
    by (rule demo_up)
  obtain el c where wc: "w = (el, c)" by (cases w)
  let ?el = "fst (begin_pending (queueInLoop 9 ShutdownInLoop el))" and ?c = "setState kDisconnecting c"
  have 1: "conn_reach ([ShutdownInLoop], (?el, ?c))"
    by (rule posted_functor [of el c AShutdown])
      (use w in \<open>simp_all add: wc api_call_def shutdown_def isInLoopThread_def runInLoop_def\<close>)
  have ok: "conn_ok (?el, ?c)" using conn_reach_ok [OF 1] by (simp add: run_ok_def)
  have "content (tc_output ?c) = []"
    using ok w(4) by (simp add: wc conn_ok_def data_but_def wire_def accepted_def)
  then have "\<not> conn_writing (?el, ?c)" using conn_okD(7) [OF ok] by simp
  then have run: "exec_functor ShutdownInLoop (?el, ?c) = Some (?el, trace ShutWr ?c)"
    by (simp add: shutdownInLoop_def)
  have 2: "conn_reach ([], (?el, trace ShutWr ?c))"
    by (rule conn_next [OF 1 conn_run [OF _ run]]) (simp add: functor_enabled_def)
  have tr: "tc_trace (trace ShutWr ?c) = [Called (ConnectionCb True)] @ ShutWr # []"
      and up: "\<not> is_down [Called (ConnectionCb True)]"
    using w(4) by (simp_all add: wc is_down_def)
  from conn_shutdown_drained [OF 2 tr up] 2 tr up show ?thesis by blast
qed

text \<open>
  From every state reached in such a run, any event TCP gives for the registered channel (\<open>tcp_revents\<close>)
  can be handled, any functor of the batch can be run, with \<open>connectDestroyed\<close> only where it is expected
  (\<open>functor_enabled\<close>) and \<open>sendInLoop\<close> only while its bytes are there (\<open>dangling\<close>), and any call of another thread can be made as one step, without a failed
  assertion, a fatal poller error or an access outside a buffer. That the calls of other threads are
  single steps is an assumption: \<open>Conn_Race\<close> takes \<open>forceClose\<close> apart.
\<close>

lemma conn_never_aborts:
  assumes "conn_reach (fs, w)"
  shows "(fs = [] \<and> event_enabled r w \<longrightarrow> conn_event r t w \<noteq> None)
    \<and> (\<forall>f fs'. fs = f # fs' \<and> functor_enabled f w \<and> \<not> dangling f \<longrightarrow> exec_functor f w \<noteq> None)
    \<and> (remote a \<longrightarrow> api_call tid a w \<noteq> None)"
  using conn_reach_ok [OF assms] event_run_ok [of w r t] functor_run_ok remote_run_ok [of fs w a tid] by fastforce

lemma conn_never_aborts_witness:
  "\<exists>w. conn_reach ([], w) \<and> event_enabled 4 w \<and> conn_event 4 (Timestamp 5) w \<noteq> None"
proof -
  obtain w where w: "conn_reach ([], w)" "\<not> el_calling (fst w)"
      "el_hasChannel (tc_channel (snd w)) (fst w)" "\<not> isNoneEvent (el_chans (fst w) (tc_channel (snd w)))"
    by (rule demo_up)
  then have "event_enabled 4 w" by (simp add: event_enabled_def tcp_revents_def event_consts)
  with conn_never_aborts [OF w(1), of 4 "Timestamp 5"] w(1) show ?thesis by blast
qed

end
