(* ===== verification/Timer_Queue.thy ===== *)
theory Timer_Queue
  imports Event_Loop "HOL-Library.Product_Lexorder"
begin

text \<open>
  \<open>include/Timer.h\<close>, \<open>include/TimerQueue.h\<close>, \<open>timer/Timer.cc\<close>, \<open>timer/TimeQueue.cc\<close> and the timer
  methods of \<open>include/EventLoop.h\<close>. Timers live in a heap; the \<open>std::set\<close> of pairs of expiration
  and address is the sorted list \<open>tq_timers\<close>, ordered by the library's lexicographic order of
  pairs. \<open>tq_clock\<close> gives the readings of the clock, \<open>tq_alloc\<close> the addresses \<open>new\<close> returns, and
  \<open>tq_user\<close> the timers a callback adds when it runs; \<open>tq_fl\<close> rounds products of doubles. A
  dereference of a freed timer is \<^term>\<open>None\<close>.
\<close>

section \<open>Timers\<close>

record 'cb timer =
  tm_callback :: 'cb
  tm_expiration :: timestamp
  tm_interval :: double
  tm_repeat :: bool

definition new_timer :: "'cb \<Rightarrow> timestamp \<Rightarrow> double \<Rightarrow> 'cb timer" where
  "new_timer cb when interval = \<lparr>tm_callback = cb, tm_expiration = when, tm_interval = interval,
     tm_repeat = (0 < interval)\<rparr>"

definition timer_restart :: "(double \<Rightarrow> double) \<Rightarrow> timestamp \<Rightarrow> 'cb timer \<Rightarrow> 'cb timer" where
  "timer_restart fl now t =
     (if tm_repeat t then t\<lparr>tm_expiration := addTime fl now (tm_interval t)\<rparr>
      else t\<lparr>tm_expiration := ts_default\<rparr>)"

section \<open>The queue\<close>

type_synonym entry = "timestamp \<times> nat"

record 'cb timer_queue =
  tq_channel :: nat
  tq_timers :: "entry list"
  tq_callingExpired :: bool
  tq_heap :: "nat \<rightharpoonup> 'cb timer"
  tq_alloc :: "(nat \<rightharpoonup> 'cb timer) \<Rightarrow> nat"
  tq_clock :: "nat \<Rightarrow> timestamp"
  tq_readings :: nat
  tq_fl :: "double \<Rightarrow> double"
  tq_user :: "nat \<Rightarrow> 'cb \<Rightarrow> ('cb \<times> timestamp \<times> double) list"
  tq_armed :: "(timestamp \<times> int \<times> int) option"
  tq_ran :: "'cb list"

definition UINTPTR_MAX :: nat where "UINTPTR_MAX = 2 ^ 64 - 1"

definition clock_now :: "'cb timer_queue \<Rightarrow> timestamp \<times> 'cb timer_queue" where
  "clock_now q = (tq_clock q (tq_readings q), q\<lparr>tq_readings := tq_readings q + 1\<rparr>)"

text \<open>
  \<open>resetTimerfd\<close> arms the descriptor with seconds and nanoseconds; \<open>tq_armed\<close> also keeps the
  expiration it was armed for.
\<close>

definition timerfd_spec :: "timestamp \<Rightarrow> timestamp \<Rightarrow> int \<times> int" where
  "timerfd_spec expiration now =
     (let microSecond = microSecondSinceEpoch expiration - microSecondSinceEpoch now;
          microSecond = max 100 microSecond
      in (cdiv microSecond kMicroSecondsPerSecond, cmod microSecond kMicroSecondsPerSecond * 1000))"

definition resetTimerfd :: "timestamp \<Rightarrow> 'cb timer_queue \<Rightarrow> 'cb timer_queue" where
  "resetTimerfd expiration q =
     (case clock_now q of (now, q) \<Rightarrow> q\<lparr>tq_armed := Some (expiration, timerfd_spec expiration now)\<rparr>)"

definition tq_insert :: "nat \<Rightarrow> 'cb timer_queue \<Rightarrow> (bool \<times> 'cb timer_queue) option" where
  "tq_insert timer q = do {
     t \<leftarrow> tq_heap q timer;
     let when = tm_expiration t;
     let earliestChanged = (case tq_timers q of [] \<Rightarrow> True | (first, _) # _ \<Rightarrow> when < first);
     Some (earliestChanged, q\<lparr>tq_timers := insort_insert (when, timer) (tq_timers q)\<rparr>)
   }"

definition addTimerInLoop :: "nat \<Rightarrow> 'cb timer_queue \<Rightarrow> 'cb timer_queue option" where
  "addTimerInLoop timer q = do {
     (earliestChanged, q) \<leftarrow> tq_insert timer q;
     t \<leftarrow> tq_heap q timer;
     Some (if earliestChanged then resetTimerfd (tm_expiration t) q else q)
   }"

definition allocTimer :: "'cb \<Rightarrow> timestamp \<Rightarrow> double \<Rightarrow> 'cb timer_queue \<Rightarrow> nat \<times> 'cb timer_queue" where
  "allocTimer cb when interval q =
     (let timer = tq_alloc q (tq_heap q)
      in (timer, q\<lparr>tq_heap := (tq_heap q)(timer \<mapsto> new_timer cb when interval)\<rparr>))"

text \<open>\<open>addTimer\<close> from the loop's own thread, as a timer callback calls it.\<close>

definition addTimer_here :: "'cb \<times> timestamp \<times> double \<Rightarrow> 'cb timer_queue \<Rightarrow> 'cb timer_queue option" where
  "addTimer_here a q = (case a of (cb, when, interval) \<Rightarrow>
     (case allocTimer cb when interval q of (timer, q) \<Rightarrow> addTimerInLoop timer q))"

text \<open>\<open>addTimer\<close> in any thread: the timer is allocated there and handed to the loop.\<close>

datatype timer_functor = AddTimerInLoop nat

definition addTimer ::
  "int \<Rightarrow> 'cb \<Rightarrow> timestamp \<Rightarrow> double \<Rightarrow> (timer_functor, 'h, 'cb timer_queue) world
    \<Rightarrow> (timer_functor, 'h, 'cb timer_queue) world option" where
  "addTimer tid cb when interval w =
     (case allocTimer cb when interval (snd w) of (timer, q) \<Rightarrow>
        runInLoop (\<lambda>_ (el, q). map_option (Pair el) (addTimerInLoop timer q)) tid (AddTimerInLoop timer)
          (fst w, q))"

definition runAt ::
  "int \<Rightarrow> timestamp \<Rightarrow> 'cb \<Rightarrow> (timer_functor, 'h, 'cb timer_queue) world
    \<Rightarrow> (timer_functor, 'h, 'cb timer_queue) world option" where
  "runAt tid timestamp cb w = addTimer tid cb timestamp 0 w"

definition runAfter ::
  "int \<Rightarrow> double \<Rightarrow> 'cb \<Rightarrow> (timer_functor, 'h, 'cb timer_queue) world
    \<Rightarrow> (timer_functor, 'h, 'cb timer_queue) world option" where
  "runAfter tid waitTime cb w =
     (case clock_now (snd w) of (now, q) \<Rightarrow> runAt tid (addTime (tq_fl q) now waitTime) cb (fst w, q))"

definition runEvery ::
  "int \<Rightarrow> double \<Rightarrow> 'cb \<Rightarrow> (timer_functor, 'h, 'cb timer_queue) world
    \<Rightarrow> (timer_functor, 'h, 'cb timer_queue) world option" where
  "runEvery tid interval cb w =
     (case clock_now (snd w) of (now, q) \<Rightarrow> addTimer tid cb (addTime (tq_fl q) now interval) interval (fst w, q))"

definition getExpired :: "timestamp \<Rightarrow> 'cb timer_queue \<Rightarrow> entry list \<times> 'cb timer_queue" where
  "getExpired now q =
     (let sentry = (now, UINTPTR_MAX)
      in (takeWhile (\<lambda>e. e < sentry) (tq_timers q),
          q\<lparr>tq_timers := dropWhile (\<lambda>e. e < sentry) (tq_timers q)\<rparr>))"

definition reset_one :: "entry \<Rightarrow> 'cb timer_queue \<Rightarrow> 'cb timer_queue option" where
  "reset_one it q = do {
     t \<leftarrow> tq_heap q (snd it);
     if tm_repeat t then
       (case clock_now q of (now, q) \<Rightarrow>
          map_option snd (tq_insert (snd it)
            (q\<lparr>tq_heap := (tq_heap q)(snd it \<mapsto> timer_restart (tq_fl q) now t)\<rparr>)))
     else Some (q\<lparr>tq_heap := (tq_heap q)(snd it := None)\<rparr>)
   }"

definition tq_reset :: "entry list \<Rightarrow> 'cb timer_queue \<Rightarrow> 'cb timer_queue option" where
  "tq_reset expired q = do {
     q \<leftarrow> bind_fold reset_one expired q;
     (case tq_timers q of
        [] \<Rightarrow> Some q
      | (_, first) # _ \<Rightarrow> do {
          t \<leftarrow> tq_heap q first;
          Some (resetTimerfd (tm_expiration t) q)
        })
   }"

definition run_timer :: "entry \<Rightarrow> 'cb timer_queue \<Rightarrow> 'cb timer_queue option" where
  "run_timer it q = do {
     t \<leftarrow> tq_heap q (snd it);
     bind_fold addTimer_here (tq_user q (length (tq_ran q)) (tm_callback t))
       (q\<lparr>tq_ran := tq_ran q @ [tm_callback t]\<rparr>)
   }"

definition tq_handleRead :: "'cb timer_queue \<Rightarrow> 'cb timer_queue option" where
  "tq_handleRead q =
     (case clock_now q of (now, q) \<Rightarrow> (case getExpired now q of (expired, q) \<Rightarrow> do {
        q \<leftarrow> bind_fold run_timer expired (q\<lparr>tq_callingExpired := True\<rparr>);
        tq_reset expired (q\<lparr>tq_callingExpired := False\<rparr>)
      }))"

text \<open>Construction registers the timer descriptor's channel; destruction removes it and frees the timers.\<close>

definition new_timer_queue ::
  "nat \<Rightarrow> int \<Rightarrow> 'h \<Rightarrow> 'cb timer_queue \<Rightarrow> (timer_functor, 'h) evloop \<Rightarrow> (timer_functor, 'h, 'cb timer_queue) world option" where
  "new_timer_queue ch timerfd rd env el = do {
     el \<leftarrow> enableReading ch (el\<lparr>el_chans := (el_chans el)(ch := setReadCallback rd (new_channel timerfd))\<rparr>);
     Some (el, env\<lparr>tq_channel := ch, tq_timers := []\<rparr>)
   }"

definition destroy_timer_queue ::
  "(timer_functor, 'h, 'cb timer_queue) world \<Rightarrow> (timer_functor, 'h, 'cb timer_queue) world option" where
  "destroy_timer_queue w = do {
     el \<leftarrow> disableAll (tq_channel (snd w)) (fst w);
     el \<leftarrow> el_removeChannel (tq_channel (snd w)) el;
     Some (el, (snd w)\<lparr>tq_heap := tq_heap (snd w) |` (- snd ` set (tq_timers (snd w)))\<rparr>)
   }"

section \<open>Invariant\<close>

text \<open>
  \<open>loose\<close> are timers that are in the heap and, for now, not in the set: taken out because they
  have expired, or on their way to the loop. Everything else in the heap is in the set, under
  its expiration. The allocator returns fresh addresses, below the sentinel, as long as fewer
  than \<open>N\<close> timers are live.
\<close>

definition alloc_ok :: "nat \<Rightarrow> ((nat \<rightharpoonup> 'cb timer) \<Rightarrow> nat) \<Rightarrow> bool" where
  "alloc_ok N alloc \<longleftrightarrow> (\<forall>h. finite (dom h) \<and> card (dom h) < N \<longrightarrow> alloc h \<notin> dom h \<and> alloc h < UINTPTR_MAX)"

definition tq_inv :: "nat set \<Rightarrow> 'cb timer_queue \<Rightarrow> bool" where
  "tq_inv loose q \<longleftrightarrow> sorted (tq_timers q) \<and> distinct (tq_timers q) \<and> inj_on snd (set (tq_timers q))
     \<and> (\<forall>when a. (when, a) \<in> set (tq_timers q) \<longrightarrow> (\<exists>t. tq_heap q a = Some t \<and> tm_expiration t = when))
     \<and> dom (tq_heap q) = snd ` set (tq_timers q) \<union> loose \<and> snd ` set (tq_timers q) \<inter> loose = {}
     \<and> finite (dom (tq_heap q)) \<and> (\<forall>a \<in> dom (tq_heap q). a < UINTPTR_MAX)"

text \<open>The descriptor is armed for the earliest timer.\<close>

definition armed_ok :: "'cb timer_queue \<Rightarrow> bool" where
  "armed_ok q \<longleftrightarrow> (case tq_timers q of [] \<Rightarrow> True
     | (when, _) # _ \<Rightarrow> \<exists>now. tq_armed q = Some (when, timerfd_spec when now))"

text \<open>What every step leaves alone.\<close>

definition same_env :: "'cb timer_queue \<Rightarrow> 'cb timer_queue \<Rightarrow> bool" where
  "same_env q q' \<longleftrightarrow> tq_alloc q' = tq_alloc q \<and> tq_user q' = tq_user q \<and> tq_fl q' = tq_fl q
     \<and> tq_clock q' = tq_clock q"

lemma same_env_refl [simp]: "same_env q q"
  by (simp add: same_env_def)

lemma same_env_trans: "same_env a b \<Longrightarrow> same_env b c \<Longrightarrow> same_env a c"
  by (simp add: same_env_def)

lemma tq_invD:
  assumes "tq_inv l q"
  shows "sorted (tq_timers q)" "distinct (tq_timers q)" "inj_on snd (set (tq_timers q))"
    "\<forall>w a. (w, a) \<in> set (tq_timers q) \<longrightarrow> (\<exists>t. tq_heap q a = Some t \<and> tm_expiration t = w)"
    "dom (tq_heap q) = snd ` set (tq_timers q) \<union> l" "snd ` set (tq_timers q) \<inter> l = {}"
    "finite (dom (tq_heap q))" "\<forall>a \<in> dom (tq_heap q). a < UINTPTR_MAX"
  by (insert assms, unfold tq_inv_def, elim conjE, assumption)+

lemma tq_inv_cong:
  "tq_timers q' = tq_timers q \<Longrightarrow> tq_heap q' = tq_heap q \<Longrightarrow> tq_inv l q' = tq_inv l q"
  by (simp add: tq_inv_def)

lemma resetTimerfd_simps [simp]:
  "tq_timers (resetTimerfd e q) = tq_timers q" "tq_heap (resetTimerfd e q) = tq_heap q"
  "tq_ran (resetTimerfd e q) = tq_ran q" "same_env q (resetTimerfd e q)"
  "tq_inv l (resetTimerfd e q) = tq_inv l q"
  by (simp_all add: resetTimerfd_def clock_now_def same_env_def tq_inv_def)

lemma resetTimerfd_armed: "tq_timers q = (w, a) # es \<Longrightarrow> armed_ok (resetTimerfd w q)"
  by (auto simp: armed_ok_def resetTimerfd_def clock_now_def)

text \<open>Inserting a loose timer.\<close>

lemma insort_head:
  assumes "sorted xs" and "insort_insert (w, a) xs = (v, b) # ys"
  shows "v = (case xs of [] \<Rightarrow> w | (first, _) # _ \<Rightarrow> if w < first then w else first)"
  using assms
  by (cases xs) (fastforce simp: insort_insert_key_def split: if_splits)+

lemma insert_inv:
  assumes inv: "tq_inv l q" and t: "tq_heap q a = Some t" and a: "a \<in> l"
  shows "tq_inv (l - {a}) (q\<lparr>tq_timers := insort_insert (tm_expiration t, a) (tq_timers q)\<rparr>)"
proof -
  let ?e = "(tm_expiration t, a)"
  have new: "a \<notin> snd ` set (tq_timers q)" using inv a by (auto simp: tq_inv_def)
  then have "inj_on snd (insert ?e (set (tq_timers q)))" using inv by (auto simp: tq_inv_def)
  moreover have "snd ` insert ?e (set (tq_timers q)) \<union> (l - {a}) = snd ` set (tq_timers q) \<union> l"
    using a by auto
  moreover have "sorted (insort_insert ?e (tq_timers q))" "distinct (insort_insert ?e (tq_timers q))"
    using inv by (simp_all add: tq_inv_def sorted_insort_insert distinct_insort_insert)
  ultimately show ?thesis using inv t new by (auto simp: tq_inv_def set_insort_insert)
qed

lemma addTimerInLoop_ok:
  assumes inv: "tq_inv l q" and a: "a \<in> l" and t: "tq_heap q a = Some t"
  shows "\<exists>q'. addTimerInLoop a q = Some q' \<and> tq_inv (l - {a}) q' \<and> (armed_ok q \<longrightarrow> armed_ok q')
    \<and> tq_heap q' = tq_heap q \<and> tq_ran q' = tq_ran q \<and> same_env q q'"
proof -
  let ?w = "tm_expiration t"
  define first where "first = (case tq_timers q of [] \<Rightarrow> True | (first, _) # _ \<Rightarrow> ?w < first)"
  define q1 where "q1 = q\<lparr>tq_timers := insort_insert (?w, a) (tq_timers q)\<rparr>"
  have eq: "addTimerInLoop a q = Some (if first then resetTimerfd ?w q1 else q1)"
    using t by (simp add: addTimerInLoop_def tq_insert_def first_def q1_def)
  have inv1: "tq_inv (l - {a}) q1" unfolding q1_def by (rule insert_inv [OF inv t a])
  have "set (insort_insert (?w, a) (tq_timers q)) \<noteq> {}" by (simp add: set_insort_insert)
  then obtain v b es where es: "insort_insert (?w, a) (tq_timers q) = (v, b) # es"
    by (cases "insort_insert (?w, a) (tq_timers q)") auto
  have "sorted (tq_timers q)" using inv by (simp add: tq_inv_def)
  note head = insort_head [OF this es]
  have "armed_ok (if first then resetTimerfd ?w q1 else q1)" if "armed_ok q"
  proof (cases first)
    case True
    then have "v = ?w" using head by (auto simp: first_def split: list.splits)
    with es True show ?thesis using resetTimerfd_armed [of q1] by (simp add: q1_def)
  next
    case False
    then obtain f c fs where "tq_timers q = (f, c) # fs" "\<not> ?w < f"
      by (auto simp: first_def split: list.splits)
    with head that es False show ?thesis by (auto simp: armed_ok_def q1_def)
  qed
  moreover have "same_env q (resetTimerfd ?w q1)" "same_env q q1"
    using same_env_trans [OF _ resetTimerfd_simps(4), of q q1] by (simp_all add: q1_def same_env_def)
  ultimately show ?thesis using eq inv1 by (simp add: q1_def)
qed

lemma allocTimer_ok:
  assumes inv: "tq_inv l q" and al: "alloc_ok N (tq_alloc q)" and room: "card (dom (tq_heap q)) < N"
    and eq: "allocTimer cb when interval q = (a, q')"
  shows "a \<notin> dom (tq_heap q)" "tq_inv (insert a l) q'" "tq_heap q' a = Some (new_timer cb when interval)"
    "tq_timers q' = tq_timers q" "tq_armed q' = tq_armed q" "tq_ran q' = tq_ran q" "same_env q q'"
    "\<And>b. b \<in> dom (tq_heap q) \<Longrightarrow> tq_heap q' b = tq_heap q b"
    "card (dom (tq_heap q')) = Suc (card (dom (tq_heap q)))"
proof -
  have fin: "finite (dom (tq_heap q))" using inv unfolding tq_inv_def by blast
  have a: "a = tq_alloc q (tq_heap q)" and q': "q' = q\<lparr>tq_heap := (tq_heap q)(a \<mapsto> new_timer cb when interval)\<rparr>"
    using eq by (auto simp: allocTimer_def Let_def)
  have fresh: "a \<notin> dom (tq_heap q)" "a < UINTPTR_MAX"
    using al fin room a by (auto simp: alloc_ok_def)
  then show "a \<notin> dom (tq_heap q)" by simp
  have held: "\<exists>t. ((tq_heap q)(a \<mapsto> new_timer cb when interval)) b = Some t \<and> tm_expiration t = w"
    if "(w, b) \<in> set (tq_timers q)" for w b
  proof -
    obtain t where "tq_heap q b = Some t" "tm_expiration t = w" using inv \<open>(w, b) \<in> set (tq_timers q)\<close>
      unfolding tq_inv_def by blast
    with fresh(1) show ?thesis by auto
  qed
  have d: "dom (tq_heap q') = insert a (dom (tq_heap q))" and tm: "tq_timers q' = tq_timers q"
    by (auto simp: q')
  show "tq_inv (insert a l) q'"
    unfolding tq_inv_def tm d
  proof (intro conjI)
    show "\<forall>w b. (w, b) \<in> set (tq_timers q) \<longrightarrow> (\<exists>t. tq_heap q' b = Some t \<and> tm_expiration t = w)"
      using held by (simp add: q')
    have "dom (tq_heap q) = snd ` set (tq_timers q) \<union> l" "snd ` set (tq_timers q) \<inter> l = {}"
      using inv unfolding tq_inv_def by blast+
    then show "insert a (dom (tq_heap q)) = snd ` set (tq_timers q) \<union> insert a l"
        "snd ` set (tq_timers q) \<inter> insert a l = {}"
      using fresh(1) by auto
  qed (use inv fresh fin in \<open>unfold tq_inv_def, blast+\<close>)
  show "card (dom (tq_heap q')) = Suc (card (dom (tq_heap q)))" using fresh fin by (simp add: q')
  show "tq_heap q' b = tq_heap q b" if "b \<in> dom (tq_heap q)" for b using fresh(1) that by (auto simp: q')
qed (use eq in \<open>auto simp: allocTimer_def Let_def same_env_def\<close>)

text \<open>A timer added by a callback.\<close>

lemma addTimer_here_ok:
  assumes inv: "tq_inv l q" and al: "alloc_ok N (tq_alloc q)" and room: "card (dom (tq_heap q)) < N"
  shows "\<exists>q'. addTimer_here x q = Some q' \<and> tq_inv l q' \<and> (armed_ok q \<longrightarrow> armed_ok q') \<and> tq_ran q' = tq_ran q
    \<and> same_env q q' \<and> (\<forall>b \<in> dom (tq_heap q). tq_heap q' b = tq_heap q b)
    \<and> card (dom (tq_heap q')) = Suc (card (dom (tq_heap q)))"
proof -
  obtain cb w i where x: "x = (cb, w, i)" by (cases x)
  obtain a q1 where al1: "allocTimer cb w i q = (a, q1)" by (metis surj_pair)
  note A = allocTimer_ok [OF inv al room al1]
  have ni: "insert a l - {a} = l" using A(1) inv by (auto simp: tq_inv_def)
  obtain q2 where 2: "addTimerInLoop a q1 = Some q2" "tq_inv l q2" "armed_ok q1 \<longrightarrow> armed_ok q2"
      "tq_heap q2 = tq_heap q1" "tq_ran q2 = tq_ran q1" "same_env q1 q2"
    using addTimerInLoop_ok [OF A(2) insertI1 A(3)] by (auto simp: ni)
  have "armed_ok q1 = armed_ok q" using A(4,5) by (simp add: armed_ok_def split: list.split)
  with 2 A show ?thesis using same_env_trans [OF A(7) 2(6)]
    by (auto simp: addTimer_here_def x al1)
qed

lemma adds_ok:
  assumes "tq_inv l q" and "alloc_ok N (tq_alloc q)" and "card (dom (tq_heap q)) + length xs \<le> N"
  shows "\<exists>q'. bind_fold addTimer_here xs q = Some q' \<and> tq_inv l q' \<and> (armed_ok q \<longrightarrow> armed_ok q')
    \<and> tq_ran q' = tq_ran q \<and> same_env q q' \<and> (\<forall>b \<in> dom (tq_heap q). tq_heap q' b = tq_heap q b)
    \<and> card (dom (tq_heap q')) = card (dom (tq_heap q)) + length xs"
  using assms
proof (induction xs arbitrary: q)
  case (Cons x xs)
  have "card (dom (tq_heap q)) < N" using Cons.prems(3) by simp
  from addTimer_here_ok [OF Cons.prems(1,2) this, of x] obtain q1 where
    1: "addTimer_here x q = Some q1" "tq_inv l q1" "armed_ok q \<longrightarrow> armed_ok q1" "tq_ran q1 = tq_ran q"
      "same_env q q1" "\<forall>b \<in> dom (tq_heap q). tq_heap q1 b = tq_heap q b"
      "card (dom (tq_heap q1)) = Suc (card (dom (tq_heap q)))" by blast
  have "alloc_ok N (tq_alloc q1)" using 1(5) Cons.prems(2) by (simp add: same_env_def)
  from Cons.IH [OF 1(2) this] 1(7) Cons.prems(3) obtain q2 where
    2: "bind_fold addTimer_here xs q1 = Some q2" "tq_inv l q2" "armed_ok q1 \<longrightarrow> armed_ok q2"
      "tq_ran q2 = tq_ran q1" "same_env q1 q2" "\<forall>b \<in> dom (tq_heap q1). tq_heap q2 b = tq_heap q1 b"
      "card (dom (tq_heap q2)) = card (dom (tq_heap q1)) + length xs" by auto
  have "tq_heap q2 b = tq_heap q b" if "b \<in> dom (tq_heap q)" for b
  proof -
    have "tq_heap q1 b = tq_heap q b" using 1(6) that by blast
    moreover from this that have "b \<in> dom (tq_heap q1)" by (simp add: domIff)
    ultimately show ?thesis using 2(6) by simp
  qed
  with 1 2 same_env_trans [OF 1(5) 2(5)] show ?case by auto
qed simp

section \<open>Running and resetting the expired timers\<close>

text \<open>Callbacks run in the order of the entries, and may add timers.\<close>

lemma run_timer_ok:
  assumes "tq_inv l q" and "alloc_ok N (tq_alloc q)" and t: "tq_heap q (snd e) = Some t"
    and adds: "\<And>n cb. length (tq_user q n cb) \<le> k" and "card (dom (tq_heap q)) + k \<le> N"
  shows "\<exists>q'. run_timer e q = Some q' \<and> tq_inv l q' \<and> tq_ran q' = tq_ran q @ [tm_callback t]
    \<and> same_env q q' \<and> (\<forall>b \<in> dom (tq_heap q). tq_heap q' b = tq_heap q b)
    \<and> card (dom (tq_heap q')) \<le> card (dom (tq_heap q)) + k"
proof -
  let ?q = "q\<lparr>tq_ran := tq_ran q @ [tm_callback t]\<rparr>" and ?xs = "tq_user q (length (tq_ran q)) (tm_callback t)"
  have len: "length ?xs \<le> k" by (rule adds)
  have "tq_inv l ?q" using assms(1) tq_inv_cong [of ?q q l] by simp
  moreover have "alloc_ok N (tq_alloc ?q)" using assms(2) by simp
  moreover have "card (dom (tq_heap ?q)) + length ?xs \<le> N" using len assms(5) by simp
  ultimately obtain q' where "bind_fold addTimer_here ?xs ?q = Some q'" "tq_inv l q'"
      "tq_ran q' = tq_ran ?q" "same_env ?q q'" "\<forall>b \<in> dom (tq_heap ?q). tq_heap q' b = tq_heap ?q b"
      "card (dom (tq_heap q')) = card (dom (tq_heap ?q)) + length ?xs"
    using adds_ok by blast
  with t len show ?thesis by (simp add: run_timer_def same_env_def)
qed

lemma run_timers_ok:
  assumes "tq_inv l q" and "alloc_ok N (tq_alloc q)" and "\<And>e. e \<in> set es \<Longrightarrow> tq_heap q (snd e) = Some (h e)"
    and adds: "\<And>n cb. length (tq_user q n cb) \<le> k" and "card (dom (tq_heap q)) + k * length es \<le> N"
  shows "\<exists>q'. bind_fold run_timer es q = Some q' \<and> tq_inv l q'
    \<and> tq_ran q' = tq_ran q @ map (\<lambda>e. tm_callback (h e)) es
    \<and> same_env q q' \<and> (\<forall>b \<in> dom (tq_heap q). tq_heap q' b = tq_heap q b)"
  using assms
proof (induction es arbitrary: q)
  case (Cons e es)
  have "card (dom (tq_heap q)) + k \<le> N" using Cons.prems(5) by simp
  from run_timer_ok [OF Cons.prems(1,2) Cons.prems(3) [OF list.set_intros(1)] Cons.prems(4) this]
  obtain q1 where 1: "run_timer e q = Some q1" "tq_inv l q1" "tq_ran q1 = tq_ran q @ [tm_callback (h e)]"
      "same_env q q1" "\<forall>b \<in> dom (tq_heap q). tq_heap q1 b = tq_heap q b"
      "card (dom (tq_heap q1)) \<le> card (dom (tq_heap q)) + k" by blast
  have kept: "tq_heap q1 (snd x) = Some (h x)" if "x \<in> set es" for x
    using Cons.prems(3) [of x] 1(5) that by (metis domI list.set_intros(2))
  have "alloc_ok N (tq_alloc q1)" "\<And>n cb. length (tq_user q1 n cb) \<le> k"
      "card (dom (tq_heap q1)) + k * length es \<le> N"
    using 1(4,6) Cons.prems(2,4,5) by (simp_all add: same_env_def)
  from Cons.IH [OF 1(2) this(1) kept this(2,3)] obtain q2 where
    2: "bind_fold run_timer es q1 = Some q2" "tq_inv l q2"
      "tq_ran q2 = tq_ran q1 @ map (\<lambda>e. tm_callback (h e)) es" "same_env q1 q2"
      "\<forall>b \<in> dom (tq_heap q1). tq_heap q2 b = tq_heap q1 b" by blast
  have "tq_heap q2 b = tq_heap q b" if "b \<in> dom (tq_heap q)" for b
    using 1(5) 2(5) that by (metis domD domI)
  with 1 2 same_env_trans [OF 1(4) 2(4)] show ?case by auto
qed simp

text \<open>Changing or freeing a loose timer.\<close>

lemma remove_loose: "a \<notin> S \<Longrightarrow> S \<union> l - {a} = S \<union> (l - {a})"
  and inter_loose: "S \<inter> l = {} \<Longrightarrow> S \<inter> (l - {a}) = {}"
  and ball_loose: "\<forall>b \<in> D. P b \<Longrightarrow> \<forall>b \<in> D - {a}. P b"
  by blast+

lemma heap_change_inv:
  assumes inv: "tq_inv l q" and a: "a \<in> l"
  shows "tq_inv l (q\<lparr>tq_heap := (tq_heap q)(a \<mapsto> t)\<rparr>)"
    and "tq_inv (l - {a}) (q\<lparr>tq_heap := (tq_heap q)(a := None)\<rparr>)"
proof -
  let ?h = "\<lambda>x. (tq_heap q)(a := x)"
  note I = tq_invD [OF inv]
  note d = I(5)
  have new: "a \<notin> snd ` set (tq_timers q)" using I(6) a by blast
  have ad: "a \<in> dom (tq_heap q)" unfolding d using a by (rule UnI2)
  have held: "\<forall>w b. (w, b) \<in> set (tq_timers q) \<longrightarrow> (\<exists>s. ?h x b = Some s \<and> tm_expiration s = w)" for x
  proof (intro allI impI)
    fix w b assume b: "(w, b) \<in> set (tq_timers q)"
    then obtain s where "tq_heap q b = Some s" "tm_expiration s = w" using I(4) by blast
    moreover have "b \<noteq> a" using new b by force
    ultimately show "\<exists>s. ?h x b = Some s \<and> tm_expiration s = w" by simp
  qed
  have sel: "tq_timers (q\<lparr>tq_heap := h\<rparr>) = tq_timers q" "tq_heap (q\<lparr>tq_heap := h\<rparr>) = h" for h
    by simp_all
  have d1: "dom (?h (Some t)) = dom (tq_heap q)" using ad by auto
  show "tq_inv l (q\<lparr>tq_heap := (tq_heap q)(a \<mapsto> t)\<rparr>)"
    unfolding tq_inv_def sel d1 by (intro conjI I held)
  have d2: "dom (?h None) = dom (tq_heap q) - {a}" by auto
  have d3: "dom (tq_heap q) - {a} = snd ` set (tq_timers q) \<union> (l - {a})"
    unfolding d using new by (rule remove_loose)
  have "snd ` set (tq_timers q) \<inter> (l - {a}) = {}" using I(6) by (rule inter_loose)
  moreover have "finite (dom (tq_heap q) - {a})" using I(7) by (rule finite_Diff)
  moreover have "\<forall>b \<in> dom (tq_heap q) - {a}. b < UINTPTR_MAX" using I(8) by (rule ball_loose)
  ultimately show "tq_inv (l - {a}) (q\<lparr>tq_heap := (tq_heap q)(a := None)\<rparr>)"
    unfolding tq_inv_def sel d2 by (intro conjI I(1-3) held d3)
qed

text \<open>
  Resetting one expired timer: a repeating one goes back into the set under a later expiration,
  another one is freed.
\<close>

lemma reset_one_ok:
  assumes inv: "tq_inv l q" and e: "snd e \<in> l" and t: "tq_heap q (snd e) = Some t"
  shows "\<exists>q'. reset_one e q = Some q' \<and> tq_inv (l - {snd e}) q' \<and> tq_ran q' = tq_ran q \<and> same_env q q'
    \<and> (\<forall>b. b \<noteq> snd e \<longrightarrow> tq_heap q' b = tq_heap q b)
    \<and> (if tm_repeat t then \<exists>i. tq_heap q' (snd e) = Some (timer_restart (tq_fl q) (tq_clock q i) t)
       else tq_heap q' (snd e) = None)"
proof (cases "tm_repeat t")
  case True
  let ?a = "snd e" and ?t = "timer_restart (tq_fl q) (tq_clock q (tq_readings q)) t"
  define q1 where "q1 = q\<lparr>tq_readings := tq_readings q + 1, tq_heap := (tq_heap q)(?a \<mapsto> ?t)\<rparr>"
  have "tq_inv l (q\<lparr>tq_heap := (tq_heap q)(?a \<mapsto> ?t)\<rparr>)" by (rule heap_change_inv(1) [OF inv e])
  then have "tq_inv l q1" using tq_inv_cong [of q1 "q\<lparr>tq_heap := (tq_heap q)(?a \<mapsto> ?t)\<rparr>" l]
    by (simp add: q1_def)
  moreover have "tq_heap q1 ?a = Some ?t" by (simp add: q1_def)
  ultimately have "tq_inv (l - {?a}) (q1\<lparr>tq_timers := insort_insert (tm_expiration ?t, ?a) (tq_timers q1)\<rparr>)"
    using e by (rule insert_inv)
  moreover have "reset_one e q = Some (q1\<lparr>tq_timers := insort_insert (tm_expiration ?t, ?a) (tq_timers q1)\<rparr>)"
    using t True by (simp add: reset_one_def clock_now_def tq_insert_def q1_def Let_def)
  moreover have "\<exists>i. tq_heap q1 ?a = Some (timer_restart (tq_fl q) (tq_clock q i) t)"
    by (rule exI [of _ "tq_readings q"]) (simp add: q1_def)
  moreover have "same_env q q1" "tq_ran q1 = tq_ran q" "\<forall>b. b \<noteq> ?a \<longrightarrow> tq_heap q1 b = tq_heap q b"
    by (simp_all add: q1_def same_env_def)
  ultimately show ?thesis using True by (simp add: same_env_def)
next
  case False
  with t heap_change_inv(2) [OF inv e] show ?thesis by (simp add: reset_one_def same_env_def)
qed

text \<open>What became of a timer that has run.\<close>

definition settled :: "'cb timer_queue \<Rightarrow> 'cb timer \<Rightarrow> 'cb timer option \<Rightarrow> bool" where
  "settled q t t' \<longleftrightarrow> (if tm_repeat t then \<exists>i. t' = Some (timer_restart (tq_fl q) (tq_clock q i) t) else t' = None)"

lemma reset_all_ok:
  assumes "tq_inv l q" and "snd ` set es = l" and "distinct (map snd es)"
    and "\<And>e. e \<in> set es \<Longrightarrow> tq_heap q (snd e) = Some (h e)"
  shows "\<exists>q'. bind_fold reset_one es q = Some q' \<and> tq_inv {} q' \<and> tq_ran q' = tq_ran q \<and> same_env q q'
    \<and> (\<forall>b. b \<notin> l \<longrightarrow> tq_heap q' b = tq_heap q b) \<and> (\<forall>e \<in> set es. settled q (h e) (tq_heap q' (snd e)))"
  using assms
proof (induction es arbitrary: q l)
  case (Cons e es)
  have "snd e \<notin> snd ` set es" using Cons.prems(3) by simp
  then have l: "snd e \<in> l" "snd ` set es = l - {snd e}" using Cons.prems(2) by (simp_all, blast+)
  obtain q1 where 1: "reset_one e q = Some q1" "tq_inv (l - {snd e}) q1" "tq_ran q1 = tq_ran q" "same_env q q1"
      "\<forall>b. b \<noteq> snd e \<longrightarrow> tq_heap q1 b = tq_heap q b" "settled q (h e) (tq_heap q1 (snd e))"
    using reset_one_ok [OF Cons.prems(1) l(1) Cons.prems(4)] by (auto simp: settled_def)
  have "tq_heap q1 (snd x) = Some (h x)" if "x \<in> set es" for x
    using 1(5) Cons.prems(3,4) that by (metis distinct.simps(2) image_eqI list.map(2) list.set_intros(2) list.set_map)
  from Cons.IH [OF 1(2) l(2) _ this] Cons.prems(3) obtain q2 where
    2: "bind_fold reset_one es q1 = Some q2" "tq_inv {} q2" "tq_ran q2 = tq_ran q1" "same_env q1 q2"
      "\<forall>b. b \<notin> l - {snd e} \<longrightarrow> tq_heap q2 b = tq_heap q1 b"
      "\<forall>x \<in> set es. settled q1 (h x) (tq_heap q2 (snd x))" by auto
  have "settled q1 x y = settled q x y" for x y using 1(4) by (simp add: settled_def same_env_def)
  moreover have "tq_heap q2 (snd e) = tq_heap q1 (snd e)" using 2(5) by simp
  ultimately have "\<forall>x \<in> set (e # es). settled q (h x) (tq_heap q2 (snd x))" using 1(6) 2(6) by simp
  moreover have "tq_heap q2 b = tq_heap q b" if "b \<notin> l" for b
  proof -
    have "b \<noteq> snd e" using l(1) that by blast
    with 1(5) 2(5) that show ?thesis by simp
  qed
  ultimately show ?case using 1 2 same_env_trans [OF 1(4) 2(4)] by auto
qed auto

lemma tq_reset_ok:
  assumes "tq_inv l q" and "snd ` set es = l" and "distinct (map snd es)"
    and "\<And>e. e \<in> set es \<Longrightarrow> tq_heap q (snd e) = Some (h e)"
  shows "\<exists>q'. tq_reset es q = Some q' \<and> tq_inv {} q' \<and> armed_ok q' \<and> tq_ran q' = tq_ran q \<and> same_env q q'
    \<and> (\<forall>b. b \<notin> l \<longrightarrow> tq_heap q' b = tq_heap q b) \<and> (\<forall>e \<in> set es. settled q (h e) (tq_heap q' (snd e)))"
proof -
  obtain q1 where 1: "bind_fold reset_one es q = Some q1" "tq_inv {} q1" "tq_ran q1 = tq_ran q" "same_env q q1"
      "\<forall>b. b \<notin> l \<longrightarrow> tq_heap q1 b = tq_heap q b" "\<forall>e \<in> set es. settled q (h e) (tq_heap q1 (snd e))"
    using reset_all_ok [OF assms] by blast
  show ?thesis
  proof (cases "tq_timers q1")
    case Nil
    with 1 show ?thesis by (auto simp: tq_reset_def armed_ok_def)
  next
    case (Cons x xs)
    obtain w a where x: "x = (w, a)" by (cases x)
    then obtain t where t: "tq_heap q1 a = Some t" "tm_expiration t = w"
      using 1(2) Cons unfolding tq_inv_def by (metis list.set_intros(1))
    have "tq_reset es q = Some (resetTimerfd w q1)" using 1(1) Cons x t by (simp add: tq_reset_def)
    moreover have "armed_ok (resetTimerfd w q1)" using Cons x by (auto intro: resetTimerfd_armed)
    moreover have "same_env q (resetTimerfd w q1)" by (rule same_env_trans [OF 1(4)]) simp
    ultimately show ?thesis using 1 by auto
  qed
qed

section \<open>The expired timers\<close>

lemma sorted_split:
  assumes "sorted xs"
  shows "takeWhile (\<lambda>e. e < s) xs = filter (\<lambda>e. e < s) xs" "dropWhile (\<lambda>e. e < s) xs = filter (\<lambda>e. \<not> e < s) xs"
proof -
  show 1: "takeWhile (\<lambda>e. e < s) xs = filter (\<lambda>e. e < s) xs"
    using assms by (induction xs) (auto intro!: filter_False [symmetric] dest: order_le_less_trans)
  show "dropWhile (\<lambda>e. e < s) xs = filter (\<lambda>e. \<not> e < s) xs"
    using assms by (induction xs) (auto intro!: filter_True [symmetric] dest: order_le_less_trans)
qed

text \<open>Below the sentinel are exactly the timers due now.\<close>

lemma due_iff: "a < UINTPTR_MAX \<Longrightarrow> (w :: timestamp, a) < (now, UINTPTR_MAX) \<longleftrightarrow> w \<le> now"
  by (auto intro: order_less_imp_le)

lemma getExpired_ok:
  assumes inv: "tq_inv {} q" and "getExpired now q = (expired, q')"
  shows "expired = filter (\<lambda>(w, a). w \<le> now) (tq_timers q)" "tq_inv (snd ` set expired) q'"
    "distinct (map snd expired)" "tq_heap q' = tq_heap q" "tq_ran q' = tq_ran q" "same_env q q'"
    "tq_readings q' = tq_readings q"
proof -
  let ?s = "(now, UINTPTR_MAX)" and ?xs = "tq_timers q"
  have sorted: "sorted ?xs" and inj: "inj_on snd (set ?xs)" "distinct ?xs" using inv by (simp_all add: tq_inv_def)
  have ex: "expired = filter (\<lambda>e. e < ?s) ?xs" and q': "q' = q\<lparr>tq_timers := filter (\<lambda>e. \<not> e < ?s) ?xs\<rparr>"
    using assms(2) by (auto simp: getExpired_def Let_def sorted_split [OF sorted])
  have "a < UINTPTR_MAX" if "(w, a) \<in> set ?xs" for w a
    using inv that unfolding tq_inv_def by (metis UnI1 imageI snd_conv)
  then show "expired = filter (\<lambda>(w, a). w \<le> now) ?xs"
    unfolding ex by (intro filter_cong) (auto simp: due_iff)
  show "distinct (map snd expired)"
    unfolding ex distinct_map using inj by (auto intro: inj_on_subset)
  have "snd ` set (filter (\<lambda>e. \<not> e < ?s) ?xs) \<inter> snd ` set expired = {}"
    using inj(1) by (auto simp: ex inj_on_def)
  moreover have "snd ` set ?xs = snd ` set (filter (\<lambda>e. \<not> e < ?s) ?xs) \<union> snd ` set expired"
    by (auto simp: ex)
  ultimately show "tq_inv (snd ` set expired) q'"
    using inv sorted inj unfolding q' tq_inv_def
    by (auto simp: sorted_wrt_filter intro: inj_on_subset)
qed (use assms(2) in \<open>auto simp: getExpired_def Let_def same_env_def\<close>)

text \<open>
  C26: When the timer descriptor fires, exactly the timers due by the clock run, in the order of
  expiration, whatever timers their callbacks add; afterwards a repeating timer waits under a new
  expiration, one interval after a clock reading, any other one that ran is freed, the timers not
  due are untouched, no timer is leaked or freed twice, and the descriptor is armed for the
  earliest one.
\<close>
theorem timers_fire_when_due:
  assumes inv: "tq_inv {} q" and al: "alloc_ok N (tq_alloc q)"
    and adds: "\<And>n cb. length (tq_user q n cb) \<le> k"
    and room: "card (dom (tq_heap q)) + k * length (tq_timers q) \<le> N"
  defines "due \<equiv> filter (\<lambda>(w, a). w \<le> tq_clock q (tq_readings q)) (tq_timers q)"
  shows "\<exists>q'. tq_handleRead q = Some q' \<and> tq_inv {} q' \<and> armed_ok q'
    \<and> tq_ran q' = tq_ran q @ map (\<lambda>e. tm_callback (the (tq_heap q (snd e)))) due
    \<and> (\<forall>e \<in> set due. settled q (the (tq_heap q (snd e))) (tq_heap q' (snd e)))
    \<and> (\<forall>e \<in> set (tq_timers q) - set due. tq_heap q' (snd e) = tq_heap q (snd e))"
proof -
  let ?now = "tq_clock q (tq_readings q)" and ?q0 = "q\<lparr>tq_readings := tq_readings q + 1\<rparr>"
  obtain expired q1 where ge: "getExpired ?now ?q0 = (expired, q1)" by (metis surj_pair)
  have "tq_inv {} ?q0" using inv by (simp add: tq_inv_def)
  note E = getExpired_ok [OF this ge]
  have due: "expired = due" using E(1) by (simp add: due_def)
  let ?l = "snd ` set due" and ?h = "\<lambda>e. the (tq_heap q (snd e))"
  let ?q1 = "q1\<lparr>tq_callingExpired := True\<rparr>"
  have live: "tq_heap q (snd e) = Some (?h e)" if "e \<in> set (tq_timers q)" for e
    using inv that unfolding tq_inv_def by (metis domD UnI1 imageI option.sel)
  have le: "length due \<le> length (tq_timers q)" by (simp add: due_def)
  have inv1: "tq_inv ?l ?q1" using E(2) by (simp add: due tq_inv_def)
  moreover have "alloc_ok N (tq_alloc ?q1)" "\<And>n cb. length (tq_user ?q1 n cb) \<le> k"
    using E(6) al adds by (simp_all add: same_env_def)
  moreover have h1: "tq_heap ?q1 (snd e) = Some (?h e)" if "e \<in> set due" for e
    using live that by (auto simp: E(4) due_def)
  moreover have "card (dom (tq_heap ?q1)) + k * length due \<le> N"
  proof -
    have "k * length due \<le> k * length (tq_timers q)" using le by (rule mult_le_mono2)
    then have "card (dom (tq_heap q)) + k * length due \<le> N" using room by linarith
    then show ?thesis by (simp add: E(4))
  qed
  ultimately obtain q2 where 2: "bind_fold run_timer due ?q1 = Some q2" "tq_inv ?l q2"
      "tq_ran q2 = tq_ran ?q1 @ map (\<lambda>e. tm_callback (?h e)) due"
      "same_env ?q1 q2" "\<forall>b \<in> dom (tq_heap ?q1). tq_heap q2 b = tq_heap ?q1 b"
    using run_timers_ok [of ?l ?q1 N due ?h k] by blast
  let ?q2 = "q2\<lparr>tq_callingExpired := False\<rparr>"
  have "tq_inv ?l ?q2" using 2(2) by (simp add: tq_inv_def)
  moreover have "tq_heap ?q2 (snd e) = Some (?h e)" if "e \<in> set due" for e
    using h1 [OF that] 2(5) by (metis (no_types, lifting) domI timer_queue.select_convs(4) timer_queue.surjective timer_queue.update_convs(3))
  ultimately obtain q3 where 3: "tq_reset due ?q2 = Some q3" "tq_inv {} q3" "armed_ok q3" "tq_ran q3 = tq_ran ?q2"
      "\<forall>b. b \<notin> ?l \<longrightarrow> tq_heap q3 b = tq_heap ?q2 b" "\<forall>e \<in> set due. settled ?q2 (?h e) (tq_heap q3 (snd e))"
    using tq_reset_ok [of ?l ?q2 due ?h] E(3) by (auto simp: due)
  have "settled ?q2 x y = settled q x y" for x y using 2(4) E(6) by (simp add: settled_def same_env_def)
  moreover have "tq_heap q3 (snd e) = tq_heap q (snd e)" if e: "e \<in> set (tq_timers q)" "e \<notin> set due" for e
  proof -
    have "snd e \<notin> ?l" using inv e unfolding tq_inv_def due_def inj_on_def by auto
    moreover have "snd e \<in> dom (tq_heap ?q1)" using live [OF e(1)] by (auto simp: E(4))
    ultimately show ?thesis using 3(5) 2(5) by (simp add: E(4))
  qed
  moreover have "tq_handleRead q = Some q3"
    using ge 2(1) 3(1) by (simp add: tq_handleRead_def clock_now_def due)
  ultimately show ?thesis using 3 2(3) E(5) by auto
qed

text \<open>A queue with a repeating timer due now and a later one.\<close>

definition demo_timers :: "nat timer_queue" where
  "demo_timers = \<lparr>tq_channel = 1, tq_timers = [(Timestamp 5, 1), (Timestamp 9, 0)], tq_callingExpired = False,
     tq_heap = [1 \<mapsto> new_timer 11 (Timestamp 5) 2, 0 \<mapsto> new_timer 10 (Timestamp 9) 0],
     tq_alloc = (\<lambda>h. if h 0 = None then 0 else if h 1 = None then 1 else 2),
     tq_clock = (\<lambda>_. Timestamp 7), tq_readings = 0, tq_fl = (\<lambda>x. x), tq_user = (\<lambda>_ _. []),
     tq_armed = None, tq_ran = []\<rparr>"

lemma demo_alloc: "alloc_ok 3 (tq_alloc demo_timers)"
proof -
  have full: "h 2 = None" if "finite (dom h)" "card (dom h) < 3" "h 0 = Some x" "h 1 = Some y"
    for h :: "nat \<rightharpoonup> nat timer" and x y
  proof (rule ccontr)
    assume "h 2 \<noteq> None"
    with that(3,4) have "{0, 1, 2} \<subseteq> dom h" by auto
    from card_mono [OF that(1) this] that(2) show False by simp
  qed
  have "tq_alloc demo_timers h \<notin> dom h \<and> tq_alloc demo_timers h < UINTPTR_MAX"
    if "finite (dom h)" "card (dom h) < 3" for h
    using full [OF that] by (cases "h 0"; cases "h 1") (simp_all add: demo_timers_def UINTPTR_MAX_def domIff)
  then show ?thesis by (simp add: alloc_ok_def)
qed

lemma demo_timers_inv: "tq_inv {} demo_timers"
  by (auto simp: tq_inv_def demo_timers_def new_timer_def UINTPTR_MAX_def)

theorem timers_fire_when_due_witness:
  "\<exists>q'. tq_handleRead demo_timers = Some q' \<and> tq_ran q' = [11] \<and> armed_ok q' \<and> tq_inv {} q'
    \<and> tq_heap q' 0 = tq_heap demo_timers 0"
proof -
  have due: "filter (\<lambda>(w, a). w \<le> tq_clock demo_timers (tq_readings demo_timers)) (tq_timers demo_timers)
      = [(Timestamp 5, 1)]"
    by (simp add: demo_timers_def)
  have u: "length (tq_user demo_timers n cb) \<le> 0" for n cb by (simp add: demo_timers_def)
  have r: "card (dom (tq_heap demo_timers)) + 0 * length (tq_timers demo_timers) \<le> 3"
    by (simp add: demo_timers_def)
  obtain q' where q': "tq_handleRead demo_timers = Some q'" "tq_inv {} q'" "armed_ok q'"
      "tq_ran q' = tq_ran demo_timers @ map (\<lambda>e. tm_callback (the (tq_heap demo_timers (snd e)))) [(Timestamp 5, 1)]"
      "\<forall>e \<in> set (tq_timers demo_timers) - set [(Timestamp 5, 1)]. tq_heap q' (snd e) = tq_heap demo_timers (snd e)"
    using timers_fire_when_due [OF demo_timers_inv demo_alloc u r] unfolding due by blast
  have "(Timestamp 9, 0) \<in> set (tq_timers demo_timers) - set [(Timestamp 5, 1)]"
    by (simp add: demo_timers_def)
  with q'(5) have "tq_heap q' 0 = tq_heap demo_timers 0" by (metis snd_conv)
  moreover have "tq_ran q' = [11]" using q'(4) by (simp add: demo_timers_def new_timer_def)
  ultimately show ?thesis using q' by blast
qed

text \<open>
  The setting written to the timer descriptor is a valid one and never disarms it: seconds
  and nanoseconds are in range, and they denote the time left, or 100 microseconds when less is
  left.
\<close>
theorem timerfd_spec_valid:
  "case timerfd_spec expiration now of (sec, nsec) \<Rightarrow>
     0 \<le> sec \<and> 0 \<le> nsec \<and> nsec < 1000000000 \<and> (sec, nsec) \<noteq> (0, 0)
     \<and> sec * 1000000000 + nsec
       = max 100 (microSecondSinceEpoch expiration - microSecondSinceEpoch now) * 1000"
proof -
  define m where "m = max 100 (microSecondSinceEpoch expiration - microSecondSinceEpoch now)"
  have m: "100 \<le> m" by (simp add: m_def)
  have eq: "timerfd_spec expiration now = (m div 1000000, m mod 1000000 * 1000)"
    using m by (simp add: timerfd_spec_def Let_def m_def [symmetric] kMicroSecondsPerSecond_def cdiv_nonneg cmod_nonneg)
  define d r where "d = m div 1000000" and "r = m mod 1000000"
  have split: "d * 1000000 + r = m" by (simp add: d_def r_def)
  have "0 \<le> d" "0 \<le> r" "r < 1000000"
    using m by (simp_all add: d_def r_def pos_imp_zdiv_nonneg_iff)
  with split m show ?thesis unfolding eq m_def [symmetric] d_def [symmetric] r_def [symmetric] by auto
qed

text \<open>
  \<open>addTimer\<close> from any thread: in the loop's thread the new timer is in the set at once, with
  the descriptor armed for the earliest; from another thread it is queued for the loop, which
  finds it still allocated and inserts it when it runs the functor.
\<close>
theorem addTimer_hands_over:
  assumes "tq_inv loose q" and "armed_ok q" and "alloc_ok N (tq_alloc q)" and "card (dom (tq_heap q)) < N"
  shows "\<exists>el' q'. addTimer tid cb when interval (el, q) = Some (el', q')
    \<and> (if isInLoopThread tid el then el' = el \<and> tq_inv loose q' \<and> armed_ok q'
       else \<exists>a. a \<notin> dom (tq_heap q) \<and> el_pending el' = el_pending el @ [AddTimerInLoop a] \<and> tq_inv (insert a loose) q'
         \<and> (\<exists>q''. addTimerInLoop a q' = Some q'' \<and> tq_inv (insert a loose - {a}) q'' \<and> armed_ok q''))"
proof -
  obtain a q1 where al: "allocTimer cb when interval q = (a, q1)" by (metis surj_pair)
  note A = allocTimer_ok [OF assms(1,3,4) al]
  have "armed_ok q1 = armed_ok q" using A(4,5) by (simp add: armed_ok_def split: list.split)
  with assms(2) have arm: "armed_ok q1" by simp
  obtain q2 where 2: "addTimerInLoop a q1 = Some q2" "tq_inv (insert a loose - {a}) q2" "armed_ok q2"
    using addTimerInLoop_ok [OF A(2) insertI1 A(3)] arm by blast
  have "a \<notin> loose" using A(1) tq_invD(5) [OF assms(1)] by blast
  with 2 A(1,2) show ?thesis
    by (auto simp: addTimer_def al runInLoop_def queueInLoop_def wakeup_def Let_def)
qed

definition demo_timer_loop :: "(timer_functor, unit) evloop" where
  "demo_timer_loop = \<lparr>el_looping = True, el_quit = False, el_calling = False, el_threadId = 1,
     el_pollReturnTime = ts_default, el_chans = witness_chans, el_poller = newDefaultPoller False linux_ctl,
     el_wakeupChannel = 0, el_eventfd = 0, el_active = [], el_current = None, el_pending = []\<rparr>"

theorem addTimer_hands_over_witness:
  "\<exists>el' q' a. addTimer 9 12 (Timestamp 6) 0
      (demo_timer_loop, demo_timers\<lparr>tq_armed := Some (Timestamp 5, timerfd_spec (Timestamp 5) (Timestamp 1))\<rparr>)
      = Some (el', q') \<and> el_pending el' = [AddTimerInLoop a] \<and> tq_inv {a} q'"
proof -
  let ?q = "demo_timers\<lparr>tq_armed := Some (Timestamp 5, timerfd_spec (Timestamp 5) (Timestamp 1))\<rparr>"
  have "tq_inv {} ?q" using demo_timers_inv tq_inv_cong [of ?q demo_timers "{}"] by simp
  moreover have "armed_ok ?q" by (auto simp: armed_ok_def demo_timers_def)
  moreover have "alloc_ok 3 (tq_alloc ?q)" using demo_alloc by simp
  moreover have "card (dom (tq_heap ?q)) < 3" by (simp add: demo_timers_def)
  ultimately show ?thesis
    using addTimer_hands_over [of "{}" ?q 3 9 12 "Timestamp 6" 0 demo_timer_loop]
    by (auto simp: isInLoopThread_def demo_timer_loop_def)
qed

section \<open>Timers as a client of the loop's queue\<close>

fun timer_exec :: "timer_functor \<Rightarrow> (timer_functor, unit, 'cb timer_queue) world
    \<Rightarrow> (timer_functor, unit, 'cb timer_queue) world option" where
  "timer_exec (AddTimerInLoop timer) (el, q) = map_option (Pair el) (addTimerInLoop timer q)"

fun timer_call :: "unit invocation \<Rightarrow> (timer_functor, unit, 'cb timer_queue) world
    \<Rightarrow> (timer_functor, unit, 'cb timer_queue) world option" where
  "timer_call i (el, q) = map_option (Pair el) (tq_handleRead q)"

interpretation timer_loop: loop_client timer_call "\<lambda>_ _. True" timer_exec
  by unfold_locales (auto elim!: timer_call.elims timer_exec.elims simp: eq_commute [of "Some _"])

end
