(* ===== verification/Log_Stream.thy ===== *)
theory Log_Stream
  imports Time_Stamp "HOL-Library.Sublist"
begin

text \<open>
  \<open>include/LogStream.h\<close> and \<open>log/LogStream.cc\<close>: the fixed buffer a log line is composed in and
  the insertion operators. A buffer's capacity is the length of \<open>fb_data\<close>; its initial bytes
  are an argument of the constructor, since the class does not initialise them. The text of a
  double (\<open>%.12g\<close>) is a parameter.
\<close>

definition kSmallBuffer :: nat where "kSmallBuffer = 4000"
definition kLargeBuffer :: nat where "kLargeBuffer = 4000 * 1000"
definition kMaxNumericSize :: nat where "kMaxNumericSize = 48"

record fixed_buffer =
  fb_data :: string
  fb_cur :: nat

definition new_fixed_buffer :: "string \<Rightarrow> fixed_buffer" where
  "new_fixed_buffer init = \<lparr>fb_data = init, fb_cur = 0\<rparr>"

definition fb_avail :: "fixed_buffer \<Rightarrow> nat" where
  "fb_avail b = sz_sub (length (fb_data b)) (fb_cur b)"

definition fb_append :: "string \<Rightarrow> fixed_buffer \<Rightarrow> fixed_buffer" where
  "fb_append buf b =
     (if length buf < fb_avail b
      then b\<lparr>fb_data := overwrite (fb_cur b) buf (fb_data b), fb_cur := fb_cur b + length buf\<rparr>
      else b)"

text \<open>\<open>length ()\<close> is the distance from the start of the array to its end.\<close>

definition fb_length :: "fixed_buffer \<Rightarrow> nat" where
  "fb_length b = length (fb_data b)"

definition fb_add :: "nat \<Rightarrow> fixed_buffer \<Rightarrow> fixed_buffer" where
  "fb_add len b = b\<lparr>fb_cur := fb_cur b + len\<rparr>"

definition fb_reset :: "fixed_buffer \<Rightarrow> fixed_buffer" where
  "fb_reset b = b\<lparr>fb_cur := 0\<rparr>"

definition fb_bzero :: "fixed_buffer \<Rightarrow> fixed_buffer" where
  "fb_bzero b = b\<lparr>fb_data := replicate (length (fb_data b)) NUL\<rparr>"

definition fb_toSting :: "fixed_buffer \<Rightarrow> string" where
  "fb_toSting b = take (fb_length b) (fb_data b)"

section \<open>The insertion operators\<close>

text \<open>\<open>zero\<close> points at the tenth entry, so a remainder of either sign indexes its digit.\<close>

definition digits :: string where
  "digits = ''9876543210123456789''"

function format_digits :: "int \<Rightarrow> string" where
  "format_digits num =
     (let remainder = cmod num 10; c = digits ! nat (9 + remainder); num' = cdiv num 10
      in if num' \<noteq> 0 then c # format_digits num' else [c])"
  by auto
termination
proof (relation "measure (\<lambda>n. nat \<bar>n\<bar>)")
  show "(num', num) \<in> measure (\<lambda>n. nat \<bar>n\<bar>)"
    if "num' = cdiv num 10" "num' \<noteq> 0" for num num' :: int
  proof (cases "0 \<le> num")
    case True
    moreover from True that have "num \<noteq> 0" by auto
    ultimately have "0 < num" by simp
    with that show ?thesis by (simp add: int_div_less_self)
  next
    case False
    with that have "num' = - ((- num) div 10)" by (simp add: cdiv_neg)
    with False show ?thesis by simp
  qed
qed simp

declare format_digits.simps [simp del]

definition formatIntger :: "int \<Rightarrow> fixed_buffer \<Rightarrow> fixed_buffer" where
  "formatIntger num b =
     (if kMaxNumericSize \<le> fb_avail b
      then (let cur = format_digits num @ (if num < 0 then ''-'' else '''');
                text = rev cur
            in fb_add (length text) (b\<lparr>fb_data := overwrite (fb_cur b) (text @ [NUL]) (fb_data b)\<rparr>))
      else b)"

definition ls_bool :: "bool \<Rightarrow> fixed_buffer \<Rightarrow> fixed_buffer" where
  "ls_bool v = fb_append (if v then ''1'' else ''0'')"

definition ls_int :: "int \<Rightarrow> fixed_buffer \<Rightarrow> fixed_buffer" where
  "ls_int v = formatIntger v"

definition ls_double :: "(double \<Rightarrow> string) \<Rightarrow> double \<Rightarrow> fixed_buffer \<Rightarrow> fixed_buffer" where
  "ls_double fmt v b =
     (if kMaxNumericSize \<le> fb_avail b
      then fb_add (length (fmt v))
        (b\<lparr>fb_data := overwrite (fb_cur b) (snprintf kMaxNumericSize (fmt v) @ [NUL]) (fb_data b)\<rparr>)
      else b)"

definition ls_char :: "char \<Rightarrow> fixed_buffer \<Rightarrow> fixed_buffer" where
  "ls_char v = fb_append [v]"

text \<open>A C string: the bytes at the address up to the first NUL, or the null pointer.\<close>

definition ls_cstr :: "string option \<Rightarrow> fixed_buffer \<Rightarrow> fixed_buffer" where
  "ls_cstr str = (case str of Some s \<Rightarrow> fb_append (c_str s) | None \<Rightarrow> fb_append ''(null)'')"

text \<open>\<open>const void *\<close> is printed as if it pointed at a C string.\<close>

definition ls_ptr :: "string option \<Rightarrow> fixed_buffer \<Rightarrow> fixed_buffer" where
  "ls_ptr data = ls_cstr data"

definition ls_string :: "string \<Rightarrow> fixed_buffer \<Rightarrow> fixed_buffer" where
  "ls_string str = fb_append str"

definition ls_buffer :: "fixed_buffer \<Rightarrow> fixed_buffer \<Rightarrow> fixed_buffer" where
  "ls_buffer buf = ls_string (fb_toSting buf)"

definition ls_append :: "string \<Rightarrow> nat \<Rightarrow> fixed_buffer \<Rightarrow> fixed_buffer" where
  "ls_append data len = fb_append (take len data)"

datatype log_item = LBool bool | LInt int | LDouble double | LChar char | LPtr "string option"
  | LCStr "string option" | LString string | LBuffer fixed_buffer | LCharStream string nat

fun ls_put :: "(double \<Rightarrow> string) \<Rightarrow> log_item \<Rightarrow> fixed_buffer \<Rightarrow> fixed_buffer" where
  "ls_put fmt (LBool v) = ls_bool v"
| "ls_put fmt (LInt v) = ls_int v"
| "ls_put fmt (LDouble v) = ls_double fmt v"
| "ls_put fmt (LChar v) = ls_char v"
| "ls_put fmt (LPtr v) = ls_ptr v"
| "ls_put fmt (LCStr v) = ls_cstr v"
| "ls_put fmt (LString v) = ls_string v"
| "ls_put fmt (LBuffer v) = ls_buffer v"
| "ls_put fmt (LCharStream v n) = ls_append v n"

section \<open>Invariant and text\<close>

definition fb_ok :: "fixed_buffer \<Rightarrow> bool" where
  "fb_ok b \<longleftrightarrow> fb_cur b \<le> length (fb_data b)"

definition fb_text :: "fixed_buffer \<Rightarrow> string" where
  "fb_text b = take (fb_cur b) (fb_data b)"

lemma fb_ok_new [simp]: "fb_ok (new_fixed_buffer init)" "fb_text (new_fixed_buffer init) = []"
  by (simp_all add: fb_ok_def fb_text_def new_fixed_buffer_def)

lemma fb_reset_ok [simp]: "fb_ok (fb_reset b)" "fb_text (fb_reset b) = []" "length (fb_data (fb_reset b)) = length (fb_data b)"
  by (simp_all add: fb_ok_def fb_text_def fb_reset_def)

text \<open>Writing at the cursor, with or without more behind it.\<close>

lemma fb_write:
  assumes "fb_ok b" and "fb_cur b + length s + length t \<le> length (fb_data b)"
  defines "b' \<equiv> b\<lparr>fb_data := overwrite (fb_cur b) (s @ t) (fb_data b), fb_cur := fb_cur b + length s\<rparr>"
  shows "fb_ok b'" "fb_text b' = fb_text b @ s" "length (fb_data b') = length (fb_data b)"
  using assms by (simp_all add: fb_ok_def fb_text_def overwrite_def)

lemma fb_append_ok:
  assumes "fb_ok b"
  shows "fb_ok (fb_append s b)" "length (fb_data (fb_append s b)) = length (fb_data b)"
    "fb_text (fb_append s b) = fb_text b @ (if length s < length (fb_data b) - fb_cur b then s else [])"
  using assms fb_write [of b s "[]"]
  by (auto simp: fb_append_def fb_avail_def fb_ok_def)

text \<open>The digits come out last first; for either sign they are those of the absolute value.\<close>

lemma digits_nth: "n < 10 \<Longrightarrow> digits ! (9 + n) = digit n" "n < 10 \<Longrightarrow> digits ! (9 - n) = digit n"
proof -
  have "\<forall>n \<in> {..<10}. digits ! (9 + n) = digit n \<and> digits ! (9 - n) = digit n"
    by code_simp
  then show "n < 10 \<Longrightarrow> digits ! (9 + n) = digit n" "n < 10 \<Longrightarrow> digits ! (9 - n) = digit n" by auto
qed

lemma format_digits_nonneg: "format_digits (int n) = rev (dec n)"
proof (induction n rule: dec.induct)
  case (1 n)
  have d: "digits ! nat (9 + int n mod 10) = digit (n mod 10)"
    using digits_nth(1) [of "n mod 10"] by (simp add: nat_add_distrib nat_mod_distrib)
  have q: "int n div 10 = int (n div 10)" by (simp add: zdiv_int)
  show ?case
  proof (cases "n < 10")
    case True
    with d show ?thesis by (subst format_digits.simps, subst dec.simps) (simp add: Let_def)
  next
    case False
    have "format_digits (int n div 10) = rev (dec (n div 10))" unfolding q by (rule 1 [OF False])
    with d False show ?thesis
      by (subst format_digits.simps, subst dec.simps) (auto simp: Let_def)
  qed
qed

lemma format_digits_neg: "n \<noteq> 0 \<Longrightarrow> format_digits (- int n) = rev (dec n)"
proof (induction n rule: dec.induct)
  case (1 n)
  have m: "cmod (- int n) 10 = - int (n mod 10)" "cdiv (- int n) 10 = - int (n div 10)"
    using 1(2) by (simp_all add: cmod_neg cdiv_neg zmod_int zdiv_int)
  have "digits ! nat (9 - int (n mod 10)) = digit (n mod 10)"
    using digits_nth(2) [of "n mod 10"] by (simp add: nat_diff_distrib nat_minus_as_int [symmetric])
  then show ?case using 1
    by (subst format_digits.simps, subst dec.simps) (auto simp: Let_def m simp del: of_nat_div of_nat_mod)
qed

lemma format_digits_eq: "rev (format_digits num @ (if num < 0 then ''-'' else [])) = dec_int num"
  using format_digits_nonneg [of "nat num"] format_digits_neg [of "nat (- num)"]
  by (auto simp: dec_int_def)

text \<open>What an item inserts, and that it is whole or absent; no write passes the end of the array.\<close>

fun item_text :: "(double \<Rightarrow> string) \<Rightarrow> log_item \<Rightarrow> string" where
  "item_text fmt (LBool v) = (if v then ''1'' else ''0'')"
| "item_text fmt (LInt v) = dec_int v"
| "item_text fmt (LDouble v) = fmt v"
| "item_text fmt (LChar v) = [v]"
| "item_text fmt (LPtr v) = (case v of Some s \<Rightarrow> c_str s | None \<Rightarrow> ''(null)'')"
| "item_text fmt (LCStr v) = (case v of Some s \<Rightarrow> c_str s | None \<Rightarrow> ''(null)'')"
| "item_text fmt (LString v) = v"
| "item_text fmt (LBuffer v) = fb_data v"
| "item_text fmt (LCharStream v n) = take n v"

fun item_ok :: "(double \<Rightarrow> string) \<Rightarrow> log_item \<Rightarrow> bool" where
  "item_ok fmt (LInt v) \<longleftrightarrow> - (2 ^ 63) \<le> v \<and> v < 2 ^ 64"
| "item_ok fmt (LDouble v) \<longleftrightarrow> length (fmt v) < kMaxNumericSize"
| "item_ok fmt _ \<longleftrightarrow> True"

lemma length_dec_int_64: "- (2 ^ 63) \<le> v \<Longrightarrow> v < 2 ^ 64 \<Longrightarrow> length (dec_int v) \<le> 21"
  using length_dec_int_le [of v 20] by simp

lemma formatIntger_eq:
  "formatIntger v b = (if kMaxNumericSize \<le> fb_avail b
     then b\<lparr>fb_data := overwrite (fb_cur b) (dec_int v @ [NUL]) (fb_data b), fb_cur := fb_cur b + length (dec_int v)\<rparr>
     else b)"
  unfolding formatIntger_def Let_def format_digits_eq by (simp add: fb_add_def)

lemma formatIntger_ok:
  assumes ok: "fb_ok b" and v: "- (2 ^ 63) \<le> v" "v < 2 ^ 64"
  shows "fb_ok (formatIntger v b)" "length (fb_data (formatIntger v b)) = length (fb_data b)"
    "fb_text (formatIntger v b) = fb_text b @ (if kMaxNumericSize \<le> fb_avail b then dec_int v else [])"
  using fb_write [OF ok, of "dec_int v" "[NUL]"] length_dec_int_64 [OF v] ok
  by (auto simp: formatIntger_eq fb_avail_def fb_ok_def kMaxNumericSize_def)

lemma ls_double_ok:
  assumes ok: "fb_ok b" and l: "length (fmt v) < kMaxNumericSize"
  shows "fb_ok (ls_double fmt v b)" "length (fb_data (ls_double fmt v b)) = length (fb_data b)"
    "fb_text (ls_double fmt v b) = fb_text b @ (if kMaxNumericSize \<le> fb_avail b then fmt v else [])"
  using fb_write [OF ok, of "fmt v" "[NUL]"] l ok
  by (auto simp: ls_double_def fb_add_def fb_avail_def fb_ok_def)

lemma ls_put_ok:
  assumes ok: "fb_ok b" and item: "item_ok fmt x"
  shows "fb_ok (ls_put fmt x b) \<and> length (fb_data (ls_put fmt x b)) = length (fb_data b)
    \<and> (fb_text (ls_put fmt x b) = fb_text b @ item_text fmt x \<or> fb_text (ls_put fmt x b) = fb_text b)"
proof (cases x)
  case (LInt v)
  then show ?thesis using formatIntger_ok [OF ok, of v] item by (auto simp: ls_int_def)
next
  case (LDouble v)
  then show ?thesis using ls_double_ok [OF ok, of fmt v] item by auto
qed (auto simp: ls_bool_def ls_char_def ls_ptr_def ls_cstr_def ls_string_def ls_buffer_def ls_append_def
    fb_toSting_def fb_length_def fb_append_ok ok split: option.split)

text \<open>
  C38: Inserting any number of items into a log stream never writes outside its array (whose length
  stays the same) and never moves the cursor past the end; the text collected is the concatenation
  of some of the items' texts in their order, each whole or, when it does not fit, left out.
\<close>
theorem stream_items_whole_or_dropped:
  assumes "fb_ok b" and "\<forall>x \<in> set xs. item_ok fmt x"
  shows "fb_ok (fold (ls_put fmt) xs b) \<and> length (fb_data (fold (ls_put fmt) xs b)) = length (fb_data b)
    \<and> (\<exists>ys. subseq ys xs \<and> fb_text (fold (ls_put fmt) xs b) = fb_text b @ concat (map (item_text fmt) ys))"
  using assms
proof (induction xs arbitrary: b)
  case Nil
  then show ?case by (auto intro!: exI [of _ "[]"])
next
  case (Cons x xs)
  let ?b = "ls_put fmt x b"
  have 1: "fb_ok ?b" "length (fb_data ?b) = length (fb_data b)"
      "fb_text ?b = fb_text b @ item_text fmt x \<or> fb_text ?b = fb_text b"
    using ls_put_ok [OF Cons.prems(1), of fmt x] Cons.prems(2) by auto
  obtain ys where ys: "subseq ys xs" "fb_text (fold (ls_put fmt) xs ?b) = fb_text ?b @ concat (map (item_text fmt) ys)"
    using Cons.IH [OF 1(1)] Cons.prems(2) by auto
  have "subseq (x # ys) (x # xs)" "subseq ys (x # xs)" using ys(1) by auto
  with 1(3) ys(2) have "\<exists>zs. subseq zs (x # xs)
      \<and> fb_text (fold (ls_put fmt) xs ?b) = fb_text b @ concat (map (item_text fmt) zs)"
    by (metis append.assoc concat.simps(2) list.simps(9))
  with Cons.IH [OF 1(1)] 1(2) Cons.prems(2) show ?case by simp
qed

theorem stream_items_whole_or_dropped_witness:
  "\<exists>ys. subseq ys [LInt (- 42), LCStr None]
    \<and> fb_text (fold (ls_put (\<lambda>_. [])) [LInt (- 42), LCStr None] (new_fixed_buffer (replicate 20 NUL)))
      = concat (map (item_text (\<lambda>_. [])) ys)"
  using stream_items_whole_or_dropped [of "new_fixed_buffer (replicate 20 NUL)" "[LInt (- 42), LCStr None]" "\<lambda>_. []"]
  by simp

text \<open>
  C39: With at least \<open>kMaxNumericSize\<close> bytes left, inserting any 64-bit integer, signed or unsigned,
  appends a decimal text that reads back as that integer; the minimum of the signed type included.
\<close>
theorem stream_integer_roundtrip:
  assumes "fb_ok b" and "kMaxNumericSize \<le> fb_avail b" and "- (2 ^ 63) \<le> v" and "v < 2 ^ 64"
  shows "\<exists>s. fb_text (formatIntger v b) = fb_text b @ s \<and> undec_int s = v"
  using formatIntger_ok(3) [OF assms(1,3,4)] assms(2) by simp

theorem stream_integer_roundtrip_witness:
  "\<exists>s. fb_text (formatIntger (- (2 ^ 63)) (new_fixed_buffer (replicate 48 NUL))) = s \<and> undec_int s = - (2 ^ 63)"
  using stream_integer_roundtrip [of "new_fixed_buffer (replicate 48 NUL)" "- (2 ^ 63)"]
  by (simp add: fb_avail_def new_fixed_buffer_def kMaxNumericSize_def fb_text_def fb_ok_def)

text \<open>
  \<open>FixedBuffer::length\<close> is the capacity: \<open>toSting\<close> returns the bytes written followed by
  whatever the rest of the array holds, which is the text alone only when the array is full.
\<close>
theorem toSting_is_text_iff_full:
  assumes "fb_ok b"
  shows "(fb_toSting b = fb_text b) = (fb_cur b = length (fb_data b))"
proof
  assume "fb_toSting b = fb_text b"
  then have "length (fb_toSting b) = length (fb_text b)" by simp
  with assms show "fb_cur b = length (fb_data b)"
    by (simp add: fb_toSting_def fb_length_def fb_text_def fb_ok_def)
qed (simp add: fb_toSting_def fb_length_def fb_text_def)

theorem toSting_is_text_iff_full_witness:
  "fb_toSting (fb_append ''ab'' (new_fixed_buffer (replicate 5 NUL))) \<noteq> fb_text (fb_append ''ab'' (new_fixed_buffer (replicate 5 NUL)))"
proof -
  have "fb_ok (fb_append ''ab'' (new_fixed_buffer (replicate 5 NUL)))" by (simp add: fb_append_ok)
  from toSting_is_text_iff_full [OF this] show ?thesis
    by (simp add: fb_append_def new_fixed_buffer_def fb_avail_def overwrite_def)
qed

end
