(* ===== verification/Log_File.thy ===== *)
theory Log_File
  imports Log_Stream
begin

text \<open>
  \<open>AppendFile\<close> of \<open>include/FileUtil.h\<close> and \<open>log/FileUtil.cc\<close>, and \<open>LogFile\<close> of \<open>include/LogFile.h\<close> and
  \<open>log/LogFile.cc\<close>. What \<open>fwrite_unlocked\<close> accepts of each call is a function of the number of the
  call and the bytes offered (\<open>af_fwrite\<close>); \<open>af_content\<close> is what it has accepted since the file was
  opened. Whether \<open>fopen\<close> succeeds, the text of \<open>strftime\<close> and the value of \<open>time\<close> are arguments.
\<close>

section \<open>A file opened for appending\<close>

record append_file =
  af_name :: string
  af_content :: string
  af_writtenBytes :: int
  af_flushes :: nat
  af_fwrite :: "nat \<Rightarrow> string \<Rightarrow> nat"
  af_calls :: nat

definition new_append_file :: "(string \<Rightarrow> bool) \<Rightarrow> (nat \<Rightarrow> string \<Rightarrow> nat) \<Rightarrow> string \<Rightarrow> append_file option" where
  "new_append_file fopen fwrite filename =
     (if fopen filename
      then Some \<lparr>af_name = filename, af_content = [], af_writtenBytes = 0, af_flushes = 0,
        af_fwrite = fwrite, af_calls = 0\<rparr>
      else None)"

definition af_write :: "string \<Rightarrow> append_file \<Rightarrow> nat \<times> append_file" where
  "af_write data f =
     (let n = af_fwrite f (af_calls f) data
      in (n, f\<lparr>af_content := af_content f @ take n data, af_calls := af_calls f + 1\<rparr>))"

text \<open>The loop ends only when everything has been accepted: an error is reported and tried again.\<close>

partial_function (option) append_loop :: "string \<Rightarrow> nat \<Rightarrow> append_file \<Rightarrow> (nat \<times> append_file) option" where
  "append_loop data written f =
     (if written \<noteq> length data
      then (case af_write (drop written data) f of (n, f) \<Rightarrow> append_loop data (written + n) f)
      else Some (written, f))"

definition af_append :: "string \<Rightarrow> append_file \<Rightarrow> append_file option" where
  "af_append data f = do {
     (written, f) \<leftarrow> append_loop data 0 f;
     Some (f\<lparr>af_writtenBytes := af_writtenBytes f + int written\<rparr>)
   }"

definition af_flush :: "append_file \<Rightarrow> append_file" where
  "af_flush f = f\<lparr>af_flushes := af_flushes f + 1\<rparr>"

text \<open>
  \<open>ReadSmallFile\<close>: \<open>fd\<close> is what \<open>open\<close> returned, \<open>err\<close> the value of \<open>errno\<close> after it and \<open>junk\<close> the memory
  of the buffer; destroying it yields the descriptors closed. Its two reading methods are declared
  and have no definition.
\<close>

record small_file =
  sf_fd :: int
  sf_err :: int
  sf_buf :: string

definition kBufferSize :: nat where "kBufferSize = 64 * 1024"

definition new_small_file :: "int \<Rightarrow> int \<Rightarrow> string \<Rightarrow> small_file" where
  "new_small_file fd err junk =
     \<lparr>sf_fd = fd, sf_err = (if fd < 0 then err else 0), sf_buf = (take kBufferSize junk)[0 := NUL]\<rparr>"

definition destroy_small_file :: "small_file \<Rightarrow> int list" where
  "destroy_small_file f = (if 0 \<le> sf_fd f then [sf_fd f] else [])"

lemma small_file_closes: "destroy_small_file (new_small_file fd err junk) = (if 0 \<le> fd then [fd] else [])"
  by (simp add: destroy_small_file_def new_small_file_def)

text \<open>\<open>fwrite\<close> never accepts more than it is offered; it makes progress if it accepts something.\<close>

definition fwrite_ok :: "(nat \<Rightarrow> string \<Rightarrow> nat) \<Rightarrow> bool" where
  "fwrite_ok fwrite \<longleftrightarrow> (\<forall>k s. fwrite k s \<le> length s)"

definition fwrite_progress :: "(nat \<Rightarrow> string \<Rightarrow> nat) \<Rightarrow> bool" where
  "fwrite_progress fwrite \<longleftrightarrow> fwrite_ok fwrite \<and> (\<forall>k s. s \<noteq> [] \<longrightarrow> 0 < fwrite k s)"

lemma append_loop_progress:
  assumes "fwrite_progress (af_fwrite f)" and "written \<le> length data"
  shows "\<exists>k \<ge> af_calls f. k \<le> af_calls f + (length data - written) \<and> append_loop data written f =
    Some (length data, f\<lparr>af_content := af_content f @ drop written data, af_calls := k\<rparr>)"
  using assms
proof (induction "length data - written" arbitrary: written f rule: less_induct)
  case less
  show ?case
  proof (cases "written = length data")
    case True
    then show ?thesis
      by (intro exI [of _ "af_calls f"]) (subst append_loop.simps, simp)
  next
    case False
    let ?rest = "drop written data"
    define n where "n = af_fwrite f (af_calls f) ?rest"
    have rest: "?rest \<noteq> []" using False less.prems(2) by simp
    have n: "0 < n" "n \<le> length ?rest"
      using less.prems(1) rest unfolding n_def fwrite_progress_def fwrite_ok_def by blast+
    define f' where "f' = f\<lparr>af_content := af_content f @ take n ?rest, af_calls := af_calls f + 1\<rparr>"
    have step: "append_loop data written f = append_loop data (written + n) f'"
      using False by (subst append_loop.simps) (simp add: af_write_def n_def f'_def Let_def)
    have "length data - (written + n) < length data - written" "fwrite_progress (af_fwrite f')"
        "written + n \<le> length data"
      using n False less.prems by (auto simp: f'_def)
    from less.hyps [OF this] obtain k where
      k: "af_calls f' \<le> k" "k \<le> af_calls f' + (length data - (written + n))"
      "append_loop data (written + n) f' =
         Some (length data, f'\<lparr>af_content := af_content f' @ drop (written + n) data, af_calls := k\<rparr>)"
      by blast
    have "take n ?rest @ drop (written + n) data = ?rest"
      by (metis add.commute append_take_drop_id drop_drop)
    with k n step show ?thesis by (intro exI [of _ k]) (auto simp: f'_def)
  qed
qed

lemma append_loop_returns:
  assumes "append_loop data written f = Some r"
  shows "(\<forall>k s. af_calls f \<le> k \<longrightarrow> af_fwrite f k s = 0) \<longrightarrow> written = length data"
proof -
  let ?P = "\<lambda>data written f (r :: nat \<times> append_file).
    (\<forall>k s. af_calls f \<le> k \<longrightarrow> af_fwrite f k s = 0) \<longrightarrow> written = length (data :: string)"
  show ?thesis
  proof (rule append_loop.raw_induct [of ?P, OF _ assms])
    fix loop :: "string \<Rightarrow> nat \<Rightarrow> append_file \<Rightarrow> (nat \<times> append_file) option"
      and data :: string and written f and r :: "nat \<times> append_file"
    assume IH: "\<And>data written f r. loop data written f = Some r \<Longrightarrow> ?P data written f r"
      and eq: "(if written \<noteq> length data
        then case af_write (drop written data) f of (n, f) \<Rightarrow> loop data (written + n) f
        else Some (written, f)) = Some r"
    show "?P data written f r"
    proof (intro impI, rule ccontr)
      assume zero: "\<forall>k s. af_calls f \<le> k \<longrightarrow> af_fwrite f k s = 0" and ne: "written \<noteq> length data"
      let ?f = "f\<lparr>af_content := af_content f @ take 0 (drop written data), af_calls := af_calls f + 1\<rparr>"
      have "loop data (written + 0) ?f = Some r"
        using eq ne zero by (simp add: af_write_def Let_def)
      from IH [OF this] zero ne show False by simp
    qed
  qed
qed

text \<open>
  \<open>AppendFile::append\<close> returns with all the bytes in the file, in order and counted, whatever
  portions the writes accept, as long as each one accepts at least a byte.
\<close>
theorem append_file_complete:
  assumes "fwrite_progress (af_fwrite f)"
  shows "\<exists>k. af_append data f = Some (f\<lparr>af_content := af_content f @ data, af_calls := k,
    af_writtenBytes := af_writtenBytes f + int (length data)\<rparr>)"
  using append_loop_progress [OF assms, of 0 data] by (auto simp: af_append_def)

definition demo_file :: append_file where
  "demo_file = \<lparr>af_name = ''log'', af_content = ''ab'', af_writtenBytes = 2, af_flushes = 0,
     af_fwrite = (\<lambda>_ s. min 2 (length s)), af_calls = 0\<rparr>"

lemma demo_file_progress: "fwrite_progress (af_fwrite demo_file)"
  by (simp add: fwrite_progress_def fwrite_ok_def demo_file_def)

theorem append_file_complete_witness:
  "map_option af_content (af_append ''cdefg'' demo_file) = Some ''abcdefg''"
proof -
  obtain k where "af_append ''cdefg'' demo_file = Some (demo_file\<lparr>af_content := af_content demo_file @ ''cdefg'',
      af_calls := k, af_writtenBytes := af_writtenBytes demo_file + int (length ''cdefg'')\<rparr>)"
    using append_file_complete [OF demo_file_progress] by blast
  then show ?thesis by (simp add: demo_file_def)
qed

text \<open>
  When the stream accepts nothing any more, as on a full disk, appending a non-empty line never
  returns: the error is reported and the write repeated for ever.
\<close>
theorem append_file_spins:
  assumes "\<And>k s. af_calls f \<le> k \<Longrightarrow> af_fwrite f k s = 0" and "data \<noteq> []"
  shows "af_append data f = None"
proof (cases "append_loop data 0 f")
  case None
  then show ?thesis by (simp add: af_append_def)
next
  case (Some r)
  from append_loop_returns [OF this] assms show ?thesis by simp
qed

theorem append_file_spins_witness:
  "af_append ''x'' (demo_file\<lparr>af_fwrite := \<lambda>_ _. 0\<rparr>) = None"
  by (rule append_file_spins) simp_all

section \<open>The log file\<close>

record log_file =
  lf_basename :: string
  lf_rollsize :: int
  lf_flushInterval :: int
  lf_checkEveryN :: int
  lf_count :: int
  lf_mutex :: bool
  lf_startOfPeriod :: int
  lf_lastRoll :: int
  lf_lastFlush :: int
  lf_file :: "append_file option"

definition kRollPerSeconds :: int where "kRollPerSeconds = 60 * 60 * 24"

text \<open>\<open>stamp\<close> is the text \<open>strftime\<close> makes of the UTC time, within its buffer of 32 bytes.\<close>

definition getLogFileName :: "(int \<Rightarrow> string) \<Rightarrow> string \<Rightarrow> int \<Rightarrow> string" where
  "getLogFileName stamp basename now = basename @ c_str (stamp now) @ ''.log''"

definition rollFile :: "(string \<Rightarrow> bool) \<Rightarrow> (nat \<Rightarrow> string \<Rightarrow> nat) \<Rightarrow> (int \<Rightarrow> string) \<Rightarrow> int
    \<Rightarrow> log_file \<Rightarrow> (bool \<times> log_file) option" where
  "rollFile fopen fwrite stamp now lf =
     (let filename = getLogFileName stamp (lf_basename lf) now;
          start = cdiv now kRollPerSeconds * kRollPerSeconds
      in if lf_lastRoll lf < now
         then do {
           f \<leftarrow> new_append_file fopen fwrite filename;
           Some (True, lf\<lparr>lf_lastRoll := now, lf_lastFlush := now, lf_startOfPeriod := start, lf_file := Some f\<rparr>)
         }
         else Some (False, lf))"

definition new_log_file :: "(string \<Rightarrow> bool) \<Rightarrow> (nat \<Rightarrow> string \<Rightarrow> nat) \<Rightarrow> (int \<Rightarrow> string) \<Rightarrow> int
    \<Rightarrow> string \<Rightarrow> int \<Rightarrow> bool \<Rightarrow> int \<Rightarrow> int \<Rightarrow> log_file option" where
  "new_log_file fopen fwrite stamp now basename rollSize threadSafe flushInterval checkEveryN =
     map_option snd (rollFile fopen fwrite stamp now
       \<lparr>lf_basename = basename, lf_rollsize = rollSize, lf_flushInterval = flushInterval,
        lf_checkEveryN = checkEveryN, lf_count = 0, lf_mutex = threadSafe, lf_startOfPeriod = 0,
        lf_lastRoll = 0, lf_lastFlush = 0, lf_file = None\<rparr>)"

definition append_unlocked :: "string \<Rightarrow> log_file \<Rightarrow> log_file option" where
  "append_unlocked data lf = do {
     f \<leftarrow> lf_file lf;
     f \<leftarrow> af_append data f;
     Some (lf\<lparr>lf_file := Some f\<rparr>)
   }"

definition lf_append :: "string \<Rightarrow> log_file \<Rightarrow> log_file option" where
  "lf_append data lf = (if lf_mutex lf then append_unlocked data lf else append_unlocked data lf)"

definition lf_flush :: "log_file \<Rightarrow> log_file option" where
  "lf_flush lf =
     (if lf_mutex lf then do { f \<leftarrow> lf_file lf; Some (lf\<lparr>lf_file := Some (af_flush f)\<rparr>) } else Some lf)"

section \<open>Anything lines can be appended to\<close>

text \<open>
  What the logging thread relies on: an appended line is at the end of the content, and the sink
  stays good.
\<close>

locale log_sink =
  fixes put :: "string \<Rightarrow> 'o \<Rightarrow> 'o option"
    and good :: "'o \<Rightarrow> bool"
    and written :: "'o \<Rightarrow> string"
  assumes put_appends: "good out \<Longrightarrow> \<exists>out'. put s out = Some out' \<and> good out' \<and> written out' = written out @ s"
begin

lemma put_all:
  "good out \<Longrightarrow> \<exists>out'. bind_fold put ss out = Some out' \<and> good out' \<and> written out' = written out @ concat ss"
proof (induction ss arbitrary: out)
  case Nil
  then show ?case by simp
next
  case (Cons s ss)
  obtain out1 where 1: "put s out = Some out1" "good out1" "written out1 = written out @ s"
    using put_appends [OF Cons.prems] by blast
  from Cons.IH [OF 1(2)] 1 show ?case by auto
qed

lemma put_never_loses:
  assumes "good out" and "bind_fold put ss out = Some out'"
  shows "written out' = written out @ concat ss" "good out'"
  using put_all [OF assms(1), of ss] assms(2) by auto

end

definition af_good :: "append_file \<Rightarrow> bool" where
  "af_good f \<longleftrightarrow> fwrite_progress (af_fwrite f)"

definition lf_good :: "log_file \<Rightarrow> bool" where
  "lf_good lf \<longleftrightarrow> (\<exists>f. lf_file lf = Some f \<and> af_good f)"

definition lf_content :: "log_file \<Rightarrow> string" where
  "lf_content lf = (case lf_file lf of Some f \<Rightarrow> af_content f | None \<Rightarrow> [])"

lemma af_append_good:
  assumes "af_good f"
  shows "\<exists>f'. af_append s f = Some f' \<and> af_good f' \<and> af_content f' = af_content f @ s
    \<and> af_name f' = af_name f \<and> af_flushes f' = af_flushes f
    \<and> af_writtenBytes f' = af_writtenBytes f + int (length s)"
  using append_loop_progress [of f 0 s] assms by (auto simp: af_append_def af_good_def)

interpretation file_sink: log_sink af_append af_good af_content
  by unfold_locales (use af_append_good in blast)

lemma lf_append_good:
  assumes "lf_good lf"
  shows "\<exists>lf'. lf_append s lf = Some lf' \<and> lf_good lf' \<and> lf_content lf' = lf_content lf @ s
    \<and> lf_mutex lf' = lf_mutex lf \<and> map_option af_name (lf_file lf') = map_option af_name (lf_file lf)
    \<and> map_option af_flushes (lf_file lf') = map_option af_flushes (lf_file lf)"
proof -
  obtain f where f: "lf_file lf = Some f" "af_good f" using assms by (auto simp: lf_good_def)
  from af_append_good [OF f(2), of s] f(1) show ?thesis
    by (auto simp: lf_append_def append_unlocked_def lf_good_def lf_content_def)
qed

interpretation log_file_sink: log_sink lf_append lf_good lf_content
  by unfold_locales (use lf_append_good in blast)

text \<open>
  A log file opened at a positive time takes every line into the one file it opened then, in
  order and whole: however much is appended, neither the roll size nor the flush interval starts
  another file or flushes this one.
\<close>
theorem log_file_never_rolls:
  assumes "0 < now" and "fopen (getLogFileName stamp basename now)" and "fwrite_progress fwrite"
  shows "\<exists>lf lf'. new_log_file fopen fwrite stamp now basename rollSize threadSafe interval every = Some lf
    \<and> bind_fold lf_append lines lf = Some lf'
    \<and> (\<exists>f. lf_file lf' = Some f \<and> af_name f = getLogFileName stamp basename now
        \<and> af_content f = concat lines \<and> af_flushes f = 0)"
proof -
  let ?f = "\<lparr>af_name = getLogFileName stamp basename now, af_content = [], af_writtenBytes = 0,
    af_flushes = 0, af_fwrite = fwrite, af_calls = 0\<rparr>"
  obtain lf where lf: "new_log_file fopen fwrite stamp now basename rollSize threadSafe interval every = Some lf"
      "lf_file lf = Some ?f"
    using assms by (auto simp: new_log_file_def rollFile_def new_append_file_def Let_def)
  have good: "lf_good lf" using lf(2) assms(3) by (simp add: lf_good_def af_good_def)
  obtain lf' where lf': "bind_fold lf_append lines lf = Some lf'" "lf_good lf'"
      "lf_content lf' = lf_content lf @ concat lines"
    using log_file_sink.put_all [OF good] by blast
  have keeps: "lf_good l' \<and> map_option af_name (lf_file l') = map_option af_name (lf_file l)
      \<and> map_option af_flushes (lf_file l') = map_option af_flushes (lf_file l)"
    if "lf_good l" "bind_fold lf_append ls l = Some l'" for ls l l'
    using that
  proof (induction ls arbitrary: l)
    case (Cons s ls)
    obtain l1 where "lf_append s l = Some l1" "lf_good l1"
        "map_option af_name (lf_file l1) = map_option af_name (lf_file l)"
        "map_option af_flushes (lf_file l1) = map_option af_flushes (lf_file l)"
      using lf_append_good [OF Cons.prems(1)] by blast
    with Cons show ?case by auto
  qed simp
  from keeps [OF good lf'(1)] lf(2) obtain f where
    "lf_file lf' = Some f" "af_name f = getLogFileName stamp basename now" "af_flushes f = 0"
    by auto
  moreover have "lf_content lf' = concat lines" using lf'(3) lf(2) by (simp add: lf_content_def)
  ultimately show ?thesis using lf(1) lf'(1) by (auto simp: lf_content_def)
qed

theorem log_file_never_rolls_witness:
  "\<exists>lf lf' f. new_log_file (\<lambda>_. True) (\<lambda>_ s. length s) (\<lambda>_. ''.20240101-000000'') 1704067200 ''app'' 1 True 3 1024 = Some lf
    \<and> bind_fold lf_append [''one '', ''two''] lf = Some lf' \<and> lf_file lf' = Some f \<and> af_content f = ''one two''"
  using log_file_never_rolls [of 1704067200 "\<lambda>_. True" "\<lambda>_. ''.20240101-000000''" "''app''" "\<lambda>_ s. length s" 1 True 3 1024 "[''one '', ''two'']"]
  by (auto simp: fwrite_progress_def fwrite_ok_def)

end
