(* ===== verification/Async_Logging.thy ===== *)
theory Async_Logging
  imports Log_File
begin

text \<open>
  \<open>include/AsyncLogging.h\<close> and \<open>log/AsyncLogging.cc\<close>: the front end fills buffers of
  \<open>kLargeBuffer\<close> bytes, the logging thread swaps them out and writes them to a log file. The body of
  the thread's loop holds the lock from its start to its end, except while it waits; so an \<open>append\<close>
  and an iteration are atomic to each other. A \<open>unique_ptr\<close> is an option, \<^term>\<open>None\<close> after it has
  been moved from, and using it then aborts, as does \<open>back\<close> of an empty vector. The bytes of a new
  buffer are arbitrary.
\<close>

record async_log =
  al_flushInterval :: int
  al_running :: bool
  al_basename :: string
  al_rollSize :: int
  al_current :: "fixed_buffer option"
  al_next :: "fixed_buffer option"
  al_buffers :: "fixed_buffer option list"

record log_thread =
  lt_output :: log_file
  lt_buffer1 :: "fixed_buffer option"
  lt_buffer2 :: "fixed_buffer option"
  lt_toWrite :: "fixed_buffer option list"

definition new_async_log :: "string \<Rightarrow> string \<Rightarrow> string \<Rightarrow> int \<Rightarrow> int \<Rightarrow> async_log" where
  "new_async_log junk1 junk2 basename rollsize flushInterval =
     \<lparr>al_flushInterval = flushInterval, al_running = False, al_basename = basename, al_rollSize = rollsize,
      al_current = Some (fb_bzero (new_fixed_buffer junk1)),
      al_next = Some (fb_bzero (new_fixed_buffer junk2)), al_buffers = []\<rparr>"

definition al_append :: "string \<Rightarrow> string \<Rightarrow> async_log \<Rightarrow> async_log option" where
  "al_append junk logline al = do {
     cur \<leftarrow> al_current al;
     if length logline < fb_avail cur
     then Some (al\<lparr>al_current := Some (fb_append logline cur)\<rparr>)
     else do {
       let al = al\<lparr>al_buffers := al_buffers al @ [al_current al], al_current := None\<rparr>;
       let al = (case al_next al of
           Some b \<Rightarrow> al\<lparr>al_current := Some b, al_next := None\<rparr>
         | None \<Rightarrow> al\<lparr>al_current := Some (new_fixed_buffer junk)\<rparr>);
       cur \<leftarrow> al_current al;
       Some (al\<lparr>al_current := Some (fb_append logline cur)\<rparr>)
     }
   }"

definition al_start :: "async_log \<Rightarrow> async_log" where "al_start al = al\<lparr>al_running := True\<rparr>"
definition al_stop :: "async_log \<Rightarrow> async_log" where "al_stop al = al\<lparr>al_running := False\<rparr>"

text \<open>The thread's local state before its loop, and the part of an iteration after the wait.\<close>

definition enter_thread :: "string \<Rightarrow> string \<Rightarrow> log_file \<Rightarrow> log_thread" where
  "enter_thread junk1 junk2 output =
     \<lparr>lt_output = output, lt_buffer1 = Some (fb_bzero (new_fixed_buffer junk1)),
      lt_buffer2 = Some (fb_bzero (new_fixed_buffer junk2)), lt_toWrite = []\<rparr>"

definition swap_buffers :: "async_log \<Rightarrow> log_thread \<Rightarrow> async_log \<times> log_thread" where
  "swap_buffers al lt =
     (let buffers = al_buffers al @ [al_current al];
          (nxt, buffer2) = (case al_next al of None \<Rightarrow> (lt_buffer2 lt, None) | Some b \<Rightarrow> (Some b, lt_buffer2 lt))
      in (al\<lparr>al_current := lt_buffer1 lt, al_buffers := lt_toWrite lt, al_next := nxt\<rparr>,
          lt\<lparr>lt_buffer1 := None, lt_toWrite := buffers, lt_buffer2 := buffer2\<rparr>))"

definition write_buffer :: "fixed_buffer option \<Rightarrow> log_file \<Rightarrow> log_file option" where
  "write_buffer buffer output = do { b \<leftarrow> buffer; lf_append (take (fb_length b) (fb_data b)) output }"

text \<open>A null spare buffer is refilled with the last of the buffers written.\<close>

definition refill :: "fixed_buffer option \<Rightarrow> fixed_buffer option list
    \<Rightarrow> (fixed_buffer option \<times> fixed_buffer option list) option" where
  "refill spare toWrite =
     (case spare of
        Some b \<Rightarrow> Some (Some b, toWrite)
      | None \<Rightarrow> if toWrite = [] then None
          else (case last toWrite of None \<Rightarrow> None | Some b \<Rightarrow> Some (Some (fb_reset b), butlast toWrite)))"

definition thread_iteration :: "async_log \<times> log_thread \<Rightarrow> (async_log \<times> log_thread) option" where
  "thread_iteration w = (case w of (al, lt) \<Rightarrow> (case swap_buffers al lt of (al, lt) \<Rightarrow> do {
     output \<leftarrow> bind_fold write_buffer (lt_toWrite lt) (lt_output lt);
     let toWrite = take 2 (lt_toWrite lt);
     (buffer1, toWrite) \<leftarrow> refill (lt_buffer1 lt) toWrite;
     (buffer2, toWrite) \<leftarrow> refill (lt_buffer2 lt) toWrite;
     output \<leftarrow> lf_flush output;
     Some (al, \<lparr>lt_output = output, lt_buffer1 = buffer1, lt_buffer2 = buffer2, lt_toWrite = []\<rparr>)
   }))"

definition leave_thread :: "log_thread \<Rightarrow> log_file option" where
  "leave_thread lt = lf_flush (lt_output lt)"

section \<open>Runs\<close>

text \<open>
  What other threads and the logging thread do, in the order the lock serialises it. The ghosts are
  the lines handed to \<open>append\<close>, and the buffers written, as they were when written. The loop's test of
  \<open>_running\<close> enables \<open>Iterate\<close> and \<open>Exit\<close>; a \<open>stop\<close> between the test and the lock is an iteration
  ordered before the stop.
\<close>

datatype log_event = Append string | Iterate | Stop | Exit

record log_world =
  lw_log :: async_log
  lw_thread :: log_thread
  lw_done :: bool
  lw_lines :: "string list"
  lw_chunks :: "fixed_buffer list"

fun log_step :: "string \<Rightarrow> log_event \<Rightarrow> log_world \<Rightarrow> log_world option" where
  "log_step junk (Append s) w = do {
     al \<leftarrow> al_append junk s (lw_log w);
     Some (w\<lparr>lw_log := al, lw_lines := lw_lines w @ [s]\<rparr>)
   }"
| "log_step junk Iterate w =
     (if al_running (lw_log w) \<and> \<not> lw_done w
      then do {
        (al, lt) \<leftarrow> thread_iteration (lw_log w, lw_thread w);
        Some (w\<lparr>lw_log := al, lw_thread := lt,
          lw_chunks := lw_chunks w @ map the (al_buffers (lw_log w) @ [al_current (lw_log w)])\<rparr>)
      }
      else Some w)"
| "log_step junk Stop w = Some (w\<lparr>lw_log := al_stop (lw_log w)\<rparr>)"
| "log_step junk Exit w =
     (if \<not> al_running (lw_log w) \<and> \<not> lw_done w
      then do { out \<leftarrow> leave_thread (lw_thread w); Some (w\<lparr>lw_thread := (lw_thread w)\<lparr>lt_output := out\<rparr>, lw_done := True\<rparr>) }
      else Some w)"

definition log_run :: "string \<Rightarrow> log_event list \<Rightarrow> log_world \<Rightarrow> log_world option" where
  "log_run junk = bind_fold (log_step junk)"

definition started_log :: "string \<Rightarrow> string \<Rightarrow> int \<Rightarrow> int \<Rightarrow> log_file \<Rightarrow> log_world" where
  "started_log junk basename rollsize interval output =
     \<lparr>lw_log = al_start (new_async_log junk junk basename rollsize interval),
      lw_thread = enter_thread junk junk output, lw_done = False, lw_lines = [], lw_chunks = []\<rparr>"

section \<open>Invariant\<close>

text \<open>
  No pointer is null that will be used; the front end has given its spare away only if a full
  buffer waits, so that the thread finds as many buffers to recycle as it needs. The bytes in the
  file are the written chunks, each at its full capacity; the texts of the chunks, the waiting
  buffers and the current one are the lines in their order, but for those too long for a buffer.
\<close>

definition large :: "fixed_buffer \<Rightarrow> bool" where
  "large b \<longleftrightarrow> fb_ok b \<and> length (fb_data b) = kLargeBuffer"

definition kept :: "string list \<Rightarrow> string" where
  "kept lines = concat (filter (\<lambda>l. length l < kLargeBuffer) lines)"

definition texts :: "fixed_buffer option list \<Rightarrow> string" where
  "texts bs = concat (map (\<lambda>b. fb_text (the b)) bs)"

definition full :: "fixed_buffer option \<Rightarrow> bool" where
  "full ob \<longleftrightarrow> (case ob of Some b \<Rightarrow> large b | None \<Rightarrow> False)"

definition log_inv :: "string \<Rightarrow> log_world \<Rightarrow> bool" where
  "log_inv c0 w \<longleftrightarrow>
     (let al = lw_log w; lt = lw_thread w in
      full (al_current al) \<and> (\<forall>b \<in> set (al_buffers al). full b)
      \<and> (al_next al \<noteq> None \<longrightarrow> full (al_next al) \<and> fb_text (the (al_next al)) = [])
      \<and> (al_next al = None \<longrightarrow> al_buffers al \<noteq> [])
      \<and> full (lt_buffer1 lt) \<and> fb_text (the (lt_buffer1 lt)) = []
      \<and> full (lt_buffer2 lt) \<and> fb_text (the (lt_buffer2 lt)) = []
      \<and> lt_toWrite lt = [] \<and> lf_good (lt_output lt) \<and> \<not> lf_mutex (lt_output lt)
      \<and> lf_content (lt_output lt) = c0 @ concat (map fb_data (lw_chunks w))
      \<and> (\<forall>b \<in> set (lw_chunks w). large b)
      \<and> kept (lw_lines w) = concat (map fb_text (lw_chunks w)) @ texts (al_buffers al @ [al_current al]))"

lemma log_invD:
  assumes "log_inv c0 w"
  shows "full (al_current (lw_log w))" "\<forall>b \<in> set (al_buffers (lw_log w)). full b"
    "al_next (lw_log w) \<noteq> None \<Longrightarrow> full (al_next (lw_log w)) \<and> fb_text (the (al_next (lw_log w))) = []"
    "al_next (lw_log w) = None \<Longrightarrow> al_buffers (lw_log w) \<noteq> []"
    "full (lt_buffer1 (lw_thread w)) \<and> fb_text (the (lt_buffer1 (lw_thread w))) = []"
    "full (lt_buffer2 (lw_thread w)) \<and> fb_text (the (lt_buffer2 (lw_thread w))) = []"
    "lt_toWrite (lw_thread w) = []" "lf_good (lt_output (lw_thread w))" "\<not> lf_mutex (lt_output (lw_thread w))"
    "lf_content (lt_output (lw_thread w)) = c0 @ concat (map fb_data (lw_chunks w))"
    "\<forall>b \<in> set (lw_chunks w). large b"
    "kept (lw_lines w) = concat (map fb_text (lw_chunks w)) @ texts (al_buffers (lw_log w) @ [al_current (lw_log w)])"
  using assms unfolding log_inv_def Let_def by blast+

lemma texts_simps [simp]: "texts [] = []" "texts (b # bs) = fb_text (the b) @ texts bs" "texts (bs @ cs) = texts bs @ texts cs"
  by (simp_all add: texts_def)

lemma kept_simps [simp]: "kept [] = []" "kept (ls @ [l]) = kept ls @ (if length l < kLargeBuffer then l else [])"
  by (simp_all add: kept_def)

lemma full_Some [simp]: "full (Some b) = large b" "\<not> full None"
  by (simp_all add: full_def)

lemma fullE: "full ob \<Longrightarrow> (\<And>b. ob = Some b \<Longrightarrow> large b \<Longrightarrow> P) \<Longrightarrow> P"
  by (cases ob) auto

lemma large_reset: "large b \<Longrightarrow> large (fb_reset b)"
  by (simp add: large_def)

lemma large_append: "large b \<Longrightarrow> large (fb_append s b)"
  by (simp add: large_def fb_append_ok)

lemma large_fresh: "length junk = kLargeBuffer \<Longrightarrow> large (new_fixed_buffer junk)" "length junk = kLargeBuffer \<Longrightarrow> large (fb_bzero (new_fixed_buffer junk))"
    "fb_text (fb_bzero (new_fixed_buffer junk)) = []"
  by (simp_all add: large_def new_fixed_buffer_def fb_bzero_def fb_ok_def fb_text_def)

text \<open>A line that fits is appended whole; a buffer without text takes any line shorter than itself.\<close>

lemma append_fits:
  assumes "large b" and "length s < fb_avail b"
  shows "fb_text (fb_append s b) = fb_text b @ s" "length s < kLargeBuffer"
  using assms by (auto simp: large_def fb_append_ok fb_avail_def fb_ok_def)

lemma append_empty:
  assumes "large b" and "fb_text b = []"
  shows "fb_text (fb_append s b) = (if length s < kLargeBuffer then s else [])"
proof -
  have "fb_cur b = 0" using assms by (auto simp: large_def fb_text_def fb_ok_def kLargeBuffer_def)
  with assms show ?thesis by (auto simp: large_def fb_append_ok)
qed

lemma append_inv:
  assumes inv: "log_inv c0 w" and junk: "length junk = kLargeBuffer"
  shows "\<exists>w'. log_step junk (Append s) w = Some w' \<and> log_inv c0 w'"
proof -
  note I = log_invD [OF inv]
  let ?al = "lw_log w"
  obtain cur where cur: "al_current ?al = Some cur" "large cur" using I(1) by (rule fullE)
  show ?thesis
  proof (cases "length s < fb_avail cur")
    case True
    note F = append_fits [OF cur(2) True]
    let ?al' = "?al\<lparr>al_current := Some (fb_append s cur)\<rparr>"
    have step: "log_step junk (Append s) w = Some (w\<lparr>lw_log := ?al', lw_lines := lw_lines w @ [s]\<rparr>)"
      using cur True by (simp add: al_append_def)
    have "log_inv c0 (w\<lparr>lw_log := ?al', lw_lines := lw_lines w @ [s]\<rparr>)"
      unfolding log_inv_def Let_def using I cur F by (simp add: large_append)
    with step show ?thesis by blast
  next
    case False
    define b where "b = (case al_next ?al of Some b \<Rightarrow> b | None \<Rightarrow> new_fixed_buffer junk)"
    have b: "large b" "fb_text b = []"
      using I(3) junk by (auto simp: b_def large_fresh split: option.split)
    let ?al' = "?al\<lparr>al_buffers := al_buffers ?al @ [Some cur], al_current := Some (fb_append s b), al_next := None\<rparr>"
    have "al_append junk s ?al = Some ?al'"
      using cur False by (cases "al_next ?al") (simp_all add: al_append_def b_def)
    then have step: "log_step junk (Append s) w = Some (w\<lparr>lw_log := ?al', lw_lines := lw_lines w @ [s]\<rparr>)"
      by simp
    have "log_inv c0 (w\<lparr>lw_log := ?al', lw_lines := lw_lines w @ [s]\<rparr>)"
      unfolding log_inv_def Let_def using I cur b by (simp add: large_append append_empty)
    with step show ?thesis by blast
  qed
qed

lemma refill_ok:
  assumes "\<forall>b \<in> set bs. full b" and "spare = None \<longrightarrow> bs \<noteq> []" and "spare \<noteq> None \<longrightarrow> full spare \<and> fb_text (the spare) = []"
  shows "\<exists>b. refill spare bs = Some (Some b, if spare = None then butlast bs else bs) \<and> large b \<and> fb_text b = []"
proof (cases spare)
  case None
  with assms have "full (last bs)" by simp
  then obtain b where "last bs = Some b" "large b" by (rule fullE)
  with None assms(2) show ?thesis by (auto simp: refill_def large_reset)
next
  case (Some b)
  with assms(3) show ?thesis by (simp add: refill_def)
qed

lemma write_buffers:
  assumes "\<forall>b \<in> set bs. full b" and "lf_good out" and "\<not> lf_mutex out"
  shows "\<exists>out'. bind_fold write_buffer bs out = Some out' \<and> lf_good out' \<and> \<not> lf_mutex out'
    \<and> lf_content out' = lf_content out @ concat (map (fb_data \<circ> the) bs)"
  using assms
proof (induction bs arbitrary: out)
  case Nil
  then show ?case by simp
next
  case (Cons ob bs)
  obtain b where b: "ob = Some b" "large b" using Cons.prems(1) by (auto elim: fullE)
  obtain o1 where o1: "lf_append (fb_data b) out = Some o1" "lf_good o1" "\<not> lf_mutex o1"
      "lf_content o1 = lf_content out @ fb_data b"
    using lf_append_good [OF Cons.prems(2), of "fb_data b"] Cons.prems(3) by auto
  have "write_buffer ob out = Some o1" using b o1(1) by (simp add: write_buffer_def fb_length_def)
  with Cons.IH [OF _ o1(2,3)] Cons.prems(1) o1(4) b show ?case by auto
qed

lemma iteration_inv:
  assumes inv: "log_inv c0 w"
  shows "\<exists>w'. log_step junk Iterate w = Some w' \<and> log_inv c0 w'"
proof (cases "al_running (lw_log w) \<and> \<not> lw_done w")
  case False
  then have "log_step junk Iterate w = Some w" by (auto simp: Let_def)
  with inv show ?thesis by blast
next
  case True
  note I = log_invD [OF inv]
  let ?al = "lw_log w" and ?lt = "lw_thread w"
  define bs where "bs = al_buffers ?al @ [al_current ?al]"
  have bs: "\<forall>b \<in> set bs. full b" "bs \<noteq> []" "al_next ?al = None \<Longrightarrow> 2 \<le> length bs"
    using I(1,2,4) by (auto simp: bs_def Suc_le_eq)
  obtain out where out: "bind_fold write_buffer bs (lt_output ?lt) = Some out" "lf_good out" "\<not> lf_mutex out"
      "lf_content out = lf_content (lt_output ?lt) @ concat (map (fb_data \<circ> the) bs)"
    using write_buffers [OF bs(1) I(8,9)] by blast
  have t: "\<forall>b \<in> set (take 2 bs). full b" "take 2 bs \<noteq> []" using bs by (auto dest: in_set_takeD)
  obtain b1 where b1: "refill None (take 2 bs) = Some (Some b1, butlast (take 2 bs))" "large b1" "fb_text b1 = []"
    using refill_ok [of "take 2 bs" None] t by auto
  define sp where "sp = (if al_next ?al = None then None else lt_buffer2 ?lt)"
  have "\<forall>b \<in> set (butlast (take 2 bs)). full b" using t(1) by (auto dest: in_set_butlastD)
  moreover have "sp = None \<longrightarrow> butlast (take 2 bs) \<noteq> []"
  proof
    assume "sp = None"
    with I(6) have "2 \<le> length bs" using bs(3) by (auto simp: sp_def split: if_splits)
    then obtain x y zs where "bs = x # y # zs" by (metis Suc_le_length_iff numeral_2_eq_2)
    then show "butlast (take 2 bs) \<noteq> []" by simp
  qed
  moreover have "sp \<noteq> None \<longrightarrow> full sp \<and> fb_text (the sp) = []" using I(6) by (simp add: sp_def)
  ultimately obtain b2 rest where b2: "refill sp (butlast (take 2 bs)) = Some (Some b2, rest)" "large b2" "fb_text b2 = []"
    using refill_ok by blast
  define nxt where "nxt = (case al_next ?al of None \<Rightarrow> lt_buffer2 ?lt | Some b \<Rightarrow> Some b)"
  have nxt: "full nxt" "fb_text (the nxt) = []" using I(3,6) by (auto simp: nxt_def split: option.split)
  let ?al' = "?al\<lparr>al_current := lt_buffer1 ?lt, al_buffers := [], al_next := nxt\<rparr>"
    and ?lt' = "\<lparr>lt_output = out, lt_buffer1 = Some b1, lt_buffer2 = Some b2, lt_toWrite = []\<rparr>"
  have sw: "swap_buffers ?al ?lt = (?al', ?lt\<lparr>lt_buffer1 := None, lt_toWrite := bs, lt_buffer2 := sp\<rparr>)"
    using I(7) by (cases "al_next ?al") (simp_all add: swap_buffers_def bs_def nxt_def sp_def)
  have "thread_iteration (?al, ?lt) = Some (?al', ?lt')"
    using out(1,3) b1(1) b2(1) by (simp add: thread_iteration_def sw lf_flush_def)
  then have step: "log_step junk Iterate w =
      Some (w\<lparr>lw_log := ?al', lw_thread := ?lt', lw_chunks := lw_chunks w @ map the bs\<rparr>)"
    using True by (simp add: bs_def)
  have "nxt \<noteq> None" using nxt(1) by (cases nxt) auto
  moreover have "\<forall>b \<in> set (map the bs). large b"
  proof
    fix b assume "b \<in> set (map the bs)"
    then obtain ob where "ob \<in> set bs" "b = the ob" by auto
    with bs(1) show "large b" by (cases ob) auto
  qed
  moreover have "kept (lw_lines w) = concat (map fb_text (lw_chunks w)) @ texts bs" using I(12) by (simp add: bs_def)
  moreover have "texts bs = concat (map fb_text (map the bs))" by (simp add: texts_def comp_def)
  ultimately have "log_inv c0 (w\<lparr>lw_log := ?al', lw_thread := ?lt', lw_chunks := lw_chunks w @ map the bs\<rparr>)"
    unfolding log_inv_def Let_def using I nxt b1 b2 out by auto
  with step show ?thesis by blast
qed

lemma log_step_inv:
  assumes "log_inv c0 w" and "length junk = kLargeBuffer"
  shows "\<exists>w'. log_step junk e w = Some w' \<and> log_inv c0 w'"
proof (cases e)
  case (Append s)
  with append_inv [OF assms] show ?thesis by simp
next
  case Iterate
  with iteration_inv [OF assms(1)] show ?thesis by simp
next
  case Stop
  have "log_inv c0 (w\<lparr>lw_log := al_stop (lw_log w)\<rparr>)"
    using log_invD [OF assms(1)] unfolding log_inv_def Let_def by (simp add: al_stop_def)
  with Stop show ?thesis by simp
next
  case Exit
  have "leave_thread (lw_thread w) = Some (lt_output (lw_thread w))"
    using log_invD(9) [OF assms(1)] by (simp add: leave_thread_def lf_flush_def)
  moreover have "log_inv c0 (w\<lparr>lw_thread := (lw_thread w)\<lparr>lt_output := lt_output (lw_thread w)\<rparr>, lw_done := True\<rparr>)"
    using log_invD [OF assms(1)] unfolding log_inv_def Let_def by simp
  ultimately show ?thesis using Exit assms(1) by simp
qed

lemma log_run_inv:
  assumes "log_inv c0 w" and "length junk = kLargeBuffer"
  shows "\<exists>w'. log_run junk es w = Some w' \<and> log_inv c0 w'"
  using assms(1)
proof (induction es arbitrary: w)
  case (Cons e es)
  obtain w1 where "log_step junk e w = Some w1" "log_inv c0 w1"
    using log_step_inv [OF Cons.prems assms(2)] by blast
  with Cons.IH [of w1] show ?case by (simp add: log_run_def)
qed (simp add: log_run_def)

lemma started_inv:
  assumes "length junk = kLargeBuffer" and "lf_good out" and "\<not> lf_mutex out"
  shows "log_inv (lf_content out) (started_log junk basename rollsize interval out)"
  unfolding log_inv_def Let_def using assms
  by (simp add: started_log_def al_start_def new_async_log_def enter_thread_def large_fresh)

text \<open>
  C27: However the threads that log, the logging thread and a stop interleave, no null buffer is used
  and no empty vector popped; the lines handed over, but for those that fill a buffer, are at every
  moment the texts of the buffers written, then of the full ones waiting, then of the current one,
  in the order of the calls to \<open>append\<close>.
\<close>
theorem async_keeps_line_order:
  assumes "length junk = kLargeBuffer" and "lf_good output" and "\<not> lf_mutex output"
  shows "\<exists>w. log_run junk es (started_log junk basename rollsize interval output) = Some w
    \<and> kept (lw_lines w) = concat (map fb_text (lw_chunks w)) @ texts (al_buffers (lw_log w) @ [al_current (lw_log w)])"
  using log_run_inv [OF started_inv [OF assms, of basename rollsize interval] assms(1), of es] log_invD(12) by blast

definition demo_log :: log_file where
  "demo_log = \<lparr>lf_basename = ''app'', lf_rollsize = 0, lf_flushInterval = 3, lf_checkEveryN = 1024, lf_count = 0,
     lf_mutex = False, lf_startOfPeriod = 0, lf_lastRoll = 1, lf_lastFlush = 1,
     lf_file = Some (demo_file\<lparr>af_content := [], af_fwrite := \<lambda>_ s. length s\<rparr>)\<rparr>"

lemma demo_log_good: "lf_good demo_log" "\<not> lf_mutex demo_log" "lf_content demo_log = []"
  by (simp_all add: demo_log_def lf_good_def af_good_def fwrite_progress_def fwrite_ok_def lf_content_def)

theorem async_keeps_line_order_witness:
  "\<exists>w. log_run (replicate kLargeBuffer NUL) [Append ''a'', Iterate, Append ''b''] (started_log (replicate kLargeBuffer NUL) ''app'' 0 3 demo_log) = Some w
    \<and> kept (lw_lines w) = concat (map fb_text (lw_chunks w)) @ texts (al_buffers (lw_log w) @ [al_current (lw_log w)])"
  by (rule async_keeps_line_order) (simp_all add: demo_log_good)

text \<open>
  What reaches the file is the written buffers at their whole capacity, not their texts: behind
  the lines of a chunk the file gets the rest of the array, \<open>kLargeBuffer\<close> bytes per chunk in all.
\<close>
theorem async_writes_whole_chunks:
  assumes "length junk = kLargeBuffer" and "lf_good output" and "\<not> lf_mutex output"
    and "log_run junk es (started_log junk basename rollsize interval output) = Some w"
  shows "lf_content (lt_output (lw_thread w)) = lf_content output @ concat (map fb_data (lw_chunks w))
    \<and> (\<forall>b \<in> set (lw_chunks w). length (fb_data b) = kLargeBuffer \<and> fb_text b = take (fb_cur b) (fb_data b))"
proof -
  have "log_inv (lf_content output) w"
    using log_run_inv [OF started_inv [OF assms(1-3), of basename rollsize interval] assms(1), of es] assms(4) by simp
  from log_invD(10,11) [OF this] show ?thesis by (simp add: large_def fb_text_def)
qed

theorem async_writes_whole_chunks_witness:
  "\<exists>w. log_run (replicate kLargeBuffer NUL) [Append ''a'', Iterate] (started_log (replicate kLargeBuffer NUL) ''app'' 0 3 demo_log) = Some w
    \<and> lf_content (lt_output (lw_thread w)) = concat (map fb_data (lw_chunks w))"
proof -
  have len: "length (replicate kLargeBuffer NUL) = kLargeBuffer" by simp
  obtain w where w: "log_run (replicate kLargeBuffer NUL) [Append ''a'', Iterate]
      (started_log (replicate kLargeBuffer NUL) ''app'' 0 3 demo_log) = Some w"
    using log_run_inv [OF started_inv [OF len demo_log_good(1,2)] len] by blast
  from async_writes_whole_chunks [OF len demo_log_good(1,2) w] w show ?thesis by (simp add: demo_log_good(3))
qed

text \<open>
  Lines appended since the last iteration are lost by \<open>stop\<close>: once the thread has left its loop,
  the file stays as it is, whatever buffers wait and whatever happens later.
\<close>
theorem async_stop_abandons_rest:
  assumes "length junk = kLargeBuffer" and "lf_good output" and "\<not> lf_mutex output"
    and "log_run junk es (started_log junk basename rollsize interval output) = Some w"
  shows "\<exists>w'. log_run junk (Stop # Exit # more_events) w = Some w'
    \<and> lf_content (lt_output (lw_thread w')) = lf_content (lt_output (lw_thread w))"
proof -
  have inv: "log_inv (lf_content output) w"
    using log_run_inv [OF started_inv [OF assms(1-3), of basename rollsize interval] assms(1), of es] assms(4) by simp
  obtain w1 where w1: "log_step junk Stop w = Some w1" "log_inv (lf_content output) w1"
    using log_step_inv [OF inv assms(1)] by blast
  obtain w2 where w2: "log_step junk Exit w1 = Some w2" "log_inv (lf_content output) w2"
    using log_step_inv [OF w1(2) assms(1)] by blast
  have down: "\<not> al_running (lw_log w1)" "lw_thread w1 = lw_thread w" using w1(1) by (auto simp: al_stop_def)
  then have 2: "\<not> al_running (lw_log w2)" "lw_done w2" "lt_output (lw_thread w2) = lt_output (lw_thread w)"
    using w2(1) log_invD(9) [OF w1(2)] by (auto simp: leave_thread_def lf_flush_def split: if_splits)
  have "\<exists>w'. log_run junk fs v = Some w' \<and> lt_output (lw_thread w') = lt_output (lw_thread v)"
    if "log_inv (lf_content output) v" "\<not> al_running (lw_log v)" "lw_done v" for fs v
    using that
  proof (induction fs arbitrary: v)
    case (Cons f fs)
    obtain v1 where v1: "log_step junk f v = Some v1" "log_inv (lf_content output) v1"
      using log_step_inv [OF Cons.prems(1) assms(1)] by blast
    have "al_running a' = al_running a" if "al_append junk s a = Some a'" for s a a'
      using that by (auto simp: al_append_def Let_def split: Option.bind_splits option.splits if_splits)
    then have "\<not> al_running (lw_log v1)" "lw_done v1" "lt_output (lw_thread v1) = lt_output (lw_thread v)"
      using v1(1) Cons.prems(2,3) by (cases f; auto simp: al_stop_def split: Option.bind_splits)+
    with Cons.IH [OF v1(2)] v1(1) show ?case by (simp add: log_run_def)
  qed (simp add: log_run_def)
  from this [OF w2(2) 2(1,2), of more_events] obtain w' where
    "log_run junk more_events w2 = Some w'" "lt_output (lw_thread w') = lt_output (lw_thread w)"
    using 2(3) by auto
  moreover have "log_run junk (Stop # Exit # more_events) w = log_run junk more_events w2"
    using w1(1) w2(1) by (simp only: log_run_def bind_fold.simps bind_eq_Some_conv Option.bind.simps)
  ultimately show ?thesis by auto
qed

theorem async_stop_abandons_rest_witness:
  "\<exists>w w'. log_run (replicate kLargeBuffer NUL) [Append ''lost''] (started_log (replicate kLargeBuffer NUL) ''app'' 0 3 demo_log) = Some w
    \<and> log_run (replicate kLargeBuffer NUL) [Stop, Exit] w = Some w' \<and> lf_content (lt_output (lw_thread w')) = []"
proof -
  have len: "length (replicate kLargeBuffer NUL) = kLargeBuffer" by simp
  let ?w0 = "started_log (replicate kLargeBuffer NUL) ''app'' 0 3 demo_log"
  obtain w where w: "log_run (replicate kLargeBuffer NUL) [Append ''lost''] ?w0 = Some w"
    using log_run_inv [OF started_inv [OF len demo_log_good(1,2)] len] by blast
  then have "lw_thread w = lw_thread ?w0" by (auto simp: log_run_def split: Option.bind_splits)
  then have "lf_content (lt_output (lw_thread w)) = []"
    by (simp add: started_log_def enter_thread_def demo_log_good)
  with async_stop_abandons_rest [OF len demo_log_good(1,2) w, of "[]"] w show ?thesis by auto
qed

end
