(* ===== verification/Logger_Line.thy ===== *)
theory Logger_Line
  imports Log_Stream
begin

text \<open>
  \<open>include/Logger.h\<close> and \<open>log/Logger.cc\<close>: one logger object composes one line in a stream of
  \<open>kSmallBuffer\<close> bytes, the time and the level at construction, the source position at destruction,
  and hands the buffer to the output function. \<open>Timestamp::now\<close> and \<open>localtime\<close> are arguments; the
  bytes of the stream's buffer are arbitrary at first. A C string in memory is its text and a NUL.
\<close>

datatype log_level = TRACE | DEBUG | INFO | WARN | ERROR | FATAL

fun level_num :: "log_level \<Rightarrow> nat" where
  "level_num TRACE = 0" | "level_num DEBUG = 1" | "level_num INFO = 2"
| "level_num WARN = 3" | "level_num ERROR = 4" | "level_num FATAL = 5"

text \<open>What the macros test before they make a logger; the last three always do.\<close>

fun log_enabled :: "log_level \<Rightarrow> log_level \<Rightarrow> bool" where
  "log_enabled g DEBUG \<longleftrightarrow> level_num g \<le> level_num DEBUG"
| "log_enabled g INFO \<longleftrightarrow> level_num g \<le> level_num INFO"
| "log_enabled g _ \<longleftrightarrow> True"

fun LogLevelName :: "log_level \<Rightarrow> string" where
  "LogLevelName TRACE = ''TRACE ''" | "LogLevelName DEBUG = ''DEBUG ''" | "LogLevelName INFO = ''INFO ''"
| "LogLevelName WARN = ''WARN ''" | "LogLevelName ERROR = ''ERROR ''" | "LogLevelName FATAL = ''FATAL ''"

text \<open>The file name from the first slash on; the size goes with it.\<close>

record source_file =
  sf_data :: string
  sf_size :: nat

definition source_file_of :: "string \<Rightarrow> source_file" where
  "source_file_of arr =
     (let slash = dropWhile (\<lambda>c. c \<noteq> CHR ''/'') arr; data = (if slash = [] then arr else tl slash)
      in \<lparr>sf_data = data, sf_size = length arr - (length arr - length data)\<rparr>)"

definition source_file_of_ptr :: "string \<Rightarrow> source_file" where
  "source_file_of_ptr filename =
     (let slash = dropWhile (\<lambda>c. c \<noteq> CHR ''/'') filename; data = (if slash = [] then filename else tl slash)
      in \<lparr>sf_data = data, sf_size = length data\<rparr>)"

record logger =
  lg_time :: timestamp
  lg_stream :: fixed_buffer
  lg_level :: log_level
  lg_line :: int
  lg_basename :: source_file

definition put_T :: "string \<Rightarrow> nat \<Rightarrow> fixed_buffer \<Rightarrow> fixed_buffer" where
  "put_T str len = ls_append (str @ [NUL]) len"

definition put_source :: "source_file \<Rightarrow> fixed_buffer \<Rightarrow> fixed_buffer" where
  "put_source v = ls_append (sf_data v) (sf_size v)"

text \<open>The date and time of \<open>formatTime\<close>, as \<open>snprintf\<close> leaves it in \<open>t_time\<close>.\<close>

definition time_text :: "tm \<Rightarrow> string" where
  "time_text tm_time =
     snprintf 64 (dec_int_blank 4 (tm_year tm_time + 1900) @ ''/'' @ dec_int_pad 2 (tm_mon tm_time + 1) @ ''/'' @
       dec_int_pad 2 (tm_mday tm_time) @ '' '' @ dec_int_pad 2 (tm_hour tm_time) @ '':'' @
       dec_int_pad 2 (tm_min tm_time) @ '':'' @ dec_int_pad 2 (tm_sec tm_time))"

definition formatTime :: "(int \<Rightarrow> tm) \<Rightarrow> logger \<Rightarrow> logger" where
  "formatTime localtime lg =
     (let seconds = cdiv (microSecondSinceEpoch (lg_time lg)) kMicroSecondsPerSecond;
          microseconds = cmod (microSecondSinceEpoch (lg_time lg)) kMicroSecondsPerSecond;
          t_time = time_text (localtime seconds);
          buf = snprintf 32 (dec_int_pad 6 microseconds)
      in lg\<lparr>lg_stream := put_T buf 7 (put_T t_time 17 (lg_stream lg))\<rparr>)"

definition new_impl :: "(int \<Rightarrow> tm) \<Rightarrow> (int \<Rightarrow> string) \<Rightarrow> string \<Rightarrow> timestamp \<Rightarrow> log_level \<Rightarrow> int \<Rightarrow> source_file \<Rightarrow> int \<Rightarrow> logger" where
  "new_impl localtime errnoMsg junk now level savedErrno file line =
     (let lg = formatTime localtime \<lparr>lg_time = now, lg_stream = new_fixed_buffer junk, lg_level = level,
            lg_line = line, lg_basename = file\<rparr>;
          s = put_T (LogLevelName level) 6 (lg_stream lg);
          s = (if savedErrno \<noteq> 0
               then ls_cstr (Some '') '') (ls_int savedErrno (ls_cstr (Some '' (errno ='')
                 (ls_cstr (Some (errnoMsg savedErrno)) s)))
               else s)
      in lg\<lparr>lg_stream := s\<rparr>)"

definition finish :: "logger \<Rightarrow> logger" where
  "finish lg = lg\<lparr>lg_stream := ls_char LF (ls_int (lg_line lg) (ls_char CHR '':''
     (put_source (lg_basename lg) (ls_cstr (Some '' - '') (lg_stream lg)))))\<rparr>"

text \<open>The four constructors of \<open>Logger\<close>, by what they pass on.\<close>

datatype logger_args = Plain | Level log_level | LevelFunc log_level string | ToAbort bool

definition new_logger :: "(int \<Rightarrow> tm) \<Rightarrow> (int \<Rightarrow> string) \<Rightarrow> string \<Rightarrow> timestamp \<Rightarrow> int \<Rightarrow> source_file \<Rightarrow> int \<Rightarrow> logger_args \<Rightarrow> logger" where
  "new_logger localtime errnoMsg junk now errno file line args =
     (case args of
        Plain \<Rightarrow> new_impl localtime errnoMsg junk now INFO 0 file line
      | Level level \<Rightarrow> new_impl localtime errnoMsg junk now level 0 file line
      | LevelFunc level func \<Rightarrow>
          (let lg = new_impl localtime errnoMsg junk now level 0 file line
           in lg\<lparr>lg_stream := ls_char SP (ls_cstr (Some func) (lg_stream lg))\<rparr>)
      | ToAbort toAbort \<Rightarrow> new_impl localtime errnoMsg junk now (if toAbort then FATAL else ERROR) errno file line)"

definition log_items :: "(double \<Rightarrow> string) \<Rightarrow> log_item list \<Rightarrow> logger \<Rightarrow> logger" where
  "log_items fmt xs lg = lg\<lparr>lg_stream := fold (ls_put fmt) xs (lg_stream lg)\<rparr>"

text \<open>Destruction: the bytes handed to the output function, and whether the program then aborts.\<close>

definition destroy_logger :: "logger \<Rightarrow> string \<times> bool" where
  "destroy_logger lg =
     (let lg = finish lg; buf = lg_stream lg
      in (take (fb_length buf) (fb_data buf), lg_level lg = FATAL))"

text \<open>
  The global level and the functions that take the lines, by number: 0 is the default one. A fatal
  line is flushed before the program aborts.
\<close>

record log_globals =
  g_logLevel :: log_level
  g_output :: nat
  g_flush :: nat

datatype log_effect = OutputCall nat string | FlushCall nat | Aborted

definition initLogLogLevel :: log_level where
  "initLogLogLevel = INFO"

definition initial_globals :: log_globals where
  "initial_globals = \<lparr>g_logLevel = initLogLogLevel, g_output = 0, g_flush = 0\<rparr>"

definition setLogLevel :: "log_level \<Rightarrow> log_globals \<Rightarrow> log_globals" where
  "setLogLevel level g = g\<lparr>g_logLevel := level\<rparr>"

definition setOutput :: "nat \<Rightarrow> log_globals \<Rightarrow> log_globals" where
  "setOutput out g = g\<lparr>g_output := out\<rparr>"

definition setFlush :: "nat \<Rightarrow> log_globals \<Rightarrow> log_globals" where
  "setFlush flush g = g\<lparr>g_flush := flush\<rparr>"

definition logger_effects :: "log_globals \<Rightarrow> logger \<Rightarrow> log_effect list" where
  "logger_effects g lg = (case destroy_logger lg of (text, fatal) \<Rightarrow>
     OutputCall (g_output g) text # (if fatal then [FlushCall (g_flush g), Aborted] else []))"

section \<open>The line\<close>

text \<open>The streams of a logger stay in bounds.\<close>

definition small :: "fixed_buffer \<Rightarrow> bool" where
  "small b \<longleftrightarrow> fb_ok b \<and> length (fb_data b) = kSmallBuffer"

lemma small_append [simp]: "small b \<Longrightarrow> small (fb_append s b)"
  by (simp add: small_def fb_append_ok)

lemma small_int: "small b \<Longrightarrow> - (2 ^ 63) \<le> v \<Longrightarrow> v < 2 ^ 64 \<Longrightarrow> small (ls_int v b)"
  by (simp add: small_def ls_int_def formatIntger_ok)

lemmas stream_ops = ls_append_def ls_cstr_def ls_char_def put_T_def put_source_def

lemma small_ops [simp]:
  "small b \<Longrightarrow> small (ls_append s n b)" "small b \<Longrightarrow> small (ls_cstr p b)" "small b \<Longrightarrow> small (ls_char c b)"
  "small b \<Longrightarrow> small (put_T s n b)" "small b \<Longrightarrow> small (put_source f b)"
  by (simp_all add: stream_ops split: option.split)

text \<open>Appending to a stream with room left.\<close>

lemma fb_text_length: "fb_ok b \<Longrightarrow> length (fb_text b) = fb_cur b"
  by (simp add: fb_ok_def fb_text_def)

lemma text_append:
  "small b \<Longrightarrow> length (fb_text b) + length s < kSmallBuffer \<Longrightarrow> fb_text (fb_append s b) = fb_text b @ s"
  by (auto simp: small_def fb_append_ok fb_text_length)

lemma text_int:
  assumes "small b" and "length (fb_text b) + 48 \<le> kSmallBuffer" and "- (2 ^ 63) \<le> v" and "v < 2 ^ 64"
  shows "fb_text (ls_int v b) = fb_text b @ dec_int v"
  using assms by (auto simp: small_def ls_int_def formatIntger_ok fb_avail_def fb_ok_def fb_text_length kMaxNumericSize_def kSmallBuffer_def)

lemma ls_put_fits:
  assumes small: "small b" and ok: "item_ok fmt x"
    and room: "length (fb_text b) + length (item_text fmt x) + kMaxNumericSize \<le> kSmallBuffer"
  shows "fb_text (ls_put fmt x b) = fb_text b @ item_text fmt x"
proof (cases x)
  case (LInt v)
  with assms show ?thesis using text_int [OF small, of v] by (simp add: kMaxNumericSize_def)
next
  case (LDouble v)
  then have "kMaxNumericSize \<le> fb_avail b"
    using small room by (auto simp: small_def fb_avail_def fb_ok_def fb_text_length)
  with LDouble small ok show ?thesis using ls_double_ok(3) [of b fmt v] by (simp add: small_def)
next
  case (LBuffer v)
  with assms show ?thesis
    using text_append [OF small, of "fb_data v"]
    by (simp add: ls_buffer_def ls_string_def fb_toSting_def fb_length_def kMaxNumericSize_def)
qed (use room in \<open>auto simp: ls_bool_def ls_char_def ls_ptr_def ls_cstr_def ls_string_def ls_append_def
    kMaxNumericSize_def text_append small split: option.splits\<close>)

lemma small_put: "small b \<Longrightarrow> item_ok fmt x \<Longrightarrow> small (ls_put fmt x b)"
  using ls_put_ok [of b fmt x] by (simp add: small_def)

lemma fold_put_fits:
  assumes "small b" and "\<forall>x \<in> set xs. item_ok fmt x"
    and "length (fb_text b) + length (concat (map (item_text fmt) xs)) + kMaxNumericSize \<le> kSmallBuffer"
  shows "small (fold (ls_put fmt) xs b)
    \<and> fb_text (fold (ls_put fmt) xs b) = fb_text b @ concat (map (item_text fmt) xs)"
  using assms
proof (induction xs arbitrary: b)
  case (Cons x xs)
  have 1: "fb_text (ls_put fmt x b) = fb_text b @ item_text fmt x" "small (ls_put fmt x b)"
    using Cons.prems by (auto intro!: ls_put_fits small_put)
  show ?case using Cons.IH [OF 1(2)] Cons.prems 1 by simp
qed simp

text \<open>A broken-down time as \<open>localtime\<close> documents it, for the years of four digits.\<close>

definition tm_ok :: "tm \<Rightarrow> bool" where
  "tm_ok t \<longleftrightarrow> - 900 \<le> tm_year t \<and> tm_year t \<le> 8099 \<and> 0 \<le> tm_mon t \<and> tm_mon t \<le> 11
     \<and> 1 \<le> tm_mday t \<and> tm_mday t \<le> 31 \<and> 0 \<le> tm_hour t \<and> tm_hour t \<le> 23
     \<and> 0 \<le> tm_min t \<and> tm_min t \<le> 59 \<and> 0 \<le> tm_sec t \<and> tm_sec t \<le> 60"

lemma length_two: "0 \<le> i \<Longrightarrow> i < 100 \<Longrightarrow> length (dec_int_pad 2 i) = 2"
  using length_dec_le [of "nat i" 2] by (simp add: dec_int_pad_def length_pad0)

lemma length_six: "0 \<le> i \<Longrightarrow> i < 1000000 \<Longrightarrow> length (dec_int_pad 6 i) = 6"
  using length_dec_le [of "nat i" 6] by (simp add: dec_int_pad_def length_pad0)

lemma length_dec_int_blank: "0 \<le> i \<Longrightarrow> i < 10000 \<Longrightarrow> length (dec_int_blank 4 i) = 4"
  using length_dec_le [of "nat i" 4] by (simp add: dec_int_blank_def dec_int_def)

definition minute_text :: "tm \<Rightarrow> string" where
  "minute_text t = dec_int_blank 4 (tm_year t + 1900) @ ''/'' @ dec_int_pad 2 (tm_mon t + 1) @ ''/'' @
     dec_int_pad 2 (tm_mday t) @ '' '' @ dec_int_pad 2 (tm_hour t) @ '':'' @ dec_int_pad 2 (tm_min t) @ '':''"

lemma minute_text_length: "tm_ok t \<Longrightarrow> length (minute_text t) = 17"
  by (simp add: tm_ok_def minute_text_def length_two length_dec_int_blank)

lemma time_text_eq:
  assumes "tm_ok t"
  shows "time_text t = minute_text t @ dec_int_pad 2 (tm_sec t)" "take 17 (time_text t @ s) = minute_text t"
proof -
  have "length (minute_text t @ dec_int_pad 2 (tm_sec t)) = 19"
    using minute_text_length [OF assms] assms by (simp add: tm_ok_def length_two)
  then have "length (minute_text t @ dec_int_pad 2 (tm_sec t)) < 64" by simp
  from snprintf_fits [OF this] show eq: "time_text t = minute_text t @ dec_int_pad 2 (tm_sec t)"
    by (simp add: time_text_def minute_text_def)
  show "take 17 (time_text t @ s) = minute_text t"
    unfolding eq using minute_text_length [OF assms] by simp
qed

lemma put_time: "tm_ok t \<Longrightarrow> put_T (time_text t) 17 b = fb_append (minute_text t) b"
  unfolding put_T_def ls_append_def by (simp only: time_text_eq(2))

text \<open>What a logger's stream holds after construction: the minute, the microseconds, the level.\<close>

definition level_field :: "log_level \<Rightarrow> string" where
  "level_field level = take 6 (LogLevelName level @ [NUL])"

lemma length_level_field: "length (level_field level) = 6"
  by (cases level) (simp_all add: level_field_def)

lemma stream_fresh: "length junk = kSmallBuffer \<Longrightarrow> small (new_fixed_buffer junk)"
  by (simp add: small_def) (simp add: new_fixed_buffer_def)

lemma formatTime_stream:
  assumes "tm_ok (localtime (cdiv (microSecondSinceEpoch now) kMicroSecondsPerSecond))"
    and "0 \<le> microSecondSinceEpoch now" and "small b" and "fb_text b = []" and "lg_time lg = now" and "lg_stream lg = b"
  defines "s \<equiv> lg_stream (formatTime localtime lg)"
  shows "small s" "fb_text s = minute_text (localtime (cdiv (microSecondSinceEpoch now) kMicroSecondsPerSecond))
      @ dec_int_pad 6 (cmod (microSecondSinceEpoch now) kMicroSecondsPerSecond) @ [NUL]"
proof -
  let ?t = "localtime (cdiv (microSecondSinceEpoch now) kMicroSecondsPerSecond)"
  define us where "us = cmod (microSecondSinceEpoch now) kMicroSecondsPerSecond"
  have us: "0 \<le> us" "us < 1000000" using assms(2) by (simp_all add: us_def kMicroSecondsPerSecond_def)
  have six: "length (dec_int_pad 6 us) = 6" by (rule length_six [OF us])
  have s: "s = ls_append (dec_int_pad 6 us @ [NUL]) 7 (ls_append (time_text ?t @ [NUL]) 17 b)"
    using assms(5,6) six by (simp add: s_def formatTime_def Let_def put_T_def us_def)
  then show "small s" using assms(3) by simp
  have "fb_text (ls_append (time_text ?t @ [NUL]) 17 b) = minute_text ?t"
    using assms(3,4) minute_text_length [OF assms(1)]
    by (simp add: ls_append_def time_text_eq [OF assms(1)] text_append kSmallBuffer_def)
  moreover have "small (ls_append (time_text ?t @ [NUL]) 17 b)" using assms(3) by simp
  ultimately show "fb_text s = minute_text ?t @ dec_int_pad 6 (cmod (microSecondSinceEpoch now) kMicroSecondsPerSecond) @ [NUL]"
    using six minute_text_length [OF assms(1)]
    unfolding s us_def [symmetric] by (simp add: ls_append_def text_append kSmallBuffer_def)
qed

text \<open>
  C37: A log line does not tell the seconds: two loggers made at instants whose local times differ
  in nothing but the second, with the same microseconds, hold the same bytes after construction,
  whichever constructor made them.
\<close>
theorem logger_drops_seconds:
  assumes "tm_ok (localtime (cdiv (microSecondSinceEpoch t1) kMicroSecondsPerSecond))"
    and "tm_ok (localtime (cdiv (microSecondSinceEpoch t2) kMicroSecondsPerSecond))"
    and "localtime (cdiv (microSecondSinceEpoch t2) kMicroSecondsPerSecond) =
      (localtime (cdiv (microSecondSinceEpoch t1) kMicroSecondsPerSecond))\<lparr>tm_sec := sec\<rparr>"
    and "cmod (microSecondSinceEpoch t1) kMicroSecondsPerSecond = cmod (microSecondSinceEpoch t2) kMicroSecondsPerSecond"
  shows "lg_stream (new_logger localtime errnoMsg junk t1 errno file line args)
    = lg_stream (new_logger localtime errnoMsg junk t2 errno file line args)"
proof -
  have "minute_text (localtime (cdiv (microSecondSinceEpoch t1) kMicroSecondsPerSecond))
      = minute_text (localtime (cdiv (microSecondSinceEpoch t2) kMicroSecondsPerSecond))"
    by (simp add: assms(3) minute_text_def)
  then have "lg_stream (formatTime localtime \<lparr>lg_time = t1, lg_stream = b, lg_level = level, lg_line = line, lg_basename = file\<rparr>)
      = lg_stream (formatTime localtime \<lparr>lg_time = t2, lg_stream = b, lg_level = level, lg_line = line, lg_basename = file\<rparr>)" for b level
    by (simp add: formatTime_def Let_def put_time [OF assms(1)] put_time [OF assms(2)] assms(4))
  then have "lg_stream (new_impl localtime errnoMsg junk t1 level e file line)
      = lg_stream (new_impl localtime errnoMsg junk t2 level e file line)" for level e
    by (simp add: new_impl_def Let_def)
  then show ?thesis by (simp add: new_logger_def Let_def split: logger_args.split)
qed

definition demo_localtime :: "int \<Rightarrow> tm" where
  "demo_localtime s = \<lparr>tm_year = 124, tm_mon = 0, tm_mday = 31, tm_hour = 12, tm_min = 30, tm_sec = s mod 60\<rparr>"

lemma demo_localtime_ok: "tm_ok (demo_localtime s)"
  using pos_mod_bound [of 60 s] by (simp add: demo_localtime_def tm_ok_def)

theorem logger_drops_seconds_witness:
  "lg_stream (new_logger demo_localtime (\<lambda>_. []) (replicate kSmallBuffer NUL) (Timestamp 1000042) 0 (source_file_of ''a/b.cc'') 7 Plain)
   = lg_stream (new_logger demo_localtime (\<lambda>_. []) (replicate kSmallBuffer NUL) (Timestamp 59000042) 0 (source_file_of ''a/b.cc'') 7 Plain)"
  by (rule logger_drops_seconds [where sec = 59])
    (simp_all add: demo_localtime_ok, simp_all add: demo_localtime_def kMicroSecondsPerSecond_def)

text \<open>The source file of a path: what follows the first slash, or all of it.\<close>

definition after_slash :: "string \<Rightarrow> string" where
  "after_slash arr = (if CHR ''/'' \<in> set arr then tl (dropWhile (\<lambda>c. c \<noteq> CHR ''/'') arr) else arr)"

lemma source_file_of_eq:
  "sf_data (source_file_of arr) = after_slash arr" "sf_size (source_file_of arr) = length (after_slash arr)"
  "source_file_of arr = source_file_of_ptr arr"
proof -
  let ?d = "dropWhile (\<lambda>c. c \<noteq> CHR ''/'') arr"
  have d: "(?d = []) = (CHR ''/'' \<notin> set arr)" by auto
  have "length (tl ?d) \<le> length arr" using length_dropWhile_le [of "\<lambda>c. c \<noteq> CHR ''/''" arr] by simp
  then show "sf_data (source_file_of arr) = after_slash arr" "sf_size (source_file_of arr) = length (after_slash arr)"
      "source_file_of arr = source_file_of_ptr arr"
    using d by (auto simp: source_file_of_def source_file_of_ptr_def after_slash_def Let_def)
qed

lemma impl_stream:
  fixes errnoMsg :: "int \<Rightarrow> string" and level :: log_level and src :: source_file and line :: int
  assumes "tm_ok (localtime (cdiv (microSecondSinceEpoch now) kMicroSecondsPerSecond))"
    and "0 \<le> microSecondSinceEpoch now" and "length junk = kSmallBuffer"
  defines "lg \<equiv> new_impl localtime errnoMsg junk now level 0 src line"
  shows "small (lg_stream lg)" "lg_line lg = line" "lg_basename lg = src" "lg_level lg = level"
    "fb_text (lg_stream lg) = minute_text (localtime (cdiv (microSecondSinceEpoch now) kMicroSecondsPerSecond))
      @ dec_int_pad 6 (cmod (microSecondSinceEpoch now) kMicroSecondsPerSecond) @ [NUL] @ level_field level"
    "length (fb_text (lg_stream lg)) = 30"
proof -
  let ?l0 = "\<lparr>lg_time = now, lg_stream = new_fixed_buffer junk, lg_level = level, lg_line = line, lg_basename = src\<rparr>"
  have f: "small (lg_stream (formatTime localtime ?l0))"
      "fb_text (lg_stream (formatTime localtime ?l0)) = minute_text (localtime (cdiv (microSecondSinceEpoch now) kMicroSecondsPerSecond))
        @ dec_int_pad 6 (cmod (microSecondSinceEpoch now) kMicroSecondsPerSecond) @ [NUL]"
    using formatTime_stream [where localtime = localtime and now = now and b = "new_fixed_buffer junk" and lg = ?l0]
      assms(1,2) stream_fresh [OF assms(3)] by simp_all
  have six: "length (dec_int_pad 6 (cmod (microSecondSinceEpoch now) kMicroSecondsPerSecond)) = 6"
    using assms(2) by (intro length_six) (simp_all add: kMicroSecondsPerSecond_def)
  have s: "lg_stream lg = put_T (LogLevelName level) 6 (lg_stream (formatTime localtime ?l0))"
    by (simp add: lg_def new_impl_def Let_def)
  show "small (lg_stream lg)" unfolding s using f(1) by simp
  show t: "fb_text (lg_stream lg) = minute_text (localtime (cdiv (microSecondSinceEpoch now) kMicroSecondsPerSecond))
      @ dec_int_pad 6 (cmod (microSecondSinceEpoch now) kMicroSecondsPerSecond) @ [NUL] @ level_field level"
    unfolding s put_T_def ls_append_def level_field_def [symmetric]
    using f six minute_text_length [OF assms(1)] by (simp add: text_append length_level_field kSmallBuffer_def)
  show "length (fb_text (lg_stream lg)) = 30"
    unfolding t using six minute_text_length [OF assms(1)] by (simp add: length_level_field)
qed (simp_all add: lg_def new_impl_def formatTime_def Let_def)

lemma finish_text:
  assumes "small (lg_stream lg)" and "- (2 ^ 31) \<le> lg_line lg" and "lg_line lg < 2 ^ 31"
    and "length (fb_text (lg_stream lg)) + sf_size (lg_basename lg) + 60 \<le> kSmallBuffer"
    and "sf_size (lg_basename lg) = length (sf_data (lg_basename lg))"
  shows "small (lg_stream (finish lg))"
    "fb_text (lg_stream (finish lg)) = fb_text (lg_stream lg) @ '' - '' @ sf_data (lg_basename lg) @ '':''
      @ dec_int (lg_line lg) @ [LF]"
proof -
  let ?b = "lg_stream lg" and ?f = "sf_data (lg_basename lg)"
  have c: "c_str '' - '' = '' - ''" by (rule c_str_id) (simp add: NUL_def)
  have len: "length (dec_int (lg_line lg)) \<le> 21" using assms(2,3) by (intro length_dec_int_64) auto
  let ?b1 = "fb_append '' - '' ?b" and ?b2 = "fb_append ?f (fb_append '' - '' ?b)"
  let ?b3 = "fb_append '':'' ?b2"
  have 1: "fb_text ?b1 = fb_text ?b @ '' - ''" by (rule text_append) (use assms(1,4) in auto)
  have 2: "fb_text ?b2 = fb_text ?b1 @ ?f" by (rule text_append) (use assms(1,4,5) 1 in auto)
  have 3: "fb_text ?b3 = fb_text ?b2 @ '':''" by (rule text_append) (use assms(1,4,5) 1 2 in auto)
  have 4: "fb_text (ls_int (lg_line lg) ?b3) = fb_text ?b3 @ dec_int (lg_line lg)"
    by (rule text_int) (use assms 1 2 3 in auto)
  have s4: "small (ls_int (lg_line lg) ?b3)" using assms(1-3) by (intro small_int) auto
  have 5: "fb_text (fb_append [LF] (ls_int (lg_line lg) ?b3)) = fb_text (ls_int (lg_line lg) ?b3) @ [LF]"
    by (rule text_append [OF s4]) (use assms(4,5) 1 2 3 4 len in auto)
  have eq: "lg_stream (finish lg) = fb_append [LF] (ls_int (lg_line lg) ?b3)"
    using assms(5) by (simp add: finish_def stream_ops c)
  show "small (lg_stream (finish lg))" unfolding eq using s4 by simp
  show "fb_text (lg_stream (finish lg)) = fb_text ?b @ '' - '' @ ?f @ '':'' @ dec_int (lg_line lg) @ [LF]"
    unfolding eq using 1 2 3 4 5 by simp
qed

text \<open>
  What the constructors differ in: the level, and the text they put before the items, the name of the
  function or what \<open>errno\<close> says.
\<close>

fun args_level :: "logger_args \<Rightarrow> log_level" where
  "args_level Plain = INFO"
| "args_level (Level level) = level"
| "args_level (LevelFunc level func) = level"
| "args_level (ToAbort toAbort) = (if toAbort then FATAL else ERROR)"

fun args_text :: "(int \<Rightarrow> string) \<Rightarrow> int \<Rightarrow> logger_args \<Rightarrow> string" where
  "args_text errnoMsg errno Plain = []"
| "args_text errnoMsg errno (Level level) = []"
| "args_text errnoMsg errno (LevelFunc level func) = c_str func @ [SP]"
| "args_text errnoMsg errno (ToAbort toAbort) =
     (if errno \<noteq> 0 then c_str (errnoMsg errno) @ '' (errno ='' @ dec_int errno @ '') '' else [])"

lemma new_impl_errno:
  "new_impl localtime errnoMsg junk now level e file line =
     (let lg = new_impl localtime errnoMsg junk now level 0 file line
      in if e \<noteq> 0
         then lg\<lparr>lg_stream := ls_cstr (Some '') '') (ls_int e (ls_cstr (Some '' (errno ='') (ls_cstr (Some (errnoMsg e)) (lg_stream lg))))\<rparr>
         else lg)"
  by (simp add: new_impl_def Let_def)

lemma errno_text:
  assumes "small b" and "- (2 ^ 31) \<le> e" and "e < 2 ^ 31"
    and "length (fb_text b) + length (c_str msg) + 70 \<le> kSmallBuffer"
  shows "small (ls_cstr (Some '') '') (ls_int e (ls_cstr (Some '' (errno ='') (ls_cstr (Some msg) b))))"
    "fb_text (ls_cstr (Some '') '') (ls_int e (ls_cstr (Some '' (errno ='') (ls_cstr (Some msg) b))))
      = fb_text b @ c_str msg @ '' (errno ='' @ dec_int e @ '') ''"
proof -
  have c: "c_str '' (errno ='' = '' (errno =''" "c_str '') '' = '') ''" by (rule c_str_id; simp add: NUL_def)+
  have len: "length (dec_int e) \<le> 21" using assms(2,3) by (intro length_dec_int_64) auto
  let ?b1 = "fb_append (c_str msg) b"
  let ?b2 = "fb_append '' (errno ='' ?b1"
  have 1: "fb_text ?b1 = fb_text b @ c_str msg" by (rule text_append) (use assms(1,4) in auto)
  have 2: "fb_text ?b2 = fb_text ?b1 @ '' (errno =''" by (rule text_append) (use assms(1,4) 1 in auto)
  have 3: "fb_text (ls_int e ?b2) = fb_text ?b2 @ dec_int e" by (rule text_int) (use assms 1 2 in auto)
  have s3: "small (ls_int e ?b2)" using assms(1-3) by (intro small_int) auto
  have 4: "fb_text (fb_append '') '' (ls_int e ?b2)) = fb_text (ls_int e ?b2) @ '') ''"
    by (rule text_append [OF s3]) (use assms(4) 1 2 3 len in auto)
  have eq: "ls_cstr (Some '') '') (ls_int e (ls_cstr (Some '' (errno ='') (ls_cstr (Some msg) b))) = fb_append '') '' (ls_int e ?b2)"
    by (simp add: ls_cstr_def c)
  show "small (ls_cstr (Some '') '') (ls_int e (ls_cstr (Some '' (errno ='') (ls_cstr (Some msg) b))))"
    unfolding eq using s3 by simp
  show "fb_text (ls_cstr (Some '') '') (ls_int e (ls_cstr (Some '' (errno ='') (ls_cstr (Some msg) b))))
      = fb_text b @ c_str msg @ '' (errno ='' @ dec_int e @ '') ''"
    unfolding eq using 1 2 3 4 by simp
qed

lemma new_logger_stream:
  fixes errnoMsg :: "int \<Rightarrow> string" and src :: source_file and line :: int
  assumes "tm_ok (localtime (cdiv (microSecondSinceEpoch now) kMicroSecondsPerSecond))"
    and "0 \<le> microSecondSinceEpoch now" and "length junk = kSmallBuffer"
    and "- (2 ^ 31) \<le> errno" and "errno < 2 ^ 31" and "length (args_text errnoMsg errno args) + 100 \<le> kSmallBuffer"
  defines "lg \<equiv> new_logger localtime errnoMsg junk now errno src line args"
  shows "small (lg_stream lg)" "lg_line lg = line" "lg_basename lg = src" "lg_level lg = args_level args"
    "fb_text (lg_stream lg) = minute_text (localtime (cdiv (microSecondSinceEpoch now) kMicroSecondsPerSecond))
      @ dec_int_pad 6 (cmod (microSecondSinceEpoch now) kMicroSecondsPerSecond) @ [NUL] @ level_field (args_level args)
      @ args_text errnoMsg errno args"
    "length (fb_text (lg_stream lg)) = 30 + length (args_text errnoMsg errno args)"
proof -
  let ?impl = "new_impl localtime errnoMsg junk now (args_level args) 0 src line"
  note I = impl_stream [where localtime = localtime and now = now and junk = junk, OF assms(1-3),
      where errnoMsg = errnoMsg and level = "args_level args" and src = src and line = line]
  have "small (lg_stream lg) \<and> lg_line lg = line \<and> lg_basename lg = src \<and> lg_level lg = args_level args
    \<and> fb_text (lg_stream lg) = fb_text (lg_stream ?impl) @ args_text errnoMsg errno args"
  proof (cases args)
    case (LevelFunc level func)
    have room: "length (fb_text (lg_stream ?impl)) + length (c_str func) + 1 < kSmallBuffer"
      using assms(6) I(6) by (simp add: LevelFunc)
    have 1: "fb_text (fb_append (c_str func) (lg_stream ?impl)) = fb_text (lg_stream ?impl) @ c_str func"
      by (rule text_append) (use I(1) room in auto)
    have "fb_text (fb_append [SP] (fb_append (c_str func) (lg_stream ?impl))) = fb_text (fb_append (c_str func) (lg_stream ?impl)) @ [SP]"
      by (rule text_append) (use I(1) room 1 in auto)
    with 1 I(1-4) show ?thesis by (simp add: lg_def LevelFunc new_logger_def Let_def ls_char_def ls_cstr_def)
  next
    case (ToAbort toAbort)
    show ?thesis
    proof (cases "errno = 0")
      case False
      have room: "length (fb_text (lg_stream ?impl)) + length (c_str (errnoMsg errno)) + 70 \<le> kSmallBuffer"
        using assms(6) I(6) False by (simp add: ToAbort)
      from errno_text [OF I(1) assms(4,5) room] I(2-4) False show ?thesis
        by (simp add: lg_def ToAbort new_logger_def new_impl_errno [of _ _ _ _ _ errno] Let_def)
    qed (use I in \<open>simp add: lg_def ToAbort new_logger_def\<close>)
  qed (use I in \<open>simp_all add: lg_def new_logger_def\<close>)
  with I(5,6) show "small (lg_stream lg)" "lg_line lg = line" "lg_basename lg = src" "lg_level lg = args_level args"
    "fb_text (lg_stream lg) = minute_text (localtime (cdiv (microSecondSinceEpoch now) kMicroSecondsPerSecond))
      @ dec_int_pad 6 (cmod (microSecondSinceEpoch now) kMicroSecondsPerSecond) @ [NUL] @ level_field (args_level args)
      @ args_text errnoMsg errno args"
    "length (fb_text (lg_stream lg)) = 30 + length (args_text errnoMsg errno args)"
    by simp_all
qed

text \<open>
  C36: The life of a logger, made by any of its four constructors, whose text fits: the bytes handed to the output
  function are the date up to the minute, the microseconds and a NUL, the level in six bytes, then what the
  constructor adds (the name of the function and a blank, or for a system error its message and number), the
  items in their order, the file after its first slash and the line number, and then the rest of the buffer, up to
  \<open>kSmallBuffer\<close> bytes, whatever it holds; the program aborts exactly if the level is \<open>FATAL\<close>.
\<close>
theorem logger_line_layout:
  assumes "tm_ok (localtime (cdiv (microSecondSinceEpoch now) kMicroSecondsPerSecond))"
    and "0 \<le> microSecondSinceEpoch now" and "length junk = kSmallBuffer" and "\<forall>x \<in> set xs. item_ok fmt x"
    and "length (args_text errnoMsg errno args) + length (concat (map (item_text fmt) xs)) + length (after_slash path) + 100
      \<le> kSmallBuffer"
    and "- (2 ^ 31) \<le> line" and "line < 2 ^ 31" and "- (2 ^ 31) \<le> errno" and "errno < 2 ^ 31"
  shows "\<exists>rest. destroy_logger (log_items fmt xs
        (new_logger localtime errnoMsg junk now errno (source_file_of path) line args))
    = (minute_text (localtime (cdiv (microSecondSinceEpoch now) kMicroSecondsPerSecond))
       @ dec_int_pad 6 (cmod (microSecondSinceEpoch now) kMicroSecondsPerSecond) @ [NUL] @ level_field (args_level args)
       @ args_text errnoMsg errno args
       @ concat (map (item_text fmt) xs) @ '' - '' @ after_slash path @ '':'' @ dec_int line @ [LF] @ rest,
       args_level args = FATAL)
    \<and> length (fst (destroy_logger (log_items fmt xs
        (new_logger localtime errnoMsg junk now errno (source_file_of path) line args)))) = kSmallBuffer"
proof -
  let ?new = "new_logger localtime errnoMsg junk now errno (source_file_of path) line args"
  let ?lg = "log_items fmt xs ?new"
  note I = new_logger_stream [where localtime = localtime and now = now and junk = junk and errno = errno
      and errnoMsg = errnoMsg and args = args, OF assms(1-3,8,9), where src = "source_file_of path" and line = line]
  have fits: "length (args_text errnoMsg errno args) + 100 \<le> kSmallBuffer" using assms(5) by simp
  note I = I [OF fits]
  have F: "small (lg_stream ?lg)" "fb_text (lg_stream ?lg) = fb_text (lg_stream ?new) @ concat (map (item_text fmt) xs)"
    using fold_put_fits [OF I(1) assms(4)] I(6) assms(5) by (simp_all add: log_items_def kMaxNumericSize_def)
  have lg: "lg_line ?lg = line" "lg_basename ?lg = source_file_of path" "lg_level ?lg = args_level args"
    using I(2,3,4) by (simp_all add: log_items_def)
  have E: "small (lg_stream (finish ?lg))"
      "fb_text (lg_stream (finish ?lg)) = fb_text (lg_stream ?lg) @ '' - '' @ after_slash path @ '':'' @ dec_int line @ [LF]"
    using finish_text [of ?lg, unfolded lg source_file_of_eq(1,2)] F I(6) assms(5-7) by simp_all
  define b where "b = lg_stream (finish ?lg)"
  have b: "fb_data b = fb_text b @ drop (fb_cur b) (fb_data b)" "length (fb_data b) = kSmallBuffer"
    using E(1) by (simp_all add: b_def small_def fb_text_def)
  have "destroy_logger ?lg = (fb_data b, args_level args = FATAL)"
    using lg(3) by (simp add: destroy_logger_def Let_def b_def fb_length_def finish_def)
  moreover have "fb_data b = minute_text (localtime (cdiv (microSecondSinceEpoch now) kMicroSecondsPerSecond))
       @ dec_int_pad 6 (cmod (microSecondSinceEpoch now) kMicroSecondsPerSecond) @ [NUL] @ level_field (args_level args)
       @ args_text errnoMsg errno args
       @ concat (map (item_text fmt) xs) @ '' - '' @ after_slash path @ '':'' @ dec_int line @ [LF] @ drop (fb_cur b) (fb_data b)"
    using E(2) F(2) I(5) b(1) by (simp add: b_def)
  ultimately show ?thesis using b(2) by auto
qed

theorem logger_line_layout_witness:
  "\<exists>rest. destroy_logger (log_items (\<lambda>_. []) [LString ''up'']
      (new_logger demo_localtime (\<lambda>_. ''Bad'') (replicate kSmallBuffer NUL) (Timestamp 59000042) 9 (source_file_of ''a/b.cc'') 7 (ToAbort True)))
    = (minute_text (demo_localtime 59) @ dec_int_pad 6 42 @ [NUL] @ ''FATAL '' @ ''Bad (errno ='' @ dec_int 9 @ '') '' @ ''up'' @ '' - '' @ ''b.cc'' @ '':''
      @ dec_int 7 @ [LF] @ rest, True)"
proof -
  have bad: "c_str ''Bad'' = ''Bad''" by (rule c_str_id) (simp add: NUL_def)
  have "length (dec_int 9) \<le> 21" by (rule length_dec_int_64) auto
  then show ?thesis
    using logger_line_layout [of demo_localtime "Timestamp 59000042" "replicate kSmallBuffer NUL" "[LString ''up'']" "\<lambda>_. []"
        "\<lambda>_. ''Bad''" 9 "ToAbort True" "''a/b.cc''" 7]
    by (auto simp: demo_localtime_ok kSmallBuffer_def after_slash_def kMicroSecondsPerSecond_def level_field_def bad)
qed

end
