(* ===== verification/Worker_Pool.thy ===== *)
theory Worker_Pool
  imports C_Format
begin

text \<open>
  \<open>include/Thread.h\<close>, \<open>base/Thread.cc\<close>, \<open>include/CurrentThread.h\<close>, \<open>base/CurrentThreaad.cc\<close>,
  \<open>include/ThreadPool.h\<close> and \<open>base/ThreadPool.cc\<close>. A failed assert is \<^term>\<open>None\<close>. The threads of
  a pool, the thread that stops it and those that add tasks interleave by the step relation
  \<open>pool_step\<close>; a step is what one of them does between two moments at which it may block, and the
  owner of the mutex is part of the state. Tasks are values of a type \<open>'f\<close>; callbacks do not throw.
\<close>

section \<open>Threads\<close>

text \<open>\<open>tid\<close>: the cached identifier, zero when there is none yet; \<open>gettid\<close> is the system's answer.\<close>

definition cacheTid :: "int \<Rightarrow> int \<Rightarrow> int" where
  "cacheTid gettid cached = (if cached = 0 then gettid else cached)"

definition current_tid :: "int \<Rightarrow> int \<Rightarrow> int" where
  "current_tid gettid cached = (if cached = 0 then cacheTid gettid cached else cached)"

definition isMainThread :: "int \<Rightarrow> int \<Rightarrow> bool" where
  "isMainThread gettid cached \<longleftrightarrow> current_tid gettid cached = gettid"

lemma tid_cached: "gettid \<noteq> 0 \<Longrightarrow> cached \<in> {0, gettid} \<Longrightarrow> current_tid gettid cached = gettid"
  by (auto simp: current_tid_def cacheTid_def)

text \<open>The test for the main thread compares the thread with itself.\<close>

lemma isMainThread_everywhere: "gettid \<noteq> 0 \<Longrightarrow> cached \<in> {0, gettid} \<Longrightarrow> isMainThread gettid cached"
  by (simp add: isMainThread_def tid_cached)

record thread =
  th_started :: bool
  th_joined :: bool
  th_detached :: bool
  th_tid :: int
  th_name :: string

definition setDefaultName :: "int \<times> thread \<Rightarrow> int \<times> thread" where
  "setDefaultName s = (case s of (numCreated, t) \<Rightarrow>
     (let num = numCreated + 1
      in (num, if th_name t = [] then t\<lparr>th_name := snprintf 32 (''Thread'' @ dec_int num)\<rparr> else t)))"

definition new_thread :: "string \<Rightarrow> int \<Rightarrow> int \<times> thread" where
  "new_thread name numCreated = setDefaultName (numCreated,
     \<lparr>th_started = False, th_joined = False, th_detached = False, th_tid = 0, th_name = name\<rparr>)"

text \<open>\<open>start\<close> returns once the new thread has stored its identifier.\<close>

definition thread_start :: "int \<Rightarrow> thread \<Rightarrow> thread option" where
  "thread_start tid t = (if th_started t then None else Some (t\<lparr>th_started := True, th_tid := tid\<rparr>))"

definition thread_join :: "thread \<Rightarrow> thread option" where
  "thread_join t = (if th_started t \<and> \<not> th_joined t then Some (t\<lparr>th_joined := True\<rparr>) else None)"

definition destroy_thread :: "thread \<Rightarrow> thread" where
  "destroy_thread t = (if th_started t \<and> \<not> th_joined t then t\<lparr>th_detached := True\<rparr> else t)"

lemma thread_life:
  assumes "new_thread name n = (m, t)" and "thread_start tid t = Some t1"
  shows "m = n + 1" "thread_start tid' t1 = None" "\<exists>t2. thread_join t1 = Some t2 \<and> thread_join t2 = None \<and> \<not> th_detached (destroy_thread t2)"
    "th_detached (destroy_thread t1)" "th_name t1 \<noteq> []"
  using assms
  by (auto simp: new_thread_def setDefaultName_def thread_start_def thread_join_def destroy_thread_def
      snprintf_def Let_def split: if_splits)

section \<open>The pool\<close>

datatype worker_pc = WInit | WLock | WCheck | WWaiting | WDone
datatype stopper_pc = SIdle | SJoin nat | SDone
datatype lock_owner = Worker nat | Stopper

text \<open>
  The ghosts are the tasks handed to \<open>add\<close>, those a worker has taken from the queue and those that
  have been called.
\<close>

record 'f pool =
  tp_name :: string
  tp_init :: bool
  tp_threads :: "thread list"
  tp_queue :: "'f list"
  tp_threadSize :: nat
  tp_running :: bool
  tp_lock :: "lock_owner option"
  tp_pcs :: "worker_pc list"
  tp_stop :: stopper_pc
  tp_added :: "'f list"
  tp_taken :: "'f list"
  tp_ran :: "'f list"

text \<open>The constructor leaves \<open>_threadSize\<close> as the memory happens to be.\<close>

definition new_pool :: "nat \<Rightarrow> string \<Rightarrow> 'f pool" where
  "new_pool garbage name = \<lparr>tp_name = name, tp_init = False, tp_threads = [], tp_queue = [],
     tp_threadSize = garbage, tp_running = False, tp_lock = None, tp_pcs = [], tp_stop = SIdle,
     tp_added = [], tp_taken = [], tp_ran = []\<rparr>"

definition setThreadSize :: "nat \<Rightarrow> 'f pool \<Rightarrow> 'f pool" where
  "setThreadSize num p = p\<lparr>tp_threadSize := num\<rparr>"

definition setThreadInitFunc :: "'f pool \<Rightarrow> 'f pool" where
  "setThreadInitFunc p = p\<lparr>tp_init := True\<rparr>"

fun start_threads :: "nat \<Rightarrow> nat \<Rightarrow> int \<Rightarrow> 'f pool \<Rightarrow> (int \<times> 'f pool) option" where
  "start_threads i 0 created p = Some (created, p)"
| "start_threads i (Suc k) created p =
     (let id = snprintf 32 (dec (i + 1)); (created, t) = new_thread (tp_name p @ id) created
      in do {
        t \<leftarrow> thread_start (1 + int i) t;
        start_threads (i + 1) k created
          (p\<lparr>tp_threads := tp_threads p @ [t], tp_pcs := tp_pcs p @ [WInit]\<rparr>)
      })"

text \<open>\<open>start\<close>: the second result says whether the init callback runs in the calling thread.\<close>

definition pool_start :: "int \<Rightarrow> 'f pool \<Rightarrow> (int \<times> bool \<times> 'f pool) option" where
  "pool_start created p = do {
     (created, p) \<leftarrow> start_threads 0 (tp_threadSize p) created (p\<lparr>tp_running := True\<rparr>);
     Some (created, tp_threadSize p = 0 \<and> tp_init p, p)
   }"

definition queueSize :: "'f pool \<Rightarrow> nat" where
  "queueSize p = length (tp_queue p)"

definition isFull :: "'f pool \<Rightarrow> bool" where
  "isFull p \<longleftrightarrow> 0 < tp_threadSize p \<and> tp_threadSize p \<le> length (tp_queue p)"

definition pool_add :: "'f \<Rightarrow> 'f pool \<Rightarrow> 'f pool" where
  "pool_add f p =
     (let p = p\<lparr>tp_added := tp_added p @ [f]\<rparr>
      in if tp_threads p = [] then p\<lparr>tp_ran := tp_ran p @ [f]\<rparr> else p\<lparr>tp_queue := tp_queue p @ [f]\<rparr>)"

text \<open>
  \<open>runInThread\<close>, from one blocking point to the next. The lock is taken at the top of the outer
  loop and given up at the end of its body, where the task has been taken; the call of the task
  stands behind that loop, which only the return in it leaves.
\<close>

fun worker_step :: "nat \<Rightarrow> 'f pool \<Rightarrow> 'f pool option" where
  "worker_step i p = (case tp_pcs p ! i of
     WInit \<Rightarrow> Some (p\<lparr>tp_pcs := (tp_pcs p)[i := WLock]\<rparr>)
   | WLock \<Rightarrow> if tp_lock p = None then Some (p\<lparr>tp_lock := Some (Worker i), tp_pcs := (tp_pcs p)[i := WCheck]\<rparr>) else None
   | WCheck \<Rightarrow> Some (case tp_queue p of
         [] \<Rightarrow> if \<not> tp_running p then p\<lparr>tp_lock := None, tp_pcs := (tp_pcs p)[i := WDone]\<rparr>
              else p\<lparr>tp_lock := None, tp_pcs := (tp_pcs p)[i := WWaiting]\<rparr>
       | task # queue \<Rightarrow> p\<lparr>tp_queue := queue, tp_taken := tp_taken p @ [task], tp_lock := None,
           tp_pcs := (tp_pcs p)[i := WLock]\<rparr>)
   | WWaiting \<Rightarrow> if tp_lock p = None then Some (p\<lparr>tp_lock := Some (Worker i), tp_pcs := (tp_pcs p)[i := WCheck]\<rparr>) else None
   | WDone \<Rightarrow> None)"

text \<open>\<open>stop\<close>: take the lock, then join the threads one after the other, still holding it.\<close>

definition stop_begin :: "'f pool \<Rightarrow> 'f pool" where
  "stop_begin p = p\<lparr>tp_lock := Some Stopper, tp_running := False, tp_stop := SJoin 0\<rparr>"

definition stop_join :: "nat \<Rightarrow> 'f pool \<Rightarrow> 'f pool option" where
  "stop_join k p = (if k < length (tp_threads p)
     then (if tp_pcs p ! k = WDone
           then do { t \<leftarrow> thread_join (tp_threads p ! k); Some (p\<lparr>tp_threads := (tp_threads p)[k := t], tp_stop := SJoin (k + 1)\<rparr>) }
           else None)
     else Some (p\<lparr>tp_lock := None, tp_stop := SDone\<rparr>))"

text \<open>The destructor stops a pool that is running.\<close>

definition destroy_pool :: "'f pool \<Rightarrow> 'f pool" where
  "destroy_pool p = (if tp_running p then stop_begin p else p)"

inductive pool_step :: "'f pool \<Rightarrow> 'f pool \<Rightarrow> bool" where
  pool_worker: "i < length (tp_pcs p) \<Longrightarrow> worker_step i p = Some p' \<Longrightarrow> pool_step p p'"
| pool_adds: "tp_threads p = [] \<or> tp_lock p = None \<Longrightarrow> pool_step p (pool_add f p)"
| pool_stops: "tp_stop p = SIdle \<Longrightarrow> tp_lock p = None \<Longrightarrow> pool_step p (stop_begin p)"
| pool_joins: "tp_stop p = SJoin k \<Longrightarrow> stop_join k p = Some p' \<Longrightarrow> pool_step p p'"

inductive_cases pool_stepE: "pool_step p p'"

text \<open>The tasks \<open>early\<close> are added before the pool is started.\<close>

inductive pool_reach :: "'f list \<Rightarrow> 'f pool \<Rightarrow> bool" for early where
  pool_begin: "pool_start created (fold pool_add early (setThreadSize n (new_pool garbage name))) = Some (created', b, p) \<Longrightarrow>
    pool_reach early p"
| pool_next: "pool_reach early p \<Longrightarrow> pool_step p p' \<Longrightarrow> pool_reach early p'"

section \<open>Invariant\<close>

definition pool_inv :: "'f list \<Rightarrow> 'f pool \<Rightarrow> bool" where
  "pool_inv early p \<longleftrightarrow> length (tp_pcs p) = length (tp_threads p)
     \<and> (\<forall>i < length (tp_pcs p). (tp_pcs p ! i = WCheck) = (tp_lock p = Some (Worker i)) \<and> tp_pcs p ! i \<noteq> WDone)
     \<and> (\<forall>i. tp_lock p = Some (Worker i) \<longrightarrow> i < length (tp_pcs p))
     \<and> (tp_threads p \<noteq> [] \<longrightarrow> tp_running p \<and> tp_stop p = SIdle \<and> tp_lock p \<noteq> Some Stopper
           \<or> tp_stop p = SJoin 0 \<and> tp_lock p = Some Stopper)
     \<and> (tp_threads p = [] \<longrightarrow> tp_queue p = [] \<and> tp_taken p = [] \<and> tp_ran p = tp_added p)
     \<and> (tp_threads p \<noteq> [] \<longrightarrow> tp_ran p = early \<and> tp_added p = early @ tp_taken p @ tp_queue p)"

lemma start_threads_ok:
  "\<exists>created' p'. start_threads i n created p = Some (created', p')
    \<and> (\<exists>ts. length ts = n \<and> p' = p\<lparr>tp_threads := tp_threads p @ ts, tp_pcs := tp_pcs p @ replicate n WInit\<rparr>)"
proof (induction n arbitrary: i created p)
  case 0
  then show ?case by simp
next
  case (Suc n)
  obtain created1 t where t: "new_thread (tp_name p @ snprintf 32 (dec (i + 1))) created = (created1, t)"
    by (cases "new_thread (tp_name p @ snprintf 32 (dec (i + 1))) created")
  then have "thread_start (1 + int i) t = Some (t\<lparr>th_started := True, th_tid := 1 + int i\<rparr>)"
    by (auto simp: new_thread_def setDefaultName_def thread_start_def Let_def split: if_splits)
  moreover define p1 where "p1 = p\<lparr>tp_threads := tp_threads p @ [t\<lparr>th_started := True, th_tid := 1 + int i\<rparr>], tp_pcs := tp_pcs p @ [WInit]\<rparr>"
  ultimately have step: "start_threads i (Suc n) created p = start_threads (i + 1) n created1 p1"
    using t by (simp add: Let_def)
  obtain created' p' ts where "start_threads (i + 1) n created1 p1 = Some (created', p')" "length ts = n"
      "p' = p1\<lparr>tp_threads := tp_threads p1 @ ts, tp_pcs := tp_pcs p1 @ replicate n WInit\<rparr>"
    using Suc.IH by blast
  then show ?case unfolding step
    by (auto simp: p1_def intro!: exI [of _ "t\<lparr>th_started := True, th_tid := 1 + int i\<rparr> # ts"])
qed

lemma fold_add:
  "tp_threads p = [] \<Longrightarrow> fold pool_add fs p = p\<lparr>tp_added := tp_added p @ fs, tp_ran := tp_ran p @ fs\<rparr>"
proof (induction fs arbitrary: p)
  case (Cons f fs)
  then show ?case by (simp add: Cons.IH pool_add_def Let_def)
qed simp

lemma pool_start_inv:
  fixes p :: "'f pool"
  assumes "pool_start created (fold pool_add early (setThreadSize n (new_pool garbage name))) = Some (created', b, p)"
  shows "pool_inv early p" "length (tp_threads p) = n" "tp_ran p = early" "tp_running p" "tp_stop p = SIdle" "tp_lock p = None"
proof -
  define q0 where "q0 = fold pool_add early (setThreadSize n (new_pool garbage name :: 'f pool))"
  have "q0 = (setThreadSize n (new_pool garbage name))\<lparr>tp_added := early, tp_ran := early\<rparr>"
    unfolding q0_def by (subst fold_add) (simp_all add: setThreadSize_def new_pool_def)
  then have q0: "tp_threads q0 = []" "tp_pcs q0 = []" "tp_threadSize q0 = n" "tp_queue q0 = []" "tp_lock q0 = None"
      "tp_stop q0 = SIdle" "tp_added q0 = early" "tp_taken q0 = []" "tp_ran q0 = early"
    by (simp_all add: setThreadSize_def new_pool_def)
  let ?p = "q0\<lparr>tp_running := True\<rparr>"
  obtain c q ts where q: "start_threads 0 n created ?p = Some (c, q)" "length ts = n"
      "q = ?p\<lparr>tp_threads := tp_threads ?p @ ts, tp_pcs := tp_pcs ?p @ replicate n WInit\<rparr>"
    using start_threads_ok [of 0 n created ?p] by blast
  have "p = q" using assms q(1) by (simp add: pool_start_def q0_def [symmetric] q0(3))
  with q(2,3) q0 show "length (tp_threads p) = n" "tp_ran p = early" "tp_running p" "tp_stop p = SIdle" "tp_lock p = None"
    by simp_all
  from \<open>p = q\<close> q(2,3) q0 show "pool_inv early p" by (auto simp: pool_inv_def)
qed

lemma pool_inv_stopped:
  assumes "pool_inv early p" and "tp_threads p \<noteq> []" and "tp_stop p \<noteq> SIdle"
  shows "tp_stop p = SJoin 0" "tp_lock p = Some Stopper" "\<forall>i < length (tp_pcs p). tp_pcs p ! i \<noteq> WDone"
    "length (tp_pcs p) = length (tp_threads p)"
  using assms unfolding pool_inv_def by blast+

lemma worker_inv:
  assumes inv: "pool_inv early p" and i: "i < length (tp_pcs p)" and step: "worker_step i p = Some p'"
  shows "pool_inv early p' \<and> length (tp_threads p') = length (tp_threads p)"
proof (cases "tp_pcs p ! i")
  case WCheck
  have lock: "tp_lock p = Some (Worker i)" and ne: "tp_threads p \<noteq> []"
    using inv i WCheck by (auto simp: pool_inv_def)
  then have run: "tp_running p" "tp_stop p = SIdle" using inv by (auto simp: pool_inv_def)
  have others: "tp_pcs p ! j \<noteq> WCheck" if "j < length (tp_pcs p)" "j \<noteq> i" for j
    using inv that lock by (auto simp: pool_inv_def)
  show ?thesis
  proof (cases "tp_queue p")
    case Nil
    then have "p' = p\<lparr>tp_lock := None, tp_pcs := (tp_pcs p)[i := WWaiting]\<rparr>" using step WCheck run by simp
    with inv i lock run ne others Nil show ?thesis by (auto simp: pool_inv_def nth_list_update)
  next
    case (Cons task queue)
    then have "p' = p\<lparr>tp_queue := queue, tp_taken := tp_taken p @ [task], tp_lock := None, tp_pcs := (tp_pcs p)[i := WLock]\<rparr>"
      using step WCheck by simp
    with inv i lock run ne others Cons show ?thesis by (auto simp: pool_inv_def nth_list_update)
  qed
next
  case WInit
  then have "p' = p\<lparr>tp_pcs := (tp_pcs p)[i := WLock]\<rparr>" using step by simp
  with inv i WInit show ?thesis by (auto simp: pool_inv_def nth_list_update)
next
  case WLock
  then have "p' = p\<lparr>tp_lock := Some (Worker i), tp_pcs := (tp_pcs p)[i := WCheck]\<rparr>" "tp_lock p = None"
    using step by (auto split: if_splits)
  with inv i WLock show ?thesis by (auto simp: pool_inv_def nth_list_update)
next
  case WWaiting
  then have "p' = p\<lparr>tp_lock := Some (Worker i), tp_pcs := (tp_pcs p)[i := WCheck]\<rparr>" "tp_lock p = None"
    using step by (auto split: if_splits)
  with inv i WWaiting show ?thesis by (auto simp: pool_inv_def nth_list_update)
qed (use step in simp)

lemma pool_step_inv:
  assumes "pool_step p p'" and inv: "pool_inv early p"
  shows "pool_inv early p' \<and> length (tp_threads p') = length (tp_threads p)"
  using assms(1)
proof cases
  case (pool_worker i)
  with worker_inv [OF inv] show ?thesis by blast
next
  case (pool_adds f)
  show ?thesis
  proof (cases "tp_threads p = []")
    case True
    then have "p' = p\<lparr>tp_added := tp_added p @ [f], tp_ran := tp_ran p @ [f]\<rparr>" using pool_adds by (simp add: pool_add_def Let_def)
    moreover have "tp_lock p \<noteq> Some (Worker i)" for i using inv True unfolding pool_inv_def by fastforce
    ultimately show ?thesis using inv True by (simp add: pool_inv_def)
  next
    case False
    with inv pool_adds show ?thesis by (simp add: pool_inv_def pool_add_def Let_def)
  qed
next
  case pool_stops
  with inv show ?thesis by (simp add: pool_inv_def stop_begin_def)
next
  case (pool_joins k)
  show ?thesis
  proof (cases "tp_threads p = []")
    case True
    with pool_joins inv show ?thesis by (auto simp: pool_inv_def stop_join_def)
  next
    case False
    then have "k = 0" "tp_pcs p ! 0 \<noteq> WDone" using inv pool_joins(1) by (auto simp: pool_inv_def)
    with pool_joins(2) False show ?thesis by (simp add: stop_join_def)
  qed
qed

lemma pool_reach_inv: "pool_reach early p \<Longrightarrow> pool_inv early p"
  by (induction rule: pool_reach.induct) (auto dest: pool_start_inv pool_step_inv)

text \<open>
  C40: A pool with threads never calls a task: the tasks added before it is started are called at
  once, in the thread that adds them; of the later ones, whatever the threads, the adders and a stop
  do, each is in the queue or has been taken from it by a worker and dropped. Only a pool without
  threads calls all its tasks.
\<close>
theorem pool_never_runs_tasks:
  assumes "pool_reach early p"
  shows "(if tp_threads p = [] then tp_ran p = tp_added p
    else tp_ran p = early \<and> tp_added p = early @ tp_taken p @ tp_queue p)"
  using pool_reach_inv [OF assms] by (simp add: pool_inv_def)

text \<open>A pool of one thread to which a task is added.\<close>

definition one_worker :: "nat pool" where
  "one_worker = snd (snd (the (pool_start 0 (setThreadSize 1 (new_pool 7 ''pool'')))))"

lemma one_worker_started: "pool_start 0 (setThreadSize 1 (new_pool 7 ''pool'')) = Some (1, False, one_worker)"
    "length (tp_threads one_worker) = 1" "tp_lock one_worker = None" "tp_stop one_worker = SIdle"
    "tp_added one_worker = []"
  by (simp_all add: one_worker_def pool_start_def setThreadSize_def new_pool_def numeral_eq_Suc Let_def
      new_thread_def setDefaultName_def thread_start_def)

lemma one_worker_reach: "pool_reach [] one_worker"
proof -
  have "pool_start 0 (fold pool_add [] (setThreadSize 1 (new_pool 7 ''pool''))) = Some (1, False, one_worker)"
    by (simp only: fold.simps id_apply one_worker_started(1))
  then show ?thesis by (rule pool_begin)
qed

theorem pool_never_runs_tasks_witness:
  "tp_ran (pool_add 5 one_worker) = [] \<and> tp_taken (pool_add 5 one_worker) @ tp_queue (pool_add 5 one_worker) = [5]"
proof -
  have "pool_reach [] (pool_add 5 one_worker)"
    by (rule pool_next [OF one_worker_reach pool_adds]) (simp add: one_worker_started)
  moreover have "tp_threads (pool_add 5 one_worker) \<noteq> []" "tp_added (pool_add 5 one_worker) = [5]"
    using one_worker_started(2,5) by (auto simp: pool_add_def Let_def)
  ultimately show ?thesis using pool_never_runs_tasks [of "[]" "pool_add 5 one_worker"] by simp
qed

lemma stop_keeps_lock:
  assumes "pool_reach early p" and "tp_threads p \<noteq> []" and "tp_stop p \<noteq> SIdle" and "pool_step\<^sup>*\<^sup>* p p'"
  shows "tp_stop p' = SJoin 0 \<and> tp_lock p' = Some Stopper \<and> stop_join 0 p' = None
    \<and> (\<forall>i < length (tp_pcs p'). tp_pcs p' ! i \<noteq> WDone) \<and> tp_added p' = tp_added p"
proof -
  have "pool_inv early p' \<and> tp_threads p' \<noteq> [] \<and> tp_stop p' \<noteq> SIdle \<and> tp_added p' = tp_added p"
    using assms(4)
  proof (induction rule: rtranclp_induct)
    case base
    show ?case using pool_reach_inv [OF assms(1)] assms(2,3) by simp
  next
    case (step q r)
    then have inv: "pool_inv early r" "tp_threads r \<noteq> []" using pool_step_inv [of q r early] by auto
    have q: "tp_stop q = SJoin 0" "tp_lock q = Some Stopper" "tp_pcs q ! 0 \<noteq> WDone"
      using pool_inv_stopped [of early q] step.IH by auto
    from step.hyps(2) have "tp_stop r = SJoin 0 \<and> tp_added r = tp_added q"
    proof cases
      case (pool_worker i)
      with q show ?thesis by (auto split: worker_pc.splits if_splits list.splits)
    next
      case (pool_joins k)
      with q have "k = 0" by simp
      with pool_joins q step.IH show ?thesis by (simp add: stop_join_def)
    qed (use step.IH q in simp_all)
    with inv step.IH show ?case by simp
  qed
  then show ?thesis using pool_inv_stopped [of early p'] by (simp add: stop_join_def)
qed

text \<open>
  C34: \<open>stop\<close> of a pool with threads never returns: it holds the lock while it joins, no worker can
  return without the lock, so in every run the first join waits for ever, and so does every later
  \<open>add\<close>.
\<close>
theorem pool_stop_deadlocks:
  assumes "pool_reach early p" and "tp_threads p \<noteq> []" and "tp_stop p \<noteq> SIdle" and "pool_step\<^sup>*\<^sup>* p p'"
  shows "tp_stop p' = SJoin 0 \<and> tp_lock p' = Some Stopper \<and> stop_join 0 p' = None
    \<and> (\<forall>i < length (tp_pcs p'). tp_pcs p' ! i \<noteq> WDone) \<and> tp_added p' = tp_added p"
  using stop_keeps_lock [OF assms] .

theorem pool_stop_deadlocks_witness:
  "tp_stop (stop_begin one_worker) = SJoin 0 \<and> stop_join 0 (stop_begin one_worker) = None"
proof -
  have "pool_reach [] (stop_begin one_worker)"
    by (rule pool_next [OF one_worker_reach pool_stops]) (simp_all add: one_worker_started)
  moreover have "tp_threads (stop_begin one_worker) \<noteq> []" "tp_stop (stop_begin one_worker) \<noteq> SIdle"
    using one_worker_started(2) by (auto simp: stop_begin_def)
  ultimately show ?thesis using pool_stop_deadlocks by blast
qed

end
