(* ===== verification/Sockets.thy ===== *)
theory Sockets
  imports C_Format "HOL-Library.Word"
begin

unbundle bit_operations_syntax

text \<open>
  \<open>include/InetAddress.h\<close>, \<open>net/InetAddress.cc\<close>, \<open>include/Socket.h\<close>, \<open>net/Socket.cc\<close>,
  \<open>include/SocketOperation.h\<close> and \<open>net/SocketOperation.cc\<close>. The host is little-endian, as the build
  machine is. Ports and addresses are words in network order, as the structures hold them; what a
  system call returns is an argument, and a \<open>LOG_FATAL\<close>, which aborts the process, is \<^term>\<open>None\<close>.
\<close>

section \<open>Addresses\<close>

definition AF_INET :: nat where "AF_INET = 2"
definition AF_INET6 :: nat where "AF_INET6 = 10"

definition htons :: "16 word \<Rightarrow> 16 word" where
  "htons w = (push_bit 8 w OR drop_bit 8 w)"

definition ntohs :: "16 word \<Rightarrow> 16 word" where
  "ntohs w = htons w"

record sockaddr_in =
  sin_family :: nat
  sin_port :: "16 word"
  sin_addr :: "32 word"

text \<open>\<open>inet_addr\<close> is an argument; \<open>inet_ntop\<close> prints the bytes as they lie in memory.\<close>

definition new_inet :: "(string \<Rightarrow> 32 word) \<Rightarrow> 16 word \<Rightarrow> string \<Rightarrow> sockaddr_in" where
  "new_inet inet_addr port ip =
     \<lparr>sin_family = AF_INET, sin_port = htons port, sin_addr = inet_addr (c_str ip)\<rparr>"

definition addr_byte :: "nat \<Rightarrow> 32 word \<Rightarrow> nat" where
  "addr_byte i w = unat (drop_bit (8 * i) w) mod 256"

definition inet_ntop :: "32 word \<Rightarrow> string" where
  "inet_ntop w = dec (addr_byte 0 w) @ ''.'' @ dec (addr_byte 1 w) @ ''.'' @ dec (addr_byte 2 w) @ ''.'' @ dec (addr_byte 3 w)"

definition toIp :: "sockaddr_in \<Rightarrow> string" where
  "toIp a = inet_ntop (sin_addr a)"

text \<open>\<open>sprintf\<close> writes behind the address in the same 64 bytes: more would be out of bounds.\<close>

definition toIpPort :: "sockaddr_in \<Rightarrow> string option" where
  "toIpPort a =
     (let s = inet_ntop (sin_addr a) @ '':'' @ dec (unat (ntohs (sin_port a)))
      in if length s < 64 then Some s else None)"

definition toPort :: "sockaddr_in \<Rightarrow> 16 word" where
  "toPort a = ntohs (sin_port a)"

lemma ntohs_htons [simp]: "ntohs (htons w) = w"
proof (rule bit_word_eqI)
  fix n assume "n < LENGTH(16)"
  then show "bit (ntohs (htons w)) n = bit w n"
    by (auto simp: ntohs_def htons_def bit_or_iff bit_push_bit_iff bit_drop_bit_eq not_less dest: bit_imp_le_length)
qed

lemma htons_inj: "htons v = htons w \<longleftrightarrow> v = w"
  by (metis ntohs_htons)

lemma addr_byte_less: "addr_byte i w < 256"
  by (simp add: addr_byte_def)

lemma length_byte: "length (dec (addr_byte i w)) \<le> 3"
  using length_dec_le [of "addr_byte i w" 3] addr_byte_less [of i w] by simp

lemma length_port: "length (dec (unat (p :: 16 word))) \<le> 5"
proof -
  have "unat p < 2 ^ 16" using unsigned_less [of p, where ?'a = nat] by simp
  then show ?thesis by (intro length_dec_le) auto
qed

lemma length_inet_ntop: "length (inet_ntop w) \<le> 15"
  using length_byte [of 0 w] length_byte [of 1 w] length_byte [of 2 w] length_byte [of 3 w]
  by (simp add: inet_ntop_def)

lemma toIpPort_eq: "toIpPort a = Some (inet_ntop (sin_addr a) @ '':'' @ dec (unat (ntohs (sin_port a))))"
  and length_toIpPort: "toIpPort a = Some s \<Longrightarrow> length s \<le> 21"
  using length_inet_ntop [of "sin_addr a"] length_port [of "ntohs (sin_port a)"]
  by (auto simp: toIpPort_def Let_def)

text \<open>The bytes determine the address.\<close>

lemma addr_bytes: "w = word_of_nat (addr_byte 0 w + 256 * (addr_byte 1 w + 256 * (addr_byte 2 w + 256 * addr_byte 3 w)))"
proof -
  let ?n = "unat w"
  have n: "?n < 2 ^ 32" using unsigned_less [of w, where ?'a = nat] by simp
  have b: "addr_byte i w = ?n div 2 ^ (8 * i) mod 256" for i
    unfolding addr_byte_def unat_drop_bit_eq by (simp add: drop_bit_eq_div)
  define a b c d where "a = ?n div 256" and "b = a div 256" and "c = b div 256" and "d = c div 256"
  have "?n = ?n mod 256 + 256 * (a mod 256 + 256 * (b mod 256 + 256 * (c mod 256 + 256 * d)))"
    by (simp add: a_def b_def c_def d_def mod_mult_div_eq flip: mult.assoc)
  moreover have "d = 0" using n by (simp add: d_def c_def b_def a_def flip: div_mult2_eq)
  ultimately have "?n = addr_byte 0 w + 256 * (addr_byte 1 w + 256 * (addr_byte 2 w + 256 * addr_byte 3 w))"
    using n by (simp add: b a_def b_def c_def flip: div_mult2_eq)
  then have "word_of_nat ?n = (word_of_nat (addr_byte 0 w + 256 * (addr_byte 1 w + 256 * (addr_byte 2 w + 256 * addr_byte 3 w))) :: 32 word)"
    by (rule arg_cong)
  then show ?thesis by simp
qed

lemma dot_split: "CHR ''.'' \<notin> set s \<Longrightarrow> CHR ''.'' \<notin> set s' \<Longrightarrow>
    s @ ''.'' @ t = s' @ ''.'' @ t' \<Longrightarrow> s = s' \<and> t = t'"
  by (metis append_Cons append_Nil dropWhile_neq_append list.inject takeWhile_neq_append)

lemma dec_no: "\<not> is_digit c \<Longrightarrow> c \<notin> set (dec n)"
  using dec_digits by blast

lemma inet_ntop_inj: "inet_ntop v = inet_ntop w \<Longrightarrow> v = w"
proof -
  assume eq: "inet_ntop v = inet_ntop w"
  have dot: "CHR ''.'' \<notin> set (dec n)" for n by (rule dec_no) (simp add: is_digit_def)
  have "dec (addr_byte 0 v) = dec (addr_byte 0 w) \<and> dec (addr_byte 1 v) = dec (addr_byte 1 w)
      \<and> dec (addr_byte 2 v) = dec (addr_byte 2 w) \<and> dec (addr_byte 3 v) = dec (addr_byte 3 w)"
    using eq unfolding inet_ntop_def by (blast dest: dot_split [OF dot dot])
  then have "addr_byte 0 v = addr_byte 0 w" "addr_byte 1 v = addr_byte 1 w"
      "addr_byte 2 v = addr_byte 2 w" "addr_byte 3 v = addr_byte 3 w"
    by (auto dest: dec_inj)
  with addr_bytes [of v] addr_bytes [of w] show ?thesis by metis
qed

text \<open>
  The text of \<open>InetAddress::toIpPort\<close> always fits its buffer, ends with the port in decimal,
  and tells addresses apart: two of them have the same text only if address and port agree. The
  port a constructor is given is the one \<open>toPort\<close> returns.
\<close>
theorem toIpPort_faithful:
  "(\<exists>s. toIpPort a = Some (s @ '':'' @ dec (unat (toPort a))) \<and> s = toIp a)
    \<and> (toIpPort a = toIpPort b) = (sin_addr a = sin_addr b \<and> sin_port a = sin_port b)
    \<and> toPort (new_inet f port ip) = port"
proof -
  have colon: "CHR '':'' \<notin> set (inet_ntop w)" for w
    using dec_no [of "CHR '':''"] by (auto simp: inet_ntop_def is_digit_def)
  have "sin_addr a = sin_addr b \<and> sin_port a = sin_port b" if "toIpPort a = toIpPort b"
  proof -
    let ?d = "\<lambda>x. dec (unat (ntohs (sin_port x)))"
    have eq: "inet_ntop (sin_addr a) @ CHR '':'' # ?d a = inet_ntop (sin_addr b) @ CHR '':'' # ?d b"
      using that by (simp add: toIpPort_eq)
    then have "inet_ntop (sin_addr a) = inet_ntop (sin_addr b)"
      by (metis colon takeWhile_neq_append)
    moreover from this eq have "unat (ntohs (sin_port a)) = unat (ntohs (sin_port b))"
      by (auto dest: dec_inj)
    ultimately show ?thesis by (metis inet_ntop_inj ntohs_def htons_inj word_unat_eq_iff)
  qed
  then show ?thesis by (auto simp: toIpPort_eq toIp_def toPort_def new_inet_def)
qed

section \<open>One socket\<close>

text \<open>The kernel's side of a stream socket, as far as the wrappers change it.\<close>

record socket =
  so_fd :: int
  so_bound :: "sockaddr_in option"
  so_backlog :: "nat option"
  so_wrShut :: bool
  so_noDelay :: bool
  so_reuseAddr :: bool
  so_reusePort :: bool
  so_keepAlive :: bool

definition createNonblockingOrDie :: "int \<Rightarrow> socket option" where
  "createNonblockingOrDie fd =
     (if fd < 0 then None
      else Some \<lparr>so_fd = fd, so_bound = None, so_backlog = None, so_wrShut = False, so_noDelay = False,
        so_reuseAddr = False, so_reusePort = False, so_keepAlive = False\<rparr>)"

definition bindAddress :: "int \<Rightarrow> sockaddr_in \<Rightarrow> socket \<Rightarrow> socket option" where
  "bindAddress ret addr s = (if 0 \<noteq> ret then None else Some (s\<lparr>so_bound := Some addr\<rparr>))"

definition sock_listen :: "int \<Rightarrow> socket \<Rightarrow> socket option" where
  "sock_listen ret s = (if 0 \<noteq> ret then None else Some (s\<lparr>so_backlog := Some 1024\<rparr>))"

text \<open>\<open>accept\<close> returns the descriptor and, if there is one, sets the peer's address.\<close>

definition sock_accept :: "int \<times> sockaddr_in \<Rightarrow> sockaddr_in \<Rightarrow> int \<times> sockaddr_in" where
  "sock_accept r peeraddr = (case r of (connfd, addr) \<Rightarrow> (connfd, if 0 \<le> connfd then addr else peeraddr))"

text \<open>Failures of these are logged or ignored; \<open>ret\<close> is what the call returns.\<close>

definition shutdownWrite :: "int \<Rightarrow> socket \<Rightarrow> socket" where
  "shutdownWrite ret s = (if ret < 0 then s else s\<lparr>so_wrShut := True\<rparr>)"

definition setTcpNoDelay :: "int \<Rightarrow> bool \<Rightarrow> socket \<Rightarrow> socket" where
  "setTcpNoDelay ret on s = (if ret < 0 then s else s\<lparr>so_noDelay := on\<rparr>)"

definition setReuseAddr :: "int \<Rightarrow> bool \<Rightarrow> socket \<Rightarrow> socket" where
  "setReuseAddr ret on s = (if ret < 0 then s else s\<lparr>so_reuseAddr := on\<rparr>)"

definition setReusePort :: "int \<Rightarrow> bool \<Rightarrow> socket \<Rightarrow> socket" where
  "setReusePort ret on s = (if ret < 0 then s else s\<lparr>so_reusePort := on\<rparr>)"

definition setKeepAlive :: "int \<Rightarrow> bool \<Rightarrow> socket \<Rightarrow> socket" where
  "setKeepAlive ret on s = (if ret < 0 then s else s\<lparr>so_keepAlive := on\<rparr>)"

text \<open>\<open>SO_ERROR\<close>: the call's own error, or the value it reads.\<close>

definition getSocketError :: "int + int \<Rightarrow> int" where
  "getSocketError r = (case r of Inl errno \<Rightarrow> errno | Inr optval \<Rightarrow> optval)"

section \<open>Connections to oneself\<close>

text \<open>
  The memory of a \<open>sockaddr_in6\<close>: family and port, the four bytes that a \<open>sockaddr_in\<close> has for its
  address and a \<open>sockaddr_in6\<close> for the flow label, and the sixteen bytes of the IPv6 address.
\<close>

record sockaddr_in6 =
  s6_family :: nat
  s6_port :: "16 word"
  s6_word :: "32 word"
  s6_addr :: string

definition zero_sockaddr :: sockaddr_in6 where
  "zero_sockaddr = \<lparr>s6_family = 0, s6_port = 0, s6_word = 0, s6_addr = replicate 16 NUL\<rparr>"

text \<open>What the kernel answers, or the zeroed structure.\<close>

definition getLocalAddr :: "sockaddr_in6 option \<Rightarrow> sockaddr_in6" where
  "getLocalAddr r = (case r of None \<Rightarrow> zero_sockaddr | Some a \<Rightarrow> a)"

definition getPeerAddr :: "sockaddr_in6 option \<Rightarrow> sockaddr_in6" where
  "getPeerAddr r = (case r of None \<Rightarrow> zero_sockaddr | Some a \<Rightarrow> a)"

definition as_sockaddr_in :: "sockaddr_in6 \<Rightarrow> sockaddr_in" where
  "as_sockaddr_in a = \<lparr>sin_family = s6_family a, sin_port = s6_port a, sin_addr = s6_word a\<rparr>"

text \<open>\<open>memcmp\<close> is used as a truth value: true when the addresses differ.\<close>

definition isSelfConnect :: "sockaddr_in6 option \<Rightarrow> sockaddr_in6 option \<Rightarrow> bool" where
  "isSelfConnect loc peer =
     (let localaddr = getLocalAddr loc; peeraddr = getPeerAddr peer in
      if s6_family localaddr = AF_INET then
        sin_port (as_sockaddr_in localaddr) = sin_port (as_sockaddr_in peeraddr)
        \<and> sin_addr (as_sockaddr_in localaddr) = sin_addr (as_sockaddr_in peeraddr)
      else if s6_family localaddr = AF_INET6 then
        s6_port localaddr = s6_port peeraddr \<and> s6_addr localaddr \<noteq> s6_addr peeraddr
      else False)"

text \<open>The IPv4 test is right; the IPv6 one is the opposite of what it should be.\<close>

lemma isSelfConnect_v4:
  "s6_family a = AF_INET \<Longrightarrow> s6_family b = AF_INET \<Longrightarrow>
    isSelfConnect (Some a) (Some b) = (as_sockaddr_in a = as_sockaddr_in b)"
  by (auto simp: isSelfConnect_def getLocalAddr_def getPeerAddr_def as_sockaddr_in_def Let_def)

lemma isSelfConnect_v6:
  "s6_family a = AF_INET6 \<Longrightarrow> s6_port a = s6_port b \<Longrightarrow>
    isSelfConnect (Some a) (Some b) = (s6_addr a \<noteq> s6_addr b)"
  by (auto simp: isSelfConnect_def getLocalAddr_def getPeerAddr_def AF_INET_def AF_INET6_def Let_def)

lemma isSelfConnect_self_v6: "s6_family a = AF_INET6 \<Longrightarrow> \<not> isSelfConnect (Some a) (Some a)"
  by (simp add: isSelfConnect_v6)

end
