(* ===== verification/Tcp_Connector.thy ===== *)
theory Tcp_Connector
  imports Event_Loop Sockets
begin

text \<open>
  \<open>include/Connector.h\<close> and \<open>net/Connector.cc\<close>: the state machine that opens one outgoing
  connection on its loop, with retries. What the kernel answers is the field \<open>cn_sys\<close>, a function of
  how much has happened; what happens to sockets and timers is recorded in \<open>cn_trace\<close>. The timers
  set with \<open>runAfter\<close> are their delays in milliseconds: the loop may run any of them. The new
  connection callback is the argument \<open>cb\<close>. Undefined behaviour is \<^term>\<open>None\<close>, and so is
  destroying a channel the poller still refers to.
\<close>

datatype cn_state = cnDisconnected | cnConnecting | cnConnected

text \<open>The functors and handlers are those of a connector and of the client that owns it.\<close>

datatype cl_functor = StartInLoop | ResetChannel | ConnDestroyed nat | ReplaceCloseCallback nat

datatype cl_handler = CnWrite | CnError | CnWakeup

datatype cn_event = Opened int | Closed int | Handed int | ErrorRead int | RetryAfter int | Restarted

record cn_sys =
  sys_socket :: "nat \<Rightarrow> int"
  sys_connect :: "nat \<Rightarrow> int"
  sys_soerror :: "nat \<Rightarrow> int + int"
  sys_local :: "nat \<Rightarrow> sockaddr_in6 option"
  sys_peer :: "nat \<Rightarrow> sockaddr_in6 option"

record connector =
  cn_serverAddr :: sockaddr_in
  cn_connect :: bool
  cn_state :: cn_state
  cn_channel :: "nat option"
  cn_retryDelayMs :: int
  cn_timers :: "int list"
  cn_nextChannel :: nat
  cn_sys :: cn_sys
  cn_trace :: "cn_event list"

type_synonym cl_loop = "(cl_functor, cl_handler) evloop"
type_synonym 'a cn_world = "cl_loop \<times> 'a connector_scheme"

definition kMaxRetryDelayMs :: int where "kMaxRetryDelayMs = 30 * 1000"
definition kInitRetryDelayMs :: int where "kInitRetryDelayMs = 500"

definition new_connector :: "sockaddr_in \<Rightarrow> nat \<Rightarrow> cn_sys \<Rightarrow> connector" where
  "new_connector serverAddr ch sys = \<lparr>cn_serverAddr = serverAddr, cn_connect = False, cn_state = cnDisconnected,
     cn_channel = None, cn_retryDelayMs = kInitRetryDelayMs, cn_timers = [], cn_nextChannel = ch, cn_sys = sys,
     cn_trace = []\<rparr>"

definition cn_setState :: "cn_state \<Rightarrow> 'a cn_world \<Rightarrow> 'a cn_world" where
  "cn_setState st w = apsnd (\<lambda>c. c\<lparr>cn_state := st\<rparr>) w"

definition record_event :: "cn_event \<Rightarrow> 'a cn_world \<Rightarrow> 'a cn_world" where
  "record_event e w = apsnd (\<lambda>c. c\<lparr>cn_trace := cn_trace c @ [e]\<rparr>) w"

text \<open>The kernel's answer at this moment.\<close>

definition answer_now :: "(cn_sys \<Rightarrow> nat \<Rightarrow> 'b) \<Rightarrow> 'a cn_world \<Rightarrow> 'b" where
  "answer_now f w = f (cn_sys (snd w)) (length (cn_trace (snd w)))"

text \<open>Destroying the channel object \<open>_channel\<close> owns.\<close>

definition destroy_channel :: "'a cn_world \<Rightarrow> 'a cn_world option" where
  "destroy_channel w = (case cn_channel (snd w) of
     None \<Rightarrow> Some w
   | Some ch \<Rightarrow> if el_hasChannel ch (fst w) then None
                else Some (apsnd (\<lambda>c. c\<lparr>cn_channel := None\<rparr>) w))"

definition resetChannel :: "'a cn_world \<Rightarrow> 'a cn_world option" where
  "resetChannel w = destroy_channel w"

section \<open>Connecting\<close>

definition connecting :: "int \<Rightarrow> 'a cn_world \<Rightarrow> 'a cn_world option" where
  "connecting sockfd w = do {
     (el, c) \<leftarrow> destroy_channel (cn_setState cnConnecting w);
     let ch = cn_nextChannel c;
     el \<leftarrow> enableWriting ch
       (el\<lparr>el_chans := (el_chans el)(ch := setErrorCallback CnError (setWriteCallback CnWrite (new_channel sockfd)))\<rparr>);
     Some (el, c\<lparr>cn_channel := Some ch, cn_nextChannel := ch + 1\<rparr>)
   }"

definition retry :: "int \<Rightarrow> 'a cn_world \<Rightarrow> 'a cn_world" where
  "retry sockfd w =
     (let w = cn_setState cnDisconnected (record_event (Closed sockfd) w); c = snd w
      in if cn_connect c
         then apsnd (\<lambda>c. c\<lparr>cn_timers := cn_timers c @ [cn_retryDelayMs c],
                           cn_retryDelayMs := min (cn_retryDelayMs c * 2) kMaxRetryDelayMs\<rparr>)
                (record_event (RetryAfter (cn_retryDelayMs c)) w)
         else w)"

datatype errno = E0 | EINPROGRESS | EINTR | EISCONN | EAGAIN | EADDRINUSE | EADDRNOTAVAIL | ECONNREFUSED
  | ENETUNREACH | OtherErrno int

fun errno_of :: "int \<Rightarrow> errno" where
  "errno_of e = (if e = 0 then E0 else if e = 115 then EINPROGRESS else if e = 4 then EINTR
     else if e = 106 then EISCONN else if e = 11 then EAGAIN else if e = 98 then EADDRINUSE
     else if e = 99 then EADDRNOTAVAIL else if e = 111 then ECONNREFUSED
     else if e = 101 then ENETUNREACH else OtherErrno e)"

definition connector_connect :: "'a cn_world \<Rightarrow> 'a cn_world option" where
  "connector_connect w = do {
     sock \<leftarrow> createNonblockingOrDie (answer_now sys_socket w);
     let sockfd = so_fd sock;
     let w = record_event (Opened sockfd) w;
     (if errno_of (answer_now sys_connect w) \<in> {E0, EINPROGRESS, EINTR, EISCONN} then connecting sockfd w
      else if errno_of (answer_now sys_connect w) \<in> {EAGAIN, EADDRINUSE, EADDRNOTAVAIL, ECONNREFUSED, ENETUNREACH}
      then Some (retry sockfd w)
      else Some (record_event (Closed sockfd) w))
   }"

definition startInLoop :: "'a cn_world \<Rightarrow> 'a cn_world option" where
  "startInLoop w = (if cn_connect (snd w) then connector_connect w else Some w)"

definition set_connect :: "bool \<Rightarrow> 'a cn_world \<Rightarrow> 'a cn_world" where
  "set_connect b w = apsnd (\<lambda>c. c\<lparr>cn_connect := b\<rparr>) w"

definition connector_start :: "int \<Rightarrow> 'a cn_world \<Rightarrow> 'a cn_world option" where
  "connector_start tid w = runInLoop (\<lambda>_. startInLoop) tid StartInLoop (set_connect True w)"

definition restart :: "'a cn_world \<Rightarrow> 'a cn_world option" where
  "restart w = startInLoop (set_connect True (apsnd (\<lambda>c. c\<lparr>cn_retryDelayMs := kInitRetryDelayMs\<rparr>)
     (record_event Restarted (cn_setState cnDisconnected w))))"

text \<open>\<open>stop\<close> queues \<open>startInLoop\<close>; \<open>stopInLoop\<close> is never called.\<close>

definition connector_stop :: "int \<Rightarrow> 'a cn_world \<Rightarrow> 'a cn_world" where
  "connector_stop tid w = apfst (queueInLoop tid StartInLoop) (set_connect False w)"

section \<open>The channel's events\<close>

definition removeAndResetChannel :: "'a cn_world \<Rightarrow> (int \<times> 'a cn_world) option" where
  "removeAndResetChannel w = do {
     ch \<leftarrow> cn_channel (snd w);
     el \<leftarrow> disableAll ch (fst w);
     el \<leftarrow> el_removeChannel ch el;
     Some (ch_fd (el_chans el ch), apfst (queueInLoop (el_threadId el) ResetChannel) (el, snd w))
   }"

definition stopInLoop :: "'a cn_world \<Rightarrow> 'a cn_world option" where
  "stopInLoop w =
     (if cn_state (snd w) = cnConnecting then do {
        (sockfd, w) \<leftarrow> removeAndResetChannel (cn_setState cnDisconnected w);
        Some (retry sockfd w)
      } else Some w)"

definition cn_handleWrite :: "(int \<Rightarrow> 'a cn_world \<Rightarrow> 'a cn_world option) \<Rightarrow> 'a cn_world \<Rightarrow> 'a cn_world option" where
  "cn_handleWrite cb w =
     (if cn_state (snd w) = cnConnecting then do {
        (sockfd, w) \<leftarrow> removeAndResetChannel w;
        (if getSocketError (answer_now sys_soerror w) \<noteq> 0 then Some (retry sockfd w)
         else if isSelfConnect (answer_now sys_local w) (answer_now sys_peer w) then Some (retry sockfd w)
         else (let w = cn_setState cnConnected w
               in if cn_connect (snd w) then cb sockfd (record_event (Handed sockfd) w)
                  else Some (record_event (Closed sockfd) w)))
      } else Some w)"

text \<open>The error is read and dropped: neither \<open>retry\<close> nor \<open>close\<close> follows.\<close>

definition cn_handleError :: "'a cn_world \<Rightarrow> 'a cn_world option" where
  "cn_handleError w =
     (if cn_state (snd w) = cnConnecting then do {
        (sockfd, w) \<leftarrow> removeAndResetChannel w;
        Some (record_event (ErrorRead sockfd) w)
      } else Some w)"

fun cn_call :: "(int \<Rightarrow> 'a cn_world \<Rightarrow> 'a cn_world option) \<Rightarrow> cl_handler invocation \<Rightarrow> 'a cn_world \<Rightarrow> 'a cn_world option" where
  "cn_call cb (Call CnWrite) w = cn_handleWrite cb w"
| "cn_call cb (Call CnError) w = cn_handleError w"
| "cn_call cb (ReadCall CnWakeup t) w = Some (apfst el_handleRead w)"
| "cn_call cb _ w = None"

section \<open>Runs\<close>

text \<open>
  The loop runs the first functor of its queue, a timer, or the handlers of the connector's
  registered channel; the owner starts, stops and restarts. What else the owner does is the
  relation \<open>own\<close>, its functors are run by \<open>run\<close>.
\<close>

fun cn_exec :: "(cl_functor \<Rightarrow> 'a cn_world \<Rightarrow> 'a cn_world option) \<Rightarrow> cl_functor \<Rightarrow> 'a cn_world \<Rightarrow> 'a cn_world option" where
  "cn_exec run StartInLoop w = startInLoop w"
| "cn_exec run ResetChannel w = resetChannel w"
| "cn_exec run f w = run f w"

definition fire_timer :: "nat \<Rightarrow> 'a cn_world \<Rightarrow> 'a cn_world option" where
  "fire_timer i w = startInLoop (apsnd (\<lambda>c. c\<lparr>cn_timers := take i (cn_timers c) @ drop (Suc i) (cn_timers c)\<rparr>) w)"

definition cn_dispatch ::
  "(int \<Rightarrow> 'a cn_world \<Rightarrow> 'a cn_world option) \<Rightarrow> nat \<Rightarrow> events \<Rightarrow> 'a cn_world \<Rightarrow> 'a cn_world option" where
  "cn_dispatch cb ch r w = dispatch (cn_call cb) (\<lambda>_ _. True) ch
     (apfst (\<lambda>el. el\<lparr>el_chans := (el_chans el)(ch := set_revents r (el_chans el ch))\<rparr>) w)"

inductive cn_step ::
  "(int \<Rightarrow> 'a cn_world \<Rightarrow> 'a cn_world option) \<Rightarrow> (cl_functor \<Rightarrow> 'a cn_world \<Rightarrow> 'a cn_world option)
    \<Rightarrow> ('a cn_world \<Rightarrow> 'a cn_world \<Rightarrow> bool) \<Rightarrow> 'a cn_world \<Rightarrow> 'a cn_world \<Rightarrow> bool" for cb run own where
  step_start: "connector_start tid w = Some w' \<Longrightarrow> cn_step cb run own w w'"
| step_stop: "cn_step cb run own w (connector_stop tid w)"
| step_restart: "restart w = Some w' \<Longrightarrow> cn_step cb run own w w'"
| step_run: "el_pending el = f # fs \<Longrightarrow> cn_exec run f (el\<lparr>el_pending := fs\<rparr>, c) = Some w' \<Longrightarrow>
    cn_step cb run own (el, c) w'"
| step_timer: "i < length (cn_timers (snd w)) \<Longrightarrow> fire_timer i w = Some w' \<Longrightarrow> cn_step cb run own w w'"
| step_event: "cn_channel (snd w) = Some ch \<Longrightarrow> el_hasChannel ch (fst w) \<Longrightarrow> cn_dispatch cb ch r w = Some w' \<Longrightarrow>
    cn_step cb run own w w'"
| step_own: "own w w' \<Longrightarrow> cn_step cb run own w w'"

definition cn_init :: "'a cn_world \<Rightarrow> bool" where
  "cn_init w \<longleftrightarrow> cn_channel (snd w) = None \<and> cn_trace (snd w) = [] \<and> cn_retryDelayMs (snd w) = kInitRetryDelayMs"

definition cn_reach ::
  "(int \<Rightarrow> 'a cn_world \<Rightarrow> 'a cn_world option) \<Rightarrow> (cl_functor \<Rightarrow> 'a cn_world \<Rightarrow> 'a cn_world option)
    \<Rightarrow> ('a cn_world \<Rightarrow> 'a cn_world \<Rightarrow> bool) \<Rightarrow> 'a cn_world \<Rightarrow> bool" where
  "cn_reach cb run own w \<longleftrightarrow> (\<exists>w0. cn_init w0 \<and> (cn_step cb run own)\<^sup>*\<^sup>* w0 w)"

section \<open>What the trace says\<close>

text \<open>The sockets that are open and the connector's: closing or handing over any other is an error.\<close>

fun socket_step :: "cn_event \<Rightarrow> int list \<Rightarrow> int list option" where
  "socket_step (Opened fd) held = Some (fd # held)"
| "socket_step (Closed fd) held = (if fd \<in> set held then Some (remove1 fd held) else None)"
| "socket_step (Handed fd) held = (if fd \<in> set held then Some (remove1 fd held) else None)"
| "socket_step _ held = Some held"

definition sockets_held :: "cn_event list \<Rightarrow> int list option" where
  "sockets_held tr = bind_fold socket_step tr []"

text \<open>The delays since the last restart.\<close>

fun delay_step :: "cn_event \<Rightarrow> int list \<Rightarrow> int list" where
  "delay_step (RetryAfter d) ds = ds @ [d]"
| "delay_step Restarted ds = []"
| "delay_step _ ds = ds"

definition delays :: "cn_event list \<Rightarrow> int list" where
  "delays tr = fold delay_step tr []"

definition backoff :: "nat \<Rightarrow> int" where
  "backoff k = min (500 * 2 ^ k) 30000"

lemma sockets_held_simps [simp]:
  "sockets_held [] = Some []" "sockets_held (tr @ [e]) = sockets_held tr \<bind> socket_step e"
  by (simp_all add: sockets_held_def bind_fold_append)

lemma delays_simps [simp]: "delays [] = []" "delays (tr @ [e]) = delay_step e (delays tr)"
  by (simp_all add: delays_def)

lemma backoff_Suc: "min (backoff k * 2) kMaxRetryDelayMs = backoff (Suc k)"
  by (simp add: backoff_def kMaxRetryDelayMs_def)

definition backoff_ok :: "'a connector_scheme \<Rightarrow> bool" where
  "backoff_ok c \<longleftrightarrow> delays (cn_trace c) = map backoff [0..<length (delays (cn_trace c))]
     \<and> cn_retryDelayMs c = backoff (length (delays (cn_trace c)))"

definition connector_channel :: "cl_handler channel \<Rightarrow> bool" where
  "connector_channel c \<longleftrightarrow> ch_writeCallback c = Some CnWrite \<and> ch_errorCallback c = Some CnError
     \<and> ch_readCallback c = None \<and> ch_closeCallback c = None \<and> \<not> ch_tied c"

text \<open>The socket of channel \<open>ch\<close> is still the connector's.\<close>

definition holds_socket :: "nat \<Rightarrow> 'a cn_world \<Rightarrow> bool" where
  "holds_socket ch w \<longleftrightarrow> (\<exists>held. sockets_held (cn_trace (snd w)) = Some held \<and> ch_fd (el_chans (fst w) ch) \<in> set held)
     \<and> connector_channel (el_chans (fst w) ch)"

definition cn_inv :: "'a cn_world \<Rightarrow> bool" where
  "cn_inv w \<longleftrightarrow> sockets_held (cn_trace (snd w)) \<noteq> None \<and> backoff_ok (snd w)
     \<and> (\<forall>ch. cn_channel (snd w) = Some ch \<and> el_hasChannel ch (fst w) \<longrightarrow> holds_socket ch w)"

section \<open>Every operation keeps the invariant\<close>

lemma poller_remove_forgets:
  assumes "poller_removeChannel ch (cs, p) = Some (cs', p')"
  shows "poller_channels p' (ch_fd (cs ch)) = None"
proof (cases p)
  case (Epoll q)
  with assms show ?thesis
    by (auto simp: poller_defs epoll_removeChannel_def epoll_update_def Let_def split: if_splits)
next
  case (Poll q)
  with assms show ?thesis
    by (auto simp: poller_defs poll_removeChannel_def Let_def split: if_splits option.splits)
qed

text \<open>An update or a removal leaves descriptors and callbacks of all channels alone.\<close>

definition same_channels :: "cl_loop \<Rightarrow> cl_loop \<Rightarrow> bool" where
  "same_channels el el' \<longleftrightarrow> (\<forall>c. ch_fd (el_chans el' c) = ch_fd (el_chans el c)
     \<and> connector_channel (el_chans el' c) = connector_channel (el_chans el c))"

lemma same_channels_index:
  assumes "same_but_index cs (el_chans el')" and "\<And>c. \<exists>e. cs c = (el_chans el c)\<lparr>ch_events := e\<rparr>"
  shows "same_channels el el'"
  unfolding same_channels_def
proof
  fix c
  obtain i e where "el_chans el' c = set_index i (cs c)" "cs c = (el_chans el c)\<lparr>ch_events := e\<rparr>"
    using assms unfolding same_but_index_def by blast
  then show "ch_fd (el_chans el' c) = ch_fd (el_chans el c) \<and>
      connector_channel (el_chans el' c) = connector_channel (el_chans el c)"
    by (simp add: set_index_def connector_channel_def)
qed

lemma keeps_events: "\<exists>e. x = x\<lparr>ch_events := e\<rparr>"
  by (rule exI [of _ "ch_events x"]) simp

lemma set_interest_same: "set_interest m ch el = Some el' \<Longrightarrow> same_channels el el'"
proof -
  assume "set_interest m ch el = Some el'"
  then have "same_but_index (put_events (m (ch_events (el_chans el ch))) ch (el_chans el)) (el_chans el')"
    by (auto simp: set_interest_def el_updateChannel_def split: Option.bind_splits dest: poller_if.upd_keeps)
  then show ?thesis
    by (rule same_channels_index) (auto simp: put_events_def keeps_events)
qed

lemma removeChannel_same: "el_removeChannel ch el = Some el' \<Longrightarrow> same_channels el el'"
proof -
  assume "el_removeChannel ch el = Some el'"
  then have "same_but_index (el_chans el) (el_chans el')"
    by (auto simp: el_removeChannel_def split: Option.bind_splits dest: poller_if.rem_keeps)
  then show ?thesis
    by (rule same_channels_index) (rule keeps_events)
qed

lemma removeChannel_gone:
  fixes el :: cl_loop
  assumes r: "el_removeChannel ch el = Some el'"
  shows "\<not> el_hasChannel ch el'"
proof -
  have "ch_fd (el_chans el' ch) = ch_fd (el_chans el ch)"
    using removeChannel_same [OF r] by (simp add: same_channels_def)
  with r show ?thesis
    by (auto simp: el_removeChannel_def el_hasChannel_def hasChannel_eq split: Option.bind_splits
        dest: poller_remove_forgets)
qed

lemma same_channels_trans: "same_channels a b \<Longrightarrow> same_channels b c \<Longrightarrow> same_channels a c"
  by (simp add: same_channels_def)

lemma queue_channels [simp]:
  "el_chans (queueInLoop tid f el) = el_chans el" "el_hasChannel ch (queueInLoop tid f el) = el_hasChannel ch el"
  by (simp_all add: queueInLoop_def wakeup_def Let_def el_hasChannel_def)

lemma holds_socket_queue [simp]: "holds_socket ch (queueInLoop tid f el, c) = holds_socket ch (el, c)"
  by (simp add: holds_socket_def)

lemma cn_inv_queue [simp]: "cn_inv (queueInLoop tid f el, c) = cn_inv (el, c)"
  by (simp add: cn_inv_def)

text \<open>Changes the invariant does not see.\<close>

lemma cn_inv_cong:
  assumes "cn_trace c' = cn_trace c" and "cn_channel c' = cn_channel c" and "cn_retryDelayMs c' = cn_retryDelayMs c"
    and "el_chans el' = el_chans el" and "el_poller el' = el_poller el"
  shows "cn_inv (el', c') = cn_inv (el, c)"
  using assms by (simp add: cn_inv_def backoff_ok_def holds_socket_def el_hasChannel_def)

text \<open>The socket leaves the connector, or the attempt is repeated later: no channel is registered then.\<close>

definition released :: "int \<Rightarrow> 'a cn_world \<Rightarrow> bool" where
  "released fd w \<longleftrightarrow> (\<exists>held. sockets_held (cn_trace (snd w)) = Some held \<and> fd \<in> set held) \<and> backoff_ok (snd w)
     \<and> (\<forall>ch. cn_channel (snd w) = Some ch \<and> el_hasChannel ch (fst w) \<longrightarrow>
          connector_channel (el_chans (fst w) ch)
          \<and> (\<exists>held. sockets_held (cn_trace (snd w)) = Some held \<and> ch_fd (el_chans (fst w) ch) \<in> set (remove1 fd held)))"

lemma let_go_inv:
  assumes "released fd w" and "e = Closed fd \<or> e = Handed fd"
  shows "cn_inv (record_event e w)"
  using assms by (cases w) (auto simp: released_def cn_inv_def record_event_def backoff_ok_def holds_socket_def)

lemma event_inv:
  assumes "cn_inv w" and "delay_step e = id" and "socket_step e = Some"
  shows "cn_inv (record_event e w)"
  using assms by (cases w) (auto simp: cn_inv_def record_event_def backoff_ok_def holds_socket_def)

lemma state_inv [simp]: "cn_inv (cn_setState st w) = cn_inv w"
proof (cases w)
  case (Pair el c)
  show ?thesis unfolding Pair cn_setState_def apsnd_conv by (rule cn_inv_cong) simp_all
qed

lemma backoff_ok_next:
  assumes "backoff_ok c"
  shows "backoff_ok (c\<lparr>cn_trace := cn_trace c @ [RetryAfter (cn_retryDelayMs c)], cn_timers := ts,
      cn_retryDelayMs := min (cn_retryDelayMs c * 2) kMaxRetryDelayMs\<rparr>)"
proof -
  define ds n where "ds = delays (cn_trace c)" and "n = length ds"
  have c: "ds = map backoff [0..<n]" "cn_retryDelayMs c = backoff n"
    using assms unfolding backoff_ok_def ds_def n_def by blast+
  let ?c = "c\<lparr>cn_trace := cn_trace c @ [RetryAfter (cn_retryDelayMs c)], cn_timers := ts,
      cn_retryDelayMs := min (cn_retryDelayMs c * 2) kMaxRetryDelayMs\<rparr>"
  have d: "delays (cn_trace ?c) = ds @ [backoff n]" and l: "length (ds @ [backoff n]) = Suc n"
    by (simp_all add: ds_def c(2) n_def)
  have r: "cn_retryDelayMs ?c = backoff (Suc n)" by (simp add: c(2) backoff_Suc)
  have "ds @ [backoff n] = map backoff ([0..<n] @ [n])" using c(1) by (simp only: map_append list.map)
  then have "ds @ [backoff n] = map backoff [0..<Suc n]" by (simp only: upt_Suc_append le0)
  then show ?thesis unfolding backoff_ok_def d l r by blast
qed

lemma retry_inv:
  assumes "released fd w"
  shows "cn_inv (retry fd w)"
proof -
  define w1 where "w1 = cn_setState cnDisconnected (record_event (Closed fd) w)"
  have 1: "cn_inv w1" using let_go_inv [OF assms] by (simp add: w1_def)
  obtain el c where w: "w1 = (el, c)" by (cases w1)
  have "cn_inv (el, c\<lparr>cn_trace := cn_trace c @ [RetryAfter (cn_retryDelayMs c)],
      cn_timers := cn_timers c @ [cn_retryDelayMs c],
      cn_retryDelayMs := min (cn_retryDelayMs c * 2) kMaxRetryDelayMs\<rparr>)"
    using 1 backoff_ok_next [of c] by (auto simp: w cn_inv_def holds_socket_def)
  with 1 show ?thesis
    unfolding retry_def w1_def [symmetric] Let_def w by (simp add: record_event_def)
qed

text \<open>The channel of an attempt is taken out; its socket is still to be dealt with.\<close>

lemma removeAndReset_ok:
  assumes "removeAndResetChannel w = Some (fd, w')" and "cn_channel (snd w) = Some ch"
    and "holds_socket ch w" and "cn_inv w"
  shows "released fd w'" "cn_channel (snd w') = Some ch" "holds_socket ch w'" "cn_inv w'"
    "\<not> el_hasChannel ch (fst w')" "snd w' = snd w"
proof -
  obtain el c where w: "w = (el, c)" by (cases w)
  have ch: "cn_channel c = Some ch" using assms(2) by (simp add: w)
  obtain el1 el2 where 1: "disableAll ch el = Some el1" "el_removeChannel ch el1 = Some el2"
      "fd = ch_fd (el_chans el2 ch)" "w' = (queueInLoop (el_threadId el2) ResetChannel el2, c)"
    using assms(1) ch by (auto simp: w removeAndResetChannel_def split: Option.bind_splits)
  have "same_channels el el2"
    by (rule same_channels_trans [OF set_interest_same [OF 1(1) [unfolded disableAll_def]] removeChannel_same [OF 1(2)]])
  then have h: "holds_socket ch (el2, c)" "fd = ch_fd (el_chans el ch)"
    using assms(3) 1(3) by (simp_all add: holds_socket_def same_channels_def w)
  have gone: "\<not> el_hasChannel ch el2" by (rule removeChannel_gone [OF 1(2)])
  show "holds_socket ch w'" "\<not> el_hasChannel ch (fst w')" "snd w' = snd w" "cn_channel (snd w') = Some ch"
    using h(1) gone ch by (simp_all add: 1(4) w)
  show "cn_inv w'" "released fd w'"
    using assms(4) h gone ch by (auto simp: 1(4) w cn_inv_def released_def holds_socket_def 1(3) [symmetric])
qed

lemma destroy_channel_inv:
  assumes "destroy_channel w = Some w'" and "cn_inv w"
  shows "cn_inv w'" "cn_channel (snd w') = None" "fst w' = fst w" "cn_trace (snd w') = cn_trace (snd w)"
  using assms by (cases w; auto simp: destroy_channel_def cn_inv_def backoff_ok_def split: option.splits if_splits)+

text \<open>A new attempt on a socket just opened.\<close>

lemma connecting_inv:
  assumes "connecting fd w = Some w'" and "cn_inv w" and "sockets_held (cn_trace (snd w)) = Some (fd # held)"
  shows "cn_inv w'"
proof -
  obtain el c where 1: "destroy_channel (cn_setState cnConnecting w) = Some (el, c)"
    using assms(1) by (auto simp: connecting_def split: Option.bind_splits)
  have "cn_inv (cn_setState cnConnecting w)" using assms(2) by simp
  note D = destroy_channel_inv [OF 1 this]
  let ?ch = "cn_nextChannel c"
  let ?el = "el\<lparr>el_chans := (el_chans el)(?ch := setErrorCallback CnError (setWriteCallback CnWrite (new_channel fd)))\<rparr>"
  obtain el' where 2: "enableWriting ?ch ?el = Some el'" "w' = (el', c\<lparr>cn_channel := Some ?ch, cn_nextChannel := ?ch + 1\<rparr>)"
    using assms(1) 1 by (auto simp: connecting_def Let_def split: Option.bind_splits)
  have "same_channels ?el el'" by (rule set_interest_same [OF 2(1) [unfolded enableWriting_def]])
  then have "ch_fd (el_chans el' ?ch) = fd" "connector_channel (el_chans el' ?ch)"
    by (simp_all add: same_channels_def connector_channel_def setErrorCallback_def setWriteCallback_def new_channel_def)
  moreover have "cn_trace c = cn_trace (snd w)" using D(4) by (cases w) (simp add: cn_setState_def)
  ultimately show ?thesis
    using D(1) assms(3) by (simp add: 2(2) cn_inv_def backoff_ok_def holds_socket_def)
qed

lemma opened_inv:
  assumes "cn_inv w"
  obtains held where "cn_inv (record_event (Opened fd) w)"
    and "sockets_held (cn_trace (snd (record_event (Opened fd) w))) = Some (fd # held)"
    and "released fd (record_event (Opened fd) w)"
proof -
  obtain held where h: "sockets_held (cn_trace (snd w)) = Some held" using assms by (auto simp: cn_inv_def)
  have "cn_inv (record_event (Opened fd) w)" "released fd (record_event (Opened fd) w)"
    using assms h by (cases w; auto simp: cn_inv_def released_def record_event_def backoff_ok_def holds_socket_def)+
  moreover have "sockets_held (cn_trace (snd (record_event (Opened fd) w))) = Some (fd # held)"
    using h by (cases w) (simp add: record_event_def)
  ultimately show ?thesis using that by blast
qed

lemma connect_inv:
  assumes "connector_connect w = Some w'" and "cn_inv w"
  shows "cn_inv w'"
proof -
  obtain fd where 1: "so_fd (the (createNonblockingOrDie (answer_now sys_socket w))) = fd" by blast
  let ?w = "record_event (Opened fd) w"
  obtain held where 2: "cn_inv ?w" "sockets_held (cn_trace (snd ?w)) = Some (fd # held)" "released fd ?w"
    by (rule opened_inv [OF assms(2)])
  from assms(1) 1 have "connecting fd ?w = Some w' \<or> w' = retry fd ?w \<or> w' = record_event (Closed fd) ?w"
    by (auto simp: connector_connect_def Let_def split: Option.bind_splits if_splits)
  with 2 connecting_inv retry_inv let_go_inv show ?thesis by blast
qed

lemma cn_inv_update [simp]: "cn_inv (set_connect b w) = cn_inv w"
proof (cases w)
  case (Pair el c)
  show ?thesis unfolding Pair set_connect_def apsnd_conv by (rule cn_inv_cong) simp_all
qed

lemma startInLoop_inv: "startInLoop w = Some w' \<Longrightarrow> cn_inv w \<Longrightarrow> cn_inv w'"
  by (auto simp: startInLoop_def connect_inv split: if_splits)

lemma start_inv: "connector_start tid w = Some w' \<Longrightarrow> cn_inv w \<Longrightarrow> cn_inv w'"
  by (cases "set_connect True w")
    (auto simp: connector_start_def runInLoop_def dest: startInLoop_inv split: if_splits
      simp flip: cn_inv_update [of True w])

lemma stop_inv: "cn_inv w \<Longrightarrow> cn_inv (connector_stop tid w)"
proof -
  assume "cn_inv w"
  then have "cn_inv (set_connect False w)" by simp
  then show ?thesis unfolding connector_stop_def by (cases "set_connect False w") simp
qed

lemma restart_inv:
  assumes "restart w = Some w'" and "cn_inv w"
  shows "cn_inv w'"
proof -
  define w1 where "w1 = apsnd (\<lambda>c. c\<lparr>cn_retryDelayMs := kInitRetryDelayMs\<rparr>) (record_event Restarted (cn_setState cnDisconnected w))"
  obtain el c where w: "cn_setState cnDisconnected w = (el, c)" by (cases "cn_setState cnDisconnected w")
  have "cn_inv (el, c)" using assms(2) by (simp flip: w)
  then have "cn_inv w1"
    by (auto simp: w1_def w record_event_def cn_inv_def backoff_ok_def holds_socket_def backoff_def kInitRetryDelayMs_def)
  then have "cn_inv (set_connect True w1)" by simp
  moreover have "startInLoop (set_connect True w1) = Some w'" using assms(1) by (simp add: restart_def w1_def)
  ultimately show ?thesis by (rule startInLoop_inv [rotated])
qed

lemma resetChannel_inv: "resetChannel w = Some w' \<Longrightarrow> cn_inv w \<Longrightarrow> cn_inv w'"
  by (simp add: resetChannel_def destroy_channel_inv(1))

lemma handleError_inv:
  assumes "cn_handleError w = Some w'" and "cn_channel (snd w) = Some ch" and "holds_socket ch w" and "cn_inv w"
  shows "cn_inv w' \<and> cn_channel (snd w') = Some ch \<and> holds_socket ch w'"
proof (cases "cn_state (snd w) = cnConnecting")
  case True
  with assms(1) obtain fd w1 where 1: "removeAndResetChannel w = Some (fd, w1)" "w' = record_event (ErrorRead fd) w1"
    by (auto simp: cn_handleError_def split: Option.bind_splits)
  note R = removeAndReset_ok [OF 1(1) assms(2-4)]
  have "delay_step (ErrorRead fd) = id" "socket_step (ErrorRead fd) = Some" by (rule ext, simp)+
  with R(4) have "cn_inv w'" unfolding 1(2) by (rule event_inv)
  moreover have "cn_channel (snd w') = Some ch" "holds_socket ch w'"
    using R(2,3) by (cases w1; auto simp: 1(2) record_event_def holds_socket_def)+
  ultimately show ?thesis by blast
qed (use assms in \<open>simp add: cn_handleError_def\<close>)

text \<open>The contract of the connector's owner: what it does keeps the connector's invariant.\<close>

locale connector_owner =
  fixes cb :: "int \<Rightarrow> 'a cn_world \<Rightarrow> 'a cn_world option"
    and run :: "cl_functor \<Rightarrow> 'a cn_world \<Rightarrow> 'a cn_world option"
    and own :: "'a cn_world \<Rightarrow> 'a cn_world \<Rightarrow> bool"
  assumes cb_keeps: "cb fd w = Some w' \<Longrightarrow> cn_inv w \<Longrightarrow> cn_inv w'"
    and run_keeps: "run f w = Some w' \<Longrightarrow> cn_inv w \<Longrightarrow> cn_inv w'"
    and own_keeps: "own w w' \<Longrightarrow> cn_inv w \<Longrightarrow> cn_inv w'"
begin

lemma handleWrite_inv:
  assumes "cn_handleWrite cb w = Some w'" and "cn_channel (snd w) = Some ch" and "holds_socket ch w" and "cn_inv w"
  shows "cn_inv w'"
proof (cases "cn_state (snd w) = cnConnecting")
  case True
  with assms(1) obtain fd w1 where 1: "removeAndResetChannel w = Some (fd, w1)"
    and 2: "w' = retry fd w1 \<or> cb fd (record_event (Handed fd) (cn_setState cnConnected w1)) = Some w'
      \<or> w' = record_event (Closed fd) (cn_setState cnConnected w1)"
    by (auto simp: cn_handleWrite_def Let_def split: Option.bind_splits if_splits)
  have r: "released fd w1" by (rule removeAndReset_ok(1) [OF 1 assms(2-4)])
  moreover have "released fd (cn_setState cnConnected w1)"
    using r by (cases w1) (simp add: cn_setState_def released_def backoff_ok_def)
  ultimately show ?thesis
    using 2 retry_inv [of fd w1] let_go_inv [of fd "cn_setState cnConnected w1"] cb_keeps by blast
qed (use assms in \<open>simp add: cn_handleWrite_def\<close>)

lemma dispatch_inv:
  assumes "cn_dispatch cb ch r w = Some w'" and "cn_channel (snd w) = Some ch" and "el_hasChannel ch (fst w)" and "cn_inv w"
  shows "cn_inv w'"
proof -
  obtain el c where w: "w = (el, c)" by (cases w)
  let ?w = "(el\<lparr>el_chans := (el_chans el)(ch := set_revents r (el_chans el ch)), el_current := Some ch\<rparr>, c)"
  have h: "holds_socket ch w" using assms(2-4) by (simp add: cn_inv_def)
  have cc: "connector_channel (el_chans el ch)" using h by (simp add: holds_socket_def w)
  have h': "holds_socket ch ?w"
    using h by (simp add: holds_socket_def w set_revents_def connector_channel_def)
  have i': "cn_inv ?w"
    using assms(2,4) h' by (simp add: cn_inv_def w)
  have ch': "cn_channel (snd ?w) = Some ch" using assms(2) by (simp add: w)
  define a b where "a \<longleftrightarrow> r AND EPOLLERR \<noteq> 0" and "b \<longleftrightarrow> r AND EPOLLOUT \<noteq> 0"
  have "handleEvent (\<lambda>_. True) (el_pollReturnTime el) (set_revents r (el_chans el ch)) =
      (if a then [Call CnError] else []) @ (if b then [Call CnWrite] else [])"
    using cc unfolding connector_channel_def
    by (simp add: handleEvent_def handleEventWithGuard_def call_if_def read_if_def set_revents_def a_def b_def)
  then have run: "bind_fold (cn_call cb) ((if a then [Call CnError] else []) @ (if b then [Call CnWrite] else [])) ?w = Some w'"
    using assms(1) by (simp add: cn_dispatch_def dispatch_def w)
  obtain w1 where w1: "(if a then cn_handleError ?w else Some ?w) = Some w1"
    and rest: "(if b then cn_handleWrite cb w1 else Some w1) = Some w'"
    using run by (cases a; cases b) (auto split: Option.bind_splits)
  have "cn_inv w1 \<and> cn_channel (snd w1) = Some ch \<and> holds_socket ch w1"
    using w1 handleError_inv [OF _ ch' h' i'] ch' h' i' by (cases a) auto
  with rest handleWrite_inv [of w1 w' ch] show ?thesis by (cases b) auto
qed

lemma exec_inv: "cn_exec run f w = Some w' \<Longrightarrow> cn_inv w \<Longrightarrow> cn_inv w'"
  by (cases f; simp only: cn_exec.simps; blast intro: startInLoop_inv resetChannel_inv run_keeps)

lemma step_inv:
  assumes "cn_step cb run own w w'" and "cn_inv w"
  shows "cn_inv w'"
  using assms(1)
proof cases
  case (step_run el f fs c)
  have "cn_inv (el\<lparr>el_pending := fs\<rparr>, c)"
    using assms(2) cn_inv_cong [of c c "el\<lparr>el_pending := fs\<rparr>" el] step_run(1) by simp
  with step_run(3) show ?thesis by (rule exec_inv)
next
  case (step_timer i)
  obtain el c where w: "w = (el, c)" by (cases w)
  let ?c = "c\<lparr>cn_timers := take i (cn_timers c) @ drop (Suc i) (cn_timers c)\<rparr>"
  have "cn_inv (el, ?c)" using assms(2) cn_inv_cong [of ?c c el el] by (simp add: w)
  moreover have "startInLoop (el, ?c) = Some w'" using step_timer(2) by (simp add: fire_timer_def w)
  ultimately show ?thesis by (rule startInLoop_inv [rotated])
qed (use assms(2) start_inv stop_inv restart_inv dispatch_inv own_keeps in blast)+

lemma reach_inv: "cn_reach cb run own w \<Longrightarrow> cn_inv w"
proof -
  assume "cn_reach cb run own w"
  then obtain w0 where w0: "cn_init w0" "(cn_step cb run own)\<^sup>*\<^sup>* w0 w" by (auto simp: cn_reach_def)
  have "cn_inv w0"
    using w0(1) by (simp add: cn_init_def cn_inv_def backoff_ok_def backoff_def kInitRetryDelayMs_def)
  with w0(2) show ?thesis by (induction rule: rtranclp_induct) (auto intro: step_inv)
qed

text \<open>Every retry waits twice as long as the one before, up to the maximum.\<close>

lemma retries_back_off:
  assumes "cn_reach cb run own w"
  shows "delays (cn_trace (snd w)) = map backoff [0..<length (delays (cn_trace (snd w)))]"
  using reach_inv [OF assms] unfolding cn_inv_def backoff_ok_def by blast

lemma sockets_once:
  assumes "cn_reach cb run own w"
  shows "\<exists>held. sockets_held (cn_trace (snd w)) = Some held \<and>
    (\<forall>ch. cn_channel (snd w) = Some ch \<and> el_hasChannel ch (fst w) \<longrightarrow> ch_fd (el_chans (fst w) ch) \<in> set held)"
  using reach_inv [OF assms] unfolding cn_inv_def holds_socket_def by fastforce

end

end
