(* ===== verification/Tcp_Client.thy ===== *)
theory Tcp_Client
  imports Tcp_Connector
begin

text \<open>
  \<open>include/TcpClient.h\<close> and \<open>net/TcpClient.cc\<close>: the client that owns a connector and the connection
  it opens. Its state extends the connector's. A connection is a number, its place in \<open>cl_conns\<close>;
  what it does is recorded in \<open>cl_log\<close>: it is taken up in \<open>newConnection\<close>, asked to shut down by
  \<open>disconnect\<close>, and taken down by the functor that \<open>removeConnection\<close> queues.
\<close>

datatype cl_event = ClUp nat | ClShutdown nat | ClDown nat

text \<open>Whose \<open>removeConnection\<close> is the close callback: the client's, or the free function after it is gone.\<close>

datatype close_cb = ClientRemoves | LoopRemoves

text \<open>Which of the user's callbacks are set; a connection gets what the client has then.\<close>

record client_cbs =
  cu_connection :: bool
  cu_message :: bool
  cu_writeComplete :: bool

record cl_conn =
  cc_name :: string
  cc_sockfd :: int
  cc_local :: sockaddr_in
  cc_peer :: sockaddr_in
  cc_callbacks :: client_cbs
  cc_close :: close_cb

record tcp_client = connector +
  cl_name :: string
  cl_callbacks :: client_cbs
  cl_retry :: bool
  cl_connect :: bool
  cl_nextConnId :: int
  cl_connection :: "nat option"
  cl_conns :: "cl_conn list"
  cl_log :: "cl_event list"

type_synonym cl_world = "cl_loop \<times> tcp_client"

text \<open>A null loop is fatal.\<close>

definition client_checkNotNull :: "cl_loop option \<Rightarrow> cl_loop option" where
  "client_checkNotNull loop = (case loop of None \<Rightarrow> None | Some el \<Rightarrow> Some el)"

definition new_client :: "cl_loop option \<Rightarrow> sockaddr_in \<Rightarrow> string \<Rightarrow> nat \<Rightarrow> cn_sys \<Rightarrow> cl_world option" where
  "new_client loop serverAddr name ch sys = do {
     el \<leftarrow> client_checkNotNull loop;
     Some (el, connector.extend (new_connector serverAddr ch sys)
       \<lparr>cl_name = name, cl_callbacks = \<lparr>cu_connection = False, cu_message = False, cu_writeComplete = False\<rparr>,
        cl_retry = False, cl_connect = True, cl_nextConnId = 1, cl_connection = None, cl_conns = [], cl_log = []\<rparr>)
   }"

definition client_setConnectionCallback :: "tcp_client \<Rightarrow> tcp_client" where
  "client_setConnectionCallback c = c\<lparr>cl_callbacks := (cl_callbacks c)\<lparr>cu_connection := True\<rparr>\<rparr>"

definition client_setMessageCallback :: "tcp_client \<Rightarrow> tcp_client" where
  "client_setMessageCallback c = c\<lparr>cl_callbacks := (cl_callbacks c)\<lparr>cu_message := True\<rparr>\<rparr>"

definition client_setWriteCompleteCallback :: "tcp_client \<Rightarrow> tcp_client" where
  "client_setWriteCompleteCallback c = c\<lparr>cl_callbacks := (cl_callbacks c)\<lparr>cu_writeComplete := True\<rparr>\<rparr>"

definition enableRetry :: "tcp_client \<Rightarrow> tcp_client" where
  "enableRetry c = c\<lparr>cl_retry := True\<rparr>"

definition connection :: "tcp_client \<Rightarrow> nat option" where
  "connection c = cl_connection c"

definition client_connect :: "int \<Rightarrow> cl_world \<Rightarrow> cl_world option" where
  "client_connect tid w = connector_start tid (apsnd (\<lambda>c. c\<lparr>cl_connect := True\<rparr>) w)"

text \<open>\<open>shutdown\<close> of the connection, which acts only while it is up.\<close>

definition disconnect :: "cl_world \<Rightarrow> cl_world" where
  "disconnect w = apsnd (\<lambda>c. case cl_connection c of
       None \<Rightarrow> c\<lparr>cl_connect := False\<rparr>
     | Some i \<Rightarrow> c\<lparr>cl_connect := False, cl_log := cl_log c @ [ClShutdown i]\<rparr>) w"

definition client_stop :: "int \<Rightarrow> cl_world \<Rightarrow> cl_world" where
  "client_stop tid w = connector_stop tid (apsnd (\<lambda>c. c\<lparr>cl_connect := False\<rparr>) w)"

text \<open>The name, cut to the 31 bytes of \<open>buf\<close>; counting past the largest \<open>int\<close> would be undefined.\<close>

definition client_conn_name :: "string \<Rightarrow> int \<Rightarrow> string \<Rightarrow> string" where
  "client_conn_name ipPort n name = name @ snprintf 32 ('':'' @ ipPort @ ''#'' @ dec_int n)"

definition client_newConnection :: "int \<Rightarrow> cl_world \<Rightarrow> cl_world option" where
  "client_newConnection sockfd w = do {
     let peerAddr = as_sockaddr_in (getPeerAddr (answer_now sys_peer w));
     ipPort \<leftarrow> toIpPort peerAddr;
     let c = snd w;
     let connName = client_conn_name ipPort (cl_nextConnId c) (cl_name c);
     let localAddr = as_sockaddr_in (getLocalAddr (answer_now sys_local w));
     let i = length (cl_conns c);
     (if cl_nextConnId c = 2 ^ 31 - 1 then None
      else Some (fst w, c\<lparr>cl_nextConnId := cl_nextConnId c + 1,
        cl_conns := cl_conns c @ [\<lparr>cc_name = connName, cc_sockfd = sockfd, cc_local = localAddr,
          cc_peer = peerAddr, cc_callbacks = cl_callbacks c, cc_close = ClientRemoves\<rparr>],
        cl_connection := Some i, cl_log := cl_log c @ [ClUp i]\<rparr>))
   }"

definition client_removeConnection :: "nat \<Rightarrow> cl_world \<Rightarrow> cl_world option" where
  "client_removeConnection i w =
     (case apsnd (\<lambda>c. c\<lparr>cl_connection := None\<rparr>) w of (el, c) \<Rightarrow>
        (let w = (queueInLoop (el_threadId el) (ConnDestroyed i) el, c)
         in if cl_retry c \<and> cl_connect c then restart w else Some w))"

text \<open>\<open>detail::removeConnection\<close>.\<close>

definition detail_removeConnection :: "nat \<Rightarrow> cl_world \<Rightarrow> cl_world" where
  "detail_removeConnection i w = apfst (\<lambda>el. queueInLoop (el_threadId el) (ConnDestroyed i) el) w"

text \<open>The close callback of connection \<open>i\<close>, made in the loop's thread.\<close>

definition close_callback :: "nat \<Rightarrow> cl_world \<Rightarrow> cl_world option" where
  "close_callback i w = (case cc_close (cl_conns (snd w) ! i) of
     ClientRemoves \<Rightarrow> client_removeConnection i w
   | LoopRemoves \<Rightarrow> Some (detail_removeConnection i w))"

fun cl_run :: "cl_functor \<Rightarrow> cl_world \<Rightarrow> cl_world option" where
  "cl_run (ConnDestroyed i) w = Some (apsnd (\<lambda>c. c\<lparr>cl_log := cl_log c @ [ClDown i]\<rparr>) w)"
| "cl_run (ReplaceCloseCallback i) w =
     Some (apsnd (\<lambda>c. c\<lparr>cl_conns := (cl_conns c)[i := (cl_conns c ! i)\<lparr>cc_close := LoopRemoves\<rparr>]\<rparr>) w)"
| "cl_run _ w = None"

text \<open>
  The destructor, of which only the functors it leaves in the loop matter: without a connection the
  connector is stopped, and a timer that does nothing set for a second later.
\<close>

definition destroy_client :: "int \<Rightarrow> cl_world \<Rightarrow> cl_world option" where
  "destroy_client tid w = (case cl_connection (snd w) of
     Some i \<Rightarrow> runInLoop cl_run tid (ReplaceCloseCallback i) w
   | None \<Rightarrow> Some (connector_stop tid w))"

section \<open>Runs\<close>

text \<open>What the client and its connections do beside the connector: see \<open>cn_step\<close>.\<close>

inductive cl_own :: "cl_world \<Rightarrow> cl_world \<Rightarrow> bool" where
  own_connect: "client_connect tid w = Some w' \<Longrightarrow> cl_own w w'"
| own_disconnect: "cl_own w (disconnect w)"
| own_stop: "cl_own w (client_stop tid w)"
| own_retry: "cl_own (el, c) (el, enableRetry c)"
| own_callbacks: "cl_own (el, c) (el, c\<lparr>cl_callbacks := cbs\<rparr>)"
| own_close: "i < length (cl_conns (snd w)) \<Longrightarrow> ClDown i \<notin> set (cl_log (snd w)) \<Longrightarrow> close_callback i w = Some w' \<Longrightarrow> cl_own w w'"
| own_destroy: "destroy_client tid w = Some w' \<Longrightarrow> cl_own w w'"

abbreviation cl_reach :: "cl_world \<Rightarrow> bool" where
  "cl_reach \<equiv> cn_reach client_newConnection cl_run cl_own"

lemma cn_inv_client [simp]:
  "cn_inv (el, cl_connect_update f c) = cn_inv (el, c)" "cn_inv (el, cl_log_update g c) = cn_inv (el, c)"
  "cn_inv (el, cl_conns_update h c) = cn_inv (el, c)" "cn_inv (el, cl_retry_update f c) = cn_inv (el, c)"
  "cn_inv (el, cl_callbacks_update m c) = cn_inv (el, c)"
  "cn_inv (el, cl_connection_update k c) = cn_inv (el, c)" "cn_inv (el, cl_nextConnId_update l c) = cn_inv (el, c)"
  by (rule cn_inv_cong; simp)+

lemma removeConnection_inv: "client_removeConnection i w = Some w' \<Longrightarrow> cn_inv w \<Longrightarrow> cn_inv w'"
proof -
  assume run: "client_removeConnection i w = Some w'" and inv: "cn_inv w"
  obtain el c where w: "w = (el, c)" by (cases w)
  let ?w = "(queueInLoop (el_threadId el) (ConnDestroyed i) el, c\<lparr>cl_connection := None\<rparr>)"
  have "cn_inv ?w" using inv by (simp add: w)
  moreover have "w' = ?w \<or> restart ?w = Some w'"
    using run unfolding client_removeConnection_def w apsnd_conv prod.case Let_def by (metis option.inject)
  ultimately show ?thesis using restart_inv by blast
qed

lemma cl_run_inv: "cl_run f w = Some w' \<Longrightarrow> cn_inv w \<Longrightarrow> cn_inv w'"
  by (cases w; cases f) auto

lemma cl_own_inv:
  assumes "cl_own w w'" and "cn_inv w"
  shows "cn_inv w'"
proof -
  obtain el c where w: "w = (el, c)" by (cases w)
  from assms(1) show ?thesis
  proof cases
    case (own_connect tid)
    have "cn_inv (apsnd (\<lambda>c. c\<lparr>cl_connect := True\<rparr>) w)" using assms(2) by (simp add: w)
    with own_connect start_inv show ?thesis unfolding client_connect_def by blast
  next
    case own_disconnect
    with assms(2) show ?thesis by (simp add: w disconnect_def split: option.splits)
  next
    case (own_stop tid)
    have "cn_inv (apsnd (\<lambda>c. c\<lparr>cl_connect := False\<rparr>) w)" using assms(2) by (simp add: w)
    with own_stop stop_inv show ?thesis unfolding client_stop_def by blast
  next
    case own_retry
    with assms(2) show ?thesis by (simp add: w enableRetry_def)
  next
    case own_callbacks
    with assms(2) show ?thesis by (simp add: w)
  next
    case (own_close i)
    show ?thesis
    proof (cases "cc_close (cl_conns (snd w) ! i)")
      case ClientRemoves
      with own_close(3) have "client_removeConnection i w = Some w'" by (simp add: close_callback_def)
      then show ?thesis using assms(2) by (rule removeConnection_inv)
    next
      case LoopRemoves
      with own_close(3) assms(2) show ?thesis by (auto simp: close_callback_def detail_removeConnection_def w)
    qed
  next
    case (own_destroy tid)
    then have "w' = connector_stop tid w \<or> (\<exists>i. cl_run (ReplaceCloseCallback i) w = Some w'
        \<or> w' = (queueInLoop tid (ReplaceCloseCallback i) el, c))"
      by (auto simp: destroy_client_def runInLoop_def w split: option.splits if_splits)
    moreover have "cn_inv (queueInLoop tid (ReplaceCloseCallback i) el, c)" for i using assms(2) by (simp add: w)
    ultimately show ?thesis using stop_inv [OF assms(2)] cl_run_inv [OF _ assms(2)] by blast
  qed
qed

lemma newConnection_inv:
  assumes "client_newConnection fd w = Some w'" and "cn_inv w"
  shows "cn_inv w'"
proof -
  obtain el c where w: "w = (el, c)" by (cases w)
  obtain n cs l where "w' = (el, c\<lparr>cl_nextConnId := n, cl_conns := cs, cl_connection := Some (length (cl_conns c)), cl_log := l\<rparr>)"
    using assms(1) by (auto simp: client_newConnection_def Let_def w split: Option.bind_splits if_splits)
  with assms(2) show ?thesis by (simp add: w)
qed

interpretation client: connector_owner client_newConnection cl_run cl_own
  by unfold_locales (rule newConnection_inv cl_run_inv cl_own_inv; assumption)+

section \<open>Properties\<close>

text \<open>
  C24: Whatever a client does with its connector, which may be started, stopped and restarted at any
  time, with connections that come and go: the delays before the attempts since the last restart
  are 500 ms doubled each time and at most 30 s, and the next one continues the row.
\<close>
theorem connector_backs_off:
  assumes "cl_reach w" and "ds = delays (cn_trace (snd w))"
  shows "ds = map (\<lambda>k. min (500 * 2 ^ k) 30000) [0..<length ds]
    \<and> cn_retryDelayMs (snd w) = min (500 * 2 ^ length ds) 30000"
  using client.reach_inv [OF assms(1)] unfolding cn_inv_def backoff_ok_def backoff_def [abs_def] assms(2) by blast

text \<open>
  C23: In every such run no socket is closed or handed over that the connector does not hold, so none
  is closed twice, handed over twice or closed after it was handed over; and the socket of the
  channel registered with the poller is always one it holds.
\<close>
theorem connector_sockets_once:
  assumes "cl_reach w"
  shows "\<exists>held. sockets_held (cn_trace (snd w)) = Some held
    \<and> (\<forall>ch. cn_channel (snd w) = Some ch \<and> el_hasChannel ch (fst w) \<longrightarrow> ch_fd (el_chans (fst w) ch) \<in> set held)"
  using assms by (rule client.sockets_once)

text \<open>A client whose connection is refused, and one whose attempt is under way.\<close>

definition client_loop :: cl_loop where
  "client_loop = the (new_evloop 1 False (newDefaultPoller False linux_ctl) 3 CnWakeup (\<lambda>i. new_channel (int i + 5)))"

definition client_sys :: "int \<Rightarrow> cn_sys" where
  "client_sys err = \<lparr>sys_socket = \<lambda>_. 7, sys_connect = \<lambda>_. err, sys_soerror = \<lambda>_. Inr 0,
     sys_local = \<lambda>_. None, sys_peer = \<lambda>_. None\<rparr>"

definition demo_client :: "int \<Rightarrow> cl_world" where
  "demo_client err = the (new_client (Some client_loop) (new_inet (\<lambda>_. 0x0100007F) 80 ''127.0.0.1'') ''cl'' 1 (client_sys err))"

lemmas client_eval = client_loop_def new_evloop_def enableReading_def enableWriting_def set_interest_def
  el_updateChannel_def put_events_def poller_updateChannel_def newDefaultPoller_def new_epoll_def
  epoll_updateChannel_def epoll_update_def linux_ctl_def kNew_def kAdded_def kDeleted_def new_channel_def
  setReadCallback_def setWriteCallback_def setErrorCallback_def set_index_def Let_def demo_client_def new_client_def
  client_checkNotNull_def new_connector_def connector.extend_def client_sys_def

lemma demo_client_init: "cl_reach (demo_client err)"
  unfolding cn_reach_def
  by (rule exI [of _ "demo_client err"])
    (simp add: cn_init_def demo_client_def new_client_def client_checkNotNull_def new_connector_def connector.extend_def)

lemma cl_reach_step: "cl_reach w \<Longrightarrow> cn_step client_newConnection cl_run cl_own w w' \<Longrightarrow> cl_reach w'"
  by (auto simp: cn_reach_def intro: rtranclp.rtrancl_into_rtrancl)

theorem connector_backs_off_witness:
  "\<exists>w. cl_reach w \<and> delays (cn_trace (snd w)) = [500, 1000] \<and> cn_retryDelayMs (snd w) = 2000"
proof -
  define w1 where "w1 = the (connector_start 1 (demo_client 111))"
  define w2 where "w2 = the (fire_timer 0 w1)"
  have 1: "connector_start 1 (demo_client 111) = Some w1" "cn_timers (snd w1) = [500]"
    by (simp_all add: w1_def connector_start_def runInLoop_def isInLoopThread_def set_connect_def startInLoop_def
        connector_connect_def answer_now_def createNonblockingOrDie_def record_event_def retry_def cn_setState_def
        client_eval kInitRetryDelayMs_def)
  have 2: "fire_timer 0 w1 = Some w2" "delays (cn_trace (snd w2)) = [500, 1000]"
    by (simp_all add: w2_def w1_def fire_timer_def connector_start_def runInLoop_def isInLoopThread_def set_connect_def
        startInLoop_def connector_connect_def answer_now_def createNonblockingOrDie_def record_event_def retry_def
        cn_setState_def client_eval kInitRetryDelayMs_def kMaxRetryDelayMs_def delays_def)
  have "cl_reach w1" by (rule cl_reach_step [OF demo_client_init step_start [OF 1(1)]])
  then have r: "cl_reach w2" by (rule cl_reach_step [OF _ step_timer [OF _ 2(1)]]) (simp add: 1(2))
  from connector_backs_off [OF r refl] r 2(2) show ?thesis by (intro exI [of _ w2]) simp
qed

theorem connector_sockets_once_witness:
  "\<exists>w held. cl_reach w \<and> cn_state (snd w) = cnConnecting \<and> sockets_held (cn_trace (snd w)) = Some held
     \<and> cn_channel (snd w) = Some 1 \<and> el_hasChannel 1 (fst w) \<and> 7 \<in> set held"
proof -
  define w where "w = the (connector_start 1 (demo_client 115))"
  have 1: "connector_start 1 (demo_client 115) = Some w" "cn_channel (snd w) = Some 1" "cn_state (snd w) = cnConnecting"
      "ch_fd (el_chans (fst w) 1) = 7" "el_hasChannel 1 (fst w)"
    by (simp_all add: w_def connector_start_def runInLoop_def isInLoopThread_def set_connect_def startInLoop_def
        connector_connect_def answer_now_def createNonblockingOrDie_def record_event_def connecting_def cn_setState_def
        destroy_channel_def client_eval event_masks event_consts isNoneEvent_def el_hasChannel_def hasChannel_eq
        poller_channels_def)
  have r: "cl_reach w" by (rule cl_reach_step [OF demo_client_init step_start [OF 1(1)]])
  from connector_sockets_once [OF r] r 1 show ?thesis by metis
qed

section \<open>What the code does not do\<close>

text \<open>After an error on the socket nothing is left that would try again or close the socket.\<close>

lemma error_is_final:
  assumes "cn_handleError w = Some w'" and "cn_state (snd w) = cnConnecting" and "sockets_held (cn_trace (snd w)) = Some held"
  shows "cn_state (snd w') = cnConnecting \<and> cn_timers (snd w') = cn_timers (snd w)
    \<and> sockets_held (cn_trace (snd w')) = Some held
    \<and> StartInLoop \<notin> set (drop (length (el_pending (fst w))) (el_pending (fst w')))
    \<and> (\<forall>ch. cn_channel (snd w') = Some ch \<longrightarrow> \<not> el_hasChannel ch (fst w'))"
proof -
  obtain el c where w: "w = (el, c)" by (cases w)
  from assms(1,2) obtain ch el1 el2 fd where 1: "cn_channel c = Some ch" "disableAll ch el = Some el1"
      "el_removeChannel ch el1 = Some el2"
      "w' = record_event (ErrorRead fd) (queueInLoop (el_threadId el2) ResetChannel el2, c)"
    by (auto simp: w cn_handleError_def removeAndResetChannel_def split: Option.bind_splits)
  have "el_pending el2 = el_pending el"
    using set_interest_queue(1) [OF 1(2) [unfolded disableAll_def]] removeChannel_queue(1) [OF 1(3)] by simp
  then have "el_pending (queueInLoop (el_threadId el2) ResetChannel el2) = el_pending el @ [ResetChannel]"
    by (simp add: queueInLoop_def wakeup_def Let_def)
  with assms(2,3) 1(1,4) removeChannel_gone [OF 1(3)] show ?thesis by (simp add: w record_event_def)
qed

text \<open>What \<open>stop\<close> queues does nothing: an attempt under way goes on.\<close>

lemma stop_cancels_nothing: "startInLoop (set_connect False w) = Some (set_connect False w)"
  by (cases w) (simp add: set_connect_def startInLoop_def)

text \<open>The names of a client's connections stay apart while they fit, and no longer.\<close>

lemma client_names_distinct:
  assumes "length ipPort + length (dec_int m) \<le> 29" and "length ipPort + length (dec_int n) \<le> 29"
  shows "client_conn_name ipPort m name = client_conn_name ipPort n name \<longleftrightarrow> m = n"
  using assms by (auto simp: client_conn_name_def dest: dec_int_inj)

lemma client_names_collide:
  assumes "length ipPort = 21" and "take 8 (dec_int m) = take 8 (dec_int n)"
  shows "client_conn_name ipPort m name = client_conn_name ipPort n name"
  using assms by (simp add: client_conn_name_def snprintf_def)

end
