(* ===== verification/Poller_Frame.thy ===== *)
theory Poller_Frame
  imports Event_Loop
begin

text \<open>
  What the pollers do to channels other than the one they are asked about: an update touches none of
  them, a removal at most the index of a registered one (\<open>PollPoller\<close> moves the last entry of its
  array). The locale \<open>isolated_poller\<close> extends the interface with these laws; from them follows that
  the operations of a loop on one channel are \<open>foreign\<close> to the others.
\<close>

text \<open>The map from descriptors leads to channels of these descriptors.\<close>

definition fds_agree :: "(int \<rightharpoonup> nat) \<Rightarrow> 'cb chans \<Rightarrow> bool" where
  "fds_agree tr cs \<longleftrightarrow> (\<forall>fd ch. tr fd = Some ch \<longrightarrow> ch_fd (cs ch) = fd)"

text \<open>The second heap and map differ from the first where channel \<open>ch\<close> may make them differ.\<close>

definition foreign :: "nat \<Rightarrow> 'cb chans \<Rightarrow> (int \<rightharpoonup> nat) \<Rightarrow> 'cb chans \<Rightarrow> (int \<rightharpoonup> nat) \<Rightarrow> bool" where
  "foreign ch cs tr cs' tr' \<longleftrightarrow> ch_fd (cs' ch) = ch_fd (cs ch)
     \<and> (\<forall>c. c \<noteq> ch \<longrightarrow> (\<exists>i. cs' c = set_index i (cs c)) \<and> (tr (ch_fd (cs c)) \<noteq> Some c \<longrightarrow> cs' c = cs c))
     \<and> (\<forall>fd. tr' fd = tr fd \<or> fd = ch_fd (cs ch) \<and> tr' fd \<in> {Some ch, None})"

lemma same_index [simp]: "\<exists>i. c = set_index i c"
  by (intro exI [of _ "ch_index c"]) (simp add: set_index_def)

lemma foreign_refl [simp]: "foreign ch cs tr cs tr"
  by (simp add: foreign_def)

lemma foreign_own: "ch_fd chan = ch_fd (cs ch) \<Longrightarrow> foreign ch cs tr (cs(ch := chan)) tr"
  by (simp add: foreign_def)

lemma foreign_trans:
  assumes "foreign ch cs tr cs' tr'" and "foreign ch cs' tr' cs'' tr''"
  shows "foreign ch cs tr cs'' tr''"
proof -
  note 1 = assms(1) [unfolded foreign_def] and 2 = assms(2) [unfolded foreign_def]
  have "(\<exists>i. cs'' c = set_index i (cs c)) \<and> (tr (ch_fd (cs c)) \<noteq> Some c \<longrightarrow> cs'' c = cs c)" if "c \<noteq> ch" for c
  proof -
    obtain i j where ij: "cs' c = set_index i (cs c)" "cs'' c = set_index j (cs' c)" using 1 2 \<open>c \<noteq> ch\<close> by meson
    have "cs'' c = cs c" if "tr (ch_fd (cs c)) \<noteq> Some c"
    proof -
      have c: "cs' c = cs c" using 1 \<open>c \<noteq> ch\<close> that by blast
      have "tr' (ch_fd (cs c)) \<noteq> Some c" using 1 \<open>c \<noteq> ch\<close> that by (metis insertE option.distinct(1) option.inject singletonD)
      then show ?thesis using 2 \<open>c \<noteq> ch\<close> c by simp
    qed
    with ij show ?thesis by auto
  qed
  moreover have "tr'' fd = tr fd \<or> fd = ch_fd (cs ch) \<and> tr'' fd \<in> {Some ch, None}" for fd
    using 1 2 by metis
  ultimately show ?thesis using 1 2 unfolding foreign_def by simp
qed

lemma foreign_fds:
  assumes "foreign ch cs tr cs' tr'" and "fds_agree tr cs"
  shows "fds_agree tr' cs'"
  unfolding fds_agree_def
proof (intro allI impI)
  fix fd c assume c: "tr' fd = Some c"
  note f = assms(1) [unfolded foreign_def]
  have "ch_fd (cs' c) = ch_fd (cs c)"
    using f by (cases "c = ch") (auto simp: set_index_def dest!: spec [of _ c])
  moreover have "ch_fd (cs c) = fd"
  proof (cases "tr' fd = tr fd")
    case True
    with c assms(2) show ?thesis by (simp add: fds_agree_def)
  next
    case False
    with f have "fd = ch_fd (cs ch)" "tr' fd \<in> {Some ch, None}" by blast+
    with c show ?thesis by auto
  qed
  ultimately show "ch_fd (cs' c) = fd" by simp
qed

text \<open>What \<open>foreign\<close> leaves to a channel of another descriptor.\<close>

lemma foreignD:
  assumes "foreign ch cs tr cs' tr'" and "c \<noteq> ch"
  shows "ch_fd (cs' c) = ch_fd (cs c)" "ch_events (cs' c) = ch_events (cs c)" "ch_revents (cs' c) = ch_revents (cs c)"
    "ch_readCallback (cs' c) = ch_readCallback (cs c)" "ch_writeCallback (cs' c) = ch_writeCallback (cs c)"
    "ch_closeCallback (cs' c) = ch_closeCallback (cs c)" "ch_errorCallback (cs' c) = ch_errorCallback (cs c)"
    "ch_tie (cs' c) = ch_tie (cs c)" "ch_tied (cs' c) = ch_tied (cs c)"
proof -
  obtain i where "cs' c = set_index i (cs c)" using assms by (auto simp: foreign_def)
  then show "ch_fd (cs' c) = ch_fd (cs c)" "ch_events (cs' c) = ch_events (cs c)" "ch_revents (cs' c) = ch_revents (cs c)"
    "ch_readCallback (cs' c) = ch_readCallback (cs c)" "ch_writeCallback (cs' c) = ch_writeCallback (cs c)"
    "ch_closeCallback (cs' c) = ch_closeCallback (cs c)" "ch_errorCallback (cs' c) = ch_errorCallback (cs c)"
    "ch_tie (cs' c) = ch_tie (cs c)" "ch_tied (cs' c) = ch_tied (cs c)"
    by (simp_all add: set_index_def)
qed

lemma foreign_tracked:
  assumes "foreign ch cs tr cs' tr'" and "c \<noteq> ch" and "ch_fd (cs c) \<noteq> ch_fd (cs ch)"
  shows "tr' (ch_fd (cs' c)) = tr (ch_fd (cs c))"
  using foreignD(1) [OF assms(1,2)] assms(1,3) by (auto simp: foreign_def)

lemma foreign_usable:
  assumes "foreign ch cs tr cs' tr'" and "c \<noteq> ch" and "ch_fd (cs c) \<noteq> ch_fd (cs ch)" and "usable tr c cs"
  shows "usable tr' c cs'"
proof -
  note tr = foreign_tracked [OF assms(1-3)]
  have "cs' c = cs c" if "tr (ch_fd (cs c)) = None" using assms(1,2) that by (simp add: foreign_def)
  with assms(4) tr foreignD(1) [OF assms(1,2)] show ?thesis by (auto simp: usable_def)
qed

section \<open>The pollers\<close>

locale isolated_poller = poller_iface upd rem tracked wf
  for upd :: "nat \<Rightarrow> 'cb chans \<times> 'p \<Rightarrow> ('cb chans \<times> 'p) option"
    and rem :: "nat \<Rightarrow> 'cb chans \<times> 'p \<Rightarrow> ('cb chans \<times> 'p) option"
    and tracked :: "'p \<Rightarrow> int \<rightharpoonup> nat"
    and wf :: "'cb chans \<times> 'p \<Rightarrow> bool" +
  assumes upd_others: "upd ch (cs, p) = Some (cs', p') \<Longrightarrow> c \<noteq> ch \<Longrightarrow> cs' c = cs c"
    and upd_map: "upd ch (cs, p) = Some (cs', p') \<Longrightarrow>
      tracked p' = tracked p \<or> tracked p' = (tracked p)(ch_fd (cs ch) \<mapsto> ch)"
    and rem_others: "fds_agree (tracked p) cs \<Longrightarrow> rem ch (cs, p) = Some (cs', p') \<Longrightarrow> c \<noteq> ch \<Longrightarrow>
      tracked p (ch_fd (cs c)) \<noteq> Some c \<Longrightarrow> cs' c = cs c"
    and rem_map: "rem ch (cs, p) = Some (cs', p') \<Longrightarrow> tracked p' = (tracked p)(ch_fd (cs ch) := None)"
    and wf_fds: "wf (cs, p) \<Longrightarrow> fds_agree (tracked p) cs"
begin

lemma upd_foreign:
  assumes "upd ch (put_events e ch cs, p) = Some (cs', p')"
  shows "foreign ch cs (tracked p) cs' (tracked p')"
proof -
  have "cs' c = cs c" if "c \<noteq> ch" for c using upd_others [OF assms that] that by (simp add: put_events_def)
  moreover have "ch_fd (put_events e ch cs ch) = ch_fd (cs ch)" by (simp add: put_events_def)
  ultimately show ?thesis
    using upd_map [OF assms] upd_events(3) [OF assms] by (auto simp: foreign_def split: if_splits)
qed

lemma rem_foreign:
  assumes "fds_agree (tracked p) cs" and "rem ch (cs, p) = Some (cs', p')"
  shows "foreign ch cs (tracked p) cs' (tracked p')"
  using rem_others [OF assms] rem_map [OF assms(2)] rem_keeps [OF assms(2)] same_but_indexD(2) [OF rem_keeps [OF assms(2)]]
  by (simp add: foreign_def same_but_index_def)

end

interpretation epoll_isolated: isolated_poller epoll_updateChannel epoll_removeChannel ep_channels epoll_wf
proof
  fix cs cs' :: "'cb chans" and p p' ch c
  show "epoll_updateChannel ch (cs, p) = Some (cs', p') \<Longrightarrow> c \<noteq> ch \<Longrightarrow> cs' c = cs c"
    "epoll_updateChannel ch (cs, p) = Some (cs', p') \<Longrightarrow>
      ep_channels p' = ep_channels p \<or> ep_channels p' = (ep_channels p)(ch_fd (cs ch) \<mapsto> ch)"
    by (auto simp: epoll_updateChannel_def epoll_update_def Let_def split: if_splits)
  show "epoll_removeChannel ch (cs, p) = Some (cs', p') \<Longrightarrow> c \<noteq> ch \<Longrightarrow> cs' c = cs c"
    "epoll_removeChannel ch (cs, p) = Some (cs', p') \<Longrightarrow> ep_channels p' = (ep_channels p)(ch_fd (cs ch) := None)"
    by (auto simp: epoll_removeChannel_def epoll_update_def Let_def split: if_splits)
  show "epoll_wf (cs, p) \<Longrightarrow> fds_agree (ep_channels p) cs"
    using poller_wf_fd [of cs "Epoll p"] by (simp add: fds_agree_def poller_defs)
qed

interpretation poll_isolated: isolated_poller poll_updateChannel poll_removeChannel pp_channels poll_wf
proof
  fix cs cs' :: "'cb chans" and p p' ch c
  show "poll_updateChannel ch (cs, p) = Some (cs', p') \<Longrightarrow> c \<noteq> ch \<Longrightarrow> cs' c = cs c"
    "poll_updateChannel ch (cs, p) = Some (cs', p') \<Longrightarrow>
      pp_channels p' = pp_channels p \<or> pp_channels p' = (pp_channels p)(ch_fd (cs ch) \<mapsto> ch)"
    by (auto simp: poll_updateChannel_def Let_def split: if_splits)
  show "poll_removeChannel ch (cs, p) = Some (cs', p') \<Longrightarrow> pp_channels p' = (pp_channels p)(ch_fd (cs ch) := None)"
    by (auto simp: poll_removeChannel_def Let_def split: if_splits option.splits)
  show "cs' c = cs c" if agree: "fds_agree (pp_channels p) cs" and rem: "poll_removeChannel ch (cs, p) = Some (cs', p')"
    and "c \<noteq> ch" and c: "pp_channels p (ch_fd (cs c)) \<noteq> Some c"
  proof -
    have "pp_channels p fd \<noteq> Some c" for fd
      using agree c by (auto simp: fds_agree_def)
    then show ?thesis using rem
      by (auto simp: poll_removeChannel_def Let_def split: if_splits option.splits)
  qed
  show "poll_wf (cs, p) \<Longrightarrow> fds_agree (pp_channels p) cs"
    using poller_wf_fd [of cs "Poll p"] by (simp add: fds_agree_def poller_defs)
qed

interpretation poller_isolated: isolated_poller poller_updateChannel poller_removeChannel poller_channels poller_wf
proof
  fix cs cs' :: "'cb chans" and p p' ch c
  show "poller_updateChannel ch (cs, p) = Some (cs', p') \<Longrightarrow> c \<noteq> ch \<Longrightarrow> cs' c = cs c"
    by (cases p) (auto simp: poller_updateChannel_def dest: epoll_isolated.upd_others poll_isolated.upd_others)
  show "poller_updateChannel ch (cs, p) = Some (cs', p') \<Longrightarrow>
      poller_channels p' = poller_channels p \<or> poller_channels p' = (poller_channels p)(ch_fd (cs ch) \<mapsto> ch)"
    by (cases p) (auto simp: poller_updateChannel_def poller_channels_def dest: epoll_isolated.upd_map poll_isolated.upd_map)
  show "fds_agree (poller_channels p) cs \<Longrightarrow> poller_removeChannel ch (cs, p) = Some (cs', p') \<Longrightarrow> c \<noteq> ch \<Longrightarrow>
      poller_channels p (ch_fd (cs c)) \<noteq> Some c \<Longrightarrow> cs' c = cs c"
    by (cases p) (auto simp: poller_removeChannel_def poller_channels_def
        dest: epoll_isolated.rem_others poll_isolated.rem_others)
  show "poller_removeChannel ch (cs, p) = Some (cs', p') \<Longrightarrow> poller_channels p' = (poller_channels p)(ch_fd (cs ch) := None)"
    by (cases p) (auto simp: poller_removeChannel_def poller_channels_def dest: epoll_isolated.rem_map poll_isolated.rem_map)
  show "poller_wf (cs, p) \<Longrightarrow> fds_agree (poller_channels p) cs"
    by (auto simp: fds_agree_def dest: poller_wf_fd)
qed

section \<open>The loop\<close>

definition el_foreign :: "nat \<Rightarrow> ('f, 'cb) evloop \<Rightarrow> ('f, 'cb) evloop \<Rightarrow> bool" where
  "el_foreign ch el el' \<longleftrightarrow> fds_agree (poller_channels (el_poller el)) (el_chans el) \<longrightarrow>
     foreign ch (el_chans el) (poller_channels (el_poller el)) (el_chans el') (poller_channels (el_poller el'))"

lemma el_foreign_trans: "el_foreign ch a b \<Longrightarrow> el_foreign ch b d \<Longrightarrow> el_foreign ch a d"
  unfolding el_foreign_def using foreign_trans foreign_fds by blast

lemma set_interest_foreign:
  assumes "set_interest m ch el = Some el'"
  shows "el_foreign ch el el'"
  using assms by (auto simp: el_foreign_def set_interest_def el_updateChannel_def split: Option.bind_splits
      intro: poller_isolated.upd_foreign)

lemma removeChannel_foreign:
  assumes "el_removeChannel ch el = Some el'"
  shows "el_foreign ch el el'"
  using assms by (auto simp: el_foreign_def el_removeChannel_def split: Option.bind_splits
      intro: poller_isolated.rem_foreign)

end
