(* ===== verification/Conn_Frame.thy ===== *)
theory Conn_Frame
  imports Tcp_Connection Poller_Frame "HOL-Library.Sublist"
begin

text \<open>
  What no operation of a connection does, whatever state it is in. A relation between the worlds
  before and after is respected by every operation when it is respected by the few ways an operation
  changes the connection's fields and reaches the loop: the queue, the interest of its own channel, the
  tie and the removal of that channel. These are the laws of the locale \<open>conn_relation\<close>; its
  interpretations say that work is posted at the end of the queue only, that the loop's own fields stay
  as they are, that the channels of others do, that a connection's trace only grows, and that its
  destruction is posted by its user only.
\<close>

text \<open>The fields that are never changed, and the trace, which only grows.\<close>

definition continues :: "tcp_conn \<Rightarrow> tcp_conn \<Rightarrow> bool" where
  "continues c c' \<longleftrightarrow> tc_channel c' = tc_channel c \<and> tc_name c' = tc_name c \<and> tc_user c' = tc_user c
     \<and> tc_write c' = tc_write c \<and> tc_read c' = tc_read c \<and> prefix (tc_trace c) (tc_trace c')"

lemma continues_refl [simp]: "continues c c"
  by (simp add: continues_def)

lemma continues_trans: "continues a b \<Longrightarrow> continues b c \<Longrightarrow> continues a c"
  by (auto simp: continues_def intro: prefix_order.trans)

lemma continues_fields [simp]:
  "continues c (trace e c') \<longleftrightarrow> continues c (c'\<lparr>tc_trace := tc_trace c' @ [e]\<rparr>)"
  "continues c (setState st c') \<longleftrightarrow> continues c (c'\<lparr>tc_state := st\<rparr>)"
  by (simp_all add: trace_def setState_def)

text \<open>Users that leave the destruction of the connection to its owner.\<close>

definition leaves_destruction :: "(nat \<Rightarrow> callback \<Rightarrow> api list) \<Rightarrow> bool" where
  "leaves_destruction user \<longleftrightarrow> (\<forall>k cb. AQueueDestroyed \<notin> set (user k cb))"

locale conn_relation =
  fixes R :: "conn_world \<Rightarrow> conn_world \<Rightarrow> bool"
  assumes R_trans: "R a b \<Longrightarrow> R b d \<Longrightarrow> R a d"
    and R_conn: "continues c c' \<Longrightarrow> R (el, c) (el, c')"
    and R_queue: "f \<noteq> ConnectDestroyed \<Longrightarrow> R (el, c) (queueInLoop tid f el, c)"
    and R_release: "\<not> leaves_destruction (tc_user c) \<Longrightarrow> R (el, c) (queueInLoop tid ConnectDestroyed el, c)"
    and R_tie: "R (el, c) (el\<lparr>el_chans := (el_chans el)(tc_channel c := tie ob (el_chans el (tc_channel c)))\<rparr>, c)"
    and R_interest: "set_interest m (tc_channel c) el = Some el' \<Longrightarrow> R (el, c) (el', c)"
    and R_remove: "el_removeChannel (tc_channel c) el = Some el' \<Longrightarrow> R (el, c) (el', c)"
begin

lemma R_refl: "R w w"
  by (cases w) (simp add: R_conn)

lemma R_apsnd: "continues (snd w) (g (snd w)) \<Longrightarrow> R w (apsnd g w)"
  by (cases w) (simp add: R_conn)

lemma R_changed:
  "R (el, c) (el, trace e c)" "R (el, c) (el, setState st c)" "R (el, c) (el, c\<lparr>tc_input := b\<rparr>)"
  "R (el, c) (el, c\<lparr>tc_output := b\<rparr>)" "R (el, c) (el, trace e (c\<lparr>tc_input := b\<rparr>))"
  "R (el, c) (el, trace e (c\<lparr>tc_output := b\<rparr>))"
  by (rule R_conn, simp add: continues_def trace_def setState_def)+

lemma R_trace: "R w (apsnd (trace e) w)"
  by (cases w) (simp add: R_changed)

lemma R_setState: "R w (apsnd (setState st) w)"
  by (cases w) (simp add: R_changed)

lemma R_queue_here: "f \<noteq> ConnectDestroyed \<Longrightarrow> R w (queue_here f w)"
  by (cases w) (simp add: queue_here_Pair R_queue)

lemma R_apfst_queue: "f \<noteq> ConnectDestroyed \<Longrightarrow> R w (apfst (queueInLoop tid f) w)"
  by (cases w) (simp add: R_queue)

lemma R_on_channel:
  "on_channel enableReading w = Some w' \<Longrightarrow> R w w'" "on_channel enableWriting w = Some w' \<Longrightarrow> R w w'"
  "on_channel disableWriting w = Some w' \<Longrightarrow> R w w'" "on_channel disableAll w = Some w' \<Longrightarrow> R w w'"
  "on_channel el_removeChannel w = Some w' \<Longrightarrow> R w w'"
  by (cases w, fastforce simp: on_channel_def interest_defs split: Option.bind_splits intro: R_interest R_remove)+

lemma R_fold:
  assumes "\<And>a w w'. a \<in> set xs \<Longrightarrow> f a w = Some w' \<Longrightarrow> R w w'" and "bind_fold f xs w = Some w'"
  shows "R w w'"
  using assms
proof (induction xs arbitrary: w)
  case Nil
  then show ?case by (simp add: R_refl)
next
  case (Cons x xs)
  then obtain w1 where 1: "f x w = Some w1" "bind_fold f xs w1 = Some w'" by (auto split: Option.bind_splits)
  have "R w w1" using Cons.prems(1) [of x] 1(1) by (metis list.set_intros(1))
  moreover have "R w1 w'"
    by (rule Cons.IH [OF _ 1(2)]) (metis Cons.prems(1) list.set_intros(2))
  ultimately show ?case by (rule R_trans)
qed

lemma R_send_direct: "R w (snd (send_direct data w))"
proof -
  obtain el c where w: "w = (el, c)" by (cases w)
  have "R (el, c) (queue_here WriteCompleteF (el, trace e c))" for e
    by (rule R_trans [OF R_changed(1) R_queue_here]) simp
  then show ?thesis by (simp add: w send_direct_def Let_def R_changed R_refl split: sum.split)
qed

lemma R_send_rest:
  assumes "send_rest n data w = Some w'"
  shows "R w w'"
proof -
  define old where "old = readableBytes (tc_output (snd w)) + sz_sub (length data) n"
  define w1 where "w1 = (if tc_highWaterMark (snd w) \<le> old
      \<and> readableBytes (tc_output (snd w)) < tc_highWaterMark (snd w) \<and> tc_hasHighWater (snd w)
    then queue_here (HighWaterF old) w else w)"
  obtain out where
    r: "(if \<not> conn_writing (fst w1, (snd w1)\<lparr>tc_output := out\<rparr>)
        then on_channel enableWriting (fst w1, (snd w1)\<lparr>tc_output := out\<rparr>)
        else Some (fst w1, (snd w1)\<lparr>tc_output := out\<rparr>)) = Some w'"
    using assms unfolding send_rest_def Let_def old_def [symmetric] w1_def [symmetric]
    by (auto split: Option.bind_splits)
  have "R w w1" by (simp add: w1_def R_queue_here R_refl)
  then have 1: "R w (fst w1, (snd w1)\<lparr>tc_output := out\<rparr>)"
    by (rule R_trans) (cases w1, simp add: R_changed)
  with r show ?thesis by (auto split: if_splits intro: R_trans [OF 1 R_on_channel(2)])
qed

lemma R_sendInLoop:
  assumes "sendInLoop data w = Some w'"
  shows "R w w'"
proof -
  let ?w = "apsnd (trace (Accepted data)) w"
  obtain n b w1 where d: "send_direct data ?w = ((n, b), w1)" by (metis surj_pair)
  have "R w w1" using R_trans [OF R_trace R_send_direct [of ?w data]] by (simp add: d)
  with assms d show ?thesis
    by (auto simp: sendInLoop_def split: if_splits dest!: R_send_rest intro: R_trans R_refl)
qed

lemma R_runInLoop:
  assumes "runInLoop (\<lambda>_. g) tid f w = Some w'" and "\<And>w w'. g w = Some w' \<Longrightarrow> R w w'" and "f \<noteq> ConnectDestroyed"
  shows "R w w'"
  using assms by (auto simp: runInLoop_def R_apfst_queue split: if_splits)

lemma R_send_bound: "send_bound s w = Some w' \<Longrightarrow> R w w'"
  by (cases s) (auto intro: R_sendInLoop)

lemma R_run_send: "runInLoop (\<lambda>_. sendInLoop s) tid (SendInLoop l) w = Some w' \<Longrightarrow> R w w'"
  "runInLoop (\<lambda>_. send_bound b) tid (SendInLoop l) w = Some w' \<Longrightarrow> R w w'"
  by (erule R_runInLoop, simp_all add: R_sendInLoop R_send_bound)+

lemma R_send_string: "send_string tid s l w = Some w' \<Longrightarrow> R w w'"
  by (auto simp: send_string_def R_refl split: if_splits intro: R_sendInLoop R_run_send)

lemma R_send_buffer: "send_buffer tid b w = Some (w', b') \<Longrightarrow> R w w'"
  by (auto simp: send_buffer_def R_refl split: if_splits Option.bind_splits intro: R_sendInLoop R_run_send)

lemma R_shutdownInLoop: "shutdownInLoop w = Some w' \<Longrightarrow> R w w'"
  by (auto simp: shutdownInLoop_def R_refl R_trace split: if_splits)

lemma R_api_call:
  assumes "api_call tid a w = Some w'" and "a = AQueueDestroyed \<Longrightarrow> \<not> leaves_destruction (tc_user (snd w))"
  shows "R w w'"
proof (cases a)
  case AShutdown
  have "R w w2" if "runInLoop (\<lambda>_. shutdownInLoop) tid ShutdownInLoop (apsnd (setState kDisconnecting) w) = Some w2"
    for w2
    using R_trans [OF R_setState R_runInLoop [where g = shutdownInLoop, OF that R_shutdownInLoop]] by simp
  with AShutdown assms(1) show ?thesis by (auto simp: api_call_def shutdown_def R_refl split: if_splits)
next
  case AForceClose
  then have "w' = w \<or> w' = apfst (queueInLoop tid ForceCloseInLoop) (apsnd (setState kDisconnecting) w)"
    using assms(1) by (auto simp: api_call_def forceClose_def)
  with R_trans [OF R_setState R_apfst_queue] R_refl show ?thesis by blast
next
  case ASendInput
  then obtain el c b where "send_buffer tid (tc_input (snd w)) w = Some ((el, c), b)"
      and w': "w' = (el, c\<lparr>tc_input := b\<rparr>)"
    using assms(1) by (auto simp: api_call_def split: Option.bind_splits)
  from R_trans [OF R_send_buffer [OF this(1)] R_changed(3)] w' show ?thesis by simp
next
  case AQueueDestroyed
  with assms R_release [of "snd w" "fst w" tid] show ?thesis by (cases w) (simp add: api_call_def)
qed (use assms(1) in \<open>cases w; auto simp: api_call_def send_ptr_def R_changed intro: R_send_string R_send_buffer\<close>)+

end

interpretation conn_history: conn_relation "\<lambda>w w'. continues (snd w) (snd w')"
  by unfold_locales (auto intro: continues_trans)

lemma api_call_continues: "api_call tid a w = Some w' \<Longrightarrow> continues (snd w) (snd w')"
  by (cases "a = AQueueDestroyed") (auto simp: api_call_def intro: conn_history.R_api_call)

context conn_relation
begin

lemma R_api_calls:
  assumes "bind_fold (api_call tid) as w = Some w'" and "AQueueDestroyed \<in> set as \<Longrightarrow> \<not> leaves_destruction (tc_user (snd w))"
  shows "R w w'"
  using assms
proof (induction as arbitrary: w)
  case Nil
  then show ?case by (simp add: R_refl)
next
  case (Cons a as)
  then obtain w1 where 1: "api_call tid a w = Some w1" "bind_fold (api_call tid) as w1 = Some w'"
    by (auto split: Option.bind_splits)
  have "R w w1" using R_api_call [OF 1(1)] Cons.prems(2) by simp
  moreover have "tc_user (snd w1) = tc_user (snd w)" using api_call_continues [OF 1(1)] by (simp add: continues_def)
  then have "R w1 w'" using Cons.IH [OF 1(2)] Cons.prems(2) by simp
  ultimately show ?case by (rule R_trans)
qed

lemma R_invoke: "invoke cb w = Some w' \<Longrightarrow> R w w'"
  unfolding invoke_def
  by (rule R_trans [OF R_trace R_api_calls]) (auto simp: leaves_destruction_def)

lemma R_connectEstablished:
  assumes "connectEstablished w = Some w'"
  shows "R w w'"
proof -
  obtain el c where w: "w = (el, c)" by (cases w)
  let ?c = "setState kConnected c"
  let ?el = "el\<lparr>el_chans := (el_chans el)(tc_channel c := tie (tc_channel c) (el_chans el (tc_channel c)))\<rparr>"
  obtain w1 where 1: "on_channel enableReading (?el, ?c) = Some w1" "invoke (ConnectionCb True) w1 = Some w'"
    using assms by (auto simp: w connectEstablished_def Let_def split: Option.bind_splits)
  have "R (el, c) (el, ?c)" by (rule R_changed(2))
  moreover have "R (el, ?c) (?el, ?c)" using R_tie [of el ?c "tc_channel c"] by simp
  moreover have "R (?el, ?c) w1" by (rule R_on_channel(1) [OF 1(1)])
  moreover have "R w1 w'" by (rule R_invoke [OF 1(2)])
  ultimately show ?thesis unfolding w by (blast intro: R_trans)
qed

lemma R_take_down:
  assumes "on_channel disableAll (apsnd (setState kDisconnected) w) = Some w1" and "invoke (ConnectionCb False) w1 = Some w2"
  shows "R w w2"
  by (rule R_trans [OF R_trans [OF R_setState R_on_channel(4) [OF assms(1)]] R_invoke [OF assms(2)]])

lemma R_handleClose: "handleClose w = Some w' \<Longrightarrow> R w w'"
  by (auto simp: handleClose_def split: Option.bind_splits intro: R_trans [OF R_take_down R_invoke])

lemma R_connectDestroyed:
  assumes "connectDestroyed w = Some w'"
  shows "R w w'"
proof (cases "tc_state (snd w) = kConnected")
  case True
  with assms show ?thesis
    by (auto simp: connectDestroyed_def split: Option.bind_splits intro: R_trans [OF R_take_down R_on_channel(5)])
next
  case False
  with assms show ?thesis by (auto simp: connectDestroyed_def intro: R_on_channel)
qed

lemma R_exec_functor: "exec_functor f w = Some w' \<Longrightarrow> R w w'"
  by (cases f) (auto simp: forceCloseInLoop_def R_refl split: if_splits intro: R_send_bound R_shutdownInLoop
      R_handleClose R_connectEstablished R_connectDestroyed R_invoke)

lemma R_handleRead:
  assumes "handleRead t w = Some w'"
  shows "R w w'"
proof -
  obtain el c where w: "w = (el, c)" by (cases w)
  have steps: "R (el, c\<lparr>tc_input := b\<rparr>) w' \<Longrightarrow> R (el, c) w'" for b
    by (rule R_trans [OF R_changed(3)])
  from assms show ?thesis
    by (auto simp: w handleRead_def Let_def handleError_def R_changed split: Option.bind_splits sum.splits if_splits
        intro: steps [OF R_invoke] steps [OF R_handleClose])
qed

lemma R_handleWrite:
  assumes "handleWrite w = Some w'"
  shows "R w w'"
proof -
  obtain el c where w: "w = (el, c)" by (cases w)
  have p: "R (el, c) w1" if "on_channel disableWriting (el, trace e (c\<lparr>tc_output := b\<rparr>)) = Some w1" for w1 e b
    by (rule R_trans [OF R_changed(6) R_on_channel(3) [OF that]])
  note q = R_trans [OF p R_queue_here]
  from assms show ?thesis
    by (auto simp: w handleWrite_def Let_def R_changed R_refl split: Option.bind_splits sum.splits if_splits
        intro: p q R_trans [OF q R_shutdownInLoop] R_trans [OF p R_shutdownInLoop])
qed

lemma R_call_handler:
  assumes "call_handler i w = Some w'" and "\<And>t. i \<noteq> ReadCall WakeupRead t"
  shows "R w w'"
  using assms
  by (cases "(i, w)" rule: call_handler.cases)
    (auto simp: handleError_def R_refl intro: R_handleWrite R_handleClose R_handleRead)

end

section \<open>The queue of the loop\<close>

interpretation conn_posts: conn_relation posts_only
proof
  fix a b d :: conn_world
  show "posts_only a b \<Longrightarrow> posts_only b d \<Longrightarrow> posts_only a d" by (rule posts_only_trans)
qed (auto simp: set_interest_queue removeChannel_queue)

lemma api_call_posts: "api_call tid a w = Some w' \<Longrightarrow> posts_only w w'"
  by (cases "a = AQueueDestroyed"; cases w) (auto simp: api_call_def intro: conn_posts.R_api_call)

lemma call_handler_posts:
  assumes "\<not> el_calling (fst w)" and "call_handler i w = Some w'"
  shows "posts_only w w'"
proof (cases "\<exists>t. i = ReadCall WakeupRead t")
  case True
  with assms show ?thesis by (cases w) auto
next
  case False
  with assms(2) conn_posts.R_call_handler show ?thesis by blast
qed

interpretation conn_loop: loop_client call_handler conn_alive exec_functor
  by unfold_locales (rule call_handler_posts conn_posts.R_exec_functor, assumption+)+

section \<open>The other fields of the loop\<close>

definition same_loop :: "('f, 'cb) evloop \<Rightarrow> ('f, 'cb) evloop \<Rightarrow> bool" where
  "same_loop el el' \<longleftrightarrow> el_looping el' = el_looping el \<and> el_quit el' = el_quit el
     \<and> el_calling el' = el_calling el \<and> el_threadId el' = el_threadId el \<and> el_pollReturnTime el' = el_pollReturnTime el
     \<and> el_wakeupChannel el' = el_wakeupChannel el \<and> el_current el' = el_current el \<and> el_active el' = el_active el"

interpretation conn_same: conn_relation "\<lambda>w w'. same_loop (fst w) (fst w')"
  by unfold_locales (auto simp: same_loop_def queueInLoop_def wakeup_def Let_def set_interest_def el_updateChannel_def
      el_removeChannel_def split: Option.bind_splits)

section \<open>The channels of others\<close>

interpretation conn_foreign: conn_relation "\<lambda>w w'. tc_channel (snd w') = tc_channel (snd w)
    \<and> el_foreign (tc_channel (snd w)) (fst w) (fst w')"
proof (unfold_locales, goal_cases)
  case (1 a b d)
  then show ?case using el_foreign_trans by fastforce
qed (auto simp: continues_def el_foreign_def tie_def intro!: foreign_own intro: set_interest_foreign [unfolded el_foreign_def, rule_format]
    removeChannel_foreign [unfolded el_foreign_def, rule_format])

section \<open>Who posts the destruction\<close>

interpretation conn_destruction: conn_relation "\<lambda>w w'. posts_only w w' \<and> tc_user (snd w') = tc_user (snd w)
    \<and> (leaves_destruction (tc_user (snd w)) \<longrightarrow> ConnectDestroyed \<notin> set (newly w w'))"
proof (unfold_locales, goal_cases)
  case (1 a b d)
  have "newly a d = newly a b @ newly b d" using 1 by (intro newly_trans) simp_all
  moreover have "posts_only a d" using 1 posts_only_trans by blast
  ultimately show ?case using 1 by simp
qed (auto simp: newly_def continues_def set_interest_queue removeChannel_queue)

end
