(* ===== verification/Conn_User.thy ===== *)
theory Conn_User
  imports Conn_Frame
begin

text \<open>
  The connection as its user sees it. What the calls of a callback do on an open connection, and an
  abstract connection \<open>spec_conn\<close> with three components: whether it is open for sending, what the
  user has left unread, and everything it has sent. A run in which only the loop's own thread uses
  the connection agrees at every moment with the abstract connection that replays the callbacks made
  so far: buffers, partial writes, the poller and the queue of functors do not show.
\<close>

section \<open>Calls on an open connection\<close>

declare split_paired_Ex [simp del]

text \<open>Sending leaves the input alone, and on an open connection accepts everything.\<close>

lemma send_direct_input: "tc_input (snd (snd (send_direct data w))) = tc_input (snd w)"
  by (cases w) (simp add: send_direct_def Let_def queue_here_def split: sum.split)

lemma send_rest_input: "send_rest n data w = Some w' \<Longrightarrow> tc_input (snd w') = tc_input (snd w)"
  by (cases w) (auto simp: send_rest_def Let_def queue_here_Pair split: if_splits Option.bind_splits
      dest!: on_channel_conn)

lemma sendInLoop_input: "sendInLoop data w = Some w' \<Longrightarrow> tc_input (snd w') = tc_input (snd w)"
  using send_direct_input [of data "apsnd (trace (Accepted data)) w"]
  by (cases w) (auto simp: sendInLoop_def split: prod.splits if_splits dest!: send_rest_input)

text \<open>In the loop's thread, on a connection that is up, \<open>send\<close> and \<open>shutdown\<close> take effect at once.\<close>

definition accepts :: "conn_world \<Rightarrow> string \<Rightarrow> conn_state \<Rightarrow> conn_world \<Rightarrow> bool" where
  "accepts w s st w' \<longleftrightarrow> conn_ok w' \<and> tc_state (snd w') = st \<and> el_threadId (fst w') = el_threadId (fst w)
     \<and> accepted (tc_trace (snd w')) = accepted (tc_trace (snd w)) @ s \<and> tc_input (snd w') = tc_input (snd w)"

lemma sendInLoop_up:
  assumes "conn_ok w" and "tc_state (snd w) = kConnected"
  shows "\<exists>w'. sendInLoop s w = Some w' \<and> accepts w s kConnected w'"
proof -
  obtain w' where w': "sendInLoop s w = Some w'" "conn_ok w'" "steady w w'" "tc_state (snd w') = tc_state (snd w)"
    by (rule sendInLoop_ok [OF assms(1)])
  with sendInLoop_accepts [OF w'(1)] sendInLoop_input [OF w'(1)] assms(2)
  have "accepts w s kConnected w'" by (simp add: accepts_def steady_def posts_only_def)
  with w'(1) show ?thesis by blast
qed

lemma send_string_up:
  assumes "conn_ok w" and "tc_state (snd w) = kConnected"
  shows "\<exists>w'. send_string (el_threadId (fst w)) s late w = Some w' \<and> accepts w s kConnected w'"
  using sendInLoop_up [OF assms, of s] assms(2) by (simp add: send_string_def isInLoopThread_def)

lemma send_buffer_up:
  assumes "conn_ok w" and "tc_state (snd w) = kConnected" and "buf_inv b"
  shows "\<exists>w' b'. send_buffer (el_threadId (fst w)) b w = Some (w', b') \<and> accepts w (content b) kConnected w'"
  using sendInLoop_up [OF assms(1,2), of "content b"] assms(2)
  by (auto simp: send_buffer_def isInLoopThread_def peek_slice [OF assms(3)])

lemma shutdown_up:
  assumes "conn_ok w" and "tc_state (snd w) = kConnected"
  shows "\<exists>w'. shutdown (el_threadId (fst w)) w = Some w' \<and> accepts w [] kDisconnecting w'"
proof -
  obtain el c where w: "w = (el, c)" by (cases w)
  obtain w' where w': "shutdown (el_threadId (fst w)) w = Some w'" "conn_ok w'"
    using shutdown_ok [OF assms(1)] by blast
  have "w' = (el, setState kDisconnecting c) \<or> w' = (el, trace ShutWr (setState kDisconnecting c))"
    using w'(1) assms(2)
    by (auto simp: w shutdown_def runInLoop_def isInLoopThread_def shutdownInLoop_def split: if_splits)
  with w' show ?thesis by (auto simp: accepts_def w)
qed

lemma accepts_trans: "accepts a s st b \<Longrightarrow> accepts b s' st' c \<Longrightarrow> accepts a (s @ s') st' c"
  by (simp add: accepts_def)


section \<open>The abstract connection\<close>

record spec_conn =
  sc_open :: bool
  sc_unread :: string
  sc_sent :: string

text \<open>A call of the user's, a callback of the connection with the calls the user answers it with, and all callbacks so far.\<close>

definition spec_send :: "string \<Rightarrow> spec_conn \<Rightarrow> spec_conn" where
  "spec_send s a = (if sc_open a then a\<lparr>sc_sent := sc_sent a @ s\<rparr> else a)"

fun spec_call :: "api \<Rightarrow> spec_conn \<Rightarrow> spec_conn" where
  "spec_call (ASendPtr s late) a = spec_send (c_str s) a"
| "spec_call (ASendString s late) a = spec_send s a"
| "spec_call (ASendBuffer b) a = spec_send (content b) a"
| "spec_call ASendInput a = (if sc_open a then (spec_send (sc_unread a) a)\<lparr>sc_unread := []\<rparr> else a)"
| "spec_call AShutdown a = a\<lparr>sc_open := False\<rparr>"
| "spec_call AForceClose a = a\<lparr>sc_open := False\<rparr>"
| "spec_call (ARetrieve n) a = a\<lparr>sc_unread := drop n (sc_unread a)\<rparr>"
| "spec_call AQueueDestroyed a = a"

fun spec_called :: "callback \<Rightarrow> spec_conn \<Rightarrow> spec_conn" where
  "spec_called (ConnectionCb up) a = a\<lparr>sc_open := up\<rparr>"
| "spec_called (MessageCb m t) a = a\<lparr>sc_unread := m\<rparr>"
| "spec_called _ a = a"

definition spec_step :: "(nat \<Rightarrow> callback \<Rightarrow> api list) \<Rightarrow> nat \<times> callback \<Rightarrow> spec_conn \<Rightarrow> spec_conn" where
  "spec_step user = (\<lambda>(k, cb) a. fold spec_call (user k cb) (spec_called cb a))"

definition replay :: "(nat \<Rightarrow> callback \<Rightarrow> api list) \<Rightarrow> (nat \<times> callback) list \<Rightarrow> spec_conn" where
  "replay user cbs = fold (spec_step user) cbs \<lparr>sc_open = False, sc_unread = [], sc_sent = []\<rparr>"

text \<open>The callbacks in a trace, each with what had happened before; and a connection's abstraction.\<close>

definition callbacks :: "conn_event list \<Rightarrow> (nat \<times> callback) list" where
  "callbacks tr = List.map_filter (\<lambda>(k, e). case e of Called cb \<Rightarrow> Some (k, cb) | _ \<Rightarrow> None) (enumerate 0 tr)"

definition spec_of :: "tcp_conn \<Rightarrow> spec_conn" where
  "spec_of c = \<lparr>sc_open = (tc_state c = kConnected), sc_unread = content (tc_input c), sc_sent = accepted (tc_trace c)\<rparr>"

lemma callbacks_snoc [simp]:
  "callbacks (tr @ [e]) = callbacks tr @ (case e of Called cb \<Rightarrow> [(length tr, cb)] | _ \<Rightarrow> [])"
  by (simp add: callbacks_def enumerate_append_eq List.map_filter_def split: conn_event.split)

lemma callbacks_Nil [simp]: "callbacks [] = []"
  by (simp add: callbacks_def List.map_filter_def)

lemma replay_Nil [simp]: "replay user [] = \<lparr>sc_open = False, sc_unread = [], sc_sent = []\<rparr>"
  by (simp add: replay_def)

lemma replay_snoc [simp]: "replay user (cbs @ [x]) = spec_step user x (replay user cbs)"
  by (simp add: replay_def)

text \<open>What the connection delivers: each message is what was left unread with what the socket gave.\<close>

definition delivers :: "(nat \<Rightarrow> callback \<Rightarrow> api list) \<Rightarrow> (nat \<Rightarrow> nat \<Rightarrow> int + string) \<Rightarrow> (nat \<times> callback) list \<Rightarrow> bool" where
  "delivers user rd cbs \<longleftrightarrow> (\<forall>before k m t after. cbs = before @ (k, MessageCb m t) # after \<longrightarrow>
     (\<exists>room bytes. rd k room = Inr bytes \<and> bytes \<noteq> [] \<and> m = sc_unread (replay user before) @ bytes))"

lemma delivers_Nil [simp]: "delivers user rd []"
  by (simp add: delivers_def)

lemma delivers_snoc:
  "delivers user rd (cbs @ [(k, cb)]) \<longleftrightarrow> delivers user rd cbs
    \<and> (\<forall>m t. cb = MessageCb m t \<longrightarrow>
        (\<exists>room bytes. rd k room = Inr bytes \<and> bytes \<noteq> [] \<and> m = sc_unread (replay user cbs) @ bytes))"
  (is "?l \<longleftrightarrow> ?r")
proof
  assume ?l then show ?r by (fastforce simp: delivers_def)
next
  assume r: ?r
  show ?l
    unfolding delivers_def
  proof (intro allI impI)
    fix before j m t after
    assume "cbs @ [(k, cb)] = before @ (j, MessageCb m t) # after"
    with r show "\<exists>room bytes. rd j room = Inr bytes \<and> bytes \<noteq> [] \<and> m = sc_unread (replay user before) @ bytes"
      by (cases after rule: rev_cases) (auto simp: delivers_def)
  qed
qed

section \<open>Every operation agrees with the abstract connection\<close>

text \<open>
  A functor is bound to the connection by a \<open>shared_ptr\<close> and so owns it, or, as those of \<open>send\<close> and
  \<open>shutdown\<close> are, by \<open>this\<close>. Only other threads post the latter.
\<close>

fun owning :: "conn_functor \<Rightarrow> bool" where
  "owning (SendInLoop s) = False"
| "owning ShutdownInLoop = False"
| "owning ForceCloseInLoop = True"
| "owning ConnectEstablished = True"
| "owning ConnectDestroyed = True"
| "owning WriteCompleteF = True"
| "owning (HighWaterF n) = True"

text \<open>What an operation leaves as it is when it makes no callback; and that nothing waits which another thread posted.\<close>

definition same_side :: "tcp_conn \<Rightarrow> tcp_conn \<Rightarrow> bool" where
  "same_side c c' \<longleftrightarrow> tc_state c' = tc_state c \<and> tc_input c' = tc_input c \<and> tc_user c' = tc_user c
     \<and> tc_read c' = tc_read c \<and> callbacks (tc_trace c') = callbacks (tc_trace c)"

definition no_sends :: "conn_world \<Rightarrow> bool" where
  "no_sends w \<longleftrightarrow> (\<forall>f \<in> set (el_pending (fst w)). owning f)"

lemma same_side_refl [simp]: "same_side c c"
  by (simp add: same_side_def)

lemma same_side_trans: "same_side a b \<Longrightarrow> same_side b c \<Longrightarrow> same_side a c"
  by (simp add: same_side_def)

lemma no_sends_queue [simp]: "no_sends (queueInLoop tid f el, c) \<longleftrightarrow> no_sends (el, c) \<and> owning f"
  by (auto simp: no_sends_def)

lemma on_channel_sends:
  assumes "on_channel m w = Some w'" and "m = enableReading \<or> m = enableWriting \<or> m = disableWriting \<or> m = disableAll \<or> m = el_removeChannel"
  shows "snd w' = snd w" "no_sends w' = no_sends w" "el_threadId (fst w') = el_threadId (fst w)"
proof -
  obtain el where el: "m (tc_channel (snd w)) (fst w) = Some el" "w' = (el, snd w)"
    using assms(1) by (auto simp: on_channel_def split: Option.bind_splits)
  have "el_pending el = el_pending (fst w) \<and> el_threadId el = el_threadId (fst w)"
    using assms(2) el(1) by (auto simp: interest_defs set_interest_queue removeChannel_queue)
  with el(2) show "snd w' = snd w" "no_sends w' = no_sends w" "el_threadId (fst w') = el_threadId (fst w)"
    by (simp_all add: no_sends_def)
qed


lemma send_direct_side:
  "same_side (snd w) (snd (snd (send_direct data w)))" "no_sends (snd (send_direct data w)) = no_sends w"
  by (cases w; simp add: send_direct_def Let_def queue_here_Pair same_side_def no_sends_def split: sum.split)+

lemma send_rest_side:
  assumes "send_rest n data w = Some w'"
  shows "same_side (snd w) (snd w')" "no_sends w' = no_sends w"
proof -
  define old where "old = readableBytes (tc_output (snd w)) + sz_sub (length data) n"
  define w1 where "w1 = (if tc_highWaterMark (snd w) \<le> old
      \<and> readableBytes (tc_output (snd w)) < tc_highWaterMark (snd w) \<and> tc_hasHighWater (snd w)
    then queue_here (HighWaterF old) w else w)"
  obtain out where
    r: "(if \<not> conn_writing (fst w1, (snd w1)\<lparr>tc_output := out\<rparr>)
        then on_channel enableWriting (fst w1, (snd w1)\<lparr>tc_output := out\<rparr>)
        else Some (fst w1, (snd w1)\<lparr>tc_output := out\<rparr>)) = Some w'"
    using assms unfolding send_rest_def Let_def old_def [symmetric] w1_def [symmetric]
    by (auto split: Option.bind_splits)
  have 1: "snd w1 = snd w" "no_sends w1 = no_sends w"
    by (cases w; simp add: w1_def queue_here_Pair)+
  have 2: "snd w' = (snd w1)\<lparr>tc_output := out\<rparr>" "no_sends w' = no_sends (fst w1, (snd w1)\<lparr>tc_output := out\<rparr>)"
    using r by (auto split: if_splits dest: on_channel_sends)
  show "same_side (snd w) (snd w')" by (simp add: 2(1) 1(1) same_side_def)
  show "no_sends w' = no_sends w" using 1(2) 2(2) by (simp add: no_sends_def)
qed

lemma sendInLoop_side:
  assumes "sendInLoop data w = Some w'"
  shows "same_side (snd w) (snd w')" "no_sends w' = no_sends w"
proof -
  let ?w = "apsnd (trace (Accepted data)) w"
  obtain n b w1 where d: "send_direct data ?w = ((n, b), w1)" by (metis surj_pair)
  have 0: "same_side (snd w) (snd ?w)" "no_sends ?w = no_sends w"
    by (cases w; simp add: same_side_def no_sends_def)+
  have 1: "same_side (snd ?w) (snd w1)" "no_sends w1 = no_sends ?w"
    using send_direct_side [where w = ?w and data = data] by (simp_all add: d)
  have "w' = w \<or> w' = w1 \<or> send_rest n data w1 = Some w'"
    using assms d by (auto simp: sendInLoop_def split: if_splits)
  then show "same_side (snd w) (snd w')" "no_sends w' = no_sends w"
    using 0 1 send_rest_side [of n data w1 w'] by (auto intro: same_side_trans)
qed

text \<open>
  A connection and its abstraction agree up to the calls \<open>as\<close> that the user still makes in the
  callback under way.
\<close>

definition agrees :: "api list \<Rightarrow> conn_world \<Rightarrow> bool" where
  "agrees as w \<longleftrightarrow> (case w of (el, c) \<Rightarrow> buf_inv (tc_input c) \<and> (\<forall>k. readv_ok (tc_read c k))
     \<and> (\<forall>k cb. list_all api_ok (tc_user c k cb)) \<and> no_sends w
     \<and> delivers (tc_user c) (tc_read c) (callbacks (tc_trace c))
     \<and> fold spec_call as (spec_of c) = replay (tc_user c) (callbacks (tc_trace c)))"

lemma agrees_side:
  assumes "agrees as (el, c)" and "same_side c c'" and "accepted (tc_trace c') = accepted (tc_trace c)"
    and "no_sends (el', c') = no_sends (el, c)"
  shows "agrees as (el', c')"
  using assms by (simp add: agrees_def same_side_def spec_of_def)

lemma spec_of_simps [simp]:
  "sc_open (spec_of c) = (tc_state c = kConnected)" "sc_unread (spec_of c) = content (tc_input c)"
  "sc_sent (spec_of c) = accepted (tc_trace c)"
  by (simp_all add: spec_of_def)

lemma sendInLoop_agrees:
  assumes "agrees as' (el, c)" and "sendInLoop s (el, c) = Some w'" and "tc_state c = kConnected"
    and "fold spec_call as' (spec_of c) = fold spec_call as (spec_send s (spec_of c))"
  shows "agrees as w'"
proof -
  obtain el' c' where w': "w' = (el', c')" by (cases w')
  note side = sendInLoop_side [OF assms(2), unfolded w']
  have "accepted (tc_trace c') = accepted (tc_trace c) @ s"
    using sendInLoop_accepts [OF assms(2)] assms(3) by (simp add: w')
  then have "spec_of c' = spec_send s (spec_of c)"
    using side(1) assms(3) by (simp add: same_side_def spec_of_def spec_send_def)
  with assms(1,4) side show ?thesis by (simp add: agrees_def w' same_side_def)
qed

lemma send_string_agrees:
  assumes "agrees as' (el, c)" and "send_string (el_threadId el) s late (el, c) = Some w'"
    and "fold spec_call as' (spec_of c) = fold spec_call as (spec_send s (spec_of c))"
  shows "agrees as w'"
proof (cases "tc_state c = kConnected")
  case True
  then show ?thesis using assms(2) sendInLoop_agrees [OF assms(1) _ True assms(3)]
    by (simp add: send_string_def isInLoopThread_def)
next
  case False
  then have "w' = (el, c)" "spec_send s (spec_of c) = spec_of c"
    using assms(2) by (simp_all add: send_string_def spec_send_def)
  with assms(1,3) show ?thesis by (simp add: agrees_def)
qed

lemma send_buffer_agrees:
  assumes "agrees as' (el, c)" and "send_buffer (el_threadId el) b (el, c) = Some (w', b')" and "buf_inv b"
    and "fold spec_call as' (spec_of c) = fold spec_call as (spec_send (content b) (spec_of c))"
  shows "agrees as w'"
proof (cases "tc_state c = kConnected")
  case True
  then show ?thesis using assms(2) sendInLoop_agrees [OF assms(1) _ True assms(4)] peek_slice [OF assms(3)]
    by (auto simp: send_buffer_def isInLoopThread_def split: Option.bind_splits)
next
  case False
  then have "w' = (el, c)" "spec_send (content b) (spec_of c) = spec_of c"
    using assms(2) by (simp_all add: send_buffer_def spec_send_def)
  with assms(1,4) show ?thesis by (simp add: agrees_def)
qed

lemma send_buffer_side:
  assumes "send_buffer (el_threadId el) b (el, c) = Some (w', b')"
  shows "b' = (if tc_state c = kConnected then rertrieveAll b else b)" "same_side c (snd w')"
  using assms by (auto simp: send_buffer_def isInLoopThread_def split: if_splits Option.bind_splits
      dest!: sendInLoop_side(1))

lemma agrees_input:
  assumes "agrees as' (el, c)" and "buf_inv b"
    and "fold spec_call as (spec_of (c\<lparr>tc_input := b\<rparr>)) = fold spec_call as' (spec_of c)"
  shows "agrees as (el, c\<lparr>tc_input := b\<rparr>)"
  using assms by (simp add: agrees_def no_sends_def)


lemma runInLoop_here: "tid = el_threadId (fst w) \<Longrightarrow> runInLoop exec tid f w = exec f w"
  by (simp add: runInLoop_def isInLoopThread_def)

lemma spec_of_closing [simp]:
  "spec_of (setState kDisconnecting c) = (spec_of c)\<lparr>sc_open := False\<rparr>"
  "spec_of (trace ShutWr c) = spec_of c"
  "tc_state c \<noteq> kConnected \<Longrightarrow> (spec_of c)\<lparr>sc_open := False\<rparr> = spec_of c"
  by (simp_all add: spec_of_def)

lemma shutdown_agrees:
  assumes "agrees (AShutdown # as) (el, c)" and "shutdown (el_threadId el) (el, c) = Some w'"
  shows "agrees as w'"
proof (cases "tc_state c = kConnected")
  case True
  with assms show ?thesis
    by (auto simp: shutdown_def runInLoop_here shutdownInLoop_def agrees_def no_sends_def split: if_splits)
next
  case False
  then have "spec_call AShutdown (spec_of c) = spec_of c" "w' = (el, c)"
    using assms(2) by (simp_all add: shutdown_def spec_of_def)
  with assms(1) show ?thesis by (simp add: agrees_def)
qed

lemma forceClose_agrees:
  assumes "agrees (AForceClose # as) (el, c)"
  shows "agrees as (forceClose tid (el, c))"
proof (cases "tc_state c = kConnected \<or> tc_state c = kDisconnecting")
  case True
  with assms show ?thesis by (auto simp: forceClose_def agrees_def no_sends_def)
next
  case False
  with assms show ?thesis by (simp add: forceClose_def agrees_def)
qed

lemma send_input_agrees:
  assumes "agrees (ASendInput # as) (el, c)" and "api_call (el_threadId el) ASendInput (el, c) = Some w'"
  shows "agrees as w'"
proof -
  obtain el1 c1 b where 1: "send_buffer (el_threadId el) (tc_input c) (el, c) = Some ((el1, c1), b)"
      and w': "w' = (el1, c1\<lparr>tc_input := b\<rparr>)"
    using assms(2) by (auto simp: api_call_def split: Option.bind_splits)
  have inv: "buf_inv (tc_input c)" using assms(1) by (simp add: agrees_def)
  show ?thesis
  proof (cases "tc_state c = kConnected")
    case True
    have 2: "agrees (ARetrieve (length (content (tc_input c))) # as) (el1, c1)"
      by (rule send_buffer_agrees [OF assms(1) 1 inv]) (simp add: True spec_send_def)
    have 3: "b = rertrieveAll (tc_input c)" "same_side c c1"
      using send_buffer_side [OF 1] True by simp_all
    show ?thesis unfolding w'
      by (rule agrees_input [OF 2]) (use inv 3 in \<open>simp_all add: rertrieveAll_inv same_side_def spec_of_def\<close>)
  next
    case False
    then have same: "b = tc_input c \<and> el1 = el \<and> c1 = c" using 1 by (auto simp: send_buffer_def)
    from assms(1) False same show ?thesis by (simp add: w' agrees_def)
  qed
qed

lemma retrieve_agrees:
  assumes "agrees (ARetrieve n # as) (el, c)"
  shows "agrees as (el, c\<lparr>tc_input := retrieve n (tc_input c)\<rparr>)"
proof -
  have inv: "buf_inv (tc_input c)" using assms by (simp add: agrees_def)
  show ?thesis
    by (rule agrees_input [OF assms retrieve_inv [OF inv]]) (simp add: spec_of_def content_retrieve [OF inv])
qed

lemma api_call_agrees:
  assumes ag: "agrees (a # as) (el, c)" and a: "api_ok a" and run: "api_call (el_threadId el) a (el, c) = Some w'"
  shows "agrees as w'"
proof (cases a)
  case (ASendPtr s late)
  have "send_string (el_threadId el) (c_str s) late (el, c) = Some w'"
    using run by (simp add: ASendPtr api_call_def send_ptr_def)
  then show ?thesis by (rule send_string_agrees [OF ag]) (simp add: ASendPtr)
next
  case (ASendString s late)
  have "send_string (el_threadId el) s late (el, c) = Some w'"
    using run by (simp add: ASendString api_call_def)
  then show ?thesis by (rule send_string_agrees [OF ag]) (simp add: ASendString)
next
  case (ASendBuffer b)
  obtain b' where "send_buffer (el_threadId el) b (el, c) = Some (w', b')"
    using run by (auto simp: ASendBuffer api_call_def)
  then show ?thesis by (rule send_buffer_agrees [OF ag]) (use a in \<open>simp_all add: ASendBuffer\<close>)
next
  case ASendInput
  show ?thesis by (rule send_input_agrees [OF ag [unfolded ASendInput] run [unfolded ASendInput]])
next
  case AShutdown
  have "shutdown (el_threadId el) (el, c) = Some w'" using run by (simp add: AShutdown api_call_def)
  then show ?thesis by (rule shutdown_agrees [OF ag [unfolded AShutdown]])
next
  case AForceClose
  have "w' = forceClose (el_threadId el) (el, c)" using run by (simp add: AForceClose api_call_def)
  then show ?thesis using forceClose_agrees [OF ag [unfolded AForceClose]] by simp
next
  case (ARetrieve n)
  have "w' = (el, c\<lparr>tc_input := retrieve n (tc_input c)\<rparr>)" using run by (simp add: ARetrieve api_call_def)
  then show ?thesis using retrieve_agrees [OF ag [unfolded ARetrieve]] by simp
next
  case AQueueDestroyed
  have "w' = (queueInLoop (el_threadId el) ConnectDestroyed el, c)" using run by (simp add: AQueueDestroyed api_call_def)
  then show ?thesis using ag by (simp add: AQueueDestroyed agrees_def)
qed

lemma api_calls_agree:
  assumes "agrees as w" and "list_all api_ok as" and "bind_fold (api_call (el_threadId (fst w))) as w = Some w'"
  shows "agrees [] w'"
  using assms
proof (induction as arbitrary: w)
  case (Cons a as)
  obtain el c where w: "w = (el, c)" by (cases w)
  obtain w1 where 1: "api_call (el_threadId el) a (el, c) = Some w1" "bind_fold (api_call (el_threadId el)) as w1 = Some w'"
    using Cons.prems(3) by (auto simp: w split: Option.bind_splits)
  have "agrees as w1" using api_call_agrees [OF _ _ 1(1)] Cons.prems(1,2) by (simp add: w)
  moreover have "el_threadId (fst w1) = el_threadId el" using api_call_posts [OF 1(1)] by (simp add: posts_only_def)
  ultimately show ?case using Cons.IH [of w1] Cons.prems(2) 1(2) by simp
qed simp


text \<open>A callback is due: the connection has changed as the callback says, and not told its user yet.\<close>

definition due :: "callback \<Rightarrow> conn_world \<Rightarrow> bool" where
  "due cb w \<longleftrightarrow> (case w of (el, c) \<Rightarrow> buf_inv (tc_input c) \<and> (\<forall>k. readv_ok (tc_read c k))
     \<and> (\<forall>k cb. list_all api_ok (tc_user c k cb)) \<and> no_sends w
     \<and> delivers (tc_user c) (tc_read c) (callbacks (tc_trace c) @ [(length (tc_trace c), cb)])
     \<and> spec_of c = spec_called cb (replay (tc_user c) (callbacks (tc_trace c))))"

lemma invoke_agrees:
  assumes "due cb w" and "invoke cb w = Some w'"
  shows "agrees [] w'"
proof -
  obtain el c where w: "w = (el, c)" by (cases w)
  let ?as = "tc_user c (length (tc_trace c)) cb"
  have "agrees ?as (el, trace (Called cb) c)"
    using assms(1) by (simp add: due_def w agrees_def spec_step_def no_sends_def) (simp add: spec_of_def)
  moreover have "list_all api_ok ?as" using assms(1) by (simp add: due_def w)
  ultimately show ?thesis using assms(2)
    by (intro api_calls_agree [of ?as "(el, trace (Called cb) c)"]) (simp_all add: invoke_def w)
qed

lemma due_notice:
  assumes "agrees [] w" and "cb = CloseCb \<or> cb = WriteCompleteCb \<or> (\<exists>n. cb = HighWaterCb n)"
  shows "due cb w"
proof -
  have "spec_called cb = id" using assms(2) by (auto simp: fun_eq_iff)
  with assms show ?thesis by (auto simp: due_def agrees_def delivers_snoc)
qed

lemma due_connection:
  assumes "agrees [] (el, c)" and "no_sends (el', c')" and "same_side (setState st c) c'"
    and "accepted (tc_trace c') = accepted (tc_trace c)" and "up \<longleftrightarrow> st = kConnected"
  shows "due (ConnectionCb up) (el', c')"
proof -
  have "spec_of c' = (spec_of c)\<lparr>sc_open := up\<rparr>" using assms(3-5) by (simp add: spec_of_def same_side_def)
  with assms(1-3) show ?thesis by (auto simp: due_def agrees_def delivers_snoc same_side_def)
qed

lemma due_message:
  assumes "agrees [] (el, c)" and "buf_inv b" and "content b = content (tc_input c) @ bytes" and "bytes \<noteq> []"
    and "tc_read c (length (tc_trace c)) room = Inr bytes"
  shows "due (MessageCb (content b) t) (el, c\<lparr>tc_input := b\<rparr>)"
proof -
  have "replay (tc_user c) (callbacks (tc_trace c)) = spec_of c" using assms(1) by (simp add: agrees_def)
  with assms show ?thesis by (auto simp: due_def agrees_def delivers_snoc no_sends_def spec_of_def)
qed

text \<open>The handlers and functors.\<close>

lemma agrees_loop: "agrees as (el, c) \<Longrightarrow> no_sends (el', c) = no_sends (el, c) \<Longrightarrow> agrees as (el', c)"
  by (simp add: agrees_def)

lemma take_down_agrees:
  assumes "agrees [] w" and "on_channel disableAll (apsnd (setState kDisconnected) w) = Some w1"
    and "invoke (ConnectionCb False) w1 = Some w2"
  shows "agrees [] w2"
proof (rule invoke_agrees [OF _ assms(3)])
  obtain el c where w: "w = (el, c)" by (cases w)
  obtain el1 c1 where w1: "w1 = (el1, c1)" by (cases w1)
  have "c1 = setState kDisconnected c" "no_sends (el1, c1) = no_sends (el, c)"
    using on_channel_sends [OF assms(2)] by (simp_all add: w w1 no_sends_def)
  with assms(1) show "due (ConnectionCb False) w1" unfolding w1
    by (intro due_connection [of el c _ _ kDisconnected]) (simp_all add: w agrees_def)
qed

lemma handleClose_agrees:
  assumes "agrees [] w" and "handleClose w = Some w'"
  shows "agrees [] w'"
proof -
  obtain w1 w2 where 1: "on_channel disableAll (apsnd (setState kDisconnected) w) = Some w1"
      "invoke (ConnectionCb False) w1 = Some w2" "invoke CloseCb w2 = Some w'"
    using assms(2) by (auto simp: handleClose_def split: Option.bind_splits)
  show ?thesis by (rule invoke_agrees [OF due_notice [OF take_down_agrees [OF assms(1) 1(1,2)]] 1(3)]) simp
qed

lemma handleRead_agrees:
  assumes ag: "agrees [] w" and run: "handleRead t w = Some w'"
  shows "agrees [] w'"
proof -
  obtain el c where w: "w = (el, c)" by (cases w)
  let ?rd = "tc_read c (length (tc_trace c))"
  have inv: "buf_inv (tc_input c)" and rd: "readv_ok ?rd" using ag by (simp_all add: w agrees_def)
  show ?thesis
  proof (cases "?rd (readFd_room (tc_input c))")
    case (Inl err)
    have "c\<lparr>tc_input := tc_input c\<rparr> = c" by simp
    then have "w' = (el, trace (ReadFailed err) c)"
      using run by (simp add: handleRead_def w readFd_error [where readv = "?rd" and b = "tc_input c", OF Inl] handleError_def)
    with ag show ?thesis by (auto simp: w intro: agrees_side simp: same_side_def no_sends_def)
  next
    case (Inr bs)
    obtain b where b: "readFd ?rd (tc_input c) = Some (Inr (length bs), b)" "buf_inv b" "content b = content (tc_input c) @ bs"
      using readFd_bytes [OF inv rd Inr] by blast
    let ?w = "(el, c\<lparr>tc_input := b\<rparr>)"
    show ?thesis
    proof (cases "bs = []")
      case True
      have "agrees [] ?w" using ag [unfolded w] b(2) by (rule agrees_input) (simp add: spec_of_def b(3) True)
      moreover have "handleClose ?w = Some w'" using run True by (simp add: handleRead_def w b(1))
      ultimately show ?thesis by (rule handleClose_agrees)
    next
      case False
      have "due (MessageCb (content b) t) ?w" by (rule due_message [OF ag [unfolded w] b(2,3) False Inr])
      moreover have "invoke (MessageCb (content b) t) ?w = Some w'"
        using run False by (simp add: handleRead_def w b(1) Let_def)
      ultimately show ?thesis by (rule invoke_agrees)
    qed
  qed
qed

lemma shutdownInLoop_agrees: "agrees [] w \<Longrightarrow> shutdownInLoop w = Some w' \<Longrightarrow> agrees [] w'"
  by (cases w) (auto simp: shutdownInLoop_def split: if_splits intro: agrees_side simp: same_side_def no_sends_def)


lemma handleWrite_agrees:
  assumes ag: "agrees [] w" and run: "handleWrite w = Some w'"
  shows "agrees [] w'"
proof -
  obtain el c where w: "w = (el, c)" by (cases w)
  have side: "agrees [] (el', c')" if "same_side c c'" "accepted (tc_trace c') = accepted (tc_trace c)"
      "no_sends (el', c') = no_sends (el, c)" for el' c'
    by (rule agrees_side [OF ag [unfolded w] that])
  show ?thesis
  proof (cases "conn_writing (el, c)")
    case False
    with ag run show ?thesis by (simp add: handleWrite_def w)
  next
    case True
    show ?thesis
    proof (cases "writeFd (tc_write c (length (tc_trace c))) (tc_output c)")
      case (Inl err)
      with run True have "w' = (el, trace (WriteFailed err) c)" by (simp add: handleWrite_def w)
      then show ?thesis by (auto intro: side simp: same_side_def no_sends_def)
    next
      case (Inr n)
      define c1 where "c1 = trace (Wire (take n (Prelude.slice (peek (tc_output c)) (readableBytes (tc_output c))
        (b_buffer (tc_output c))))) (c\<lparr>tc_output := retrieve n (tc_output c)\<rparr>)"
      have c1: "same_side c c1" "accepted (tc_trace c1) = accepted (tc_trace c)" by (simp_all add: c1_def same_side_def)
      have 1: "agrees [] (el, c1)" by (rule side [OF c1]) (simp add: no_sends_def)
      consider "w' = (el, c1)" | "w' = (el, trace (Wire []) c)"
        | w2 where "on_channel disableWriting (el, c1) = Some w2"
            "(let w = (if tc_hasWriteComplete (snd w2) then queue_here WriteCompleteF w2 else w2)
              in if tc_state (snd w) = kDisconnecting then shutdownInLoop w else Some w) = Some w'"
        using run True Inr unfolding w handleWrite_def c1_def Let_def
        by (auto split: if_splits Option.bind_splits)
      then show ?thesis
      proof cases
        case 2
        then show ?thesis by (auto intro: side simp: same_side_def no_sends_def)
      next
        case (3 w2)
        obtain el2 c2 where w2: "w2 = (el2, c2)" by (cases w2)
        have "c2 = c1" "no_sends (el2, c1) = no_sends (el, c1)"
          using on_channel_sends [OF 3(1)] by (simp_all add: w2 no_sends_def)
        with 1 have "agrees [] (if tc_hasWriteComplete (snd w2) then queue_here WriteCompleteF w2 else w2)"
          by (auto simp: w2 queue_here_Pair intro: agrees_loop)
        with 3(2) shutdownInLoop_agrees show ?thesis by (auto simp: Let_def split: if_splits)
      qed (use 1 in simp)
    qed
  qed
qed

lemma connectEstablished_agrees:
  assumes ag: "agrees [] w" and run: "connectEstablished w = Some w'"
  shows "agrees [] w'"
proof -
  obtain el c where w: "w = (el, c)" by (cases w)
  let ?el = "el\<lparr>el_chans := (el_chans el)(tc_channel c := tie (tc_channel c) (el_chans el (tc_channel c)))\<rparr>"
  obtain el1 c1 where 1: "on_channel enableReading (?el, setState kConnected c) = Some (el1, c1)"
      "invoke (ConnectionCb True) (el1, c1) = Some w'"
    using run by (auto simp: w connectEstablished_def Let_def split: Option.bind_splits)
  have "c1 = setState kConnected c" "no_sends (el1, c1) = no_sends (el, c)"
    using on_channel_sends [OF 1(1)] by (simp_all add: no_sends_def)
  with ag have "due (ConnectionCb True) (el1, c1)"
    by (intro due_connection [of el c _ _ kConnected]) (simp_all add: w agrees_def)
  from invoke_agrees [OF this 1(2)] show ?thesis .
qed

lemma connectDestroyed_agrees:
  assumes ag: "agrees [] w" and run: "connectDestroyed w = Some w'"
  shows "agrees [] w'"
proof -
  obtain w2 where 2: "agrees [] w2" "on_channel el_removeChannel w2 = Some w'"
  proof (cases "tc_state (snd w) = kConnected")
    case True
    then obtain w1 w2 where 1: "on_channel disableAll (apsnd (setState kDisconnected) w) = Some w1"
        "invoke (ConnectionCb False) w1 = Some w2" "on_channel el_removeChannel w2 = Some w'"
      using run by (auto simp: connectDestroyed_def split: Option.bind_splits)
    with that take_down_agrees [OF ag 1(1,2)] show ?thesis by blast
  next
    case False
    with run ag that show ?thesis by (auto simp: connectDestroyed_def)
  qed
  obtain el2 c2 el3 c3 where "w2 = (el2, c2)" "w' = (el3, c3)" by (cases w2; cases w')
  with 2(1) on_channel_sends [OF 2(2)] show ?thesis by (auto simp: no_sends_def intro: agrees_loop)
qed

lemma exec_functor_agrees:
  assumes ag: "agrees [] w" and "owning f" and run: "exec_functor f w = Some w'"
  shows "agrees [] w'"
proof (cases f)
  case ForceCloseInLoop
  with ag run handleClose_agrees [OF ag] show ?thesis by (auto simp: forceCloseInLoop_def split: if_splits)
next
  case WriteCompleteF
  with run show ?thesis by (intro invoke_agrees [OF due_notice [OF ag]]) simp_all
next
  case (HighWaterF n)
  with run show ?thesis by (intro invoke_agrees [OF due_notice [OF ag]]) simp_all
qed (use run assms(2) shutdownInLoop_agrees [OF ag] connectEstablished_agrees [OF ag] connectDestroyed_agrees [OF ag] in simp_all)

lemma call_handler_agrees:
  assumes ag: "agrees [] w" and run: "call_handler i w = Some w'"
  shows "agrees [] w'"
proof (cases "(i, w)" rule: call_handler.cases)
  case (5 t w)
  with assms show ?thesis by (cases w) (auto simp: el_handleRead_def no_sends_def intro: agrees_loop)
qed (use assms in \<open>auto intro: handleWrite_agrees handleClose_agrees handleRead_agrees simp: handleError_def\<close>)

section \<open>Runs with one thread\<close>

text \<open>
  The steps of a connection that no thread but its loop's uses, from its construction on: this is how
  a server uses its connections.
\<close>

inductive own_step :: "conn_functor list \<times> conn_world \<Rightarrow> conn_functor list \<times> conn_world \<Rightarrow> bool" where
  own_dispatch: "event_enabled r w \<Longrightarrow> conn_event r t w = Some w' \<Longrightarrow> own_step ([], w) ([], w')"
| own_begin: "\<not> el_calling el \<Longrightarrow> begin_pending el = (el', fs) \<Longrightarrow> own_step ([], (el, c)) (fs, (el', c))"
| own_run: "functor_enabled f w \<Longrightarrow> exec_functor f w = Some w' \<Longrightarrow> own_step (f # fs, w) (fs, w')"
| own_end: "own_step ([], (el, c)) ([], (el\<lparr>el_calling := False\<rparr>, c))"

inductive own_reach :: "conn_functor list \<times> conn_world \<Rightarrow> bool" where
  own_start: "w = new_conn name fd ch wr rd user el \<Longrightarrow> fresh_conn w \<Longrightarrow> el_pending el = [] \<Longrightarrow>
    own_reach ([ConnectEstablished], w)"
| own_queued: "(el', c) = new_conn name fd ch wr rd user el \<Longrightarrow> fresh_conn (el', c) \<Longrightarrow> el_pending el = [] \<Longrightarrow>
    own_reach ([], (queueInLoop tid ConnectEstablished el', c))"
| own_next: "own_reach s \<Longrightarrow> own_step s s' \<Longrightarrow> own_reach s'"

lemma own_step_step: "own_step s s' \<Longrightarrow> conn_step s s'"
  by (erule own_step.cases) (metis conn_step.intros)+

lemma fresh_queue: "fresh_conn (el, c) \<Longrightarrow> fresh_conn (queueInLoop tid f el, c)"
  by (simp add: fresh_conn_def conn_ok_def)

lemma new_conn_pending: "el_pending (fst (new_conn name fd ch wr rd user el)) = el_pending el"
  by (simp add: new_conn_def)

lemma own_reach_reach: "own_reach s \<Longrightarrow> conn_reach s"
proof (induction rule: own_reach.induct)
  case (own_start w name fd ch wr rd user el)
  then show ?case by (intro conn_start) (simp_all add: new_conn_pending)
next
  case (own_queued el' c name fd ch wr rd user el tid)
  have "el_pending el' = []" using new_conn_pending own_queued by (metis fst_conv)
  with own_queued show ?case by (intro conn_queued) (simp_all add: fresh_queue)
next
  case (own_next s s')
  then show ?case by (blast intro: conn_next own_step_step)
qed


lemma fresh_agrees:
  assumes "w = new_conn name fd ch wr rd user el" and "fresh_conn w" and "el_pending el = []"
  shows "agrees [] w" "tc_user (snd w) = user" "tc_read (snd w) = rd"
proof -
  obtain el' c where w: "w = (el', c)" by (cases w)
  have "conn_ok (el', c)" using assms(2) by (simp add: fresh_conn_def w)
  then have "data_ok c" by (simp add: conn_ok_def)
  moreover have "el_pending el' = []" using new_conn_pending [of name fd ch wr rd user el] assms(1,3) w by (metis fst_conv)
  moreover have "tc_state c = kConnecting" "tc_trace c = []" "content (tc_input c) = []"
    using assms(1) w by (auto simp: new_conn_def)
  ultimately show "agrees [] w" using user_api_ok [of "[]" c]
    by (simp add: agrees_def w data_but_def no_sends_def spec_of_def)
  show "tc_user (snd w) = user" "tc_read (snd w) = rd" using assms(1) by (simp_all add: new_conn_def)
qed

definition own_ok :: "conn_functor list \<times> conn_world \<Rightarrow> bool" where
  "own_ok s \<longleftrightarrow> (case s of (fs, w) \<Rightarrow> agrees [] w \<and> (\<forall>f \<in> set fs. owning f))"

lemma conn_event_agrees:
  assumes "agrees [] w" and "conn_event r t w = Some w'"
  shows "agrees [] w'"
proof -
  obtain el c where w: "w = (el, c)" by (cases w)
  obtain el1 where el1: "ready_channel r t w = (el1, c)" "el_pending el1 = el_pending el"
    by (simp add: ready_channel_def w)
  have "bind_fold call_handler (handleEvent (conn_alive c) (el_pollReturnTime el1) (el_chans el1 (tc_channel c)))
      (el1\<lparr>el_current := Some (tc_channel c)\<rparr>, c) = Some w'"
    using assms(2) by (simp add: conn_event_def dispatch_def el1 w [symmetric]) (simp add: w)
  moreover have "agrees [] (el1\<lparr>el_current := Some (tc_channel c)\<rparr>, c)"
    using assms(1) by (simp add: w agrees_def no_sends_def el1(2))
  ultimately show ?thesis using call_handler_agrees bind_fold_invariant [where P = "agrees []"] by metis
qed

lemma own_step_ok:
  assumes "own_step s s'" and "own_ok s"
  shows "own_ok s'"
  using assms(1)
proof cases
  case (own_dispatch r w t w')
  with assms(2) conn_event_agrees show ?thesis by (auto simp: own_ok_def)
next
  case (own_begin el el' fs c)
  with assms(2) show ?thesis by (auto simp: own_ok_def agrees_def no_sends_def begin_pending_def)
next
  case (own_run f w w' fs)
  with assms(2) exec_functor_agrees [of w f w'] show ?thesis by (auto simp: own_ok_def)
next
  case (own_end el c)
  with assms(2) show ?thesis by (simp add: own_ok_def agrees_def no_sends_def)
qed

lemma own_reach_ok: "own_reach s \<Longrightarrow> own_ok s"
proof (induction rule: own_reach.induct)
  case (own_start w name fd ch wr rd user el)
  with fresh_agrees(1) show ?case by (simp add: own_ok_def)
next
  case (own_queued el' c name fd ch wr rd user el tid)
  have "agrees [] (el', c)" by (rule fresh_agrees(1) [OF own_queued])
  then have "agrees [] (queueInLoop tid ConnectEstablished el', c)" by (rule agrees_loop) simp
  then show ?case by (simp add: own_ok_def)
next
  case (own_next s s')
  then show ?case by (blast intro: own_step_ok)
qed

lemma own_reach_agrees: "own_reach (fs, w) \<Longrightarrow> agrees [] w"
  using own_reach_ok by (fastforce simp: own_ok_def)

lemma agrees_refines:
  assumes ag: "agrees [] (el, c)" and ok: "conn_ok (el, c)"
  shows "spec_of c = replay (tc_user c) (callbacks (tc_trace c))
    \<and> wire (tc_trace c) @ content (tc_output c) = sc_sent (replay (tc_user c) (callbacks (tc_trace c)))
    \<and> delivers (tc_user c) (tc_read c) (callbacks (tc_trace c))"
proof -
  have "wire (tc_trace c) @ content (tc_output c) = accepted (tc_trace c)"
    using ok by (simp add: conn_ok_def data_but_def)
  with ag show ?thesis by (simp add: agrees_def) (metis spec_of_simps(3))
qed

text \<open>
  C2: A connection that only its loop's thread uses does exactly what its user's answers say: at every
  moment of every run its openness, its unread input and everything accepted for sending are those
  of the abstract connection that replays the callbacks made so far; what is on the wire is a prefix
  of that; and every message is what the user had left unread followed by exactly the bytes, at
  least one, that the socket gave then, so that none is lost, repeated or out of order.
\<close>
theorem conn_refines_spec:
  assumes "own_reach (fs, (el, c))"
  shows "spec_of c = replay (tc_user c) (callbacks (tc_trace c))
    \<and> wire (tc_trace c) @ content (tc_output c) = sc_sent (replay (tc_user c) (callbacks (tc_trace c)))
    \<and> delivers (tc_user c) (tc_read c) (callbacks (tc_trace c))"
proof -
  have "conn_ok (el, c)" using conn_reach_ok [OF own_reach_reach [OF assms]] by (simp add: run_ok_def)
  from agrees_refines [OF own_reach_agrees [OF assms] this] show ?thesis .
qed


section \<open>Runs that can be taken\<close>

text \<open>Calls of the user make no callback.\<close>

definition untold :: "conn_world \<Rightarrow> conn_world \<Rightarrow> bool" where
  "untold w w' \<longleftrightarrow> callbacks (tc_trace (snd w')) = callbacks (tc_trace (snd w)) \<and> tc_user (snd w') = tc_user (snd w)"

lemma untold_refl [simp]: "untold w w"
  by (simp add: untold_def)

lemma sendInLoop_untold: "sendInLoop s w = Some w' \<Longrightarrow> untold w w'"
  using sendInLoop_side(1) [of s w w'] by (simp add: same_side_def untold_def)

lemma run_send_untold: "runInLoop (\<lambda>_. sendInLoop s) tid f w = Some w' \<Longrightarrow> untold w w'"
  "runInLoop (\<lambda>_. send_bound b) tid f w = Some w' \<Longrightarrow> untold w w'"
  by (cases w; cases b; auto simp: runInLoop_def untold_def split: if_splits dest: sendInLoop_untold [unfolded untold_def])+

lemma send_string_untold: "send_string tid s l w = Some w' \<Longrightarrow> untold w w'"
  by (simp add: send_string_def split: if_split_asm) (blast intro: sendInLoop_untold run_send_untold)+

lemma send_buffer_untold: "send_buffer tid b w = Some (w', b') \<Longrightarrow> untold w w'"
  by (auto simp: send_buffer_def split: if_split_asm Option.bind_splits intro: sendInLoop_untold run_send_untold)

lemma shutdown_untold: "shutdown tid w = Some w' \<Longrightarrow> untold w w'"
  by (cases w) (auto simp: shutdown_def runInLoop_def shutdownInLoop_def untold_def split: if_splits)

lemma forceClose_untold: "untold w (forceClose tid w)"
  by (cases w) (simp add: forceClose_def untold_def)

lemma api_call_untold:
  assumes "api_call tid a w = Some w'"
  shows "untold w w'"
proof (cases a)
  case ASendInput
  then obtain el c b where "send_buffer tid (tc_input (snd w)) w = Some ((el, c), b)" "w' = (el, c\<lparr>tc_input := b\<rparr>)"
    using assms by (auto simp: api_call_def split: Option.bind_splits)
  with send_buffer_untold [OF this(1)] show ?thesis by (simp add: untold_def)
next
  case (ARetrieve n)
  with assms show ?thesis by (cases w) (auto simp: api_call_def untold_def)
next
  case AQueueDestroyed
  with assms show ?thesis by (cases w) (auto simp: api_call_def untold_def)
next
  case (ASendBuffer b)
  with assms obtain b' where "send_buffer tid b w = Some (w', b')" by (auto simp: api_call_def)
  then show ?thesis by (rule send_buffer_untold)
next
  case AForceClose
  with assms forceClose_untold [of w tid] show ?thesis by (simp add: api_call_def)
qed (use assms send_string_untold shutdown_untold in \<open>simp_all add: api_call_def send_ptr_def\<close>)

lemma invoke_callbacks:
  assumes "invoke cb w = Some w'"
  shows "callbacks (tc_trace (snd w')) = callbacks (tc_trace (snd w)) @ [(length (tc_trace (snd w)), cb)]"
    "tc_user (snd w') = tc_user (snd w)"
proof -
  let ?w = "apsnd (trace (Called cb)) w"
  have "untold ?w w'"
    by (rule bind_fold_invariant [where P = "untold ?w" and f = "api_call (el_threadId (fst w))"])
      (use assms in \<open>auto simp: invoke_def untold_def dest!: api_call_untold\<close>)
  then show "callbacks (tc_trace (snd w')) = callbacks (tc_trace (snd w)) @ [(length (tc_trace (snd w)), cb)]"
    "tc_user (snd w') = tc_user (snd w)"
    by (cases w; simp add: untold_def)+
qed

text \<open>A connection comes up, and a message arrives.\<close>

lemma set_interest_events:
  assumes "set_interest m ch el = Some el'"
  shows "ch_events (el_chans el' ch) = m (ch_events (el_chans el ch))" "ch_tie (el_chans el' ch) = ch_tie (el_chans el ch)"
proof -
  obtain cs p where u: "poller_updateChannel ch (put_events (m (ch_events (el_chans el ch))) ch (el_chans el), el_poller el) = Some (cs, p)"
      and el': "el' = el\<lparr>el_chans := cs, el_poller := p\<rparr>"
    using assms by (auto simp: set_interest_def el_updateChannel_def split: Option.bind_splits)
  from poller_if.upd_events(1) [OF u] same_but_indexD [OF poller_if.upd_keeps [OF u]] el'
  show "ch_events (el_chans el' ch) = m (ch_events (el_chans el ch))" "ch_tie (el_chans el' ch) = ch_tie (el_chans el ch)"
    by (simp_all add: put_events_def)
qed

definition readable :: "conn_world \<Rightarrow> bool" where
  "readable w \<longleftrightarrow> \<not> el_calling (fst w) \<and> el_hasChannel (tc_channel (snd w)) (fst w)
     \<and> \<not> isNoneEvent (el_chans (fst w) (tc_channel (snd w))) \<and> ch_tie (el_chans (fst w) (tc_channel (snd w))) \<noteq> None"

lemma own_up:
  assumes w: "w = new_conn name fd ch wr rd user el" "fresh_conn w" "el_pending el = []" and "\<not> el_calling el"
    and quiet: "user 0 (ConnectionCb True) = []"
  obtains w' where "own_reach ([], w')" and "readable w'" and "tc_state (snd w') = kConnected"
    and "tc_trace (snd w') = [Called (ConnectionCb True)]" and "tc_user (snd w') = user"
    and "tc_read (snd w') = rd" and "content (tc_input (snd w')) = []" and "el_pending (fst w') = []"
proof -
  obtain el0 c where w0: "w = (el0, c)" by (cases w)
  have c: "tc_state c = kConnecting" "tc_trace c = []" "tc_user c = user" "tc_read c = rd" "tc_input c = new_buffer kInitialSize"
      and calling: "\<not> el_calling el0"
    using w(1) assms(4) by (auto simp: w0 new_conn_def)
  have ok: "conn_ok w" "tc_state (snd w) = kConnecting" using w(2) by (simp_all add: fresh_conn_def)
  obtain w' where 1: "connectEstablished w = Some w'" "steady w w'" "el_hasChannel (tc_channel (snd w)) (fst w')"
    using connectEstablished_ok [OF ok] by blast
  obtain el1 c1 where 2: "on_channel enableReading (el0\<lparr>el_chans := (el_chans el0)(tc_channel c := tie (tc_channel c) (el_chans el0 (tc_channel c)))\<rparr>,
      setState kConnected c) = Some (el1, c1)" "invoke (ConnectionCb True) (el1, c1) = Some w'"
    using 1(1) by (auto simp: connectEstablished_def w0 Let_def split: Option.bind_splits)
  have c1: "c1 = setState kConnected c" using on_channel_sends(1) [OF 2(1)] by simp
  have w': "w' = (el1, trace (Called (ConnectionCb True)) (setState kConnected c))"
    using 2(2) quiet c by (simp add: invoke_def c1)
  have "own_reach ([], w')"
    by (rule own_next [OF own_start [OF w] own_run]) (simp_all add: functor_enabled_def 1(1))
  moreover have "el_pending (fst w') = []"
  proof -
    have "el_pending el0 = []" using new_conn_pending w(1,3) w0 by (metis fst_conv)
    with set_interest_queue(1) 2(1) show ?thesis
      by (fastforce simp: w' on_channel_def enableReading_def split: Option.bind_splits)
  qed
  moreover have "readable w'"
  proof -
    have "\<not> isNoneEvent (el_chans el1 (tc_channel c)) \<and> ch_tie (el_chans el1 (tc_channel c)) \<noteq> None"
    proof -
      have "set_interest ev_enableReading (tc_channel c) (el0\<lparr>el_chans := (el_chans el0)(tc_channel c := tie (tc_channel c) (el_chans el0 (tc_channel c)))\<rparr>)
          = Some el1"
        using 2(1) by (auto simp: on_channel_def enableReading_def c1 split: Option.bind_splits)
      from set_interest_events [OF this] show ?thesis by (simp add: isNoneEvent_def event_masks event_consts or_eq_0_iff tie_def)
    qed
    moreover have "el_calling (fst w') = el_calling (fst w)" using 1(2) by (simp add: steady_def posts_only_def)
    ultimately show ?thesis using 1(2,3) calling by (simp add: readable_def w' w0 steady_def)
  qed
  ultimately show ?thesis using that c by (simp add: w')
qed


lemma read_message:
  assumes ok: "conn_ok (el, c)" and run: "handleRead t (el, c) = Some w'"
    and bytes: "\<And>room. 0 < room \<Longrightarrow> \<exists>bs. tc_read c (length (tc_trace c)) room = Inr bs \<and> bs \<noteq> []"
  shows "\<exists>bs room. tc_read c (length (tc_trace c)) room = Inr bs \<and> bs \<noteq> [] \<and> tc_user (snd w') = tc_user c
    \<and> callbacks (tc_trace (snd w')) = callbacks (tc_trace c) @ [(length (tc_trace c), MessageCb (content (tc_input c) @ bs) t)]"
proof -
  have inv: "buf_inv (tc_input c)" and ro: "readv_ok (tc_read c (length (tc_trace c)))"
    using ok by (simp_all add: conn_ok_def data_but_def)
  have room: "0 < readFd_room (tc_input c)" by (simp add: readFd_room_def extrabuf_size_def)
  obtain bs where bs: "tc_read c (length (tc_trace c)) (readFd_room (tc_input c)) = Inr bs" "bs \<noteq> []"
    using bytes [OF room] by blast
  obtain b where "readFd (tc_read c (length (tc_trace c))) (tc_input c) = Some (Inr (length bs), b)"
      and b: "content b = content (tc_input c) @ bs"
    using readFd_bytes [OF inv ro bs(1)] by blast
  with run bs(2) have i: "invoke (MessageCb (content b) t) (el, c\<lparr>tc_input := b\<rparr>) = Some w'"
    by (simp add: handleRead_def Let_def)
  from invoke_callbacks [OF i] b bs show ?thesis by auto
qed

lemma own_read:
  assumes run: "own_reach ([], (el, c))" and rd: "readable (el, c)"
    and bytes: "\<And>room. 0 < room \<Longrightarrow> \<exists>bs. tc_read c (length (tc_trace c)) room = Inr bs \<and> bs \<noteq> []"
  obtains w' bs room where "own_reach ([], w')" and "tc_user (snd w') = tc_user c"
    and "tc_read c (length (tc_trace c)) room = Inr bs" and "bs \<noteq> []"
    and "callbacks (tc_trace (snd w')) = callbacks (tc_trace c) @ [(length (tc_trace c), MessageCb (content (tc_input c) @ bs) t)]"
proof -
  have en: "event_enabled EPOLLIN (el, c)" using rd by (simp add: readable_def event_enabled_def tcp_revents_def event_consts)
  have ok: "run_ok ([], (el, c))" using conn_reach_ok own_reach_reach [OF run] by blast
  obtain w' where w': "conn_event EPOLLIN t (el, c) = Some w'" using conn_event_ok [OF ok en] by blast
  have reach: "own_reach ([], w')" by (rule own_next [OF run own_dispatch [OF en w']])
  define el1 where "el1 = fst (ready_channel EPOLLIN t (el, c))\<lparr>el_current := Some (tc_channel c)\<rparr>"
  have cok: "conn_ok (el, c)" using ok by (simp add: run_ok_def)
  let ?chan = "el_chans el (tc_channel c)"
  have tied: "ch_tie ?chan \<noteq> None" using rd by (simp add: readable_def)
  have cbs: "ch_readCallback ?chan = Some HandleRead" "ch_writeCallback ?chan = Some HandleWrite"
      "ch_closeCallback ?chan = Some HandleClose" "ch_errorCallback ?chan = Some HandleError"
    using cok by (simp_all add: conn_ok_def chan_ok_def Let_def)
  have "handleEvent (conn_alive c) t (set_revents EPOLLIN ?chan) = [ReadCall HandleRead t]"
    using cbs tied by (auto simp: handleEvent_def handleEventWithGuard_def call_if_def read_if_def set_revents_def event_consts)
  then have "handleRead t (el1, c) = Some w'"
    using w' by (simp add: conn_event_def dispatch_def ready_channel_def el1_def split: Option.bind_splits)
  moreover have "conn_ok (el1, c)"
    using conn_ok_current [OF ready_channel_ok [OF cok, of EPOLLIN t, unfolded ready_channel_def prod.case]]
    by (simp add: el1_def ready_channel_def)
  ultimately obtain bs room where "tc_read c (length (tc_trace c)) room = Inr bs" "bs \<noteq> []" "tc_user (snd w') = tc_user c"
      "callbacks (tc_trace (snd w')) = callbacks (tc_trace c) @ [(length (tc_trace c), MessageCb (content (tc_input c) @ bs) t)]"
    using read_message [OF _ _ bytes] by blast
  then show ?thesis using that [OF reach] by blast
qed

theorem conn_refines_spec_witness:
  "\<exists>fs el c. own_reach (fs, (el, c)) \<and> accepted (tc_trace c) = ''q'' \<and> content (tc_input c) = []
     \<and> wire (tc_trace c) @ content (tc_output c) = ''q''"
proof -
  obtain w where w: "own_reach ([], w)" "readable w" "tc_trace (snd w) = [Called (ConnectionCb True)]"
      "tc_user (snd w) = (\<lambda>k cb. case cb of MessageCb s t \<Rightarrow> [ASendInput, AShutdown] | _ \<Rightarrow> [])"
      "tc_read (snd w) = (\<lambda>k n. Inr (take n ''q''))" "content (tc_input (snd w)) = []"
    by (rule own_up [OF demo_conn_def demo_fresh]) (simp_all add: demo_loop_state)
  obtain el c where wc: "w = (el, c)" by (cases w)
  obtain w' bs room where 1: "own_reach ([], w')" "tc_user (snd w') = tc_user c"
      "tc_read c (length (tc_trace c)) room = Inr bs" "bs \<noteq> []"
      "callbacks (tc_trace (snd w')) = callbacks (tc_trace c) @ [(length (tc_trace c), MessageCb (content (tc_input c) @ bs) (Timestamp 1))]"
    by (rule own_read [of el c]) (use w in \<open>simp_all add: wc take_Cons'\<close>)
  obtain el' c' where w': "w' = (el', c')" by (cases w')
  have "bs = ''q''" using 1(3,4) w(5) by (cases room) (auto simp: wc)
  then have "replay (tc_user c') (callbacks (tc_trace c')) = \<lparr>sc_open = False, sc_unread = [], sc_sent = ''q''\<rparr>"
    using 1(2,5) w(3,4,6) by (simp add: w' wc callbacks_snoc [of "[]", simplified] replay_def spec_step_def spec_send_def)
  with conn_refines_spec [OF 1(1) [unfolded w']] have "accepted (tc_trace c') = ''q''" "content (tc_input c') = []"
      "wire (tc_trace c') @ content (tc_output c') = ''q''"
    by (simp_all add: spec_of_def)
  with 1(1) w' show ?thesis by blast
qed

text \<open>
  C10: Callback protocol of a connection that only its loop's thread uses, and whose \<open>connectDestroyed\<close>
  runs only while its channel is registered and no close is under way: in every run the connection
  callback is made once for up, before any other callback; messages are delivered only between up and
  down; the connection goes down at most once, and the close callback follows that; the state always
  agrees with these phases.
\<close>

theorem conn_callback_protocol:
  assumes "own_reach (fs, (el, c))"
  shows "\<exists>p. cb_phase (tc_trace c) = Some p \<and> phase_ok (tc_state c) p"
  using conn_reach_ok [OF own_reach_reach [OF assms]] by (simp add: run_ok_def conn_ok_def data_but_def)

theorem conn_callback_protocol_witness:
  "\<exists>el c. own_reach ([], (el, c)) \<and> tc_state c = kConnected
    \<and> (\<exists>p. cb_phase (tc_trace c) = Some p \<and> phase_ok (tc_state c) p \<and> p \<noteq> 0)"
proof -
  obtain w where w: "own_reach ([], w)" "tc_state (snd w) = kConnected"
    by (rule own_up [OF demo_conn_def demo_fresh]) (simp_all add: demo_loop_state)
  obtain el c where wc: "w = (el, c)" by (cases w)
  from conn_callback_protocol [of "[]" el c] w obtain p where
    "cb_phase (tc_trace c) = Some p" "phase_ok (tc_state c) p" by (auto simp: wc)
  moreover from this w(2) have "p \<noteq> 0" by (auto simp: wc)
  moreover have "own_reach ([], (el, c))" "tc_state c = kConnected" using w by (simp_all add: wc)
  ultimately show ?thesis by blast
qed

end
