(* ===== verification/Loop_Threads.thy ===== *)
theory Loop_Threads
  imports C_Format
begin

text \<open>
  \<open>include/EventLoopThread.h\<close>, \<open>net/EventLoopThread.cc\<close>, \<open>include/EventLoopThreadPoll.h\<close> and
  \<open>net/EventLoopThreadPoll.cc\<close>. The first part is the handshake between the thread that owns an
  \<open>EventLoopThread\<close> and the thread it starts: the steps of either, between two moments at which the
  other may act. The second part is the pool that hands its loops out in turn.
\<close>

section \<open>One loop thread\<close>

text \<open>
  Where the started thread is: making the loop, running the init callback, publishing the loop
  under the lock, entering \<open>loop ()\<close>, testing \<open>_quit\<close>, one turn of the loop, clearing the pointer
  under the lock. Where the owner is: before \<open>startLoop\<close>, waiting in it, returned from it, in the
  destructor before \<open>quit\<close>, joining, and through.
\<close>

datatype loop_pc = LNew | LConstruct | LCallback | LPublish | LEnter | LTest | LTurn | LLeave | LDone
datatype owner_pc = OIdle | OWait | OStarted | OQuit | OJoin | OEnd

record el_thread =
  et_loop :: bool
  et_existing :: bool
  et_alive :: bool
  et_quit :: bool
  et_looping :: bool
  et_called :: bool
  et_pc :: loop_pc
  et_owner :: owner_pc

definition new_el_thread :: el_thread where
  "new_el_thread = \<lparr>et_loop = False, et_existing = False, et_alive = False, et_quit = False, et_looping = False,
     et_called = False, et_pc = LNew, et_owner = OIdle\<rparr>"

text \<open>\<open>threadFunc\<close>; \<open>loop ()\<close> clears \<open>_quit\<close> when it starts.\<close>

fun threadFunc_step :: "bool \<Rightarrow> el_thread \<Rightarrow> el_thread option" where
  "threadFunc_step hasCallback t = (case et_pc t of
     LNew \<Rightarrow> None
   | LConstruct \<Rightarrow> Some (t\<lparr>et_alive := True, et_quit := False, et_looping := False, et_pc := LCallback\<rparr>)
   | LCallback \<Rightarrow> Some (t\<lparr>et_called := hasCallback, et_pc := LPublish\<rparr>)
   | LPublish \<Rightarrow> Some (t\<lparr>et_loop := True, et_pc := LEnter\<rparr>)
   | LEnter \<Rightarrow> Some (t\<lparr>et_looping := True, et_quit := False, et_pc := LTest\<rparr>)
   | LTest \<Rightarrow> Some (if et_quit t then t\<lparr>et_looping := False, et_pc := LLeave\<rparr> else t\<lparr>et_pc := LTurn\<rparr>)
   | LTurn \<Rightarrow> Some (t\<lparr>et_pc := LTest\<rparr>)
   | LLeave \<Rightarrow> Some (t\<lparr>et_loop := False, et_alive := False, et_pc := LDone\<rparr>)
   | LDone \<Rightarrow> None)"

text \<open>\<open>startLoop\<close>: start the thread, then wait until the pointer is set.\<close>

fun startLoop_step :: "el_thread \<Rightarrow> el_thread option" where
  "startLoop_step t = (case et_owner t of
     OIdle \<Rightarrow> Some (t\<lparr>et_pc := LConstruct, et_owner := OWait\<rparr>)
   | OWait \<Rightarrow> if et_loop t then Some (t\<lparr>et_owner := OStarted\<rparr>) else None
   | _ \<Rightarrow> None)"

text \<open>The destructor; \<open>quit\<close> on a loop that is gone would be undefined.\<close>

fun destructor_step :: "el_thread \<Rightarrow> el_thread option" where
  "destructor_step t = (case et_owner t of
     OIdle \<Rightarrow> Some (t\<lparr>et_existing := True, et_owner := OEnd\<rparr>)
   | OStarted \<Rightarrow> Some (t\<lparr>et_existing := True, et_owner := (if et_loop t then OQuit else OEnd)\<rparr>)
   | OQuit \<Rightarrow> if et_alive t then Some (t\<lparr>et_quit := True, et_owner := OJoin\<rparr>) else None
   | OJoin \<Rightarrow> if et_pc t = LDone then Some (t\<lparr>et_owner := OEnd\<rparr>) else None
   | _ \<Rightarrow> None)"

inductive et_step :: "bool \<Rightarrow> el_thread \<Rightarrow> el_thread \<Rightarrow> bool" for cb where
  et_thread: "threadFunc_step cb t = Some t' \<Longrightarrow> et_step cb t t'"
| et_start: "startLoop_step t = Some t' \<Longrightarrow> et_step cb t t'"
| et_destroy: "destructor_step t = Some t' \<Longrightarrow> et_step cb t t'"

definition et_reach :: "bool \<Rightarrow> el_thread \<Rightarrow> bool" where
  "et_reach cb = (et_step cb)\<^sup>*\<^sup>* new_el_thread"

text \<open>What holds in every reachable state; the loop exists from its construction to the end.\<close>

definition et_inv :: "bool \<Rightarrow> el_thread \<Rightarrow> bool" where
  "et_inv cb t \<longleftrightarrow> (case et_pc t of
     LNew \<Rightarrow> (et_owner t = OIdle \<or> et_owner t = OEnd) \<and> \<not> et_loop t \<and> \<not> et_alive t \<and> \<not> et_quit t
   | LConstruct \<Rightarrow> et_owner t = OWait \<and> \<not> et_loop t \<and> \<not> et_alive t \<and> \<not> et_quit t
   | LCallback \<Rightarrow> et_owner t = OWait \<and> \<not> et_loop t \<and> et_alive t \<and> \<not> et_quit t
   | LPublish \<Rightarrow> et_owner t = OWait \<and> \<not> et_loop t \<and> et_alive t \<and> \<not> et_quit t \<and> et_called t = cb
   | LLeave \<Rightarrow> et_owner t = OJoin \<and> et_loop t \<and> et_alive t \<and> et_called t = cb
   | LDone \<Rightarrow> (et_owner t = OJoin \<or> et_owner t = OEnd) \<and> \<not> et_loop t \<and> \<not> et_alive t
   | _ \<Rightarrow> (et_owner t = OWait \<or> et_owner t = OStarted \<or> et_owner t = OQuit \<or> et_owner t = OJoin)
       \<and> et_loop t \<and> et_alive t \<and> et_called t = cb \<and> (et_quit t \<longrightarrow> et_owner t = OJoin))"

lemma et_step_inv:
  assumes "et_step cb t t'" and inv: "et_inv cb t"
  shows "et_inv cb t'"
  using assms(1)
proof cases
  case et_thread
  with inv show ?thesis by (cases "et_pc t") (auto simp: et_inv_def)
next
  case et_start
  with inv show ?thesis by (cases "et_owner t"; cases "et_pc t") (auto simp: et_inv_def split: if_splits)
next
  case et_destroy
  with inv show ?thesis by (cases "et_owner t"; cases "et_pc t") (auto simp: et_inv_def split: if_splits)
qed

lemma et_reach_inv: "et_reach cb t \<Longrightarrow> et_inv cb t"
  unfolding et_reach_def
  by (induction rule: rtranclp_induct) (simp add: et_inv_def new_el_thread_def, blast intro: et_step_inv)

text \<open>
  When \<open>startLoop\<close> returns, the loop it returns exists, its init callback has been run, and the
  pointer stays set and the loop alive until the destructor has told it to quit.
\<close>
theorem startLoop_returns_live_loop:
  assumes "et_reach cb t" and "et_owner t \<in> {OStarted, OQuit}"
  shows "et_loop t \<and> et_alive t \<and> et_called t = cb \<and> \<not> et_quit t"
  using et_reach_inv [OF assms(1)] assms(2) by (cases "et_pc t") (auto simp: et_inv_def)

text \<open>The states that lead from construction to the published loop.\<close>

definition published :: "bool \<Rightarrow> el_thread" where
  "published cb = \<lparr>et_loop = True, et_existing = False, et_alive = True, et_quit = False, et_looping = False,
     et_called = cb, et_pc = LEnter, et_owner = OStarted\<rparr>"

lemma published_reach: "et_reach cb (published cb)"
proof -
  let ?t1 = "new_el_thread\<lparr>et_pc := LConstruct, et_owner := OWait\<rparr>"
  let ?t2 = "?t1\<lparr>et_alive := True, et_pc := LCallback\<rparr>" and ?t3 = "?t1\<lparr>et_alive := True, et_called := cb, et_pc := LPublish\<rparr>"
  let ?t4 = "?t3\<lparr>et_loop := True, et_pc := LEnter\<rparr>"
  have "et_step cb new_el_thread ?t1" by (rule et_start) (simp add: new_el_thread_def)
  moreover have "et_step cb ?t1 ?t2" by (rule et_thread) (simp add: new_el_thread_def)
  moreover have "et_step cb ?t2 ?t3" by (rule et_thread) (simp add: new_el_thread_def)
  moreover have "et_step cb ?t3 ?t4" by (rule et_thread) (simp add: new_el_thread_def)
  moreover have "et_step cb ?t4 (published cb)" by (rule et_start) (simp add: new_el_thread_def published_def)
  ultimately show ?thesis
    unfolding et_reach_def by (meson converse_rtranclp_into_rtranclp r_into_rtranclp)
qed

theorem startLoop_returns_live_loop_witness:
  "et_loop (published True) \<and> et_alive (published True) \<and> et_called (published True) = True \<and> \<not> et_quit (published True)"
  by (rule startLoop_returns_live_loop [OF published_reach]) (simp add: published_def)

lemma step_towards:
  "et_step cb t u \<Longrightarrow> \<exists>t'. (et_step cb)\<^sup>*\<^sup>* u t' \<and> et_owner t' = OEnd \<Longrightarrow> \<exists>t'. (et_step cb)\<^sup>*\<^sup>* t t' \<and> et_owner t' = OEnd"
  by (meson converse_rtranclp_into_rtranclp)

text \<open>A quit that is not cleared any more ends the loop.\<close>

definition quit_seen :: "el_thread \<Rightarrow> bool" where
  "quit_seen t \<longleftrightarrow> et_pc t \<in> {LLeave, LDone} \<or> et_quit t \<and> et_pc t \<noteq> LEnter"

lemma quit_seen_ends:
  assumes "et_owner t = OJoin" and "quit_seen t" and "et_inv cb t"
  shows "\<exists>t'. (et_step cb)\<^sup>*\<^sup>* t t' \<and> et_owner t' = OEnd"
proof -
  have finish_: "\<exists>t'. (et_step cb)\<^sup>*\<^sup>* t t' \<and> et_owner t' = OEnd" if "et_owner t = OJoin" "et_pc t = LDone" for t
  proof -
    have "et_step cb t (t\<lparr>et_owner := OEnd\<rparr>)" using that by (intro et_destroy) simp
    from step_towards [OF this] show ?thesis by (metis el_thread.select_convs(8) el_thread.surjective el_thread.update_convs(8) rtranclp.rtrancl_refl)
  qed
  have leave: "\<exists>t'. (et_step cb)\<^sup>*\<^sup>* t t' \<and> et_owner t' = OEnd" if "et_owner t = OJoin" "et_pc t = LLeave" for t
  proof -
    let ?t = "t\<lparr>et_loop := False, et_alive := False, et_pc := LDone\<rparr>"
    have "et_step cb t ?t" using that by (intro et_thread) simp
    from step_towards [OF this finish_] that show ?thesis by simp
  qed
  have test: "\<exists>t'. (et_step cb)\<^sup>*\<^sup>* t t' \<and> et_owner t' = OEnd" if "et_owner t = OJoin" "et_pc t = LTest" "et_quit t" for t
  proof -
    let ?t = "t\<lparr>et_looping := False, et_pc := LLeave\<rparr>"
    have "et_step cb t ?t" using that by (intro et_thread) simp
    from step_towards [OF this leave] that show ?thesis by simp
  qed
  have turn: "\<exists>t'. (et_step cb)\<^sup>*\<^sup>* t t' \<and> et_owner t' = OEnd" if "et_owner t = OJoin" "et_pc t = LTurn" "et_quit t" for t
  proof -
    let ?t = "t\<lparr>et_pc := LTest\<rparr>"
    have "et_step cb t ?t" using that by (intro et_thread) simp
    from step_towards [OF this test] that show ?thesis by simp
  qed
  from assms consider "et_pc t = LDone" | "et_pc t = LLeave" | "et_pc t = LTest" "et_quit t" | "et_pc t = LTurn" "et_quit t"
    by (cases "et_pc t") (auto simp: quit_seen_def et_inv_def)
  then show ?thesis using assms(1) finish_ leave test turn by cases blast+
qed

lemma unseen_stays:
  assumes "(et_step cb)\<^sup>*\<^sup>* t t'" and "et_owner t = OJoin" and "\<not> quit_seen t"
  shows "et_owner t' = OJoin \<and> \<not> quit_seen t'"
  using assms
proof (induction rule: rtranclp_induct)
  case (step u v)
  then have u: "et_owner u = OJoin" "\<not> quit_seen u" by simp_all
  from step.hyps(2) show ?case
  proof cases
    case et_thread
    with u show ?thesis by (cases "et_pc u") (auto simp: quit_seen_def split: if_splits)
  next
    case et_start
    with u show ?thesis by simp
  next
    case et_destroy
    with u show ?thesis by (auto simp: quit_seen_def split: if_splits)
  qed
qed simp

text \<open>
  C33: The destructor of an \<open>EventLoopThread\<close> can return from its join exactly if its \<open>quit\<close> came
  after the thread had entered \<open>loop ()\<close>: a quit between the return of \<open>startLoop\<close> and that moment is
  overwritten, and then the join waits for ever.
\<close>
theorem destructor_returns_iff_quit_seen:
  assumes "et_reach cb t" and "et_owner t = OJoin"
  shows "(\<exists>t'. (et_step cb)\<^sup>*\<^sup>* t t' \<and> et_owner t' = OEnd) = quit_seen t"
  using quit_seen_ends [OF assms(2) _ et_reach_inv [OF assms(1)]] unseen_stays [OF _ assms(2)] by fastforce

definition quit_early :: el_thread where
  "quit_early = (published False)\<lparr>et_existing := True, et_quit := True, et_owner := OJoin\<rparr>"

theorem destructor_returns_iff_quit_seen_witness:
  "et_reach False quit_early \<and> (\<nexists>t'. (et_step False)\<^sup>*\<^sup>* quit_early t' \<and> et_owner t' = OEnd)"
proof -
  let ?t = "(published False)\<lparr>et_existing := True, et_owner := OQuit\<rparr>"
  have "et_step False (published False) ?t" by (rule et_destroy) (simp add: published_def)
  moreover have "et_step False ?t quit_early" by (rule et_destroy) (simp add: published_def quit_early_def)
  ultimately have r: "et_reach False quit_early"
    using published_reach [of False] unfolding et_reach_def by (meson rtranclp.rtrancl_into_rtrancl)
  moreover have "\<not> quit_seen quit_early" by (simp add: quit_seen_def quit_early_def published_def)
  ultimately show ?thesis using destructor_returns_iff_quit_seen [OF r] by (simp add: quit_early_def)
qed

section \<open>The pool of loops\<close>

text \<open>
  A loop is a number. \<open>mk i\<close> is the loop that \<open>startLoop\<close> of the \<open>i\<close>-th thread returns;
  \<open>lp_called\<close> collects the loops on which the init callback is called, by their own threads or,
  without threads, by the caller.
\<close>

record loop_pool =
  lp_baseLoop :: nat
  lp_name :: string
  lp_started :: bool
  lp_numThreads :: int
  lp_next :: nat
  lp_threads :: "string list"
  lp_loops :: "nat list"
  lp_called :: "nat list"

definition new_loop_pool :: "nat \<Rightarrow> string \<Rightarrow> loop_pool" where
  "new_loop_pool baseLoop name = \<lparr>lp_baseLoop = baseLoop, lp_name = name, lp_started = False, lp_numThreads = 0,
     lp_next = 0, lp_threads = [], lp_loops = [], lp_called = []\<rparr>"

definition lp_setThreadNum :: "int \<Rightarrow> loop_pool \<Rightarrow> loop_pool" where
  "lp_setThreadNum numThreads p = p\<lparr>lp_numThreads := numThreads\<rparr>"

fun start_loops :: "(nat \<Rightarrow> nat) \<Rightarrow> bool \<Rightarrow> nat \<Rightarrow> nat \<Rightarrow> loop_pool \<Rightarrow> loop_pool" where
  "start_loops mk cb i 0 p = p"
| "start_loops mk cb i (Suc k) p =
     (let buf = snprintf (length (lp_name p) + 32) (c_str (lp_name p) @ dec i)
      in start_loops mk cb (i + 1) k
           (p\<lparr>lp_threads := lp_threads p @ [buf], lp_loops := lp_loops p @ [mk i],
              lp_called := lp_called p @ (if cb then [mk i] else [])\<rparr>))"

definition lp_start :: "(nat \<Rightarrow> nat) \<Rightarrow> bool \<Rightarrow> loop_pool \<Rightarrow> loop_pool" where
  "lp_start mk cb p =
     (let p = start_loops mk cb 0 (nat (lp_numThreads p)) (p\<lparr>lp_started := True\<rparr>)
      in if lp_numThreads p = 0 \<and> cb then p\<lparr>lp_called := lp_called p @ [lp_baseLoop p]\<rparr> else p)"

text \<open>An index out of range would be undefined.\<close>

definition getNextLoop :: "loop_pool \<Rightarrow> (nat \<times> loop_pool) option" where
  "getNextLoop p =
     (if lp_loops p = [] then Some (lp_baseLoop p, p)
      else if lp_next p < length (lp_loops p)
      then (let loop = lp_loops p ! lp_next p; nxt = lp_next p + 1
            in Some (loop, p\<lparr>lp_next := (if length (lp_loops p) \<le> nxt then 0 else nxt)\<rparr>))
      else None)"

definition getAllLoops :: "loop_pool \<Rightarrow> nat list" where
  "getAllLoops p = (if lp_loops p = [] then [lp_baseLoop p] else lp_loops p)"

text \<open>\<open>k\<close> calls one after the other.\<close>

fun next_loops :: "nat \<Rightarrow> loop_pool \<Rightarrow> (nat list \<times> loop_pool) option" where
  "next_loops 0 p = Some ([], p)"
| "next_loops (Suc k) p = do {
     (l, p) \<leftarrow> getNextLoop p;
     (ls, p) \<leftarrow> next_loops k p;
     Some (l # ls, p)
   }"

definition lp_ok :: "loop_pool \<Rightarrow> bool" where
  "lp_ok p \<longleftrightarrow> (lp_loops p = [] \<longrightarrow> lp_next p = 0) \<and> (lp_loops p \<noteq> [] \<longrightarrow> lp_next p < length (lp_loops p))"

lemma start_loops_eq:
  "start_loops mk cb i k p = p\<lparr>lp_threads := lp_threads p @ map (\<lambda>j. snprintf (length (lp_name p) + 32) (c_str (lp_name p) @ dec j)) [i..<i + k],
     lp_loops := lp_loops p @ map mk [i..<i + k], lp_called := lp_called p @ (if cb then map mk [i..<i + k] else [])\<rparr>"
proof (induction k arbitrary: i p)
  case (Suc k)
  have "[i..<i + Suc k] = i # [i + 1..<i + 1 + k]" by (simp add: upt_conv_Cons del: upt_Suc)
  then show ?case by (simp add: Suc.IH Let_def)
qed simp

lemma lp_start_eq:
  "lp_loops (lp_start mk cb (lp_setThreadNum n (new_loop_pool base name))) = map mk [0..<nat n]"
  "lp_ok (lp_start mk cb (lp_setThreadNum n (new_loop_pool base name)))"
  "lp_next (lp_start mk cb (lp_setThreadNum n (new_loop_pool base name))) = 0"
  "lp_baseLoop (lp_start mk cb (lp_setThreadNum n (new_loop_pool base name))) = base"
  by (auto simp: lp_start_def Let_def start_loops_eq lp_setThreadNum_def new_loop_pool_def lp_ok_def)

lemma getNextLoop_ok:
  assumes "lp_ok p"
  shows "getNextLoop p = Some (getAllLoops p ! lp_next p, p\<lparr>lp_next := (lp_next p + 1) mod length (getAllLoops p)\<rparr>)"
    "lp_ok (p\<lparr>lp_next := (lp_next p + 1) mod length (getAllLoops p)\<rparr>)"
    "getAllLoops (p\<lparr>lp_next := k\<rparr>) = getAllLoops p" "getAllLoops p \<noteq> []"
proof -
  show "getNextLoop p = Some (getAllLoops p ! lp_next p, p\<lparr>lp_next := (lp_next p + 1) mod length (getAllLoops p)\<rparr>)"
  proof (cases "lp_loops p = []")
    case True
    with assms have "lp_next p = 0" by (simp add: lp_ok_def)
    then have "p\<lparr>lp_next := 0\<rparr> = p" by (cases p) simp
    with True \<open>lp_next p = 0\<close> show ?thesis by (simp add: getNextLoop_def getAllLoops_def)
  next
    case False
    with assms have lt: "lp_next p < length (lp_loops p)" by (simp add: lp_ok_def)
    then have "(if length (lp_loops p) \<le> lp_next p + 1 then 0 else lp_next p + 1) = (lp_next p + 1) mod length (lp_loops p)"
      by (cases "length (lp_loops p) = lp_next p + 1") simp_all
    with False lt show ?thesis by (simp only: getNextLoop_def getAllLoops_def Let_def if_True if_False)
  qed
qed (use assms in \<open>auto simp: getAllLoops_def lp_ok_def\<close>)

lemma next_loops_eq:
  "lp_ok p \<Longrightarrow> next_loops k p = Some (map (\<lambda>i. getAllLoops p ! ((lp_next p + i) mod length (getAllLoops p))) [0..<k],
     p\<lparr>lp_next := (lp_next p + k) mod length (getAllLoops p)\<rparr>)"
proof (induction k arbitrary: p)
  case 0
  then show ?case by (auto simp: lp_ok_def getAllLoops_def)
next
  case (Suc k)
  define ls n where "ls = getAllLoops p" and "n = length ls"
  define q where "q = p\<lparr>lp_next := (lp_next p + 1) mod n\<rparr>"
  note N = getNextLoop_ok [OF Suc.prems, folded ls_def n_def, folded q_def]
  have q: "lp_next q = (lp_next p + 1) mod n" "getAllLoops q = ls" by (simp_all add: q_def N(3))
  have lt: "lp_next p < n" using Suc.prems by (auto simp: n_def ls_def lp_ok_def getAllLoops_def)
  have m: "((lp_next p + 1) mod n + i) mod n = (lp_next p + Suc i) mod n" for i
    using mod_add_left_eq [of "lp_next p + 1" n i] by simp
  have "next_loops k q = Some (map (\<lambda>i. ls ! ((lp_next p + Suc i) mod n)) [0..<k], q\<lparr>lp_next := (lp_next p + Suc k) mod n\<rparr>)"
    using Suc.IH [OF N(2)] unfolding q m n_def [symmetric] .
  then have "next_loops (Suc k) p = Some (ls ! lp_next p # map (\<lambda>i. ls ! ((lp_next p + Suc i) mod n)) [0..<k],
      q\<lparr>lp_next := (lp_next p + Suc k) mod n\<rparr>)"
    by (simp add: N(1))
  moreover have "[0..<Suc k] = 0 # map Suc [0..<k]" by (simp add: map_Suc_upt upt_conv_Cons del: upt_Suc)
  moreover have "q\<lparr>lp_next := x\<rparr> = p\<lparr>lp_next := x\<rparr>" for x by (simp add: q_def)
  ultimately show ?case using lt by (simp add: ls_def [symmetric] n_def [symmetric] comp_def)
qed

text \<open>
  The pool hands its loops out strictly in turn: the \<open>k\<close>-th call of \<open>getNextLoop\<close> after the start
  returns loop number \<open>k\<close> modulo their number, or always the base loop when there are none, and the
  index never leaves its range.
\<close>
theorem getNextLoop_round_robin:
  "\<exists>p'. next_loops k (lp_start mk cb (lp_setThreadNum n (new_loop_pool base name)))
      = Some (map (\<lambda>i. if n \<le> 0 then base else mk (i mod nat n)) [0..<k], p') \<and> lp_ok p'"
proof -
  let ?p = "lp_start mk cb (lp_setThreadNum n (new_loop_pool base name))"
  note S = lp_start_eq [of mk cb n base name]
  have all: "getAllLoops ?p = (if n \<le> 0 then [base] else map mk [0..<nat n])"
    using S(1,4) by (simp add: getAllLoops_def)
  have "getAllLoops ?p ! (i mod length (getAllLoops ?p)) = (if n \<le> 0 then base else mk (i mod nat n))" for i
    by (auto simp: all)
  moreover have "lp_ok (?p\<lparr>lp_next := k mod length (getAllLoops ?p)\<rparr>)"
    using S(1,2) by (auto simp: all lp_ok_def)
  ultimately show ?thesis using next_loops_eq [OF S(2), of k] S(3) by simp
qed

end
