(* ===== verification/Tcp_Server.thy ===== *)
theory Tcp_Server
  imports Event_Loop Loop_Threads Sockets
begin

text \<open>
  \<open>include/Acceptor.h\<close>, \<open>net/Acceptor.cc\<close>, \<open>include/TcpServer.h\<close> and \<open>net/TcpServer.cc\<close>: the
  acceptor and the table of connections. The world has one event loop per number; what they run for
  the server are the functors \<open>srv_functor\<close>. A connection is a number, its place in \<open>sw_conns\<close>; what
  happens inside it is the business of the theory of connections, here it is taken up and down
  (\<open>sw_log\<close>), and its close callback is made at most once, while it is up.
\<close>

datatype srv_functor = AcceptorListen | Established nat | RemoveInLoop nat | Destroyed nat

datatype life = Up nat | Down nat

text \<open>Which of the user's callbacks are set; the connections of a server get what it has then.\<close>

record user_cbs =
  uc_connection :: bool
  uc_message :: bool
  uc_writeComplete :: bool
  uc_threadInit :: bool

record conn_obj =
  co_name :: string
  co_loop :: nat
  co_sockfd :: int
  co_local :: sockaddr_in
  co_peer :: sockaddr_in
  co_callbacks :: user_cbs

record acceptor =
  ac_listening :: bool
  ac_socket :: socket
  ac_channel :: nat
  ac_hasCallback :: bool
  ac_idleFd :: int

record tcp_server =
  ts_loop :: nat
  ts_ipPort :: string
  ts_name :: string
  ts_pool :: loop_pool
  ts_callbacks :: user_cbs
  ts_started :: int
  ts_nextConnId :: int
  ts_connections :: "string \<rightharpoonup> nat"

type_synonym srv_loop = "(srv_functor, unit) evloop"

record srv_world =
  sw_server :: tcp_server
  sw_acceptor :: acceptor
  sw_loops :: "nat \<Rightarrow> srv_loop"
  sw_conns :: "conn_obj list"
  sw_log :: "life list"
  sw_closed :: "nat list"
  sw_closedFds :: "int list"

section \<open>The acceptor\<close>

definition new_acceptor ::
  "int \<Rightarrow> int \<Rightarrow> int \<Rightarrow> nat \<Rightarrow> sockaddr_in \<Rightarrow> bool \<Rightarrow> srv_loop \<Rightarrow> (srv_loop \<times> acceptor) option" where
  "new_acceptor sockfd bindRet idleFd ch listenAddr reuseport el = do {
     s \<leftarrow> createNonblockingOrDie sockfd;
     s \<leftarrow> bindAddress bindRet listenAddr (setReusePort 0 reuseport (setReuseAddr 0 True s));
     Some (el\<lparr>el_chans := (el_chans el)(ch := setReadCallback () (new_channel sockfd))\<rparr>,
           \<lparr>ac_listening = False, ac_socket = s, ac_channel = ch, ac_hasCallback = False, ac_idleFd = idleFd\<rparr>)
   }"

definition setNewConnectionCallback :: "acceptor \<Rightarrow> acceptor" where
  "setNewConnectionCallback a = a\<lparr>ac_hasCallback := True\<rparr>"

definition acceptor_listen :: "int \<Rightarrow> srv_loop \<times> acceptor \<Rightarrow> (srv_loop \<times> acceptor) option" where
  "acceptor_listen ret s = (case s of (el, a) \<Rightarrow> do {
     sock \<leftarrow> sock_listen ret (ac_socket a);
     el \<leftarrow> enableReading (ac_channel a) el;
     Some (el, a\<lparr>ac_listening := True, ac_socket := sock\<rparr>)
   })"

definition destroy_acceptor :: "srv_loop \<times> acceptor \<Rightarrow> srv_loop option" where
  "destroy_acceptor s = (case s of (el, a) \<Rightarrow> do {
     el \<leftarrow> disableAll (ac_channel a) el;
     el_removeChannel (ac_channel a) el
   })"

section \<open>Posting to the loops\<close>

definition removeConnectionInLoop :: "int \<Rightarrow> nat \<Rightarrow> srv_world \<Rightarrow> srv_world" where
  "removeConnectionInLoop tid i w =
     (let conn = sw_conns w ! i; srv = sw_server w
      in w\<lparr>sw_server := srv\<lparr>ts_connections := (ts_connections srv)(co_name conn := None)\<rparr>,
           sw_loops := (sw_loops w)(co_loop conn := queueInLoop tid (Destroyed i) (sw_loops w (co_loop conn)))\<rparr>)"

fun srv_exec :: "int \<Rightarrow> srv_functor \<Rightarrow> srv_world \<Rightarrow> srv_world option" where
  "srv_exec tid AcceptorListen w = do {
     (el, a) \<leftarrow> acceptor_listen 0 (sw_loops w (ts_loop (sw_server w)), sw_acceptor w);
     Some (w\<lparr>sw_loops := (sw_loops w)(ts_loop (sw_server w) := el), sw_acceptor := a\<rparr>)
   }"
| "srv_exec tid (Established i) w = Some (w\<lparr>sw_log := sw_log w @ [Up i]\<rparr>)"
| "srv_exec tid (RemoveInLoop i) w = Some (removeConnectionInLoop tid i w)"
| "srv_exec tid (Destroyed i) w = Some (w\<lparr>sw_log := sw_log w @ [Down i]\<rparr>)"

text \<open>\<open>runInLoop\<close> of loop \<open>l\<close>, called in thread \<open>tid\<close>.\<close>

definition srv_runInLoop :: "int \<Rightarrow> nat \<Rightarrow> srv_functor \<Rightarrow> srv_world \<Rightarrow> srv_world option" where
  "srv_runInLoop tid l f w =
     (if isInLoopThread tid (sw_loops w l) then srv_exec tid f w
      else Some (w\<lparr>sw_loops := (sw_loops w)(l := queueInLoop tid f (sw_loops w l))\<rparr>))"

section \<open>The server\<close>

datatype server_option = kNoReusePort | kReusePort

definition checkNotNull :: "nat option \<Rightarrow> nat option" where
  "checkNotNull loop = (case loop of None \<Rightarrow> None | Some l \<Rightarrow> Some l)"

text \<open>The constructor, with the acceptor it makes on the loop \<open>el\<close>.\<close>

definition new_server ::
  "nat option \<Rightarrow> sockaddr_in \<Rightarrow> string \<Rightarrow> server_option \<Rightarrow> int \<times> int \<times> int \<Rightarrow> nat \<Rightarrow> srv_loop
    \<Rightarrow> (srv_loop \<times> acceptor \<times> tcp_server) option" where
  "new_server loop listenAddr name opt sys ch el = (case sys of (sockfd, bindRet, idleFd) \<Rightarrow> do {
     loop \<leftarrow> checkNotNull loop;
     ipPort \<leftarrow> toIpPort listenAddr;
     (el, a) \<leftarrow> new_acceptor sockfd bindRet idleFd ch listenAddr (opt = kReusePort) el;
     Some (el, setNewConnectionCallback a,
       \<lparr>ts_loop = loop, ts_ipPort = ipPort, ts_name = name, ts_pool = new_loop_pool loop name,
        ts_callbacks = \<lparr>uc_connection = False, uc_message = False, uc_writeComplete = False, uc_threadInit = False\<rparr>,
        ts_started = 0, ts_nextConnId = 1, ts_connections = Map.empty\<rparr>)
   })"

definition setConnectionCallback :: "tcp_server \<Rightarrow> tcp_server" where
  "setConnectionCallback s = s\<lparr>ts_callbacks := (ts_callbacks s)\<lparr>uc_connection := True\<rparr>\<rparr>"

definition setMessageCallback :: "tcp_server \<Rightarrow> tcp_server" where
  "setMessageCallback s = s\<lparr>ts_callbacks := (ts_callbacks s)\<lparr>uc_message := True\<rparr>\<rparr>"

definition ts_setWriteCompleteCallback :: "tcp_server \<Rightarrow> tcp_server" where
  "ts_setWriteCompleteCallback s = s\<lparr>ts_callbacks := (ts_callbacks s)\<lparr>uc_writeComplete := True\<rparr>\<rparr>"

definition setThreadInitCallback :: "tcp_server \<Rightarrow> tcp_server" where
  "setThreadInitCallback s = s\<lparr>ts_callbacks := (ts_callbacks s)\<lparr>uc_threadInit := True\<rparr>\<rparr>"

definition setThreadNum :: "int \<Rightarrow> tcp_server \<Rightarrow> tcp_server" where
  "setThreadNum numThreads s = s\<lparr>ts_pool := lp_setThreadNum numThreads (ts_pool s)\<rparr>"

definition server_start :: "int \<Rightarrow> (nat \<Rightarrow> nat) \<Rightarrow> srv_world \<Rightarrow> srv_world option" where
  "server_start tid mk w = do {
     w \<leftarrow> (if ts_started (sw_server w) = 0
          then srv_runInLoop tid (ts_loop (sw_server w)) AcceptorListen
                 (w\<lparr>sw_server := (sw_server w)\<lparr>ts_pool := lp_start mk (uc_threadInit (ts_callbacks (sw_server w))) (ts_pool (sw_server w))\<rparr>\<rparr>)
          else Some w);
     Some (w\<lparr>sw_server := (sw_server w)\<lparr>ts_started := ts_started (sw_server w) + 1\<rparr>\<rparr>)
   }"

definition INT_MAX :: int where "INT_MAX = 2 ^ 31 - 1"

definition conn_name :: "tcp_server \<Rightarrow> string" where
  "conn_name s = ts_name s @ snprintf 64 (''-'' @ ts_ipPort s @ ''#'' @ dec_int (ts_nextConnId s))"

text \<open>Counting past the largest \<open>int\<close> would be undefined.\<close>

definition newConnection :: "int \<Rightarrow> int \<Rightarrow> sockaddr_in \<Rightarrow> sockaddr_in \<Rightarrow> srv_world \<Rightarrow> srv_world option" where
  "newConnection tid sockfd peerAddr localAddr w = do {
     let srv = sw_server w;
     (ioLoop, pool) \<leftarrow> getNextLoop (ts_pool srv);
     let connName = conn_name srv;
     let i = length (sw_conns w);
     (if ts_nextConnId srv = INT_MAX then None
      else srv_runInLoop tid ioLoop (Established i)
        (w\<lparr>sw_server := srv\<lparr>ts_pool := pool, ts_nextConnId := ts_nextConnId srv + 1,
             ts_connections := (ts_connections srv)(connName \<mapsto> i)\<rparr>,
           sw_conns := sw_conns w @ [\<lparr>co_name = connName, co_loop = ioLoop, co_sockfd = sockfd,
             co_local = localAddr, co_peer = peerAddr, co_callbacks = ts_callbacks srv\<rparr>]\<rparr>))
   }"

definition removeConnection :: "int \<Rightarrow> nat \<Rightarrow> srv_world \<Rightarrow> srv_world option" where
  "removeConnection tid i w = srv_runInLoop tid (ts_loop (sw_server w)) (RemoveInLoop i) w"

text \<open>\<open>Acceptor::handleRead\<close>, with what \<open>accept4\<close> and \<open>getsockname\<close> give.\<close>

definition acceptor_handleRead :: "int \<Rightarrow> int \<times> sockaddr_in \<Rightarrow> sockaddr_in \<Rightarrow> sockaddr_in \<Rightarrow> srv_world \<Rightarrow> srv_world option" where
  "acceptor_handleRead tid acc anyAddr localAddr w =
     (case sock_accept acc anyAddr of (connfd, peerAddr) \<Rightarrow>
        if 0 \<le> connfd
        then if ac_hasCallback (sw_acceptor w) then newConnection tid connfd peerAddr localAddr w
             else Some (w\<lparr>sw_closedFds := sw_closedFds w @ [connfd]\<rparr>)
        else Some w)"

text \<open>The destructor: every connection of the table is taken down in its loop, then the acceptor goes.\<close>

definition destroy_server :: "int \<Rightarrow> nat list \<Rightarrow> srv_world \<Rightarrow> srv_world option" where
  "destroy_server tid order w = do {
     w \<leftarrow> bind_fold (\<lambda>i w. srv_runInLoop tid (co_loop (sw_conns w ! i)) (Destroyed i) w) order w;
     el \<leftarrow> destroy_acceptor (sw_loops w (ts_loop (sw_server w)), sw_acceptor w);
     Some (w\<lparr>sw_loops := (sw_loops w)(ts_loop (sw_server w) := el)\<rparr>)
   }"

section \<open>Runs\<close>

text \<open>
  The base loop accepts; any loop runs the first functor of its queue; the close callback of a
  connection that is up is made in the thread of its loop.
\<close>

definition loop_tid :: "srv_world \<Rightarrow> nat \<Rightarrow> int" where
  "loop_tid w l = el_threadId (sw_loops w l)"

definition pop_pending :: "nat \<Rightarrow> srv_world \<Rightarrow> srv_world" where
  "pop_pending l w = w\<lparr>sw_loops := (sw_loops w)(l := (sw_loops w l)\<lparr>el_pending := tl (el_pending (sw_loops w l))\<rparr>)\<rparr>"

inductive srv_step :: "srv_world \<Rightarrow> srv_world \<Rightarrow> bool" where
  srv_accept: "acceptor_handleRead (loop_tid w (ts_loop (sw_server w))) acc a0 loc w = Some w' \<Longrightarrow> srv_step w w'"
| srv_run: "el_pending (sw_loops w l) = f # fs \<Longrightarrow> srv_exec (loop_tid w l) f (pop_pending l w) = Some w' \<Longrightarrow> srv_step w w'"
| srv_close: "Up i \<in> set (sw_log w) \<Longrightarrow> i \<notin> set (sw_closed w) \<Longrightarrow>
    removeConnection (loop_tid w (co_loop (sw_conns w ! i))) i (w\<lparr>sw_closed := sw_closed w @ [i]\<rparr>) = Some w' \<Longrightarrow> srv_step w w'"

text \<open>A server just started, on loops of distinct threads that have nothing of it in their queues yet.\<close>

definition srv_init :: "srv_world \<Rightarrow> bool" where
  "srv_init w \<longleftrightarrow> sw_conns w = [] \<and> sw_log w = [] \<and> sw_closed w = [] \<and> ts_connections (sw_server w) = Map.empty
     \<and> ts_nextConnId (sw_server w) = 1 \<and> length (ts_ipPort (sw_server w)) \<le> 21 \<and> lp_ok (ts_pool (sw_server w))
     \<and> inj (loop_tid w) \<and> (\<forall>l. set (el_pending (sw_loops w l)) \<subseteq> {AcceptorListen})"

definition srv_reach :: "srv_world \<Rightarrow> srv_world \<Rightarrow> bool" where
  "srv_reach w0 w \<longleftrightarrow> srv_init w0 \<and> srv_step\<^sup>*\<^sup>* w0 w"

section \<open>Invariant\<close>

fun about :: "srv_functor \<Rightarrow> nat option" where
  "about AcceptorListen = None" | "about (Established i) = Some i"
| "about (RemoveInLoop i) = Some i" | "about (Destroyed i) = Some i"

fun life_of :: "life \<Rightarrow> nat" where
  "life_of (Up i) = i" | "life_of (Down i) = i"

definition pending_of :: "srv_world \<Rightarrow> nat \<Rightarrow> nat \<Rightarrow> srv_functor list" where
  "pending_of w i l = filter (\<lambda>f. about f = Some i) (el_pending (sw_loops w l))"

definition log_of :: "srv_world \<Rightarrow> nat \<Rightarrow> life list" where
  "log_of w i = filter (\<lambda>e. life_of e = i) (sw_log w)"

definition in_table :: "srv_world \<Rightarrow> nat \<Rightarrow> bool" where
  "in_table w i \<longleftrightarrow> ts_connections (sw_server w) (co_name (sw_conns w ! i)) = Some i"

text \<open>The stages of a connection: what is queued for it and where, what has happened to it.\<close>

datatype stage = Queued | Opened | Closing | Removed | Gone

fun stage_pending :: "stage \<Rightarrow> srv_world \<Rightarrow> nat \<Rightarrow> nat \<Rightarrow> srv_functor list" where
  "stage_pending Queued w i l = (if l = co_loop (sw_conns w ! i) then [Established i] else [])"
| "stage_pending Closing w i l = (if l = ts_loop (sw_server w) then [RemoveInLoop i] else [])"
| "stage_pending Removed w i l = (if l = co_loop (sw_conns w ! i) then [Destroyed i] else [])"
| "stage_pending _ w i l = []"

fun stage_log :: "stage \<Rightarrow> nat \<Rightarrow> life list" where
  "stage_log Queued i = []"
| "stage_log Gone i = [Up i, Down i]"
| "stage_log _ i = [Up i]"

definition at_stage :: "srv_world \<Rightarrow> nat \<Rightarrow> stage \<Rightarrow> bool" where
  "at_stage w i st \<longleftrightarrow> pending_of w i = stage_pending st w i \<and> log_of w i = stage_log st i
     \<and> in_table w i = (st \<in> {Queued, Opened, Closing}) \<and> (i \<in> set (sw_closed w)) = (st \<in> {Closing, Removed, Gone})"

definition names_from :: "tcp_server \<Rightarrow> nat \<Rightarrow> string" where
  "names_from s i = ts_name s @ ''-'' @ ts_ipPort s @ ''#'' @ dec_int (int i + 1)"

definition srv_inv :: "srv_world \<Rightarrow> bool" where
  "srv_inv w \<longleftrightarrow> (\<forall>i < length (sw_conns w). \<exists>st. at_stage w i st)
     \<and> (\<forall>l. \<forall>f \<in> set (el_pending (sw_loops w l)). \<forall>i. about f = Some i \<longrightarrow> i < length (sw_conns w))
     \<and> (\<forall>e \<in> set (sw_log w). life_of e < length (sw_conns w)) \<and> (\<forall>i \<in> set (sw_closed w). i < length (sw_conns w))
     \<and> map co_name (sw_conns w) = map (names_from (sw_server w)) [0..<length (sw_conns w)]
     \<and> ts_nextConnId (sw_server w) = int (length (sw_conns w)) + 1
     \<and> ts_nextConnId (sw_server w) \<le> INT_MAX \<and> length (ts_ipPort (sw_server w)) \<le> 21
     \<and> lp_ok (ts_pool (sw_server w)) \<and> inj (loop_tid w)
     \<and> (\<forall>nm i. ts_connections (sw_server w) nm = Some i \<longrightarrow> i < length (sw_conns w) \<and> co_name (sw_conns w ! i) = nm)"

lemma names_inj: "names_from s i = names_from s j \<longleftrightarrow> i = j"
  by (auto simp: names_from_def dest: dec_int_inj)

lemma conn_name_eq:
  assumes "length (ts_ipPort s) \<le> 21" and "ts_nextConnId s = int n + 1" and "ts_nextConnId s \<le> INT_MAX"
  shows "conn_name s = names_from s n"
proof -
  have "\<bar>int n + 1\<bar> < 10 ^ 10" using assms(2,3) by (simp add: INT_MAX_def)
  from length_dec_int_le [OF this] have "length (dec_int (int n + 1)) \<le> 11" by simp
  then have "length (''-'' @ ts_ipPort s @ ''#'' @ dec_int (int n + 1)) < 64" using assms(1) by simp
  from snprintf_fits [OF this] show ?thesis by (simp add: conn_name_def names_from_def assms(2))
qed

text \<open>The invariant without the stage of connection \<open>j\<close>, and what keeps it.\<close>

definition rest_inv :: "nat \<Rightarrow> srv_world \<Rightarrow> bool" where
  "rest_inv j w \<longleftrightarrow> j < length (sw_conns w) \<and> (\<forall>i < length (sw_conns w). i \<noteq> j \<longrightarrow> (\<exists>st. at_stage w i st))
     \<and> (\<forall>l. \<forall>f \<in> set (el_pending (sw_loops w l)). \<forall>i. about f = Some i \<longrightarrow> i < length (sw_conns w))
     \<and> (\<forall>e \<in> set (sw_log w). life_of e < length (sw_conns w)) \<and> (\<forall>i \<in> set (sw_closed w). i < length (sw_conns w))
     \<and> map co_name (sw_conns w) = map (names_from (sw_server w)) [0..<length (sw_conns w)]
     \<and> ts_nextConnId (sw_server w) = int (length (sw_conns w)) + 1
     \<and> ts_nextConnId (sw_server w) \<le> INT_MAX \<and> length (ts_ipPort (sw_server w)) \<le> 21
     \<and> lp_ok (ts_pool (sw_server w)) \<and> inj (loop_tid w)
     \<and> (\<forall>nm i. ts_connections (sw_server w) nm = Some i \<longrightarrow> i < length (sw_conns w) \<and> co_name (sw_conns w ! i) = nm)"

lemma srv_inv_split: "j < length (sw_conns w) \<Longrightarrow> srv_inv w \<longleftrightarrow> rest_inv j w \<and> (\<exists>st. at_stage w j st)"
  unfolding srv_inv_def rest_inv_def by blast

lemma rest_invD:
  assumes "rest_inv j w"
  shows "j < length (sw_conns w)" "\<And>i. i < length (sw_conns w) \<Longrightarrow> i \<noteq> j \<Longrightarrow> \<exists>st. at_stage w i st"
    "\<And>l f i. f \<in> set (el_pending (sw_loops w l)) \<Longrightarrow> about f = Some i \<Longrightarrow> i < length (sw_conns w)"
    "\<And>e. e \<in> set (sw_log w) \<Longrightarrow> life_of e < length (sw_conns w)" "\<And>i. i \<in> set (sw_closed w) \<Longrightarrow> i < length (sw_conns w)"
    "map co_name (sw_conns w) = map (names_from (sw_server w)) [0..<length (sw_conns w)]"
    "ts_nextConnId (sw_server w) = int (length (sw_conns w)) + 1"
    "ts_nextConnId (sw_server w) \<le> INT_MAX" "length (ts_ipPort (sw_server w)) \<le> 21"
    "lp_ok (ts_pool (sw_server w))" "inj (loop_tid w)"
    "\<And>nm i. ts_connections (sw_server w) nm = Some i \<Longrightarrow> i < length (sw_conns w) \<and> co_name (sw_conns w ! i) = nm"
  using assms unfolding rest_inv_def by blast+

lemma queue_simps [simp]:
  "el_pending (queueInLoop tid f el) = el_pending el @ [f]" "el_threadId (queueInLoop tid f el) = el_threadId el"
  by (simp_all add: queueInLoop_def wakeup_def Let_def)

abbreviation post :: "int \<Rightarrow> nat \<Rightarrow> srv_functor \<Rightarrow> srv_world \<Rightarrow> srv_world" where
  "post tid l f w \<equiv> w\<lparr>sw_loops := (sw_loops w)(l := queueInLoop tid f (sw_loops w l))\<rparr>"

abbreviation logged :: "life \<Rightarrow> srv_world \<Rightarrow> srv_world" where
  "logged e w \<equiv> w\<lparr>sw_log := sw_log w @ [e]\<rparr>"

definition erase :: "nat \<Rightarrow> srv_world \<Rightarrow> srv_world" where
  "erase j w = w\<lparr>sw_server := (sw_server w)\<lparr>ts_connections := (ts_connections (sw_server w))(co_name (sw_conns w ! j) := None)\<rparr>\<rparr>"

lemma post_views [simp]:
  "pending_of (post tid l f w) i l' = pending_of w i l' @ (if l' = l \<and> about f = Some i then [f] else [])"
  "log_of (post tid l f w) i = log_of w i" "in_table (post tid l f w) i = in_table w i"
  "loop_tid (post tid l f w) = loop_tid w" "stage_pending st (post tid l f w) = stage_pending st w"
  by (auto simp: pending_of_def log_of_def in_table_def loop_tid_def fun_eq_iff) (cases st; simp)

lemma logged_views [simp]:
  "pending_of (logged e w) = pending_of w" "log_of (logged e w) i = log_of w i @ (if life_of e = i then [e] else [])"
  "in_table (logged e w) i = in_table w i" "loop_tid (logged e w) = loop_tid w"
  "stage_pending st (logged e w) = stage_pending st w"
  by (auto simp: pending_of_def log_of_def in_table_def loop_tid_def fun_eq_iff) (cases st; simp)

lemma erase_views [simp]:
  "pending_of (erase j w) = pending_of w" "log_of (erase j w) = log_of w" "loop_tid (erase j w) = loop_tid w"
  "stage_pending st (erase j w) = stage_pending st w" "sw_conns (erase j w) = sw_conns w" "sw_log (erase j w) = sw_log w"
  "sw_loops (erase j w) = sw_loops w" "sw_closed (erase j w) = sw_closed w" "ts_loop (sw_server (erase j w)) = ts_loop (sw_server w)"
  "ts_nextConnId (sw_server (erase j w)) = ts_nextConnId (sw_server w)" "ts_ipPort (sw_server (erase j w)) = ts_ipPort (sw_server w)"
  "ts_pool (sw_server (erase j w)) = ts_pool (sw_server w)" "names_from (sw_server (erase j w)) = names_from (sw_server w)"
  by (auto simp: pending_of_def log_of_def loop_tid_def erase_def names_from_def fun_eq_iff) (cases st; simp)

lemma closed_views [simp]:
  "pending_of (w\<lparr>sw_closed := cl\<rparr>) = pending_of w" "log_of (w\<lparr>sw_closed := cl\<rparr>) = log_of w" "loop_tid (w\<lparr>sw_closed := cl\<rparr>) = loop_tid w"
  "in_table (w\<lparr>sw_closed := cl\<rparr>) = in_table w" "stage_pending st (w\<lparr>sw_closed := cl\<rparr>) = stage_pending st w"
  by (auto simp: pending_of_def log_of_def in_table_def loop_tid_def fun_eq_iff) (cases st; simp)

lemma conn_names_distinct:
  assumes "map co_name (sw_conns w) = map (names_from s) [0..<length (sw_conns w)]"
    and "i < length (sw_conns w)" "j < length (sw_conns w)" "co_name (sw_conns w ! i) = co_name (sw_conns w ! j)"
  shows "i = j"
proof -
  have "co_name (sw_conns w ! k) = names_from s k" if "k < length (sw_conns w)" for k
    using arg_cong [OF assms(1), of "\<lambda>xs. xs ! k"] that by simp
  with assms(2-4) show ?thesis by (simp add: names_inj)
qed

lemma rest_inv_logged: "rest_inv j w \<Longrightarrow> life_of e = j \<Longrightarrow> rest_inv j (logged e w)"
  by (auto simp: rest_inv_def at_stage_def)

lemma rest_inv_post: "rest_inv j w \<Longrightarrow> about f = Some j \<Longrightarrow> rest_inv j (post tid l f w)"
proof -
  assume inv: "rest_inv j w" and f: "about f = Some j"
  have "at_stage (post tid l f w) i st = at_stage w i st" if "i \<noteq> j" for i st
    using that f by (simp add: at_stage_def fun_eq_iff)
  with inv f show ?thesis by (auto simp: rest_inv_def split: if_splits)
qed

lemma rest_inv_closed: "rest_inv j w \<Longrightarrow> rest_inv j (w\<lparr>sw_closed := sw_closed w @ [j]\<rparr>)"
proof -
  assume inv: "rest_inv j w"
  have "at_stage (w\<lparr>sw_closed := sw_closed w @ [j]\<rparr>) i st = at_stage w i st" if "i \<noteq> j" for i st
    using that by (simp add: at_stage_def)
  with inv show ?thesis by (auto simp: rest_inv_def)
qed

lemma rest_inv_erase:
  assumes inv: "rest_inv j w"
  shows "rest_inv j (erase j w)" "\<not> in_table (erase j w) j"
proof -
  note I = rest_invD [OF inv]
  have "in_table (erase j w) i = in_table w i" if "i < length (sw_conns w)" "i \<noteq> j" for i
    using conn_names_distinct [OF I(6) that(1) I(1)] that(2) by (auto simp: in_table_def erase_def)
  then have "at_stage (erase j w) i st = at_stage w i st" if "i < length (sw_conns w)" "i \<noteq> j" for i st
    using that by (simp add: at_stage_def)
  moreover have "i < length (sw_conns w) \<and> co_name (sw_conns w ! i) = nm"
    if "ts_connections (sw_server (erase j w)) nm = Some i" for nm i
    using I(12) [of nm i] that by (auto simp: erase_def split: if_splits)
  ultimately show "rest_inv j (erase j w)" unfolding rest_inv_def erase_views using I by blast
  show "\<not> in_table (erase j w) j" by (simp add: in_table_def erase_def)
qed

lemma rest_inv_pop:
  assumes inv: "srv_inv w" and l: "el_pending (sw_loops w l) = f # fs" and f: "about f = Some j"
  shows "rest_inv j (pop_pending l w)" "log_of (pop_pending l w) = log_of w" "in_table (pop_pending l w) = in_table w"
    "sw_closed (pop_pending l w) = sw_closed w" "stage_pending st (pop_pending l w) = stage_pending st w"
    "pending_of w j l = f # pending_of (pop_pending l w) j l" "l' \<noteq> l \<Longrightarrow> pending_of (pop_pending l w) j l' = pending_of w j l'"
    "loop_tid (pop_pending l w) = loop_tid w" "sw_conns (pop_pending l w) = sw_conns w" "sw_server (pop_pending l w) = sw_server w"
proof -
  let ?w = "pop_pending l w"
  have p: "pending_of w i l' = (if l' = l \<and> about f = Some i then [f] else []) @ pending_of ?w i l'" for i l'
    using l by (auto simp: pending_of_def pop_pending_def)
  show same: "log_of ?w = log_of w" "in_table ?w = in_table w" "sw_closed ?w = sw_closed w" "sw_conns ?w = sw_conns w"
      "sw_server ?w = sw_server w" "loop_tid ?w = loop_tid w" "stage_pending st ?w = stage_pending st w" for st
    by (auto simp: log_of_def in_table_def pop_pending_def loop_tid_def fun_eq_iff) (cases st; simp)
  have eq: "at_stage ?w i st = at_stage w i st" if "i \<noteq> j" for i st
    using that f p [of i] by (simp add: at_stage_def same fun_eq_iff)
  have "\<exists>st. at_stage ?w i st" if "i < length (sw_conns w)" "i \<noteq> j" for i
  proof -
    have "\<exists>st. at_stage w i st" using inv that(1) by (simp add: srv_inv_def)
    with eq [OF that(2)] show ?thesis by simp
  qed
  moreover have "i < length (sw_conns w)" if "f' \<in> set (el_pending (sw_loops ?w l''))" "about f' = Some i" for f' l'' i
  proof -
    have "f' \<in> set (el_pending (sw_loops w l''))" using that(1) l by (auto simp: pop_pending_def split: if_splits)
    with inv that(2) show ?thesis unfolding srv_inv_def by blast
  qed
  moreover have "j < length (sw_conns w)" using inv l f unfolding srv_inv_def by (metis list.set_intros(1))
  moreover have lg: "sw_log ?w = sw_log w" by (simp add: pop_pending_def)
  ultimately show "rest_inv j ?w" using inv unfolding rest_inv_def srv_inv_def same lg by blast
  show "pending_of w j l = f # pending_of ?w j l" using p [of j l] f by simp
  show "l' \<noteq> l \<Longrightarrow> pending_of ?w j l' = pending_of w j l'" using p [of j l'] by simp
qed

section \<open>Preservation\<close>

text \<open>The server's functors, run when they have just been taken from a queue or called directly.\<close>

lemma srv_exec_ok:
  assumes inv: "rest_inv j w" and none: "pending_of w j = (\<lambda>_. [])" and j: "about f = Some j"
    and st: "f = Established j \<Longrightarrow> log_of w j = [] \<and> in_table w j \<and> j \<notin> set (sw_closed w)"
      "f = RemoveInLoop j \<Longrightarrow> log_of w j = [Up j] \<and> j \<in> set (sw_closed w)"
      "f = Destroyed j \<Longrightarrow> log_of w j = [Up j] \<and> \<not> in_table w j \<and> j \<in> set (sw_closed w)"
  shows "\<exists>w'. srv_exec tid f w = Some w' \<and> srv_inv w'"
proof (cases f)
  case AcceptorListen
  with j show ?thesis by simp
next
  case (Established i)
  with j have f: "f = Established j" by simp
  have "at_stage (logged (Up j) w) j Opened" using st(1) [OF f] none by (simp add: at_stage_def fun_eq_iff)
  moreover have "rest_inv j (logged (Up j) w)" using inv by (rule rest_inv_logged) simp
  ultimately have "srv_inv (logged (Up j) w)" using srv_inv_split rest_invD(1) by blast
  then show ?thesis by (simp add: f)
next
  case (Destroyed i)
  with j have f: "f = Destroyed j" by simp
  have "at_stage (logged (Down j) w) j Gone" using st(3) [OF f] none by (simp add: at_stage_def fun_eq_iff)
  moreover have "rest_inv j (logged (Down j) w)" using inv by (rule rest_inv_logged) simp
  ultimately have "srv_inv (logged (Down j) w)" using srv_inv_split rest_invD(1) by blast
  then show ?thesis by (simp add: f)
next
  case (RemoveInLoop i)
  with j have f: "f = RemoveInLoop j" by simp
  let ?l = "co_loop (sw_conns w ! j)"
  define v where "v = erase j w"
  let ?w = "post tid ?l (Destroyed j) v"
  have eq: "removeConnectionInLoop tid j w = ?w" by (simp add: removeConnectionInLoop_def Let_def erase_def v_def)
  have "pending_of v j = (\<lambda>_. [])" "log_of v j = [Up j]" "\<not> in_table v j" "j \<in> set (sw_closed v)" "sw_conns v = sw_conns w"
    using st(2) [OF f] none rest_inv_erase(2) [OF inv] by (simp_all add: v_def)
  then have "at_stage ?w j Removed" by (simp add: at_stage_def fun_eq_iff)
  moreover have "rest_inv j ?w" unfolding v_def by (rule rest_inv_post [OF rest_inv_erase(1) [OF inv]]) simp
  ultimately have "srv_inv ?w" using srv_inv_split rest_invD(1) by blast
  then show ?thesis by (simp add: f eq)
qed

lemma srv_runInLoop_ok:
  assumes inv: "rest_inv j w" and none: "pending_of w j = (\<lambda>_. [])"
    and st: "f = Established j \<and> l = co_loop (sw_conns w ! j) \<and> log_of w j = [] \<and> in_table w j \<and> j \<notin> set (sw_closed w)
      \<or> f = RemoveInLoop j \<and> l = ts_loop (sw_server w) \<and> log_of w j = [Up j] \<and> in_table w j \<and> j \<in> set (sw_closed w)"
  shows "\<exists>w'. srv_runInLoop tid l f w = Some w' \<and> srv_inv w'"
proof (cases "isInLoopThread tid (sw_loops w l)")
  case True
  have "\<exists>w'. srv_exec tid f w = Some w' \<and> srv_inv w'"
    by (rule srv_exec_ok [OF inv none]) (use st in auto)
  with True show ?thesis by (simp add: srv_runInLoop_def)
next
  case False
  have "at_stage (post tid l f w) j (if f = Established j then Queued else Closing)"
    using st none by (auto simp: at_stage_def fun_eq_iff)
  moreover have "rest_inv j (post tid l f w)" using inv by (rule rest_inv_post) (use st in auto)
  ultimately have "srv_inv (post tid l f w)" using srv_inv_split rest_invD(1) by blast
  with False show ?thesis by (simp add: srv_runInLoop_def)
qed

lemma srv_run_ok:
  assumes inv: "srv_inv w" and l: "el_pending (sw_loops w l) = f # fs" and f: "about f = Some j"
  shows "\<exists>w'. srv_exec tid f (pop_pending l w) = Some w' \<and> srv_inv w'"
proof -
  note P = rest_inv_pop [OF inv l f]
  have "j < length (sw_conns w)" using rest_invD(1) [OF P(1)] P(9) by simp
  then obtain st where st: "at_stage w j st" using inv by (auto simp: srv_inv_def)
  then have S: "pending_of w j = stage_pending st w j" "log_of w j = stage_log st j"
      "in_table w j = (st \<in> {Queued, Opened, Closing})" "(j \<in> set (sw_closed w)) = (st \<in> {Closing, Removed, Gone})"
    by (simp_all add: at_stage_def)
  have hd: "stage_pending st w j l = f # pending_of (pop_pending l w) j l" using P(6) S(1) by simp
  have none: "pending_of (pop_pending l w) j = (\<lambda>_. [])"
  proof
    fix l'
    show "pending_of (pop_pending l w) j l' = []"
    proof (cases "l' = l")
      case True
      with hd show ?thesis by (cases st) (auto split: if_splits)
    next
      case False
      with P(7) S(1) hd show ?thesis by (cases st) (auto split: if_splits)
    qed
  qed
  show ?thesis
    by (rule srv_exec_ok [OF P(1) none f])
      (use hd S P(2-4) in \<open>cases st; auto split: if_splits\<close>)+
qed

text \<open>Listening touches neither queues nor connections.\<close>

lemma listen_views:
  assumes "srv_exec tid AcceptorListen w = Some w'"
  shows "sw_server w' = sw_server w" "sw_conns w' = sw_conns w" "sw_log w' = sw_log w" "sw_closed w' = sw_closed w"
    "el_pending (sw_loops w' l) = el_pending (sw_loops w l)" "el_threadId (sw_loops w' l) = el_threadId (sw_loops w l)"
  using assms
  by (auto simp: acceptor_listen_def enableReading_def split: Option.bind_splits dest: set_interest_queue)

lemma srv_inv_cong:
  assumes "srv_inv w" and "sw_server w' = sw_server w" "sw_conns w' = sw_conns w" "sw_log w' = sw_log w" "sw_closed w' = sw_closed w"
    and t: "\<And>l. el_threadId (sw_loops w' l) = el_threadId (sw_loops w l)"
    and p: "\<And>l. filter (\<lambda>f. about f \<noteq> None) (el_pending (sw_loops w' l)) = filter (\<lambda>f. about f \<noteq> None) (el_pending (sw_loops w l))"
  shows "srv_inv w'"
proof -
  have split: "filter (\<lambda>f. about f = Some i) xs = filter (\<lambda>f. about f = Some i) (filter (\<lambda>f. about f \<noteq> None) xs)" for i xs
    by (induction xs) auto
  have pend: "pending_of w' i = pending_of w i" for i
  proof
    fix l show "pending_of w' i l = pending_of w i l"
      unfolding pending_of_def
      by (rule trans [OF split [of i "el_pending (sw_loops w' l)"] trans [OF _ split [of i "el_pending (sw_loops w l)", symmetric]]])
        (simp only: p)
  qed
  have sp: "stage_pending st w' = stage_pending st w" for st by (cases st) (auto simp: fun_eq_iff assms)
  have "at_stage w' i st = at_stage w i st" for i st
    by (simp add: at_stage_def pend sp log_of_def in_table_def assms)
  then have "at_stage w' = at_stage w" by (simp add: fun_eq_iff)
  moreover have "loop_tid w' = loop_tid w" by (simp add: loop_tid_def t fun_eq_iff)
  moreover have "i < length (sw_conns w)" if "f \<in> set (el_pending (sw_loops w' l))" "about f = Some i" for f l i
  proof -
    have "f \<in> set (filter (\<lambda>f. about f \<noteq> None) (el_pending (sw_loops w' l)))" using that by simp
    then have "f \<in> set (el_pending (sw_loops w l))" unfolding p by simp
    with assms(1) that(2) show ?thesis unfolding srv_inv_def by blast
  qed
  ultimately show ?thesis using assms(1) unfolding srv_inv_def assms(2-5) by simp
qed

lemma newConnection_ok:
  assumes inv: "srv_inv w" and max: "ts_nextConnId (sw_server w) \<noteq> INT_MAX"
  shows "\<exists>w'. newConnection tid fd peer loc w = Some w' \<and> srv_inv w'"
proof -
  let ?s = "sw_server w" and ?n = "length (sw_conns w)"
  have I: "lp_ok (ts_pool ?s)" "ts_nextConnId ?s = int ?n + 1" "ts_nextConnId ?s \<le> INT_MAX" "length (ts_ipPort ?s) \<le> 21"
      "map co_name (sw_conns w) = map (names_from ?s) [0..<?n]"
    using inv unfolding srv_inv_def by blast+
  have nm: "conn_name ?s = names_from ?s ?n" by (rule conn_name_eq [OF I(4,2,3)])
  define l pool where "l = getAllLoops (ts_pool ?s) ! lp_next (ts_pool ?s)"
    and "pool = (ts_pool ?s)\<lparr>lp_next := (lp_next (ts_pool ?s) + 1) mod length (getAllLoops (ts_pool ?s))\<rparr>"
  have next_loop: "getNextLoop (ts_pool ?s) = Some (l, pool)" "lp_ok pool"
    using getNextLoop_ok(1,2) [OF I(1)] by (simp_all add: l_def pool_def)
  define w1 where "w1 = w\<lparr>sw_server := ?s\<lparr>ts_pool := pool, ts_nextConnId := ts_nextConnId ?s + 1,
      ts_connections := (ts_connections ?s)(names_from ?s ?n \<mapsto> ?n)\<rparr>,
    sw_conns := sw_conns w @ [\<lparr>co_name = names_from ?s ?n, co_loop = l, co_sockfd = fd, co_local = loc, co_peer = peer, co_callbacks = ts_callbacks ?s\<rparr>]\<rparr>"
  have step: "newConnection tid fd peer loc w = srv_runInLoop tid l (Established ?n) w1"
    using max by (simp add: newConnection_def next_loop(1) Let_def nm w1_def)
  have S: "sw_loops w1 = sw_loops w" "sw_log w1 = sw_log w" "sw_closed w1 = sw_closed w" "length (sw_conns w1) = Suc ?n"
      "pending_of w1 = pending_of w" "log_of w1 = log_of w" "loop_tid w1 = loop_tid w" "ts_loop (sw_server w1) = ts_loop ?s"
      "sw_conns w1 ! ?n = \<lparr>co_name = names_from ?s ?n, co_loop = l, co_sockfd = fd, co_local = loc, co_peer = peer, co_callbacks = ts_callbacks ?s\<rparr>"
      "names_from (sw_server w1) = names_from ?s"
    by (auto simp: w1_def pending_of_def log_of_def loop_tid_def names_from_def fun_eq_iff)
  have nth: "sw_conns w1 ! i = sw_conns w ! i" if "i < ?n" for i using that by (simp add: w1_def nth_append)
  have old: "co_name (sw_conns w ! i) = names_from ?s i" if "i < ?n" for i
    using arg_cong [OF I(5), of "\<lambda>xs. xs ! i"] that by simp
  have keep: "\<exists>st. at_stage w1 i st" if "i < ?n" for i
  proof -
    obtain st where "at_stage w i st" using inv \<open>i < ?n\<close> by (auto simp: srv_inv_def)
    moreover have "in_table w1 i = in_table w i"
      using that old [OF that] by (simp add: in_table_def nth) (simp add: w1_def names_inj)
    moreover have "stage_pending st w1 i = stage_pending st w i" by (cases st) (simp_all add: fun_eq_iff nth that S)
    ultimately have "at_stage w1 i st" by (simp add: at_stage_def S)
    then show ?thesis by blast
  qed
  have fresh: "pending_of w1 ?n = (\<lambda>_. [])" "log_of w1 ?n = []" "in_table w1 ?n" "?n \<notin> set (sw_closed w1)"
    using inv unfolding srv_inv_def by (auto simp: pending_of_def log_of_def in_table_def w1_def filter_empty_conv fun_eq_iff)
  have table: "i < Suc ?n \<and> co_name (sw_conns w1 ! i) = n'" if "ts_connections (sw_server w1) n' = Some i" for n' i
  proof (cases "n' = names_from ?s ?n")
    case True
    with that have "i = ?n" by (simp add: w1_def)
    with True show ?thesis by (simp add: S)
  next
    case False
    with that have "ts_connections ?s n' = Some i" by (simp add: w1_def)
    then have "i < ?n \<and> co_name (sw_conns w ! i) = n'" using inv unfolding srv_inv_def by blast
    then show ?thesis by (simp add: nth)
  qed
  have "map co_name (sw_conns w1) = map (names_from ?s) [0..<Suc ?n]" using I(5) by (simp add: w1_def)
  moreover have "ts_nextConnId (sw_server w1) = int (Suc ?n) + 1" "ts_nextConnId (sw_server w1) \<le> INT_MAX"
      "length (ts_ipPort (sw_server w1)) \<le> 21" "ts_pool (sw_server w1) = pool"
    using I(2-4) max by (simp_all add: w1_def)
  ultimately have "rest_inv ?n w1"
    unfolding rest_inv_def S using inv keep table next_loop(2) unfolding srv_inv_def
    by (simp add: less_Suc_eq)
  from srv_runInLoop_ok [OF this fresh(1), of "Established ?n" l tid] fresh step show ?thesis by (simp add: S)
qed

lemma srv_step_inv:
  assumes "srv_step w w'" and inv: "srv_inv w"
  shows "srv_inv w'"
  using assms(1)
proof cases
  case (srv_accept acc a0 loc)
  obtain fd peer where acc: "sock_accept acc a0 = (fd, peer)" by (cases "sock_accept acc a0")
  let ?tid = "loop_tid w (ts_loop (sw_server w))"
  have "(if 0 \<le> fd then if ac_hasCallback (sw_acceptor w) then newConnection ?tid fd peer loc w
      else Some (w\<lparr>sw_closedFds := sw_closedFds w @ [fd]\<rparr>) else Some w) = Some w'"
    using srv_accept by (simp add: acceptor_handleRead_def acc)
  then consider "w' = w" | "w' = w\<lparr>sw_closedFds := sw_closedFds w @ [fd]\<rparr>" | "newConnection ?tid fd peer loc w = Some w'"
    by (metis option.inject)
  then show ?thesis
  proof cases
    case 2
    then show ?thesis by (intro srv_inv_cong [OF inv]) auto
  next
    case 3
    then have "ts_nextConnId (sw_server w) \<noteq> INT_MAX"
      by (auto simp: newConnection_def Let_def split: Option.bind_splits)
    from newConnection_ok [OF inv this] 3 show ?thesis by (metis option.inject)
  qed (use inv in simp)
next
  case (srv_run l f fs)
  show ?thesis
  proof (cases "about f")
    case None
    then have f: "f = AcceptorListen" by (cases f) auto
    note L = listen_views [OF srv_run(2) [unfolded f]]
    show ?thesis
      by (rule srv_inv_cong [OF inv]) (use srv_run(1) f L in \<open>auto simp: pop_pending_def\<close>)
  next
    case (Some j)
    with srv_run_ok [OF inv srv_run(1) Some] srv_run(2) show ?thesis by (metis option.inject)
  qed
next
  case (srv_close i)
  have "i < length (sw_conns w)" using inv srv_close(1) unfolding srv_inv_def by fastforce
  then have "rest_inv i w \<and> (\<exists>st. at_stage w i st)" using inv srv_inv_split by blast
  then obtain st where r: "rest_inv i w" and st: "at_stage w i st" by blast
  have "Up i \<in> set (log_of w i)" using srv_close(1) by (simp add: log_of_def)
  with st srv_close(2) have "st = Opened" by (cases st) (simp_all add: at_stage_def)
  with st have "pending_of w i = (\<lambda>_. [])" "log_of w i = [Up i]" "in_table w i" by (simp_all add: at_stage_def fun_eq_iff)
  then have "\<exists>v. srv_runInLoop (loop_tid w (co_loop (sw_conns w ! i))) (ts_loop (sw_server w)) (RemoveInLoop i)
      (w\<lparr>sw_closed := sw_closed w @ [i]\<rparr>) = Some v \<and> srv_inv v"
    by (intro srv_runInLoop_ok [OF rest_inv_closed [OF r]]) simp_all
  with srv_close(3) show ?thesis by (simp add: removeConnection_def)
qed

lemma srv_init_inv: "srv_init w \<Longrightarrow> srv_inv w"
  by (fastforce simp: srv_init_def srv_inv_def INT_MAX_def)

lemma srv_reach_inv: "srv_reach w0 w \<Longrightarrow> srv_inv w"
proof -
  assume r: "srv_reach w0 w"
  then have "srv_step\<^sup>*\<^sup>* w0 w" by (simp add: srv_reach_def)
  then show ?thesis
    by (induction rule: rtranclp_induct) (use r in \<open>auto simp: srv_reach_def intro: srv_init_inv srv_step_inv\<close>)
qed

text \<open>What the constructor and \<open>start\<close> leave is such an initial state.\<close>

lemma started_init:
  assumes "new_server loop addr name opt sys ch el0 = Some (el, a, srv)"
    and "sw_server w = setThreadNum n srv" "sw_conns w = []" "sw_log w = []" "sw_closed w = []"
    and "inj (loop_tid w)" and "\<And>l. el_pending (sw_loops w l) = []" and "server_start tid mk w = Some w'"
  shows "srv_init w'"
proof -
  have srv: "ts_connections srv = Map.empty" "ts_nextConnId srv = 1" "ts_started srv = 0"
      "\<exists>base. ts_pool srv = new_loop_pool base (ts_name srv)" "length (ts_ipPort srv) \<le> 21"
    using assms(1) length_inet_ntop [of "sin_addr addr"] length_port [of "ntohs (sin_port addr)"]
    by (auto simp: new_server_def toIpPort_eq split: Option.bind_splits prod.splits)
  define v where "v = w\<lparr>sw_server := (sw_server w)\<lparr>ts_pool := lp_start mk (uc_threadInit (ts_callbacks srv)) (lp_setThreadNum n (ts_pool srv))\<rparr>\<rparr>"
  have v: "sw_conns v = []" "sw_log v = []" "sw_closed v = []" "ts_connections (sw_server v) = Map.empty"
      "ts_nextConnId (sw_server v) = 1" "length (ts_ipPort (sw_server v)) \<le> 21" "lp_ok (ts_pool (sw_server v))"
      "inj (loop_tid v)" "\<And>l. el_pending (sw_loops v l) = []"
    using srv assms(2-7) lp_start_eq(2) by (auto simp: v_def setThreadNum_def loop_tid_def inj_def)
  obtain u where u: "srv_runInLoop tid (ts_loop (sw_server w)) AcceptorListen v = Some u"
      "w' = u\<lparr>sw_server := (sw_server u)\<lparr>ts_started := ts_started (sw_server u) + 1\<rparr>\<rparr>"
    using assms(2,8) srv(3) by (auto simp: server_start_def v_def setThreadNum_def split: Option.bind_splits)
  have "sw_server u = sw_server v \<and> sw_conns u = [] \<and> sw_log u = [] \<and> sw_closed u = []
      \<and> loop_tid u = loop_tid v \<and> (\<forall>l. set (el_pending (sw_loops u l)) \<subseteq> {AcceptorListen})"
  proof (cases "isInLoopThread tid (sw_loops v (ts_loop (sw_server w)))")
    case True
    with u(1) have "srv_exec tid AcceptorListen v = Some u" by (simp add: srv_runInLoop_def del: srv_exec.simps)
    from listen_views [OF this] v show ?thesis by (simp add: loop_tid_def fun_eq_iff)
  next
    case False
    with u(1) v show ?thesis by (auto simp: srv_runInLoop_def loop_tid_def split: if_splits)
  qed
  moreover have "loop_tid w' = loop_tid u" by (simp add: u(2) loop_tid_def fun_eq_iff)
  ultimately show ?thesis using v by (simp add: srv_init_def) (simp add: u(2))
qed

text \<open>
  C15: Through every interleaving of the base loop, the other loops and closing connections: no two
  connections ever have the same name; each is taken up at most once and down at most once, in this
  order, and not down before its entry has left the table; and when nothing is queued for it any
  more, it is in the table and up if it has not been closed, and out of the table and down if it has.
\<close>
theorem server_tracks_connections:
  assumes "srv_reach w0 w" and "i < length (sw_conns w)"
  shows "distinct (map co_name (sw_conns w)) \<and> log_of w i \<in> {[], [Up i], [Up i, Down i]}
    \<and> (in_table w i \<longrightarrow> Down i \<notin> set (sw_log w))
    \<and> ((\<forall>l. pending_of w i l = []) \<longrightarrow>
         (if i \<in> set (sw_closed w) then log_of w i = [Up i, Down i] \<and> \<not> in_table w i
          else log_of w i = [Up i] \<and> in_table w i))"
proof -
  have inv: "srv_inv w" by (rule srv_reach_inv [OF assms(1)])
  then obtain st where st: "at_stage w i st" using assms(2) by (auto simp: srv_inv_def)
  have "map co_name (sw_conns w) = map (names_from (sw_server w)) [0..<length (sw_conns w)]"
    using inv unfolding srv_inv_def by blast
  then have "distinct (map co_name (sw_conns w))" by (simp add: distinct_map inj_on_def names_inj)
  moreover have "Down i \<in> set (log_of w i)" if "Down i \<in> set (sw_log w)" using that by (simp add: log_of_def)
  moreover have "stage_pending st w i (co_loop (sw_conns w ! i)) = [] \<and> stage_pending st w i (ts_loop (sw_server w)) = []
      \<Longrightarrow> st = Opened \<or> st = Gone"
    by (cases st) auto
  ultimately show ?thesis using st by (cases st) (auto simp: at_stage_def fun_eq_iff)
qed

text \<open>A server without threads that accepts one connection.\<close>

definition idle_loop :: "nat \<Rightarrow> srv_loop" where
  "idle_loop l = \<lparr>el_looping = True, el_quit = False, el_calling = False, el_threadId = int l,
     el_pollReturnTime = ts_default, el_chans = witness_chans, el_poller = newDefaultPoller False linux_ctl,
     el_wakeupChannel = 0, el_eventfd = 0, el_active = [], el_current = None, el_pending = []\<rparr>"

definition demo_addr :: sockaddr_in where
  "demo_addr = new_inet (\<lambda>_. 0x0100007F) 80 ''127.0.0.1''"

definition demo_srv :: srv_world where
  "demo_srv = \<lparr>sw_server = \<lparr>ts_loop = 0, ts_ipPort = ''127.0.0.1:80'', ts_name = ''srv'',
       ts_pool = lp_start id False (new_loop_pool 0 ''srv''),
       ts_callbacks = \<lparr>uc_connection = True, uc_message = True, uc_writeComplete = False, uc_threadInit = False\<rparr>,
       ts_started = 1, ts_nextConnId = 1, ts_connections = Map.empty\<rparr>,
     sw_acceptor = \<lparr>ac_listening = True, ac_socket = the (createNonblockingOrDie 3), ac_channel = 1,
       ac_hasCallback = True, ac_idleFd = 4\<rparr>,
     sw_loops = idle_loop, sw_conns = [], sw_log = [], sw_closed = [], sw_closedFds = []\<rparr>"

lemma demo_srv_init: "srv_init demo_srv"
  using lp_start_eq(2) [of id False 0 0 "''srv''"]
  by (auto simp: srv_init_def demo_srv_def idle_loop_def loop_tid_def inj_def lp_setThreadNum_def new_loop_pool_def)

definition one_conn :: srv_world where
  "one_conn = the (acceptor_handleRead 0 (5, demo_addr) demo_addr demo_addr demo_srv)"

lemma one_conn_step: "acceptor_handleRead 0 (5, demo_addr) demo_addr demo_addr demo_srv = Some one_conn"
    "length (sw_conns one_conn) = 1" "sw_loops one_conn = idle_loop" "sw_closed one_conn = []"
  by (simp_all add: one_conn_def acceptor_handleRead_def sock_accept_def demo_srv_def newConnection_def getNextLoop_def
      lp_start_def new_loop_pool_def Let_def INT_MAX_def srv_runInLoop_def isInLoopThread_def idle_loop_def)

theorem server_tracks_connections_witness:
  "log_of one_conn 0 = [Up 0] \<and> in_table one_conn 0"
proof -
  have "srv_step demo_srv one_conn"
    using one_conn_step(1) by (intro srv_accept [where acc = "(5, demo_addr)"]) (simp add: demo_srv_def loop_tid_def idle_loop_def)
  then have "srv_reach demo_srv one_conn" using demo_srv_init by (auto simp: srv_reach_def)
  from server_tracks_connections [OF this, of 0] show ?thesis
    by (simp add: one_conn_step pending_of_def idle_loop_def)
qed

end
