(* ===== verification/Http_Server.thy ===== *)
theory Http_Server
  imports Http_Response Conn_User Tcp_Server
begin

text \<open>
  \<open>include/HttpServer.h\<close> and \<open>src/http/HttpServer.cc\<close>: the server of requests as the user of the
  connections a \<open>TcpServer\<close> makes. The callback the server's own user sets is a function of the
  request and of the response as the server has prepared it, and of how much has happened on
  the connection, so that it may answer differently each time. Log lines are the only effect of
  \<open>onConection\<close>; here they are its result.
\<close>

type_synonym http_callback = "http_request \<Rightarrow> http_response \<Rightarrow> http_response"

record http_server =
  hs_server :: tcp_server
  hs_httpCallback :: http_callback

definition defaultHttpCallback :: http_callback where
  "defaultHttpCallback req resp =
     setCloseConnection True (setStatusMessage ''Not Found'' (setStatusCode s_404NotFound resp))"

definition new_http_server ::
  "nat option \<Rightarrow> sockaddr_in \<Rightarrow> string \<Rightarrow> server_option \<Rightarrow> int \<times> int \<times> int \<Rightarrow> nat \<Rightarrow> srv_loop
    \<Rightarrow> (srv_loop \<times> acceptor \<times> http_server) option" where
  "new_http_server loop listenAddr name opt sys ch el = do {
     (el, a, server) \<leftarrow> new_server loop listenAddr name opt sys ch el;
     Some (el, a, \<lparr>hs_server = setMessageCallback (setConnectionCallback server),
                   hs_httpCallback = defaultHttpCallback\<rparr>)
   }"

definition setHttpCallback :: "http_callback \<Rightarrow> http_server \<Rightarrow> http_server" where
  "setHttpCallback cb s = s\<lparr>hs_httpCallback := cb\<rparr>"

definition hs_setThreadNum :: "int \<Rightarrow> http_server \<Rightarrow> http_server" where
  "hs_setThreadNum num s = s\<lparr>hs_server := setThreadNum num (hs_server s)\<rparr>"

definition http_start :: "int \<Rightarrow> (nat \<Rightarrow> nat) \<Rightarrow> http_server \<Rightarrow> srv_world \<Rightarrow> (http_server \<times> srv_world) option" where
  "http_start tid mk s w = do {
     w \<leftarrow> server_start tid mk (w\<lparr>sw_server := hs_server s\<rparr>);
     Some (s\<lparr>hs_server := sw_server w\<rparr>, w)
   }"

definition onConection :: "tcp_conn \<Rightarrow> string" where
  "onConection conn = (if connected conn then ''new Connection arrived'' else ''Connection closed'')"

definition bad_request :: string where
  "bad_request = ''HTTP/1.1 400 Bad Request'' @ CRLF @ CRLF"

definition wants_close :: "http_request \<Rightarrow> bool" where
  "wants_close req = (let connection = getHeader ''Connection'' req in
     connection = ''close'' \<or> (rq_version req = kHttp10 \<and> connection \<noteq> ''Keep-Alive''))"

definition onRequest :: "int \<Rightarrow> http_callback \<Rightarrow> header_order \<Rightarrow> http_request \<Rightarrow> conn_world \<Rightarrow> conn_world option" where
  "onRequest tid httpCallback order req w = do {
     let response = httpCallback req (new_response (wants_close req));
     buf \<leftarrow> appendToBuffer order response (new_buffer kInitialSize);
     (w, buf) \<leftarrow> send_buffer tid buf w;
     if rs_closeConnection response then shutdown tid w else Some w
   }"

text \<open>The context is made for this message and thrown away after it, so its \<open>reset\<close> changes nothing.\<close>

definition onMessage :: "int \<Rightarrow> http_callback \<Rightarrow> header_order \<Rightarrow> timestamp \<Rightarrow> conn_world \<Rightarrow> conn_world option" where
  "onMessage tid httpCallback order receiveTime w = do {
     (ok, context, buf) \<leftarrow> parseRequest receiveTime new_context (tc_input (snd w));
     let w = apsnd (\<lambda>c. c\<lparr>tc_input := buf\<rparr>) w;
     w \<leftarrow> (if \<not> ok then do {
             w \<leftarrow> send_string tid bad_request (Some bad_request) w;
             shutdown tid w
           } else Some w);
     if gotAll context then onRequest tid httpCallback order (hc_request context) w else Some w
   }"

section \<open>The server as a user of the connection\<close>

text \<open>What \<open>onMessage\<close> calls on the connection, as the connection's theory sees its user.\<close>

definition answer :: "http_callback \<Rightarrow> header_order \<Rightarrow> http_request \<Rightarrow> api list" where
  "answer httpCallback order req =
     (let response = httpCallback req (new_response (wants_close req))
      in ASendBuffer (the (appendToBuffer order response (new_buffer kInitialSize)))
         # (if rs_closeConnection response then [AShutdown] else []))"

definition http_user :: "(nat \<Rightarrow> http_callback) \<Rightarrow> header_order \<Rightarrow> nat \<Rightarrow> callback \<Rightarrow> api list" where
  "http_user httpCallback order k cb = (case cb of
     MessageCb s t \<Rightarrow>
       (case line_loop t False new_context s of (ok, context, rest) \<Rightarrow>
          ARetrieve (length s - length rest)
          # (if \<not> ok then [ASendString bad_request (Some bad_request), AShutdown] else [])
          @ (if gotAll context then answer (httpCallback k) order (hc_request context) else []))
   | CloseCb \<Rightarrow> [AQueueDestroyed]
   | _ \<Rightarrow> [])"

lemma appendToBuffer_Some:
  "\<exists>b. appendToBuffer order rs (new_buffer n) = Some b \<and> buf_inv b"
  using buffer_queue.put_all [OF buf_inv_new [of n], of "response_pieces order rs"]
  by (auto simp: appendToBuffer_fold)

lemma retrieve_twice:
  assumes "buf_inv b" and "n \<le> length (content b)"
  shows "retrieve m (retrieve n b) = retrieve (n + m) b"
  using assms length_content [OF assms(1)]
  by (auto simp: retrieve_def readableBytes_def rertrieveAll_def sz_sub_def buf_inv_def)

text \<open>The parser only moves the read index.\<close>

definition taken :: "buffer \<Rightarrow> buffer \<Rightarrow> bool" where
  "taken b b' \<longleftrightarrow> length (content b') \<le> length (content b) \<and> b' = retrieve (length (content b) - length (content b')) b"

lemma taken_refl: "taken b b"
  by (simp add: taken_def retrieve_def)

lemma taken_retrieve: "buf_inv b \<Longrightarrow> n \<le> length (content b) \<Longrightarrow> taken b (retrieve n b)"
  by (simp add: taken_def content_retrieve)

lemma taken_trans:
  assumes "buf_inv a" and "taken a b" and "taken b c"
  shows "taken a c"
proof -
  let ?n = "length (content a) - length (content b)" and ?m = "length (content b) - length (content c)"
  have le: "length (content c) \<le> length (content b)" "length (content b) \<le> length (content a)"
    and c: "c = retrieve ?m (retrieve ?n a)"
    using assms(2,3) unfolding taken_def by metis+
  have "retrieve ?m (retrieve ?n a) = retrieve (?n + ?m) a"
    by (rule retrieve_twice [OF assms(1)]) simp
  moreover have "?n + ?m = length (content a) - length (content c)" using le by simp
  ultimately show ?thesis using le c by (simp add: taken_def)
qed

lemma retrieveUntil_taken:
  assumes "buf_inv b" and "retrieveUntil p b = Some b'"
  shows "taken b b'"
proof -
  from assms(2) have "b' = retrieve (p - peek b) b" "p - peek b \<le> b_writeIndex b - b_readIndex b"
    by (auto simp: retrieveUntil_def peek_def beginWrite_def split: if_splits)
  with taken_retrieve [OF assms(1)] length_content [OF assms(1)] show ?thesis by simp
qed

lemma parse_step_taken:
  "buf_inv b \<Longrightarrow> parse_step t ok c b = Some (again, ok', c', b') \<Longrightarrow> taken b b'"
  by (auto simp: parse_step_def taken_refl retrieveUntil_taken Let_def
      split: parse_state.splits option.splits prod.splits if_splits Option.bind_splits)

lemma parse_loop_taken:
  assumes "buf_inv b" and "parsing c" and "parse_loop t ok c b = Some (ok', c', b')"
  shows "taken b b'"
  using assms
proof (induction "length (content b)" arbitrary: ok c b rule: less_induct)
  case less
  obtain again ok1 c1 b1 where step: "parse_step t ok c b = Some (again, ok1, c1, b1)" "buf_inv b1"
      "line_step t ok c (content b) = (again, ok1, c1, content b1)"
    using parse_step_eq_line_step [OF less.prems(1)] by blast
  have 1: "taken b b1" by (rule parse_step_taken [OF less.prems(1) step(1)])
  show ?case
  proof (cases again)
    case True
    with line_step_more [OF less.prems(2)] step(3)
    have "parsing c1" "length (content b1) < length (content b)" by (auto simp: parsing_def)
    moreover have "parse_loop t ok1 c1 b1 = Some (ok', c', b')"
      using less.prems(3) step(1) True by (subst (asm) parse_loop.simps) simp
    ultimately show ?thesis using taken_trans [OF less.prems(1) 1] less.hyps step(2) by blast
  next
    case False
    with less.prems(3) step(1) 1 show ?thesis by (subst (asm) parse_loop.simps) simp
  qed
qed

text \<open>The parse of a message, by the reference parser.\<close>

lemma parse_message:
  assumes "buf_inv b" and "line_loop t False new_context (content b) = (ok, context, rest)"
  shows "parseRequest t new_context b = Some (ok, context, retrieve (length (content b) - length rest) b)"
    and "buf_inv (retrieve (length (content b) - length rest) b)"
    and "content (retrieve (length (content b) - length rest) b) = rest"
proof -
  obtain b' where b': "parse_loop t False new_context b = Some (ok, context, b')" "buf_inv b'" "content b' = rest"
    using parse_loop_eq_line_loop [OF assms(1) parsing_new, of t False] assms(2) by auto
  moreover have "b' = retrieve (length (content b) - length rest) b"
    using parse_loop_taken [OF assms(1) parsing_new b'(1)] b'(3) by (simp add: taken_def)
  ultimately show "parseRequest t new_context b = Some (ok, context, retrieve (length (content b) - length rest) b)"
    and "buf_inv (retrieve (length (content b) - length rest) b)"
    and "content (retrieve (length (content b) - length rest) b) = rest"
    by (simp_all add: parseRequest_def)
qed

lemma answer_calls:
  "bind_fold (api_call tid) (answer httpCallback order req) w = onRequest tid httpCallback order req w"
proof -
  let ?rs = "httpCallback req (new_response (wants_close req))"
  obtain b where "appendToBuffer order ?rs (new_buffer kInitialSize) = Some b"
    using appendToBuffer_Some by blast
  then show ?thesis
    by (cases "send_buffer tid b w") (auto simp: answer_def onRequest_def api_call_def Let_def)
qed


lemma answer_fun: "bind_fold (api_call tid) (answer httpCallback order req) = onRequest tid httpCallback order req"
  by (rule ext, rule answer_calls)

lemma invoke_onMessage:
  assumes "conn_ok w" and "tc_user (snd w) = http_user httpCallback order"
    and "msg = MessageCb (content (tc_input (snd w))) t"
  shows "invoke msg w = onMessage (el_threadId (fst w)) (httpCallback (length (tc_trace (snd w)))) order t
      (apsnd (trace (Called msg)) w)"
proof -
  obtain el c where w: "w = (el, c)" by (cases w)
  have ok: "conn_ok (el, c)" using assms(1) by (simp add: w)
  obtain k ctx rest where l: "line_loop t False new_context (content (tc_input c)) = (k, ctx, rest)"
    by (cases "line_loop t False new_context (content (tc_input c))")
  note p = parse_message [OF conn_okD(1) [OF ok] l]
  have u: "tc_user c (length (tc_trace c)) msg = ARetrieve (length (content (tc_input c)) - length rest)
      # (if \<not> k then [ASendString bad_request (Some bad_request), AShutdown] else [])
      @ (if gotAll ctx then answer (httpCallback (length (tc_trace c))) order (hc_request ctx) else [])"
    using assms(2,3) l by (simp add: w http_user_def)
  show ?thesis
    by (simp add: invoke_def w u onMessage_def p(1) bind_fold_append answer_calls api_call_def
        split del: if_split) (auto simp: answer_fun bind_fold_fun api_call_def)
qed

text \<open>
  C19: A connection whose user is the server, in any state that keeps the invariant of connections
  (every reachable one does), behaves at a message as \<open>HttpServer::onMessage\<close> does: the
  calls it makes on the connection are those of the code, on the same buffer; and on an open
  connection, whatever the bytes are, none of them aborts.
\<close>
theorem http_server_refines_user:
  assumes "conn_ok w" and "tc_user (snd w) = http_user httpCallback order"
    and "msg = MessageCb (content (tc_input (snd w))) t"
  shows "invoke msg w = onMessage (el_threadId (fst w)) (httpCallback (length (tc_trace (snd w)))) order t
      (apsnd (trace (Called msg)) w)
    \<and> (tc_state (snd w) = kConnected \<or> tc_state (snd w) = kDisconnecting \<longrightarrow> invoke msg w \<noteq> None)"
  using invoke_onMessage [OF assms] invoke_up [OF assms(1), of msg] assms(3) by auto

section \<open>What one message does\<close>

declare split_paired_Ex [simp del]

lemma onRequest_up:
  assumes "conn_ok w" and "tc_state (snd w) = kConnected"
    and resp: "resp = httpCallback req (new_response (wants_close req))" and "length (rs_body resp) < 10 ^ 13"
  shows "\<exists>w'. onRequest (el_threadId (fst w)) httpCallback order req w = Some w'
    \<and> accepts w (response_text order resp) (if rs_closeConnection resp then kDisconnecting else kConnected) w'"
proof -
  obtain b where b: "appendToBuffer order resp (new_buffer kInitialSize) = Some b" "buf_inv b"
      "content b = response_text order resp"
    using appendToBuffer_ok [OF buf_inv_new [of kInitialSize] assms(4), of order] by auto
  from send_buffer_up [OF assms(1,2) b(2)] obtain w1 b1 where
    1: "send_buffer (el_threadId (fst w)) b w = Some (w1, b1)" "accepts w (content b) kConnected w1"
    by blast
  then have "conn_ok w1" "tc_state (snd w1) = kConnected" "el_threadId (fst w1) = el_threadId (fst w)"
    by (simp_all add: accepts_def)
  with shutdown_up [of w1] obtain w2 where
    2: "shutdown (el_threadId (fst w)) w1 = Some w2" "accepts w1 [] kDisconnecting w2"
    by auto
  have "accepts w (content b) kDisconnecting w2" using accepts_trans [OF 1(2) 2(2)] by simp
  with b(1,3) 1 2(1) show ?thesis by (simp add: onRequest_def resp [symmetric] Let_def)
qed

text \<open>The message is taken from the input buffer first.\<close>

lemma onMessage_eq:
  assumes "conn_ok w" and "line_loop t False new_context (content (tc_input (snd w))) = (ok, ctx, rest)"
  obtains w1 where "content (tc_input (snd w1)) = rest" and "conn_ok w1" and "fst w1 = fst w"
    and "tc_state (snd w1) = tc_state (snd w)" and "tc_trace (snd w1) = tc_trace (snd w)"
    and "onMessage tid httpCallback order t w =
      (if \<not> ok then send_string tid bad_request (Some bad_request) w1 \<bind> shutdown tid else Some w1)
      \<bind> (if gotAll ctx then onRequest tid httpCallback order (hc_request ctx) else Some)"
proof -
  obtain el c where w: "w = (el, c)" by (cases w)
  have inv: "buf_inv (tc_input c)" using conn_okD(1) assms(1) by (simp add: w)
  note p = parse_message [OF inv assms(2) [unfolded w snd_conv]]
  show ?thesis
    by (rule that [of "(el, c\<lparr>tc_input := retrieve (length (content (tc_input c)) - length rest) (tc_input c)\<rparr>)"])
      (use assms(1) p conn_ok_input in \<open>auto simp: w onMessage_def\<close>)
qed

text \<open>A whole request in the input buffer is answered whole, and consumed.\<close>

lemma http_answers_request:
  assumes ok: "conn_ok w" and "tc_state (snd w) = kConnected"
    and "content (tc_input (snd w)) = request_text m path query v hs @ rest"
    and "m \<noteq> kInvalid" and "path_ok path" and "query_ok query" and "v \<noteq> kUnknown"
    and "\<forall>h \<in> set hs. header_ok h"
    and "req = \<lparr>rq_method = m, rq_version = v, rq_path = path, rq_query = query, rq_receiveTime = t,
      rq_headers = map_of (rev hs)\<rparr>"
    and "resp = httpCallback req (new_response (wants_close req))" and "length (rs_body resp) < 10 ^ 13"
  shows "\<exists>w'. onMessage (el_threadId (fst w)) httpCallback order t w = Some w'
    \<and> accepted (tc_trace (snd w')) = accepted (tc_trace (snd w)) @ response_text order resp
    \<and> content (tc_input (snd w')) = rest
    \<and> tc_state (snd w') = (if rs_closeConnection resp then kDisconnecting else kConnected)"
proof -
  let ?ctx = "\<lparr>hc_state = kGotAll, hc_request = req\<rparr>"
  have "line_loop t False new_context (content (tc_input (snd w))) = (True, ?ctx, rest)"
    using line_loop_request [OF assms(4-8), of t rest] by (simp add: assms(3,9))
  then obtain w1 where
    w1: "content (tc_input (snd w1)) = rest" "conn_ok w1" "fst w1 = fst w" "tc_state (snd w1) = tc_state (snd w)"
      "tc_trace (snd w1) = tc_trace (snd w)"
    and run: "onMessage (el_threadId (fst w)) httpCallback order t w =
      (if \<not> True then send_string (el_threadId (fst w)) bad_request (Some bad_request) w1 \<bind> shutdown (el_threadId (fst w))
       else Some w1) \<bind> (if gotAll ?ctx then onRequest (el_threadId (fst w)) httpCallback order (hc_request ?ctx) else Some)"
    by (rule onMessage_eq [OF ok, where tid = "el_threadId (fst w)" and httpCallback = httpCallback and order = order])
  have "onMessage (el_threadId (fst w)) httpCallback order t w = onRequest (el_threadId (fst w)) httpCallback order req w1"
    using run by (simp add: gotAll_def)
  moreover have "tc_state (snd w1) = kConnected" using w1(4) assms(2) by simp
  ultimately show ?thesis
    using w1 onRequest_up [OF w1(2), where httpCallback = httpCallback and req = req and order = order] assms(10,11)
    by (auto simp: accepts_def)
qed

text \<open>A connection of the server that is up, with \<open>s\<close> in its input buffer.\<close>

lemma http_user_ok: "list_all api_ok (http_user httpCallback order k cb)"
proof -
  have "buf_inv (the (appendToBuffer order rs (new_buffer n)))" for rs n
    using appendToBuffer_Some [of order rs n] by auto
  then show ?thesis by (auto simp: http_user_def answer_def Let_def split: callback.split prod.split)
qed

definition web_conn :: "string \<Rightarrow> conn_world" where
  "web_conn bytes = new_conn ''web'' 7 2 (\<lambda>k s. Inr (min 1 (length s))) (\<lambda>k n. Inr (take n bytes))
     (http_user (\<lambda>_. defaultHttpCallback) key_order) demo_loop"

lemma web_open:
  obtains w where "conn_ok w" and "tc_state (snd w) = kConnected" and "content (tc_input (snd w)) = s"
    and "tc_user (snd w) = http_user (\<lambda>_. defaultHttpCallback) key_order"
    and "tc_trace (snd w) = [Called (ConnectionCb True)]" and "tc_read (snd w) = (\<lambda>k n. Inr (take n bytes))"
proof -
  have "fresh_conn (web_conn bytes)"
    unfolding web_conn_def
    by (rule new_conn_fresh [OF demo_loop_wf]) (simp_all add: demo_loop_state readv_ok_def http_user_ok)
  then have fresh: "conn_ok (web_conn bytes)" by (simp add: fresh_conn_def)
  obtain el c where w: "web_conn bytes = (el, c)" by (cases "web_conn bytes")
  have c: "tc_state c = kConnecting" "tc_trace c = []" "tc_user c = http_user (\<lambda>_. defaultHttpCallback) key_order"
      "tc_read c = (\<lambda>k n. Inr (take n bytes))"
    using w by (auto simp: web_conn_def new_conn_def)
  let ?c = "setState kConnected (trace (Called (ConnectionCb True)) c)"
  have "conn_ok (el, ?c)"
    using fresh c(1,2) wire_snoc [of "[]"] accepted_snoc [of "[]"] cb_phase_snoc [of "[]"] is_down_snoc [of "[]"]
      drained_snoc [of "[]"]
    by (auto simp: w conn_ok_def data_but_def chan_ok_def Let_def)
  moreover obtain b where "buf_inv b" "content b = s"
    using buf_append_spec [of "new_buffer kInitialSize" s] by auto
  ultimately show ?thesis using that [of "(el, ?c\<lparr>tc_input := b\<rparr>)"] conn_ok_input c(2-4) by simp
qed

lemma dec_404: "dec 404 = ''404''"
  by code_simp

theorem http_server_refines_user_witness:
  "\<exists>w. tc_state (snd w) = kConnected \<and> invoke (MessageCb ''GET '' (Timestamp 1)) w =
     onMessage (el_threadId (fst w)) defaultHttpCallback key_order (Timestamp 1)
       (apsnd (trace (Called (MessageCb ''GET '' (Timestamp 1)))) w)
     \<and> invoke (MessageCb ''GET '' (Timestamp 1)) w \<noteq> None"
proof -
  obtain w where w: "conn_ok w" "tc_state (snd w) = kConnected" "content (tc_input (snd w)) = ''GET ''"
      "tc_user (snd w) = http_user (\<lambda>_. defaultHttpCallback) key_order"
    by (rule web_open)
  have "MessageCb ''GET '' (Timestamp 1) = MessageCb (content (tc_input (snd w))) (Timestamp 1)" by (simp add: w(3))
  from http_server_refines_user [OF w(1,4) this] w(2) show ?thesis by blast
qed

text \<open>
  C18: A request is served: when the bytes that arrive on an open connection of the server complete a
  printed request in its input buffer, \<open>handleRead\<close> does not abort, hands the text of the response the
  callback made to the connection, whole and after everything sent before, consumes exactly the
  request, and starts the half-close exactly if the response says so, which the server has set
  beforehand from the \<open>Connection\<close> header and the version.
\<close>
theorem http_serves_request:
  assumes ok: "conn_ok w" and up: "tc_state (snd w) = kConnected"
    and user: "tc_user (snd w) = http_user httpCallback order"
    and read: "tc_read (snd w) (length (tc_trace (snd w))) (readFd_room (tc_input (snd w))) = Inr bytes" and "bytes \<noteq> []"
    and req: "content (tc_input (snd w)) @ bytes = request_text m path query v hs @ rest"
    and parts: "m \<noteq> kInvalid" "path_ok path" "query_ok query" "v \<noteq> kUnknown" "\<forall>h \<in> set hs. header_ok h"
    and r: "rq = \<lparr>rq_method = m, rq_version = v, rq_path = path, rq_query = query, rq_receiveTime = t,
      rq_headers = map_of (rev hs)\<rparr>"
    and resp: "resp = httpCallback (length (tc_trace (snd w))) rq (new_response (wants_close rq))"
    and body: "length (rs_body resp) < 10 ^ 13"
  shows "\<exists>w'. handleRead t w = Some w'
    \<and> accepted (tc_trace (snd w')) = accepted (tc_trace (snd w)) @ response_text order resp
    \<and> content (tc_input (snd w')) = rest
    \<and> tc_state (snd w') = (if rs_closeConnection resp then kDisconnecting else kConnected)"
proof -
  obtain el c where w: "w = (el, c)" by (cases w)
  have inv: "buf_inv (tc_input c)" and rd: "readv_ok (tc_read c (length (tc_trace c)))"
    using ok by (simp_all add: w conn_ok_def data_but_def)
  obtain b where b: "readFd (tc_read c (length (tc_trace c))) (tc_input c) = Some (Inr (length bytes), b)" "buf_inv b"
      "content b = request_text m path query v hs @ rest"
    using readFd_bytes [OF inv rd, of bytes] read req by (auto simp: w)
  let ?w = "(el, c\<lparr>tc_input := b\<rparr>)" and ?msg = "MessageCb (content b) t"
  have ok1: "conn_ok ?w" using conn_ok_input ok b(2) by (simp add: w)
  have inv1: "invoke ?msg ?w = onMessage (el_threadId el) (httpCallback (length (tc_trace c))) order t
      (el, trace (Called ?msg) (c\<lparr>tc_input := b\<rparr>))"
    using invoke_onMessage [OF ok1, of httpCallback order ?msg t] user by (simp add: w)
  have run: "handleRead t w = invoke ?msg ?w"
    using b(1) \<open>bytes \<noteq> []\<close> by (simp add: handleRead_def w Let_def)
  let ?v = "(el, trace (Called ?msg) (c\<lparr>tc_input := b\<rparr>))"
  have v: "conn_ok ?v" using ok1 up open_phase [of "[]" c] ok by (auto simp: w conn_ok_def data_but_def)
  have "tc_state (snd ?v) = kConnected" "content (tc_input (snd ?v)) = request_text m path query v hs @ rest"
    using up b(3) by (simp_all add: w)
  note http_answers_request [where httpCallback = "httpCallback (length (tc_trace (snd w)))" and order = order,
    OF v this parts r resp body]
  with run inv1 show ?thesis by (simp add: w)
qed

theorem http_serves_request_witness:
  "\<exists>w w'. handleRead (Timestamp 1) w = Some w'
     \<and> accepted (tc_trace (snd w')) = ''HTTP/1.1 404Not Found'' @ CRLF @ ''Connection: close'' @ CRLF @ CRLF
     \<and> content (tc_input (snd w')) = ''xyz'' \<and> tc_state (snd w') = kDisconnecting"
proof -
  let ?s = "request_text kGet ''/'' [] kHttp11 [(''Host'', ''a'')] @ ''xyz''"
  obtain w where w: "conn_ok w" "tc_state (snd w) = kConnected" "content (tc_input (snd w)) = take 4 ?s"
      "tc_user (snd w) = http_user (\<lambda>_. defaultHttpCallback) key_order" "tc_trace (snd w) = [Called (ConnectionCb True)]"
      "tc_read (snd w) = (\<lambda>k n. Inr (take n (drop 4 ?s)))"
    by (rule web_open [of "take 4 ?s" "drop 4 ?s"])
  have len: "length ?s = 30" by (simp add: request_text_def request_line_def version_text_def header_line_def CRLF_def)
  then have "take (readFd_room b) (drop 4 ?s) = drop 4 ?s" for b
    by (intro take_all) (simp add: readFd_room_def extrabuf_size_def del: drop_append)
  then have rd: "tc_read (snd w) (length (tc_trace (snd w))) (readFd_room (tc_input (snd w))) = Inr (drop 4 ?s)"
    by (simp only: w(6))
  have all: "content (tc_input (snd w)) @ drop 4 ?s = ?s" by (simp only: w(3) append_take_drop_id)
  have ne: "drop 4 ?s \<noteq> []" using len by (simp del: drop_append)
  have ok: "path_ok ''/''" "query_ok []" "\<forall>h \<in> set [(''Host'', ''a'')]. header_ok h"
    by (simp_all add: path_ok_def query_ok_def header_ok_def trimmed_def isspace_def SP_def QMARK_def CR_def COLON_def)
  let ?req = "\<lparr>rq_method = kGet, rq_version = kHttp11, rq_path = ''/'', rq_query = [], rq_receiveTime = Timestamp 1,
    rq_headers = map_of (rev [(''Host'', ''a'')])\<rparr>"
  let ?resp = "defaultHttpCallback ?req (new_response (wants_close ?req))"
  have resp: "rs_closeConnection ?resp"
      "response_text key_order ?resp = ''HTTP/1.1 404Not Found'' @ CRLF @ ''Connection: close'' @ CRLF @ CRLF"
    by (simp_all add: defaultHttpCallback_def setCloseConnection_def setStatusMessage_def setStatusCode_def
        new_response_def response_text_def connection_lines_def key_order_def dec_404)
  have "\<exists>w'. handleRead (Timestamp 1) w = Some w'
    \<and> accepted (tc_trace (snd w')) = accepted (tc_trace (snd w)) @ response_text key_order ?resp
    \<and> content (tc_input (snd w')) = ''xyz''
    \<and> tc_state (snd w') = (if rs_closeConnection ?resp then kDisconnecting else kConnected)"
    by (rule http_serves_request [OF w(1,2,4) rd ne all _ ok(1,2) _ ok(3) refl refl])
      (simp_all add: defaultHttpCallback_def setCloseConnection_def setStatusMessage_def setStatusCode_def new_response_def)
  with w(5) resp show ?thesis by (auto simp: accepted_def)
qed

section \<open>A request in two parts\<close>

text \<open>Complete header lines, then bytes without a line end.\<close>

lemma line_loop_partial:
  assumes "\<forall>h \<in> set hs. header_ok h" and "hc_state c = kExpectHeaders" and "first_line part = None"
  shows "\<exists>c'. line_loop t ok c (concat (map (\<lambda>h. header_line h @ CRLF) hs) @ part) = (ok, c', part) \<and> \<not> gotAll c'"
  using assms
proof (induction hs arbitrary: c)
  case Nil
  then show ?case
    by (auto simp: line_loop.simps [of t ok c] parsing_def line_step_def gotAll_def)
next
  case (Cons h hs)
  let ?c = "c\<lparr>hc_request := (hc_request c)\<lparr>rq_headers := (rq_headers (hc_request c))(fst h \<mapsto> snd h)\<rparr>\<rparr>"
  have "parsing c" using Cons.prems(2) by (simp add: parsing_def)
  moreover have "line_step t ok c (header_line h @ CRLF @ concat (map (\<lambda>h. header_line h @ CRLF) hs) @ part) =
      (True, ok, ?c, concat (map (\<lambda>h. header_line h @ CRLF) hs) @ part)"
    by (rule line_step_header) (use Cons.prems in simp_all)
  moreover obtain c' where "line_loop t ok ?c (concat (map (\<lambda>h. header_line h @ CRLF) hs) @ part) = (ok, c', part)"
      "\<not> gotAll c'"
    using Cons.IH [of ?c] Cons.prems by auto
  ultimately show ?case by (auto simp: line_loop.simps [of t ok c])
qed

lemma line_loop_first_part:
  assumes "m \<noteq> kInvalid" "path_ok path" "query_ok query" "v \<noteq> kUnknown" "\<forall>h \<in> set hs. header_ok h"
    and "first_line part = None"
  shows "\<exists>c'. line_loop t False new_context (request_line m path query v @ CRLF
      @ concat (map (\<lambda>h. header_line h @ CRLF) hs) @ part) = (True, c', part) \<and> \<not> gotAll c'"
proof -
  let ?rest = "concat (map (\<lambda>h. header_line h @ CRLF) hs) @ part"
  let ?c = "\<lparr>hc_state = kExpectHeaders, hc_request = \<lparr>rq_method = m, rq_version = v, rq_path = path,
         rq_query = query, rq_receiveTime = t, rq_headers = Map.empty\<rparr>\<rparr>"
  have "CR \<notin> set (request_line m path query v)"
    using assms by (auto simp: request_line_def CR_not_method CR_not_version path_ok_def query_ok_def)
  then have "line_step t False new_context (request_line m path query v @ CRLF @ ?rest) = (True, True, ?c, ?rest)"
    by (simp add: line_step_def first_line_append processRequestLine_text [OF assms(1-4)] new_context_def
        new_request_def setreceiveTime_def)
  then show ?thesis
    using line_loop_partial [OF assms(5) _ assms(6), of ?c t True]
    by (subst line_loop.simps) simp
qed

text \<open>A header line, or the empty line, is no request line.\<close>

lemma header_no_request_line:
  assumes "hs \<noteq> [] \<longrightarrow> SP \<notin> set (fst (hd hs))" and "\<forall>h \<in> set hs. header_ok h"
  shows "\<exists>c'. line_loop t False new_context (concat (map (\<lambda>h. header_line h @ CRLF) hs) @ CRLF @ rest) =
    (False, c', concat (map (\<lambda>h. header_line h @ CRLF) hs) @ CRLF @ rest) \<and> \<not> gotAll c'"
proof -
  define line where "line = (if hs = [] then [] else header_line (hd hs))"
  define later where "later = (if hs = [] then rest else concat (map (\<lambda>h. header_line h @ CRLF) (tl hs)) @ CRLF @ rest)"
  have s: "concat (map (\<lambda>h. header_line h @ CRLF) hs) @ CRLF @ rest = line @ CRLF @ later"
    by (cases hs) (simp_all add: line_def later_def)
  have cr: "CR \<notin> set line"
    using assms(2) by (cases hs) (auto simp: line_def header_line_def header_ok_def)
  have bad: "fst (processRequestLine line new_context) = False"
  proof (cases hs)
    case Nil
    then show ?thesis by (simp add: line_def processRequestLine_def from_char_def)
  next
    case (Cons h hs')
    then have sp: "SP \<notin> set (fst h @ [COLON])" using assms(1) by (simp add: SP_def COLON_def)
    have line: "line = (fst h @ [COLON]) @ SP # snd h" using Cons by (simp add: line_def header_line_def)
    have "COLON \<in> set (upto_char SP line)" unfolding line upto_char_append [OF sp] by simp
    then have "\<not> fst (setMethod (upto_char SP line) (hc_request new_context))"
      unfolding setMethod_valid_iff by (auto simp: COLON_def)
    then show ?thesis by (auto simp: processRequestLine_def Let_def split: prod.split)
  qed
  obtain c' where c': "processRequestLine line new_context = (False, c')"
    using bad by (cases "processRequestLine line new_context") auto
  then have "hc_state c' = kExpectRequestLine"
    by (auto simp: processRequestLine_def new_context_def Let_def split: prod.splits if_splits)
  moreover have "line_loop t False new_context (line @ CRLF @ later) = (False, c', line @ CRLF @ later)"
    using c' first_line_append [OF cr, of later]
    by (simp add: line_loop.simps [of t False] line_step_def new_context_def parsing_def)
  ultimately show ?thesis unfolding s by (auto simp: gotAll_def)
qed

lemma onMessage_rejects:
  assumes "conn_ok w" and "tc_state (snd w) = kConnected"
    and "line_loop t False new_context (content (tc_input (snd w))) = (False, ctx, rest)" and "\<not> gotAll ctx"
  shows "\<exists>w'. onMessage (el_threadId (fst w)) httpCallback order t w = Some w'
    \<and> accepted (tc_trace (snd w')) = accepted (tc_trace (snd w)) @ bad_request
    \<and> content (tc_input (snd w')) = rest \<and> tc_state (snd w') = kDisconnecting"
proof -
  let ?tid = "el_threadId (fst w)"
  obtain w1 where w1: "content (tc_input (snd w1)) = rest" "conn_ok w1" "fst w1 = fst w"
      "tc_state (snd w1) = tc_state (snd w)" "tc_trace (snd w1) = tc_trace (snd w)"
    and run: "onMessage ?tid httpCallback order t w =
      (if \<not> False then send_string ?tid bad_request (Some bad_request) w1 \<bind> shutdown ?tid else Some w1)
      \<bind> (if gotAll ctx then onRequest ?tid httpCallback order (hc_request ctx) else Some)"
    by (rule onMessage_eq [OF assms(1,3), where tid = ?tid and httpCallback = httpCallback and order = order])
  obtain w2 where 2: "send_string ?tid bad_request (Some bad_request) w1 = Some w2" "accepts w1 bad_request kConnected w2"
    using send_string_up [OF w1(2), of bad_request "Some bad_request"] w1(3,4) assms(2) by auto
  obtain w3 where 3: "shutdown ?tid w2 = Some w3" "accepts w2 [] kDisconnecting w3"
    using shutdown_up [of w2] 2(2) w1(3) by (auto simp: accepts_def)
  have "onMessage ?tid httpCallback order t w = Some w3"
    using run assms(4) 2(1) 3(1) by simp
  with 2(2) 3(2) w1 show ?thesis by (simp add: accepts_def)
qed

text \<open>
  C25: A valid request that arrives in two parts is refused: when the first message ends behind the
  request line and some whole header lines, these are consumed and forgotten without an answer;
  whenever the rest of the request then arrives, its first line is taken for a request line, and
  the client gets \<open>400 Bad Request\<close> and a half-close.
\<close>
theorem http_split_request_refused:
  assumes "conn_ok w" and "tc_state (snd w) = kConnected"
    and "content (tc_input (snd w)) = request_line m path query v @ CRLF
      @ concat (map (\<lambda>h. header_line h @ CRLF) hs) @ part"
    and "m \<noteq> kInvalid" and "path_ok path" and "query_ok query" and "v \<noteq> kUnknown"
    and "\<forall>h \<in> set (hs @ hs'). header_ok h" and "first_line part = None"
    and "part @ later = concat (map (\<lambda>h. header_line h @ CRLF) hs') @ CRLF @ rest"
    and "hs' \<noteq> [] \<longrightarrow> SP \<notin> set (fst (hd hs'))"
  shows "\<exists>w'. onMessage (el_threadId (fst w)) httpCallback order t w = Some w'
    \<and> tc_trace (snd w') = tc_trace (snd w) \<and> content (tc_input (snd w')) = part
    \<and> (\<forall>b. buf_inv b \<and> content b = content (tc_input (snd w')) @ later \<longrightarrow>
        (\<exists>w''. onMessage (el_threadId (fst w)) httpCallback order t' (apsnd (\<lambda>c. c\<lparr>tc_input := b\<rparr>) w') = Some w''
           \<and> accepted (tc_trace (snd w'')) = accepted (tc_trace (snd w)) @ bad_request
           \<and> tc_state (snd w'') = kDisconnecting))"
proof -
  let ?tid = "el_threadId (fst w)"
  obtain ctx where c: "line_loop t False new_context (content (tc_input (snd w))) = (True, ctx, part)" "\<not> gotAll ctx"
    using line_loop_first_part [OF assms(4-7) _ assms(9), of hs t] assms(3,8) by auto
  obtain w1 where w1: "content (tc_input (snd w1)) = part" "conn_ok w1" "fst w1 = fst w"
      "tc_state (snd w1) = tc_state (snd w)" "tc_trace (snd w1) = tc_trace (snd w)"
    and run: "onMessage ?tid httpCallback order t w =
      (if \<not> True then send_string ?tid bad_request (Some bad_request) w1 \<bind> shutdown ?tid else Some w1)
      \<bind> (if gotAll ctx then onRequest ?tid httpCallback order (hc_request ctx) else Some)"
    by (rule onMessage_eq [OF assms(1) c(1), where tid = ?tid and httpCallback = httpCallback and order = order])
  have "\<exists>w''. onMessage ?tid httpCallback order t' (apsnd (\<lambda>c. c\<lparr>tc_input := b\<rparr>) w1) = Some w''
      \<and> accepted (tc_trace (snd w'')) = accepted (tc_trace (snd w)) @ bad_request \<and> tc_state (snd w'') = kDisconnecting"
    if b: "buf_inv b" "content b = part @ later" for b
  proof -
    let ?w = "apsnd (\<lambda>c. c\<lparr>tc_input := b\<rparr>) w1"
    have ok: "conn_ok ?w" using conn_ok_input [of "fst w1" "snd w1" b] w1(2) b(1) by (simp add: apsnd_def map_prod_def split_beta)
    obtain ctx' where "line_loop t' False new_context (content (tc_input (snd ?w))) = (False, ctx', part @ later)"
        "\<not> gotAll ctx'"
      using header_no_request_line [OF assms(11), of t' rest] assms(8) b(2) by (auto simp: assms(10))
    from onMessage_rejects [OF ok _ this, of httpCallback order] w1 assms(2) show ?thesis by auto
  qed
  with run c(2) w1 show ?thesis by auto
qed

theorem http_split_request_refused_witness:
  "\<exists>w w' b w''. content (tc_input (snd w)) = ''GET / HTTP/1.1'' @ CRLF @ ''Ho''
     \<and> onMessage (el_threadId (fst w)) defaultHttpCallback key_order (Timestamp 1) w = Some w'
     \<and> content b = content (tc_input (snd w')) @ ''st: a'' @ CRLF @ CRLF
     \<and> onMessage (el_threadId (fst w)) defaultHttpCallback key_order (Timestamp 2) (apsnd (\<lambda>c. c\<lparr>tc_input := b\<rparr>) w') = Some w''
     \<and> accepted (tc_trace (snd w'')) = bad_request"
proof -
  let ?s = "request_line kGet ''/'' [] kHttp11 @ CRLF @ concat (map (\<lambda>h. header_line h @ CRLF) []) @ ''Ho''"
  let ?later = "''st: a'' @ CRLF @ CRLF"
  obtain w where w: "conn_ok w" "tc_state (snd w) = kConnected" "content (tc_input (snd w)) = ?s"
      "tc_trace (snd w) = [Called (ConnectionCb True)]"
    by (rule web_open [of ?s])
  have ok: "path_ok ''/''" "query_ok []" "\<forall>h \<in> set ([] @ [(''Host'', ''a'')]). header_ok h" "first_line ''Ho'' = None"
      "''Ho'' @ ?later = concat (map (\<lambda>h. header_line h @ CRLF) [(''Host'', ''a'')]) @ CRLF @ []"
      "[(''Host'', ''a'')] \<noteq> [] \<longrightarrow> SP \<notin> set (fst (hd [(''Host'', ''a'')]))"
    by (simp_all add: path_ok_def query_ok_def header_ok_def trimmed_def isspace_def SP_def QMARK_def CR_def COLON_def
        first_line_def header_line_def)
  obtain b where b: "buf_inv b" "content b = ''Ho'' @ ?later"
    using buf_append_spec [of "new_buffer kInitialSize" "''Ho'' @ ?later"] by auto
  have "\<exists>w'. onMessage (el_threadId (fst w)) defaultHttpCallback key_order (Timestamp 1) w = Some w'
    \<and> tc_trace (snd w') = tc_trace (snd w) \<and> content (tc_input (snd w')) = ''Ho''
    \<and> (\<forall>b. buf_inv b \<and> content b = content (tc_input (snd w')) @ ?later \<longrightarrow>
        (\<exists>w''. onMessage (el_threadId (fst w)) defaultHttpCallback key_order (Timestamp 2) (apsnd (\<lambda>c. c\<lparr>tc_input := b\<rparr>) w') = Some w''
           \<and> accepted (tc_trace (snd w'')) = accepted (tc_trace (snd w)) @ bad_request
           \<and> tc_state (snd w'') = kDisconnecting))"
    by (rule http_split_request_refused [OF w(1-3) _ ok(1,2) _ ok(3-6)]) simp_all
  then obtain w' w'' where "onMessage (el_threadId (fst w)) defaultHttpCallback key_order (Timestamp 1) w = Some w'"
      "content (tc_input (snd w')) = ''Ho''"
      "onMessage (el_threadId (fst w)) defaultHttpCallback key_order (Timestamp 2) (apsnd (\<lambda>c. c\<lparr>tc_input := b\<rparr>) w') = Some w''"
      "accepted (tc_trace (snd w'')) = accepted (tc_trace (snd w)) @ bad_request"
    using b by auto
  moreover have "accepted (tc_trace (snd w)) = []" by (simp add: w(4) accepted_def)
  moreover have "content (tc_input (snd w)) = ''GET / HTTP/1.1'' @ CRLF @ ''Ho''"
    by (simp add: w(3) request_line_def version_text_def SP_def)
  ultimately show ?thesis using b(2)
    by (intro exI [of _ w] exI [of _ w'] exI [of _ b] exI [of _ w'']) simp
qed


section \<open>Whole sessions\<close>

text \<open>The server's part of a callback on the abstract connection, in terms of the texts alone.\<close>

definition http_reply :: "http_callback \<Rightarrow> header_order \<Rightarrow> http_request \<Rightarrow> spec_conn \<Rightarrow> spec_conn" where
  "http_reply httpCallback order req a =
     (let resp = httpCallback req (new_response (wants_close req));
          a = spec_send (response_text order resp) a
      in if rs_closeConnection resp then a\<lparr>sc_open := False\<rparr> else a)"

definition http_step :: "(nat \<Rightarrow> http_callback) \<Rightarrow> header_order \<Rightarrow> nat \<times> callback \<Rightarrow> spec_conn \<Rightarrow> spec_conn" where
  "http_step httpCallback order x a = (case snd x of
     ConnectionCb up \<Rightarrow> a\<lparr>sc_open := up\<rparr>
   | MessageCb m t \<Rightarrow>
       (case line_loop t False new_context m of (ok, ctx, rest) \<Rightarrow>
          let a = a\<lparr>sc_unread := rest\<rparr>;
              a = (if ok then a else (spec_send bad_request a)\<lparr>sc_open := False\<rparr>)
          in if gotAll ctx then http_reply (httpCallback (fst x)) order (hc_request ctx) a else a)
   | _ \<Rightarrow> a)"

definition http_session :: "(nat \<Rightarrow> http_callback) \<Rightarrow> header_order \<Rightarrow> (nat \<times> callback) list \<Rightarrow> spec_conn" where
  "http_session httpCallback order cbs =
     fold (http_step httpCallback order) cbs \<lparr>sc_open = False, sc_unread = [], sc_sent = []\<rparr>"

lemma line_loop_suffix:
  assumes "line_loop t False new_context m = (ok, ctx, rest)"
  shows "drop (length m - length rest) m = rest"
proof -
  obtain b where b: "buf_inv b" "content b = m"
    using buf_append_spec [of "new_buffer kInitialSize" m] by auto
  with parse_message(3) [OF b(1)] assms have "content (retrieve (length m - length rest) b) = rest" by simp
  with content_retrieve [OF b(1)] b(2) show ?thesis by simp
qed

lemma answer_spec:
  assumes "\<And>req. length (rs_body (httpCallback req (new_response (wants_close req)))) < 10 ^ 13"
  shows "fold spec_call (answer httpCallback order req) a = http_reply httpCallback order req a"
proof -
  let ?resp = "httpCallback req (new_response (wants_close req))"
  obtain b where "appendToBuffer order ?resp (new_buffer kInitialSize) = Some b" "content b = response_text order ?resp"
    using appendToBuffer_ok [OF buf_inv_new [of kInitialSize] assms [of req], of order] by auto
  then show ?thesis by (simp add: answer_def http_reply_def Let_def)
qed

lemma http_step_spec:
  assumes "\<And>k req. length (rs_body (httpCallback k req (new_response (wants_close req)))) < 10 ^ 13"
  shows "spec_step (http_user httpCallback order) x a = http_step httpCallback order x a"
proof -
  obtain k cb where x: "x = (k, cb)" by (cases x)
  show ?thesis
  proof (cases cb)
    case (MessageCb m t)
    obtain ok ctx rest where l: "line_loop t False new_context m = (ok, ctx, rest)"
      by (cases "line_loop t False new_context m")
    note r = line_loop_suffix [OF l]
    have reply: "fold spec_call (answer (httpCallback k) order req) a = http_reply (httpCallback k) order req a" for req a
      by (rule answer_spec) (rule assms)
    show ?thesis
      by (simp add: x MessageCb spec_step_def http_step_def http_user_def l r Let_def reply spec_send_def)
  qed (simp_all add: x spec_step_def http_step_def http_user_def)
qed

lemma http_conn_served:
  assumes ag: "agrees [] (el, c)" and ok: "conn_ok (el, c)" and user: "tc_user c = http_user httpCallback order"
    and body: "\<And>k req. length (rs_body (httpCallback k req (new_response (wants_close req)))) < 10 ^ 13"
  shows "wire (tc_trace c) @ content (tc_output c) = sc_sent (http_session httpCallback order (callbacks (tc_trace c)))
    \<and> spec_of c = http_session httpCallback order (callbacks (tc_trace c))
    \<and> (\<forall>k m t ok ctx rest. (k, MessageCb m t) \<in> set (callbacks (tc_trace c))
        \<and> line_loop t False new_context m = (ok, ctx, rest) \<and> gotAll ctx \<longrightarrow> request_ok (hc_request ctx))"
proof -
  have "replay (tc_user c) cbs = http_session httpCallback order cbs" for cbs
  proof -
    have "spec_step (tc_user c) = http_step httpCallback order"
      unfolding user by (intro ext http_step_spec body)
    then show ?thesis by (simp add: replay_def http_session_def)
  qed
  then have "spec_of c = http_session httpCallback order (callbacks (tc_trace c))"
    using ag by (simp add: agrees_def)
  moreover have "wire (tc_trace c) @ content (tc_output c) = sc_sent (spec_of c)"
    using ok by (simp add: conn_ok_def data_but_def)
  moreover have "request_ok (hc_request ctx)" if "line_loop t False new_context m = (ok, ctx, rest)" "gotAll ctx"
    for t m ok ctx rest
    using line_loop_request_ok [OF that(1) parsing_new] that(2)
    by (simp add: gotAll_def context_ok_def) (simp add: new_context_def new_request_def)
  ultimately show ?thesis by (metis (no_types))
qed

text \<open>
  C20: A whole session of the server: on a connection that only its loop's thread uses, in every run
  and at every moment, what has been sent, what lies unread and whether more may be sent are those of
  the abstract session, which parses each message from its first byte as a new request, sends the
  text of the callback's response or \<open>400 Bad Request\<close>, and stops sending after a refusal or a
  response that closes; and each request the callback gets is well-typed.
\<close>
theorem http_session_transcript:
  assumes "own_reach (fs, (el, c))" and "tc_user c = http_user httpCallback order"
    and "\<And>k req. length (rs_body (httpCallback k req (new_response (wants_close req)))) < 10 ^ 13"
  shows "wire (tc_trace c) @ content (tc_output c) = sc_sent (http_session httpCallback order (callbacks (tc_trace c)))
    \<and> spec_of c = http_session httpCallback order (callbacks (tc_trace c))
    \<and> (\<forall>k m t ok ctx rest. (k, MessageCb m t) \<in> set (callbacks (tc_trace c))
        \<and> line_loop t False new_context m = (ok, ctx, rest) \<and> gotAll ctx \<longrightarrow> request_ok (hc_request ctx))"
proof -
  have "conn_ok (el, c)" using conn_reach_ok [OF own_reach_reach [OF assms(1)]] by (simp add: run_ok_def)
  from http_conn_served [OF own_reach_agrees [OF assms(1)] this assms(2,3)] show ?thesis .
qed

theorem http_session_transcript_witness:
  "\<exists>fs el c. own_reach (fs, (el, c)) \<and> wire (tc_trace c) @ content (tc_output c) = bad_request
     \<and> content (tc_input c) = ''G'' \<and> tc_state c \<noteq> kConnected"
proof -
  have fresh: "fresh_conn (web_conn ''G'')"
    unfolding web_conn_def
    by (rule new_conn_fresh [OF demo_loop_wf]) (simp_all add: demo_loop_state readv_ok_def http_user_ok)
  obtain w where
    w: "own_reach ([], w)" "readable w" "tc_trace (snd w) = [Called (ConnectionCb True)]"
      "tc_user (snd w) = http_user (\<lambda>_. defaultHttpCallback) key_order" "tc_read (snd w) = (\<lambda>k n. Inr (take n ''G''))"
      "content (tc_input (snd w)) = []"
    by (rule own_up [OF web_conn_def fresh]) (simp_all add: demo_loop_state http_user_def)
  obtain el c where wc: "w = (el, c)" by (cases w)
  obtain w' bs room where 1: "own_reach ([], w')" "tc_user (snd w') = tc_user c" "bs \<noteq> []"
      "tc_read c (length (tc_trace c)) room = Inr bs"
      "callbacks (tc_trace (snd w')) = callbacks (tc_trace c) @ [(length (tc_trace c), MessageCb (content (tc_input c) @ bs) (Timestamp 1))]"
    by (rule own_read [of el c]) (use w in \<open>simp_all add: wc take_Cons'\<close>)
  obtain el' c' where w': "w' = (el', c')" by (cases w')
  have "bs = ''G''" using 1(3,4) w(5) by (cases room) (auto simp: wc)
  then have cbs: "callbacks (tc_trace c') = [(0, ConnectionCb True), (1, MessageCb ''G'' (Timestamp 1))]"
    using 1(5) w(3,6) callbacks_snoc [of "[]"] by (simp add: w' wc)
  have "line_loop (Timestamp 1) False new_context ''G'' = (False, new_context, ''G'')"
    by (simp add: line_loop.simps [of _ False] line_step_def new_context_def parsing_def first_line_def CR_def)
  then have "http_session (\<lambda>_. defaultHttpCallback) key_order (callbacks (tc_trace c'))
      = \<lparr>sc_open = False, sc_unread = ''G'', sc_sent = bad_request\<rparr>"
    by (simp add: cbs http_session_def http_step_def Let_def gotAll_def new_context_def spec_send_def)
  moreover have "own_reach ([], (el', c'))" "tc_user c' = http_user (\<lambda>_. defaultHttpCallback) key_order"
    using 1(1,2) w(4) by (simp_all add: w' wc)
  moreover have "length (rs_body (defaultHttpCallback req (new_response b))) < 10 ^ 13" for req b
    by (simp add: defaultHttpCallback_def setCloseConnection_def setStatusMessage_def setStatusCode_def new_response_def)
  ultimately have "wire (tc_trace c') @ content (tc_output c') = bad_request"
      "spec_of c' = \<lparr>sc_open = False, sc_unread = ''G'', sc_sent = bad_request\<rparr>"
    using http_session_transcript [of "[]" el' c' "\<lambda>_. defaultHttpCallback" key_order] by simp_all
  then show ?thesis using \<open>own_reach ([], (el', c'))\<close> by (auto simp: spec_of_def)
qed

end
