(* ===== verification/Echo_Server.thy ===== *)
theory Echo_Server
  imports Conn_User Tcp_Server
begin

text \<open>
  \<open>example/example.cc\<close>: the echo server, as a user of \<open>TcpServer\<close> and of the connections it makes.
  \<open>main\<close> is modelled up to \<open>loop.loop ()\<close>, from where the steps of the server's theory go on. The
  lines that are logged are the result of \<open>echo_onConnection\<close>.
\<close>

record echo_server =
  es_loop :: nat
  es_server :: tcp_server

definition new_echo_server ::
  "nat \<Rightarrow> sockaddr_in \<Rightarrow> string \<Rightarrow> int \<times> int \<times> int \<Rightarrow> nat \<Rightarrow> srv_loop
    \<Rightarrow> (srv_loop \<times> acceptor \<times> echo_server) option" where
  "new_echo_server loop addr name sys ch el = do {
     (el, a, server) \<leftarrow> new_server (Some loop) addr name kNoReusePort sys ch el;
     let server = setConnectionCallback server;
     let server = setMessageCallback server;
     let server = setThreadNum 2 server;
     Some (el, a, \<lparr>es_loop = loop, es_server = server\<rparr>)
   }"

definition echo_start :: "int \<Rightarrow> (nat \<Rightarrow> nat) \<Rightarrow> echo_server \<Rightarrow> srv_world \<Rightarrow> (echo_server \<times> srv_world) option" where
  "echo_start tid mk s w = do {
     w \<leftarrow> server_start tid mk (w\<lparr>sw_server := es_server s\<rparr>);
     Some (s\<lparr>es_server := sw_server w\<rparr>, w)
   }"

definition echo_onConnection :: "tcp_conn \<Rightarrow> sockaddr_in \<Rightarrow> string list option" where
  "echo_onConnection conn peerAddress =
     (if connected conn then do {
        ipPort \<leftarrow> toIpPort peerAddress;
        Some [''Connection up : '' @ c_str ipPort]
      } else Some [])"

definition echo_onMessage :: "int \<Rightarrow> timestamp \<Rightarrow> conn_world \<Rightarrow> conn_world option" where
  "echo_onMessage tid time w = do {
     (msg, buf) \<leftarrow> retrieveAllAsString (tc_input (snd w));
     let w = apsnd (\<lambda>c. c\<lparr>tc_input := buf\<rparr>) w;
     w \<leftarrow> send_string tid msg (Some msg) w;
     shutdown tid w
   }"

text \<open>
  \<open>main\<close> in thread \<open>tid\<close>: the poller and the descriptors are what the constructors obtain, and
  \<open>mk\<close> numbers the loops the threads create.
\<close>

definition echo_main ::
  "int \<Rightarrow> poller \<Rightarrow> int \<Rightarrow> unit chans \<Rightarrow> (string \<Rightarrow> 32 word) \<Rightarrow> int \<times> int \<times> int \<Rightarrow> nat \<Rightarrow> (nat \<Rightarrow> nat)
    \<Rightarrow> (nat \<Rightarrow> srv_loop) \<Rightarrow> (echo_server \<times> srv_world) option" where
  "echo_main tid p fd cs inet_addr sys ch mk loops = do {
     loop \<leftarrow> new_evloop tid False p fd () cs;
     let addr = new_inet inet_addr 8000 ''127.0.0.1'';
     (loop, acceptor, server) \<leftarrow> new_echo_server 0 addr ''EchoServer'' sys ch loop;
     echo_start tid mk server
       \<lparr>sw_server = es_server server, sw_acceptor = acceptor, sw_loops = loops(0 := loop), sw_conns = [],
        sw_log = [], sw_closed = [], sw_closedFds = []\<rparr>
   }"

section \<open>The server as a user of the connection\<close>

definition echo_user :: "nat \<Rightarrow> callback \<Rightarrow> api list" where
  "echo_user k cb = (case cb of
     MessageCb s t \<Rightarrow> [ARetrieve (length s), ASendString s (Some s), AShutdown]
   | CloseCb \<Rightarrow> [AQueueDestroyed]
   | _ \<Rightarrow> [])"

lemma invoke_echo:
  assumes "conn_ok w" and "tc_user (snd w) = echo_user" and "msg = MessageCb (content (tc_input (snd w))) t"
  shows "invoke msg w = echo_onMessage (el_threadId (fst w)) t (apsnd (trace (Called msg)) w)"
proof -
  obtain el c where w: "w = (el, c)" by (cases w)
  have inv: "buf_inv (tc_input c)" using conn_okD(1) assms(1) by (simp add: w)
  have "retrieveAllAsString (tc_input c) = Some (content (tc_input c), retrieve (length (content (tc_input c))) (tc_input c))"
    by (simp add: retrieveAllAsString_def readableBytes_eq [OF inv] retrieveAsString_spec [OF inv])
  with assms(2,3) show ?thesis
    by (simp add: invoke_def w echo_user_def echo_onMessage_def api_call_def bind_fold_fun)
qed

text \<open>The messages delivered so far, and the first of them.\<close>

fun messages :: "(nat \<times> callback) list \<Rightarrow> string list" where
  "messages [] = []"
| "messages ((k, MessageCb m t) # cbs) = m # messages cbs"
| "messages (_ # cbs) = messages cbs"

definition first_message :: "(nat \<times> callback) list \<Rightarrow> string" where
  "first_message cbs = (case messages cbs of [] \<Rightarrow> [] | m # ms \<Rightarrow> m)"

lemma messages_append [simp]: "messages (xs @ ys) = messages xs @ messages ys"
  by (induction xs rule: messages.induct) simp_all

lemma replay_echo:
  assumes "bind_fold (\<lambda>(k, cb). cb_step cb) cbs 0 = Some p"
  shows "replay echo_user cbs = \<lparr>sc_open = (p = 1 \<and> messages cbs = []), sc_unread = [], sc_sent = first_message cbs\<rparr>
    \<and> (p = 0 \<longrightarrow> messages cbs = [])"
  using assms
proof (induction cbs arbitrary: p rule: rev_induct)
  case Nil
  then show ?case by (simp add: first_message_def)
next
  case (snoc x cbs)
  obtain k cb where x: "x = (k, cb)" by (cases x)
  obtain q where q: "bind_fold (\<lambda>(k, cb). cb_step cb) cbs 0 = Some q" "cb_step cb q = Some p"
    using snoc.prems by (auto simp: x bind_fold_append split: Option.bind_splits)
  note IH = snoc.IH [OF q(1)]
  show ?case
  proof (cases cb)
    case (ConnectionCb up)
    with IH q(2) show ?thesis
      by (cases up) (auto simp: x spec_step_def echo_user_def first_message_def split: if_splits)
  next
    case (MessageCb m t)
    with IH q(2) show ?thesis
      by (cases "messages cbs") (auto simp: x spec_step_def echo_user_def spec_send_def first_message_def split: if_splits)
  qed (use IH q(2) in \<open>auto simp: x spec_step_def echo_user_def first_message_def split: if_splits\<close>)
qed

lemma cb_phase_callbacks: "cb_phase tr = bind_fold (\<lambda>(k, cb). cb_step cb) (callbacks tr) 0"
  by (induction tr rule: rev_induct)
    (auto simp: bind_fold_append cb_phase_def event_step_def split: conn_event.split Option.bind_splits)


section \<open>One connection\<close>

lemma echo_conn_served:
  assumes ag: "agrees [] (el, c)" and ok: "conn_ok (el, c)" and user: "tc_user c = echo_user"
  shows "wire (tc_trace c) @ content (tc_output c) = first_message (callbacks (tc_trace c))
    \<and> content (tc_input c) = [] \<and> (messages (callbacks (tc_trace c)) \<noteq> [] \<longrightarrow> tc_state c \<noteq> kConnected)
    \<and> (\<forall>k m t. (k, MessageCb m t) \<in> set (callbacks (tc_trace c)) \<longrightarrow>
        m \<noteq> [] \<and> (\<exists>room. tc_read c k room = Inr m))
    \<and> (\<forall>t. let msg = MessageCb (content (tc_input c)) t
        in invoke msg (el, c) = echo_onMessage (el_threadId el) t (apsnd (trace (Called msg)) (el, c)))"
proof -
  let ?cbs = "callbacks (tc_trace c)"
  from ok obtain p where p: "bind_fold (\<lambda>(k, cb). cb_step cb) ?cbs 0 = Some p"
    by (auto simp: conn_ok_def data_but_def cb_phase_callbacks)
  have "spec_of c = replay echo_user ?cbs" using ag user by (simp add: agrees_def)
  with replay_echo [OF p] have s: "content (tc_input c) = []" "accepted (tc_trace c) = first_message ?cbs"
      "messages ?cbs \<noteq> [] \<longrightarrow> tc_state c \<noteq> kConnected"
    by (auto simp: spec_of_def)
  have "m \<noteq> [] \<and> (\<exists>room. tc_read c k room = Inr m)" if called: "(k, MessageCb m t) \<in> set ?cbs" for k m t
  proof -
    obtain before after where split: "?cbs = before @ (k, MessageCb m t) # after" using split_list [OF called] by blast
    then obtain q where "bind_fold (\<lambda>(k, cb). cb_step cb) before 0 = Some q"
      using p by (auto simp: bind_fold_append split: Option.bind_splits)
    then have "sc_unread (replay echo_user before) = []" using replay_echo by simp
    with ag split user show ?thesis by (fastforce simp: agrees_def delivers_def)
  qed
  moreover have "wire (tc_trace c) @ content (tc_output c) = accepted (tc_trace c)"
    using ok by (simp add: conn_ok_def data_but_def)
  moreover have "invoke (MessageCb (content (tc_input c)) t) (el, c)
      = echo_onMessage (el_threadId el) t (apsnd (trace (Called (MessageCb (content (tc_input c)) t))) (el, c))" for t
    using invoke_echo [OF ok] user by simp
  ultimately show ?thesis unfolding s(2) Let_def using s(1,3) by blast
qed

text \<open>
  C21: A client of the echo server gets back exactly the first piece of what it sends: in every run of
  a connection, what is on the wire is a prefix, with the output buffer all, of the bytes the first
  read of the socket returned; everything that is read later is taken from the input buffer and
  dropped, and after the first message the connection is no longer open for sending. What the user of
  the connection does with a message is what \<open>onMessage\<close> does.
\<close>
theorem echo_returns_first_piece:
  assumes "own_reach (fs, (el, c))" and "tc_user c = echo_user"
  shows "wire (tc_trace c) @ content (tc_output c) = first_message (callbacks (tc_trace c))
    \<and> content (tc_input c) = [] \<and> (messages (callbacks (tc_trace c)) \<noteq> [] \<longrightarrow> tc_state c \<noteq> kConnected)
    \<and> (\<forall>k m t. (k, MessageCb m t) \<in> set (callbacks (tc_trace c)) \<longrightarrow>
        m \<noteq> [] \<and> (\<exists>room. tc_read c k room = Inr m))
    \<and> (\<forall>t. let msg = MessageCb (content (tc_input c)) t
        in invoke msg (el, c) = echo_onMessage (el_threadId el) t (apsnd (trace (Called msg)) (el, c)))"
proof -
  have "conn_ok (el, c)" using conn_reach_ok [OF own_reach_reach [OF assms(1)]] by (simp add: run_ok_def)
  from echo_conn_served [OF own_reach_agrees [OF assms(1)] this assms(2)] show ?thesis .
qed

text \<open>A connection of the server whose peer sends two bytes at a time.\<close>

definition echo_conn :: conn_world where
  "echo_conn = new_conn ''echo'' 7 2 (\<lambda>k s. Inr (length s)) (\<lambda>k n. Inr (take n ''ab'')) echo_user demo_loop"

lemma echo_fresh: "fresh_conn echo_conn"
  unfolding echo_conn_def
  by (rule new_conn_fresh [OF demo_loop_wf])
    (auto simp: demo_loop_state readv_ok_def echo_user_def split: callback.split)

theorem echo_returns_first_piece_witness:
  "\<exists>fs el c. own_reach (fs, (el, c)) \<and> messages (callbacks (tc_trace c)) \<noteq> []
     \<and> wire (tc_trace c) @ content (tc_output c) = first_message (callbacks (tc_trace c))
     \<and> first_message (callbacks (tc_trace c)) \<noteq> [] \<and> tc_state c \<noteq> kConnected"
proof -
  obtain w where w: "own_reach ([], w)" "readable w" "tc_trace (snd w) = [Called (ConnectionCb True)]"
      "tc_user (snd w) = echo_user" "tc_read (snd w) = (\<lambda>k n. Inr (take n ''ab''))" "content (tc_input (snd w)) = []"
    by (rule own_up [OF echo_conn_def echo_fresh]) (simp_all add: demo_loop_state echo_user_def)
  obtain el c where wc: "w = (el, c)" by (cases w)
  obtain w' bs room where 1: "own_reach ([], w')" "tc_user (snd w') = tc_user c" "bs \<noteq> []"
      "callbacks (tc_trace (snd w')) = callbacks (tc_trace c) @ [(length (tc_trace c), MessageCb (content (tc_input c) @ bs) (Timestamp 1))]"
    by (rule own_read [of el c]) (use w in \<open>simp_all add: wc take_Cons'\<close>)
  obtain el' c' where w': "w' = (el', c')" by (cases w')
  have "callbacks (tc_trace c') = [(0, ConnectionCb True), (1, MessageCb bs (Timestamp 1))]"
    using 1(4) w(3,6) callbacks_snoc [of "[]"] by (simp add: w' wc)
  moreover have "own_reach ([], (el', c'))" "tc_user c' = echo_user" using 1(1,2) w(4) by (simp_all add: w' wc)
  ultimately show ?thesis
    using echo_returns_first_piece [of "[]" el' c'] 1(3) by (fastforce simp: first_message_def)
qed


section \<open>The program\<close>

lemma new_evloop_ok:
  assumes "0 \<le> fd" and "ctl_ok ctl"
  obtains el where "new_evloop tid False (newDefaultPoller up ctl) fd rd cs = Some el" and "loop_wf el"
    and "el_threadId el = tid" and "el_pending el = []" and "poller_channels (el_poller el) = [fd \<mapsto> 0]"
    and "\<And>ch. ch \<noteq> 0 \<Longrightarrow> ch_fd (el_chans el ch) = ch_fd (cs ch)" and "ch_fd (el_chans el 0) = fd"
proof -
  let ?cs = "cs(0 := setReadCallback rd (new_channel fd))" and ?p = "newDefaultPoller up ctl"
  have wf: "poller_wf (?cs, ?p)" by (rule poller_wf_new [OF assms(2)])
  have none: "poller_channels ?p = Map.empty" by (simp add: newDefaultPoller_def new_epoll_def new_pollpoller_def poller_channels_def)
  have us: "usable (poller_channels ?p) 0 ?cs"
    using assms(1) none by (simp add: usable_def new_channel_def setReadCallback_def)
  let ?e = "ev_enableReading (ch_events (?cs 0))"
  obtain cs' p' where u: "poller_updateChannel 0 (put_events ?e 0 ?cs, ?p) = Some (cs', p')" "poller_wf (cs', p')"
      "poller_channels p' = (poller_channels ?p)(ch_fd (?cs 0) \<mapsto> 0)"
    using poller_if.upd_ok [OF wf us] by blast
  note same = poller_if.upd_events(3) [OF u(1)]
  show ?thesis
    by (rule that [of "\<lparr>el_looping = False, el_quit = False, el_calling = False, el_threadId = tid,
         el_pollReturnTime = ts_default, el_chans = cs', el_poller = p', el_wakeupChannel = 0, el_eventfd = 0,
         el_active = [], el_current = None, el_pending = []\<rparr>"])
      (use assms(1) u same none in \<open>simp_all add: new_evloop_def enableReading_def set_interest_def el_updateChannel_def
        loop_wf_def new_channel_def setReadCallback_def\<close>)
qed

text \<open>
  The example starts: with descriptors from the kernel and poller calls that succeed, \<open>main\<close> gets
  to its loop without an abort; the server is then in an initial state of the server's runs, its
  acceptor listens on port 8000 and is watched by the base loop, the callbacks are set, and
  connections go to the loops of its two threads in turn, never to the base loop's.
\<close>
theorem echo_main_ready:
  assumes "ctl_ok ctl" and "0 \<le> fd" and "0 \<le> sockfd" and "sockfd \<noteq> fd" and "ch \<noteq> 0"
    and "inj (\<lambda>l. if l = 0 then tid else el_threadId (loops l))" and "\<And>l. el_pending (loops l) = []"
  shows "\<exists>s w. echo_main tid (newDefaultPoller up ctl) fd cs inet_addr (sockfd, 0, idleFd) ch mk loops = Some (s, w)
    \<and> srv_init w \<and> es_server s = sw_server w \<and> ac_listening (sw_acceptor w) \<and> ac_hasCallback (sw_acceptor w)
    \<and> so_bound (ac_socket (sw_acceptor w)) = Some (new_inet inet_addr 8000 ''127.0.0.1'')
    \<and> el_hasChannel ch (sw_loops w 0) \<and> getAllLoops (ts_pool (sw_server w)) = [mk 0, mk 1]
    \<and> uc_connection (ts_callbacks (sw_server w)) \<and> uc_message (ts_callbacks (sw_server w))"
proof -
  let ?addr = "new_inet inet_addr 8000 ''127.0.0.1''"
  obtain el :: srv_loop where el: "new_evloop tid False (newDefaultPoller up ctl) fd () cs = Some el" "loop_wf el"
      "el_threadId el = tid" "el_pending el = []" "poller_channels (el_poller el) = [fd \<mapsto> 0]" "ch_fd (el_chans el 0) = fd"
    by (rule new_evloop_ok [OF assms(2,1)])
  define el1 where "el1 = el\<lparr>el_chans := (el_chans el)(ch := setReadCallback () (new_channel sockfd))\<rparr>"
  obtain ip where ip: "toIpPort ?addr = Some ip" using toIpPort_eq by blast
  define sock where "sock = \<lparr>so_fd = sockfd, so_bound = Some ?addr, so_backlog = None, so_wrShut = False, so_noDelay = False,
        so_reuseAddr = True, so_reusePort = False, so_keepAlive = False\<rparr>"
  define srv where "srv = \<lparr>ts_loop = 0, ts_ipPort = ip, ts_name = ''EchoServer'', ts_pool = new_loop_pool 0 ''EchoServer'',
        ts_callbacks = \<lparr>uc_connection = True, uc_message = True, uc_writeComplete = False, uc_threadInit = False\<rparr>,
        ts_started = 0, ts_nextConnId = 1, ts_connections = Map.empty\<rparr>"
  define ac where "ac = \<lparr>ac_listening = False, ac_socket = sock, ac_channel = ch, ac_hasCallback = True, ac_idleFd = idleFd\<rparr>"
  let ?srv = "setThreadNum 2 srv"
  have new: "new_echo_server 0 ?addr ''EchoServer'' (sockfd, 0, idleFd) ch el = Some (el1, ac, \<lparr>es_loop = 0, es_server = ?srv\<rparr>)"
    using assms(3) ip
    by (simp add: new_echo_server_def new_server_def checkNotNull_def new_acceptor_def createNonblockingOrDie_def
        bindAddress_def setReusePort_def setReuseAddr_def setNewConnectionCallback_def setConnectionCallback_def
        setMessageCallback_def Let_def el1_def sock_def srv_def ac_def)
  have "\<not> hasChannel ch (el_chans el, el_poller el)" using el(5) assms(5) by (simp add: hasChannel_eq)
  with el(2) have "loop_wf el1" by (simp add: loop_wf_def el1_def poller_wf_renew)
  moreover have "registrable ch el1"
    using assms(3,4) el(5) by (simp add: registrable_def usable_def el1_def setReadCallback_def new_channel_def)
  ultimately obtain cs' p' where el2: "enableReading ch el1 = Some (el1\<lparr>el_chans := cs', el_poller := p'\<rparr>)"
      "el_hasChannel ch (el1\<lparr>el_chans := cs', el_poller := p'\<rparr>)"
    unfolding enableReading_def by (rule set_interest_ok)
  define el2 where "el2 = el1\<lparr>el_chans := cs', el_poller := p'\<rparr>"
  define pool where "pool = lp_start mk False (lp_setThreadNum 2 (new_loop_pool 0 ''EchoServer''))"
  define w0 where "w0 = \<lparr>sw_server = ?srv, sw_acceptor = ac, sw_loops = loops(0 := el1), sw_conns = [],
        sw_log = [], sw_closed = [], sw_closedFds = []\<rparr>"
  define w where "w = w0\<lparr>sw_server := srv\<lparr>ts_pool := pool, ts_started := 1\<rparr>, sw_loops := loops(0 := el2),
      sw_acceptor := ac\<lparr>ac_listening := True, ac_socket := sock\<lparr>so_backlog := Some 1024\<rparr>\<rparr>\<rparr>"
  have here: "el_threadId el1 = tid" by (simp add: el1_def el(3))
  have start: "server_start tid mk w0 = Some w"
    by (simp add: server_start_def w0_def w_def srv_def setThreadNum_def srv_runInLoop_def isInLoopThread_def here
        acceptor_listen_def sock_listen_def ac_def el2(1) el2_def pool_def)
  have main: "echo_main tid (newDefaultPoller up ctl) fd cs inet_addr (sockfd, 0, idleFd) ch mk loops
      = Some (\<lparr>es_loop = 0, es_server = sw_server w\<rparr>, w)"
    using start by (simp add: echo_main_def el(1) new echo_start_def w0_def)
  have "lp_loops pool = map mk [0..<2]" "lp_ok pool"
    unfolding pool_def using lp_start_eq(1,2) [where n = 2] by simp_all
  then have "getAllLoops pool = [mk 0, mk 1]" by (simp add: getAllLoops_def upt_rec)
  moreover have "srv_init w"
  proof -
    have "loop_tid w = (\<lambda>l. if l = 0 then tid else el_threadId (loops l))"
      by (auto simp: w_def loop_tid_def el2_def here)
    then have "inj (loop_tid w)" using assms(6) by simp
    then show ?thesis using length_toIpPort [OF ip] \<open>lp_ok pool\<close> assms(7) el(4)
      by (simp add: srv_init_def w_def w0_def srv_def el2_def el1_def)
  qed
  ultimately show ?thesis unfolding main using el2(2)
    by (simp add: w_def w0_def el2_def srv_def ac_def sock_def)
qed

theorem echo_main_ready_witness:
  "\<exists>s w. echo_main 0 (newDefaultPoller False linux_ctl) 3 (\<lambda>i. new_channel (int i + 20)) (\<lambda>_. 0x0100007F) (5, 0, 6) 1 Suc idle_loop
       = Some (s, w) \<and> srv_init w \<and> getAllLoops (ts_pool (sw_server w)) = [1, 2]"
proof -
  have "\<exists>s w. echo_main 0 (newDefaultPoller False linux_ctl) 3 (\<lambda>i. new_channel (int i + 20)) (\<lambda>_. 0x0100007F) (5, 0, 6) 1 Suc idle_loop
       = Some (s, w) \<and> srv_init w \<and> es_server s = sw_server w \<and> ac_listening (sw_acceptor w) \<and> ac_hasCallback (sw_acceptor w)
    \<and> so_bound (ac_socket (sw_acceptor w)) = Some (new_inet (\<lambda>_. 0x0100007F) 8000 ''127.0.0.1'')
    \<and> el_hasChannel 1 (sw_loops w 0) \<and> getAllLoops (ts_pool (sw_server w)) = [Suc 0, Suc 1]
    \<and> uc_connection (ts_callbacks (sw_server w)) \<and> uc_message (ts_callbacks (sw_server w))"
    by (rule echo_main_ready [OF linux_ctl_ok]) (auto simp: idle_loop_def inj_def split: if_splits)
  then show ?thesis by auto
qed

end
