(* ===== verification/Log_Program.thy ===== *)
theory Log_Program
  imports Async_Logging Logger_Line
begin

text \<open>
  Logging from a statement to the file: the macros of \<open>include/Logger.h\<close>, the output functions of
  \<open>log/Logger.cc\<close>, and the program \<open>log/test/test.cc\<close>, which first logs to the standard output and
  then through an \<open>AsyncLogging\<close>. The instant of a statement, the stale bytes of its stream and the
  position of the logging thread between statements are arbitrary.
\<close>

text \<open>\<open>LOG_x << items\<close> (there is no \<open>LOG_TRACE\<close>) in function \<open>func\<close>; the clock and the memory of the stream are what they are.\<close>

record statement =
  st_level :: log_level
  st_file :: string
  st_func :: string
  st_line :: int
  st_items :: "log_item list"
  st_now :: timestamp
  st_junk :: string

fun macro_args :: "log_level \<Rightarrow> string \<Rightarrow> logger_args" where
  "macro_args DEBUG func = LevelFunc DEBUG func"
| "macro_args INFO func = Plain"
| "macro_args level func = Level level"

definition statement_logger ::
  "(int \<Rightarrow> tm) \<Rightarrow> (int \<Rightarrow> string) \<Rightarrow> (double \<Rightarrow> string) \<Rightarrow> statement \<Rightarrow> logger" where
  "statement_logger localtime errnoMsg fmt st =
     log_items fmt (st_items st) (new_logger localtime errnoMsg (st_junk st) (st_now st) 0
       (source_file_of (st_file st)) (st_line st) (macro_args (st_level st) (st_func st)))"

text \<open>The program: its globals, \<open>g_asyncLog\<close> with the object behind it, and the standard output.\<close>

record prog =
  pr_globals :: log_globals
  pr_async :: "log_world option"
  pr_stdout :: string
  pr_flushed :: nat

definition defaultOutput :: "string \<Rightarrow> prog \<Rightarrow> prog" where
  "defaultOutput msg p = p\<lparr>pr_stdout := pr_stdout p @ msg\<rparr>"

definition defaultFlush :: "prog \<Rightarrow> prog" where
  "defaultFlush p = p\<lparr>pr_flushed := length (pr_stdout p)\<rparr>"

definition asyncLog :: "string \<Rightarrow> string \<Rightarrow> prog \<Rightarrow> prog option" where
  "asyncLog junk msg p = (case pr_async p of
     Some logging \<Rightarrow> do {
       logging \<leftarrow> log_step junk (Append msg) logging;
       Some (p\<lparr>pr_async := Some logging\<rparr>)
     }
   | None \<Rightarrow> Some p)"

text \<open>Output function 0 is the default one, any other \<open>asyncLog\<close>.\<close>

fun run_effect :: "string \<Rightarrow> log_effect \<Rightarrow> prog \<Rightarrow> prog option" where
  "run_effect junk (OutputCall f msg) p = (if f = 0 then Some (defaultOutput msg p) else asyncLog junk msg p)"
| "run_effect junk (FlushCall f) p = Some (defaultFlush p)"
| "run_effect junk Aborted p = None"

definition run_statement ::
  "(int \<Rightarrow> tm) \<Rightarrow> (int \<Rightarrow> string) \<Rightarrow> (double \<Rightarrow> string) \<Rightarrow> string \<Rightarrow> statement \<Rightarrow> prog \<Rightarrow> prog option" where
  "run_statement localtime errnoMsg fmt junk st p =
     (if log_enabled (g_logLevel (pr_globals p)) (st_level st)
      then bind_fold (run_effect junk) (logger_effects (pr_globals p) (statement_logger localtime errnoMsg fmt st)) p
      else Some p)"

text \<open>Statements of the program and iterations of the logging thread, in any order.\<close>

datatype prog_event = Statement statement | Background

fun prog_step ::
  "(int \<Rightarrow> tm) \<Rightarrow> (int \<Rightarrow> string) \<Rightarrow> (double \<Rightarrow> string) \<Rightarrow> string \<Rightarrow> prog_event \<Rightarrow> prog \<Rightarrow> prog option" where
  "prog_step localtime errnoMsg fmt junk (Statement st) p = run_statement localtime errnoMsg fmt junk st p"
| "prog_step localtime errnoMsg fmt junk Background p = (case pr_async p of
     Some w \<Rightarrow> do { w \<leftarrow> log_step junk Iterate w; Some (p\<lparr>pr_async := Some w\<rparr>) }
   | None \<Rightarrow> Some p)"

fun statements :: "prog_event list \<Rightarrow> statement list" where
  "statements [] = []"
| "statements (Statement st # es) = st # statements es"
| "statements (Background # es) = statements es"

section \<open>The test program\<close>

text \<open>\<open>now\<close> and \<open>stale\<close> give the instant and the stream's memory of each statement, by position and turn.\<close>

definition test_statement ::
  "string \<Rightarrow> (int \<Rightarrow> nat \<Rightarrow> timestamp) \<Rightarrow> (int \<Rightarrow> nat \<Rightarrow> string) \<Rightarrow> string \<Rightarrow> int \<Rightarrow> nat \<Rightarrow> log_level \<Rightarrow> log_item list \<Rightarrow> statement" where
  "test_statement path now stale func line i level items =
     \<lparr>st_level = level, st_file = path, st_func = func, st_line = line, st_items = items,
      st_now = now line i, st_junk = stale line i\<rparr>"

definition hello_items :: "nat \<Rightarrow> log_item list" where
  "hello_items i = [LCStr (Some ''Hello, ''), LInt (int i), LCStr (Some '' abc...xyz'')]"

definition test_Logging :: "string \<Rightarrow> (int \<Rightarrow> nat \<Rightarrow> timestamp) \<Rightarrow> (int \<Rightarrow> nat \<Rightarrow> string) \<Rightarrow> statement list" where
  "test_Logging path now stale =
     (let st = test_statement path now stale ''test_Logging''
      in [st 18 0 DEBUG [LCStr (Some ''debug'')], st 19 0 INFO [LCStr (Some ''info'')],
          st 20 0 WARN [LCStr (Some ''warn'')], st 21 0 ERROR [LCStr (Some ''error'')]]
         @ map (\<lambda>i. st 26 i INFO (hello_items i)) [0..<10])"

definition test_AsyncLogging :: "string \<Rightarrow> (int \<Rightarrow> nat \<Rightarrow> timestamp) \<Rightarrow> (int \<Rightarrow> nat \<Rightarrow> string) \<Rightarrow> statement list" where
  "test_AsyncLogging path now stale =
     map (\<lambda>i. test_statement path now stale ''test_AsyncLogging'' 35 i INFO (hello_items i)) [0..<1024]"

definition kRollSize :: int where "kRollSize = 1 * 1024 * 1024"

text \<open>
  \<open>main\<close> up to \<open>stop\<close>: \<open>es\<close> is what happens after \<open>start\<close>, the statements of the two functions with
  the iterations of the logging thread between them.
\<close>

definition log_test_main ::
  "(int \<Rightarrow> tm) \<Rightarrow> (int \<Rightarrow> string) \<Rightarrow> (double \<Rightarrow> string) \<Rightarrow> string \<Rightarrow> int \<Rightarrow> string \<Rightarrow> log_file \<Rightarrow> string
    \<Rightarrow> (int \<Rightarrow> nat \<Rightarrow> timestamp) \<Rightarrow> (int \<Rightarrow> nat \<Rightarrow> string) \<Rightarrow> prog_event list \<Rightarrow> prog option" where
  "log_test_main localtime errnoMsg fmt junk pid basename output path now stale es = do {
     let p = \<lparr>pr_globals = initial_globals, pr_async = None, pr_stdout = ''pid = '' @ dec_int pid @ [LF], pr_flushed = 0\<rparr>;
     p \<leftarrow> bind_fold (run_statement localtime errnoMsg fmt junk) (test_Logging path now stale) p;
     let p = p\<lparr>pr_async := Some (started_log junk basename kRollSize 3 output),
               pr_globals := setOutput 1 (pr_globals p)\<rparr>;
     p \<leftarrow> bind_fold (prog_step localtime errnoMsg fmt junk) es p;
     w \<leftarrow> pr_async p;
     w \<leftarrow> log_step junk Stop w;
     Some (p\<lparr>pr_async := Some w\<rparr>)
   }"


section \<open>What reaches the log\<close>

definition line_text :: "(int \<Rightarrow> tm) \<Rightarrow> (int \<Rightarrow> string) \<Rightarrow> (double \<Rightarrow> string) \<Rightarrow> statement \<Rightarrow> string" where
  "line_text localtime errnoMsg fmt st = fst (destroy_logger (statement_logger localtime errnoMsg fmt st))"

definition statement_ok :: "(double \<Rightarrow> string) \<Rightarrow> statement \<Rightarrow> bool" where
  "statement_ok fmt st \<longleftrightarrow> length (st_junk st) = kSmallBuffer \<and> (\<forall>x \<in> set (st_items st). item_ok fmt x)
     \<and> - (2 ^ 31) \<le> st_line st \<and> st_line st < 2 ^ 31 \<and> st_level st \<noteq> TRACE \<and> st_level st \<noteq> FATAL"

definition written :: "log_level \<Rightarrow> statement list \<Rightarrow> statement list" where
  "written level = filter (\<lambda>st. log_enabled level (st_level st))"

lemma new_impl_parts:
  "length junk = kSmallBuffer \<Longrightarrow> small (lg_stream (new_impl localtime errnoMsg junk now level 0 src line))"
  "lg_line (new_impl localtime errnoMsg junk now level e src line) = line"
  "lg_level (new_impl localtime errnoMsg junk now level e src line) = level"
  using stream_fresh [of junk] by (simp_all add: new_impl_def formatTime_def Let_def)

lemma fold_put_small: "small b \<Longrightarrow> \<forall>x \<in> set xs. item_ok fmt x \<Longrightarrow> small (fold (ls_put fmt) xs b)"
  by (induction xs arbitrary: b) (simp_all add: small_put)

lemma statement_line:
  assumes "statement_ok fmt st"
  shows "destroy_logger (statement_logger localtime errnoMsg fmt st) = (line_text localtime errnoMsg fmt st, False)"
    "length (line_text localtime errnoMsg fmt st) = kSmallBuffer"
proof -
  let ?lg = "statement_logger localtime errnoMsg fmt st"
  have new: "small (lg_stream (new_logger localtime errnoMsg (st_junk st) now 0 src line (macro_args (st_level st) f)))"
    "lg_line (new_logger localtime errnoMsg (st_junk st) now 0 src line (macro_args (st_level st) f)) = line"
    "lg_level (new_logger localtime errnoMsg (st_junk st) now 0 src line (macro_args (st_level st) f)) = st_level st"
    for now src line f
    using assms by (cases "st_level st"; simp add: statement_ok_def new_logger_def new_impl_parts Let_def)+
  have lg: "small (lg_stream ?lg)" "lg_line ?lg = st_line st" "lg_level ?lg = st_level st"
    using new assms by (simp_all add: statement_logger_def log_items_def statement_ok_def fold_put_small)
  have "small (lg_stream (finish ?lg))"
    using lg assms by (auto simp: finish_def statement_ok_def intro!: small_ops small_int)
  moreover have "lg_level (finish ?lg) = st_level st" using lg(3) by (simp add: finish_def)
  ultimately show "destroy_logger ?lg = (line_text localtime errnoMsg fmt st, False)"
    "length (line_text localtime errnoMsg fmt st) = kSmallBuffer"
    using assms by (simp_all add: line_text_def destroy_logger_def Let_def statement_ok_def small_def fb_length_def)
qed

text \<open>With \<open>asyncLog\<close> set, a run of the program is a run of the log.\<close>

fun log_events :: "(statement \<Rightarrow> string) \<Rightarrow> log_level \<Rightarrow> prog_event list \<Rightarrow> log_event list" where
  "log_events tx level [] = []"
| "log_events tx level (Statement st # es) =
     (if log_enabled level (st_level st) then [Append (tx st)] else []) @ log_events tx level es"
| "log_events tx level (Background # es) = Iterate # log_events tx level es"

lemma prog_run_log:
  assumes "g_output (pr_globals p) \<noteq> 0" and "pr_async p = Some w" and "list_all (statement_ok fmt) (statements es)"
  shows "bind_fold (prog_step localtime errnoMsg fmt junk) es p =
    map_option (\<lambda>w. p\<lparr>pr_async := Some w\<rparr>)
      (log_run junk (log_events (line_text localtime errnoMsg fmt) (g_logLevel (pr_globals p)) es) w)"
  using assms
proof (induction es arbitrary: p w)
  case Nil
  then have "p = p\<lparr>pr_async := Some w\<rparr>" by (cases p) simp
  then show ?case by (simp add: log_run_def)
next
  case (Cons e es)
  have step: "prog_step localtime errnoMsg fmt junk e p =
      map_option (\<lambda>w. p\<lparr>pr_async := Some w\<rparr>)
        (log_run junk (log_events (line_text localtime errnoMsg fmt) (g_logLevel (pr_globals p)) [e]) w)"
  proof (cases e)
    case (Statement st)
    then have "statement_ok fmt st" using Cons.prems(3) by simp
    with Statement statement_line(1) [OF this, of localtime errnoMsg] Cons.prems(1,2) show ?thesis
      by (cases p) (auto simp: run_statement_def logger_effects_def asyncLog_def log_run_def split: Option.bind_split)
  next
    case Background
    with Cons.prems(2) show ?thesis by (simp add: log_run_def split: Option.bind_split)
  qed
  have es: "list_all (statement_ok fmt) (statements es)" using Cons.prems(3) by (cases e) simp_all
  have split: "log_events tx level (e # es) = log_events tx level [e] @ log_events tx level es" for tx level
    by (cases e) simp_all
  show ?case
    unfolding split log_run_def bind_fold_append bind_fold.simps(2) step [unfolded log_run_def]
    using Cons.IH [OF _ _ es] Cons.prems(1) by (simp add: log_run_def split: Option.bind_split)
qed

lemma log_run_lines:
  assumes "log_run junk es w = Some w'"
  shows "lw_lines w' = lw_lines w @ concat (map (\<lambda>e. case e of Append s \<Rightarrow> [s] | _ \<Rightarrow> []) es)"
  using assms
proof (induction es arbitrary: w)
  case (Cons e es)
  then obtain w1 where 1: "log_step junk e w = Some w1" "log_run junk es w1 = Some w'"
    by (auto simp: log_run_def split: Option.bind_splits)
  have "lw_lines w1 = lw_lines w @ (case e of Append s \<Rightarrow> [s] | _ \<Rightarrow> [])"
    using 1(1) by (cases e) (auto split: if_splits Option.bind_splits prod.splits)
  with Cons.IH [OF 1(2)] show ?case by simp
qed (simp add: log_run_def)

lemma log_events_lines:
  "concat (map (\<lambda>e. case e of Append s \<Rightarrow> [s] | _ \<Rightarrow> []) (log_events tx level es)) = map tx (written level (statements es))"
  by (induction tx level es rule: log_events.induct) (simp_all add: written_def)


lemma statements_reach:
  assumes "g_output (pr_globals p) \<noteq> 0" and "pr_async p = Some (started_log junk basename rollsize interval output)"
    and "length junk = kLargeBuffer" and "lf_good output" and "\<not> lf_mutex output"
    and "list_all (statement_ok fmt) (statements es)"
  shows "\<exists>w. bind_fold (prog_step localtime errnoMsg fmt junk) es p = Some (p\<lparr>pr_async := Some w\<rparr>)
    \<and> lf_content (lt_output (lw_thread w)) = lf_content output @ concat (map fb_data (lw_chunks w))
    \<and> concat (map fb_text (lw_chunks w)) @ texts (al_buffers (lw_log w) @ [al_current (lw_log w)])
      = concat (map (line_text localtime errnoMsg fmt) (written (g_logLevel (pr_globals p)) (statements es)))
    \<and> (\<forall>st \<in> set (statements es). length (line_text localtime errnoMsg fmt st) = kSmallBuffer)"
proof -
  let ?lines = "map (line_text localtime errnoMsg fmt) (written (g_logLevel (pr_globals p)) (statements es))"
  obtain w where w: "log_run junk (log_events (line_text localtime errnoMsg fmt) (g_logLevel (pr_globals p)) es)
      (started_log junk basename rollsize interval output) = Some w" "log_inv (lf_content output) w"
    using log_run_inv [OF started_inv [OF assms(3-5)] assms(3)] by blast
  have "lw_lines w = ?lines"
    using log_run_lines [OF w(1)] by (simp add: log_events_lines started_log_def)
  moreover have len: "length (line_text localtime errnoMsg fmt st) = kSmallBuffer" if "st \<in> set (statements es)" for st
    using assms(6) that statement_line(2) by (simp add: list_all_iff)
  moreover have "kept ?lines = concat ?lines"
  proof -
    have "\<forall>l \<in> set ?lines. length l < kLargeBuffer"
      using len by (auto simp: written_def kSmallBuffer_def kLargeBuffer_def)
    then show ?thesis unfolding kept_def by (simp add: filter_True)
  qed
  ultimately have "concat (map fb_text (lw_chunks w)) @ texts (al_buffers (lw_log w) @ [al_current (lw_log w)]) = concat ?lines"
    using log_invD(12) [OF w(2)] by simp
  with prog_run_log [OF assms(1,2,6), of localtime errnoMsg junk] w(1) log_invD(10) [OF w(2)] len
  show ?thesis by (auto intro!: exI [of _ w])
qed

text \<open>
  C28: From the statement to the log: with \<open>asyncLog\<close> as the output function and a fresh log before it,
  whatever \<open>LOG_DEBUG\<close>, \<open>LOG_INFO\<close>, \<open>LOG_WARN\<close> and \<open>LOG_ERROR\<close> statements the program runs (a \<open>LOG_FATAL\<close>
  aborts it and is left out; there is no macro for \<open>TRACE\<close>), with any items as long as \<open>snprintf\<close> prints each
  double within its bound and integers are of 64 bits at most, and wherever the logging thread's iterations fall
  between them, none of these statements aborts the program and nothing goes to the standard output; the chunks written so far, then the full buffers waiting, then
  the current one hold exactly the lines of the statements whose level is enabled, whole and in
  program order, each \<open>kSmallBuffer\<close> bytes long.
\<close>
theorem statements_reach_log:
  assumes "g_output (pr_globals p) \<noteq> 0" and "pr_async p = Some (started_log junk basename rollsize interval output)"
    and "length junk = kLargeBuffer" and "lf_good output" and "\<not> lf_mutex output"
    and "list_all (statement_ok fmt) (statements es)"
  shows "\<exists>w. bind_fold (prog_step localtime errnoMsg fmt junk) es p = Some (p\<lparr>pr_async := Some w\<rparr>)
    \<and> lf_content (lt_output (lw_thread w)) = lf_content output @ concat (map fb_data (lw_chunks w))
    \<and> concat (map fb_text (lw_chunks w)) @ texts (al_buffers (lw_log w) @ [al_current (lw_log w)])
      = concat (map (line_text localtime errnoMsg fmt) (written (g_logLevel (pr_globals p)) (statements es)))
    \<and> (\<forall>st \<in> set (statements es). length (line_text localtime errnoMsg fmt st) = kSmallBuffer)"
  by (rule statements_reach [OF assms])

text \<open>The statements of the test program are in order, and as many as it says.\<close>

lemma hello_ok: "i < 2 ^ 31 \<Longrightarrow> \<forall>x \<in> set (hello_items i). item_ok fmt x"
  by (auto simp: hello_items_def)

lemma test_statement_ok:
  assumes "\<And>line i. length (stale line i) = kSmallBuffer"
  shows "list_all (statement_ok fmt) (test_Logging path now stale)" "list_all (statement_ok fmt) (test_AsyncLogging path now stale)"
proof -
  have hello: "statement_ok fmt (test_statement path now stale func line i INFO (hello_items i))"
    if "i < 1024" "line = 26 \<or> line = 35" for func line i
    using that hello_ok [of i fmt] assms by (auto simp: statement_ok_def test_statement_def)
  then show "list_all (statement_ok fmt) (test_AsyncLogging path now stale)"
    by (simp add: test_AsyncLogging_def list_all_iff)
  show "list_all (statement_ok fmt) (test_Logging path now stale)"
    using hello assms by (simp add: test_Logging_def list_all_iff Let_def) (simp add: statement_ok_def test_statement_def)
qed

lemma test_written:
  "written INFO (test_Logging path now stale) = tl (test_Logging path now stale)" "length (test_Logging path now stale) = 14"
  "written INFO (test_AsyncLogging path now stale) = test_AsyncLogging path now stale"
  "length (test_AsyncLogging path now stale) = 1024"
  by (simp_all add: written_def test_Logging_def test_AsyncLogging_def test_statement_def Let_def)

text \<open>Before \<open>setOutput\<close> the lines go to the standard output.\<close>

lemma run_statement_stdout:
  assumes "g_output (pr_globals p) = 0" and "statement_ok fmt st"
  shows "run_statement localtime errnoMsg fmt junk st p = Some (if log_enabled (g_logLevel (pr_globals p)) (st_level st)
    then defaultOutput (line_text localtime errnoMsg fmt st) p else p)"
  using assms statement_line(1) [OF assms(2), of localtime errnoMsg]
  by (simp add: run_statement_def logger_effects_def)

lemma run_statements_stdout:
  assumes "g_output (pr_globals p) = 0" and "list_all (statement_ok fmt) sts"
  shows "bind_fold (run_statement localtime errnoMsg fmt junk) sts p = Some (p\<lparr>pr_stdout := pr_stdout p
    @ concat (map (line_text localtime errnoMsg fmt) (written (g_logLevel (pr_globals p)) sts))\<rparr>)"
  using assms
proof (induction sts arbitrary: p)
  case (Cons st sts)
  then have "statement_ok fmt st" by simp
  note step = run_statement_stdout [OF Cons.prems(1) this]
  show ?case
    using Cons.IH [of p] Cons.IH [of "defaultOutput (line_text localtime errnoMsg fmt st) p"] Cons.prems
    by (simp add: step written_def defaultOutput_def)
qed (simp add: written_def)

text \<open>
  C29: The test program of the log: wherever the iterations of the logging thread fall, it prints its
  process number and the thirteen enabled lines of \<open>test_Logging\<close> to the standard output, and then
  hands the thirteen and the thousand and twenty-four of \<open>test_AsyncLogging\<close> to the log, all of
  them in order; the \<open>LOG_DEBUG\<close> line appears nowhere.
\<close>
theorem log_test_lines:
  assumes "length junk = kLargeBuffer" and "lf_good output" and "\<not> lf_mutex output"
    and "\<And>line i. length (stale line i) = kSmallBuffer"
    and "statements es = test_Logging path now stale @ test_AsyncLogging path now stale"
  shows "\<exists>p w. log_test_main localtime errnoMsg fmt junk pid basename output path now stale es = Some p
    \<and> pr_async p = Some w \<and> \<not> al_running (lw_log w)
    \<and> pr_stdout p = ''pid = '' @ dec_int pid @ [LF]
        @ concat (map (line_text localtime errnoMsg fmt) (tl (test_Logging path now stale)))
    \<and> concat (map fb_text (lw_chunks w)) @ texts (al_buffers (lw_log w) @ [al_current (lw_log w)])
      = concat (map (line_text localtime errnoMsg fmt) (tl (test_Logging path now stale) @ test_AsyncLogging path now stale))
    \<and> length (concat (map fb_text (lw_chunks w)) @ texts (al_buffers (lw_log w) @ [al_current (lw_log w)])) = 1037 * kSmallBuffer"
proof -
  let ?text = "line_text localtime errnoMsg fmt"
  let ?p0 = "\<lparr>pr_globals = initial_globals, pr_async = None, pr_stdout = ''pid = '' @ dec_int pid @ [LF], pr_flushed = 0\<rparr>"
  let ?p1 = "?p0\<lparr>pr_stdout := pr_stdout ?p0 @ concat (map ?text (tl (test_Logging path now stale)))\<rparr>"
  let ?p2 = "?p1\<lparr>pr_async := Some (started_log junk basename kRollSize 3 output), pr_globals := setOutput 1 (pr_globals ?p1)\<rparr>"
  note ok = test_statement_ok [where stale = stale, OF assms(4), of fmt path now]
  have level: "g_output (pr_globals ?p0) = 0" "g_logLevel (pr_globals ?p0) = INFO"
    "g_output (pr_globals ?p2) \<noteq> 0" "g_logLevel (pr_globals ?p2) = INFO"
    by (simp_all add: initial_globals_def initLogLogLevel_def setOutput_def)
  have 1: "bind_fold (run_statement localtime errnoMsg fmt junk) (test_Logging path now stale) ?p0 = Some ?p1"
    using run_statements_stdout [OF level(1) ok(1)] by (simp only: level(2) test_written)
  have es: "list_all (statement_ok fmt) (statements es)" using ok by (simp add: assms(5))
  let ?after = "tl (test_Logging path now stale) @ test_AsyncLogging path now stale"
  have wr: "written INFO (statements es) = ?after"
    using test_written(1,3) [of path now stale] by (simp add: assms(5) written_def)
  have "pr_async ?p2 = Some (started_log junk basename kRollSize 3 output)" by simp
  from statements_reach [OF level(3) this assms(1-3) es, of localtime errnoMsg] obtain w where
    w: "bind_fold (prog_step localtime errnoMsg fmt junk) es ?p2 = Some (?p2\<lparr>pr_async := Some w\<rparr>)"
      "concat (map fb_text (lw_chunks w)) @ texts (al_buffers (lw_log w) @ [al_current (lw_log w)]) = concat (map ?text ?after)"
      "\<forall>st \<in> set (statements es). length (?text st) = kSmallBuffer"
    unfolding level(4) wr by blast
  let ?w = "w\<lparr>lw_log := al_stop (lw_log w)\<rparr>"
  have "log_test_main localtime errnoMsg fmt junk pid basename output path now stale es = Some (?p2\<lparr>pr_async := Some ?w\<rparr>)"
    unfolding log_test_main_def Let_def 1 bind.bind_lunit w(1) by simp
  moreover have "length (concat (map ?text ?after)) = 1037 * kSmallBuffer"
  proof -
    have "\<forall>st \<in> set ?after. length (?text st) = kSmallBuffer"
    proof
      fix st assume "st \<in> set ?after"
      moreover have "set (tl (test_Logging path now stale)) \<subseteq> set (test_Logging path now stale)"
        by (cases "test_Logging path now stale") auto
      ultimately have "st \<in> set (statements es)" unfolding assms(5) by auto
      with w(3) show "length (?text st) = kSmallBuffer" by blast
    qed
    then have "map (length \<circ> ?text) ?after = map (\<lambda>_. kSmallBuffer) ?after" by (intro map_cong refl) simp
    then have "length (concat (map ?text ?after)) = length ?after * kSmallBuffer"
      by (simp only: length_concat map_map sum_list_triv of_nat_id)
    then show ?thesis by (simp add: test_written)
  qed
  ultimately show ?thesis using w(2)
    by (intro exI [of _ "?p2\<lparr>pr_async := Some ?w\<rparr>"] exI [of _ ?w]) (simp add: al_stop_def)
qed


definition demo_prog :: prog where
  "demo_prog = \<lparr>pr_globals = setOutput 1 initial_globals,
     pr_async = Some (started_log (replicate kLargeBuffer NUL) ''app'' kRollSize 3 demo_log), pr_stdout = [], pr_flushed = 0\<rparr>"

definition demo_statement :: "log_level \<Rightarrow> string \<Rightarrow> statement" where
  "demo_statement level s = test_statement ''test.cc'' (\<lambda>_ _. Timestamp 1) (\<lambda>_ _. replicate kSmallBuffer NUL) ''main'' 7 0 level [LString s]"

theorem statements_reach_log_witness:
  "\<exists>w. bind_fold (prog_step demo_localtime (\<lambda>_. []) (\<lambda>_. []) (replicate kLargeBuffer NUL))
       [Statement (demo_statement DEBUG ''no''), Statement (demo_statement INFO ''a''), Background, Statement (demo_statement WARN ''b'')] demo_prog
       = Some (demo_prog\<lparr>pr_async := Some w\<rparr>)
     \<and> concat (map fb_text (lw_chunks w)) @ texts (al_buffers (lw_log w) @ [al_current (lw_log w)])
       = line_text demo_localtime (\<lambda>_. []) (\<lambda>_. []) (demo_statement INFO ''a'') @ line_text demo_localtime (\<lambda>_. []) (\<lambda>_. []) (demo_statement WARN ''b'')"
proof -
  let ?es = "[Statement (demo_statement DEBUG ''no''), Statement (demo_statement INFO ''a''), Background, Statement (demo_statement WARN ''b'')]"
  have p: "g_output (pr_globals demo_prog) \<noteq> 0" "g_logLevel (pr_globals demo_prog) = INFO"
    "pr_async demo_prog = Some (started_log (replicate kLargeBuffer NUL) ''app'' kRollSize 3 demo_log)"
    by (simp_all add: demo_prog_def setOutput_def initial_globals_def initLogLogLevel_def)
  have "list_all (statement_ok (\<lambda>_. [])) (statements ?es)"
    by (simp add: demo_statement_def statement_ok_def test_statement_def)
  from statements_reach_log [OF p(1,3) _ demo_log_good(1,2) this, of demo_localtime "\<lambda>_. []"]
  show ?thesis by (auto simp: p(2) written_def demo_statement_def test_statement_def)
qed

theorem log_test_lines_witness:
  "\<exists>p w. log_test_main demo_localtime (\<lambda>_. []) (\<lambda>_. []) (replicate kLargeBuffer NUL) 42 ''test'' demo_log ''test.cc''
       (\<lambda>_ _. Timestamp 1) (\<lambda>_ _. replicate kSmallBuffer NUL)
       (Background # map Statement (test_Logging ''test.cc'' (\<lambda>_ _. Timestamp 1) (\<lambda>_ _. replicate kSmallBuffer NUL)
          @ test_AsyncLogging ''test.cc'' (\<lambda>_ _. Timestamp 1) (\<lambda>_ _. replicate kSmallBuffer NUL))) = Some p
     \<and> pr_async p = Some w
     \<and> length (concat (map fb_text (lw_chunks w)) @ texts (al_buffers (lw_log w) @ [al_current (lw_log w)])) = 1037 * kSmallBuffer"
proof -
  have map: "statements (Background # map Statement sts) = sts" for sts by (induction sts) simp_all
  show ?thesis
    using log_test_lines [of "replicate kLargeBuffer NUL" demo_log "\<lambda>_ _. replicate kSmallBuffer NUL", OF _ demo_log_good(1,2) _ map]
    by fastforce
qed

end
