(* ===== verification/Pool_Program.thy ===== *)
theory Pool_Program
  imports Worker_Pool Log_Program
begin

text \<open>
  The program \<open>base/test/test.cc\<close>: eleven tasks for a pool of four threads. The tasks are run on the
  program's output of \<open>Log_Program\<close>; the instants and the stale stream bytes of the lines they log
  are arbitrary, by position.
\<close>

text \<open>\<open>showInfo\<close> and the closure with \<open>sleep\<close>.\<close>

datatype test_task = ShowInfo | Sleep5

definition info_statement :: "string \<Rightarrow> (int \<Rightarrow> nat \<Rightarrow> timestamp) \<Rightarrow> (int \<Rightarrow> nat \<Rightarrow> string) \<Rightarrow> int \<Rightarrow> nat \<Rightarrow> statement" where
  "info_statement path now stale tid i = test_statement path now stale ''showInfo'' 14 i INFO [LInt tid]"

definition showInfo ::
  "(int \<Rightarrow> tm) \<Rightarrow> (int \<Rightarrow> string) \<Rightarrow> (double \<Rightarrow> string) \<Rightarrow> string \<Rightarrow> int \<Rightarrow> statement \<Rightarrow> prog \<Rightarrow> prog option" where
  "showInfo localtime errnoMsg fmt junk tid st p =
     (let p = p\<lparr>pr_stdout := pr_stdout p @ ''test'' @ dec_int tid @ [LF]\<rparr>
      in run_statement localtime errnoMsg fmt junk st p)"

fun run_task ::
  "(int \<Rightarrow> tm) \<Rightarrow> (int \<Rightarrow> string) \<Rightarrow> (double \<Rightarrow> string) \<Rightarrow> string \<Rightarrow> int \<Rightarrow> statement \<Rightarrow> test_task \<Rightarrow> prog \<Rightarrow> prog option" where
  "run_task localtime errnoMsg fmt junk tid st ShowInfo p = showInfo localtime errnoMsg fmt junk tid st p"
| "run_task localtime errnoMsg fmt junk tid st Sleep5 p = Some p"

text \<open>The function that nothing calls.\<close>

definition initFunc :: "int \<Rightarrow> int \<times> string" where
  "initFunc count = (count + 1, ''Create thread '' @ dec_int (count + 1) @ [LF])"

text \<open>\<open>test1\<close> up to the end of its scope, where the pool is destroyed.\<close>

definition pool_test1 :: "nat \<Rightarrow> int \<Rightarrow> (int \<times> bool \<times> test_task pool) option" where
  "pool_test1 garbage created =
     (let pool = setThreadSize 4 (new_pool garbage ''ThreadPool'');
          pool = fold pool_add (replicate 10 ShowInfo) pool;
          pool = pool_add Sleep5 pool
      in pool_start created pool)"

lemma pool_test1_reach:
  assumes "pool_test1 garbage created = Some (c, b, p)"
  shows "pool_reach (replicate 10 ShowInfo @ [Sleep5]) p" "length (tp_threads p) = 4"
proof -
  have start: "pool_start created (fold pool_add (replicate 10 ShowInfo @ [Sleep5]) (setThreadSize 4 (new_pool garbage ''ThreadPool'')))
      = Some (c, b, p)"
    using assms by (simp only: pool_test1_def Let_def fold_append fold.simps comp_def id_apply)
  then show "pool_reach (replicate 10 ShowInfo @ [Sleep5]) p" by (rule pool_begin)
  from start show "length (tp_threads p) = 4" by (rule pool_start_inv(2))
qed

text \<open>Tasks run one after the other by the thread \<open>tid\<close>.\<close>

definition run_tasks ::
  "(int \<Rightarrow> tm) \<Rightarrow> (int \<Rightarrow> string) \<Rightarrow> (double \<Rightarrow> string) \<Rightarrow> string \<Rightarrow> int \<Rightarrow> (nat \<Rightarrow> statement) \<Rightarrow> test_task list \<Rightarrow> prog \<Rightarrow> prog option" where
  "run_tasks localtime errnoMsg fmt junk tid st tasks p =
     bind_fold (\<lambda>(i, task). run_task localtime errnoMsg fmt junk tid (st i) task) (enumerate 0 tasks) p"

definition info_text :: "(int \<Rightarrow> tm) \<Rightarrow> (int \<Rightarrow> string) \<Rightarrow> (double \<Rightarrow> string) \<Rightarrow> int \<Rightarrow> statement \<Rightarrow> string" where
  "info_text localtime errnoMsg fmt tid st = ''test'' @ dec_int tid @ [LF] @ line_text localtime errnoMsg fmt st"

lemma showInfo_prints:
  assumes "g_output (pr_globals p) = 0" and "g_logLevel (pr_globals p) = INFO"
    and "\<And>line i. length (stale line i) = kSmallBuffer" and "- (2 ^ 31) \<le> tid" and "tid < 2 ^ 31"
  shows "showInfo localtime errnoMsg fmt junk tid (info_statement path now stale tid i) p
    = Some (p\<lparr>pr_stdout := pr_stdout p @ info_text localtime errnoMsg fmt tid (info_statement path now stale tid i)\<rparr>)"
proof -
  let ?st = "info_statement path now stale tid i"
  have ok: "statement_ok fmt ?st"
    using assms(3-5) by (simp add: statement_ok_def info_statement_def test_statement_def)
  have st: "st_level ?st = INFO" by (simp_all add: info_statement_def test_statement_def)
  show ?thesis
    using assms(1,2) unfolding showInfo_def Let_def
    by (subst run_statement_stdout [OF _ ok]) (simp_all add: defaultOutput_def info_text_def st)
qed

lemma run_infos:
  assumes "g_output (pr_globals p) = 0" and "g_logLevel (pr_globals p) = INFO"
    and "\<And>line i. length (stale line i) = kSmallBuffer" and "- (2 ^ 31) \<le> tid" and "tid < 2 ^ 31"
  shows "bind_fold (\<lambda>(i, task). run_task localtime errnoMsg fmt junk tid (info_statement path now stale tid i) task)
      (enumerate k (replicate n ShowInfo)) p
    = Some (p\<lparr>pr_stdout := pr_stdout p
        @ concat (map (\<lambda>i. info_text localtime errnoMsg fmt tid (info_statement path now stale tid i)) [k..<k + n])\<rparr>)"
  using assms(1,2)
proof (induction n arbitrary: k p)
  case (Suc n)
  have "[k..<k + Suc n] = k # [Suc k..<Suc k + n]" by (simp add: upt_conv_Cons)
  with Suc showInfo_prints [where stale = stale, OF Suc.prems assms(3-5)] show ?case by simp
qed simp

text \<open>
  C35: The test program of the pool does not end: its eleven tasks run in the main thread, while they are
  added, and none in the four threads; whenever the end of the scope then destroys the pool, the
  join of the first thread waits for ever, whatever happens. What the tasks print is ten times \<open>test\<close>
  with the number of the main thread, each followed by its line of the log.
\<close>
theorem pool_test_hangs:
  assumes "pool_test1 garbage created = Some (c, b, p)" and "pool_step\<^sup>*\<^sup>* p q"
    and "tp_stop q = SIdle" and "tp_lock q = None" and "pool_step\<^sup>*\<^sup>* (destroy_pool q) r"
    and "\<And>line i. length (stale line i) = kSmallBuffer" and "- (2 ^ 31) \<le> tid" and "tid < 2 ^ 31"
  shows "tp_ran r = replicate 10 ShowInfo @ [Sleep5] \<and> tp_stop r = SJoin 0 \<and> stop_join 0 r = None
    \<and> map_option pr_stdout (run_tasks localtime errnoMsg fmt junk tid (info_statement path now stale tid) (tp_ran r)
        \<lparr>pr_globals = initial_globals, pr_async = None, pr_stdout = [], pr_flushed = 0\<rparr>)
      = Some (concat (map (\<lambda>i. info_text localtime errnoMsg fmt tid (info_statement path now stale tid i)) [0..<10]))"
proof -
  let ?early = "replicate 10 ShowInfo @ [Sleep5]"
  let ?p0 = "\<lparr>pr_globals = initial_globals, pr_async = None, pr_stdout = [], pr_flushed = 0\<rparr>"
  note p = pool_test1_reach [OF assms(1)]
  have keep: "pool_reach ?early y \<and> length (tp_threads y) = length (tp_threads x)"
    if "pool_step\<^sup>*\<^sup>* x y" "pool_reach ?early x" for x y
    using that
    by (induction rule: rtranclp_induct) (auto dest: pool_reach_inv pool_step_inv intro: pool_next)
  have q: "pool_reach ?early q" "tp_threads q \<noteq> []" using keep [OF assms(2) p(1)] p(2) by auto
  then have "tp_running q" using pool_reach_inv [OF q(1)] assms(3) unfolding pool_inv_def by simp
  then have d: "destroy_pool q = stop_begin q" by (simp add: destroy_pool_def)
  have 1: "pool_reach ?early (stop_begin q)" by (rule pool_next [OF q(1) pool_stops [OF assms(3,4)]])
  have "tp_threads (stop_begin q) \<noteq> []" "tp_stop (stop_begin q) \<noteq> SIdle" using q(2) by (simp_all add: stop_begin_def)
  from stop_keeps_lock [OF 1 this assms(5) [unfolded d]]
  have "tp_stop r = SJoin 0" "stop_join 0 r = None" by simp_all
  moreover have "pool_reach ?early r" "tp_threads r \<noteq> []"
    using keep [OF assms(5) [unfolded d] 1] q(2) by (auto simp: stop_begin_def)
  then have "tp_ran r = ?early" using pool_reach_inv unfolding pool_inv_def by metis
  moreover have "map_option pr_stdout (run_tasks localtime errnoMsg fmt junk tid (info_statement path now stale tid) ?early ?p0)
      = Some (concat (map (\<lambda>i. info_text localtime errnoMsg fmt tid (info_statement path now stale tid i)) [0..<10]))"
    using run_infos [where stale = stale and p = ?p0 and k = 0 and n = 10, OF _ _ assms(6-8), of localtime errnoMsg fmt junk path now]
    by (simp add: run_tasks_def enumerate_append_eq initial_globals_def initLogLogLevel_def bind_fold_append)
  ultimately show ?thesis by simp
qed

theorem pool_test_hangs_witness:
  "\<exists>c b p. pool_test1 7 0 = Some (c, b, p) \<and> stop_join 0 (destroy_pool p) = None \<and> length (tp_ran (destroy_pool p)) = 11"
proof -
  let ?q = "fold pool_add (replicate 10 ShowInfo @ [Sleep5]) (setThreadSize 4 (new_pool 7 ''ThreadPool''))"
  obtain c q where "start_threads 0 (tp_threadSize ?q) 0 (?q\<lparr>tp_running := True\<rparr>) = Some (c, q)"
    using start_threads_ok by blast
  then have start: "pool_start 0 ?q = Some (c, tp_threadSize q = 0 \<and> tp_init q, q)"
    by (simp only: pool_start_def) simp
  then have p: "pool_test1 7 0 = Some (c, tp_threadSize q = 0 \<and> tp_init q, q)"
    by (simp only: pool_test1_def Let_def fold_append fold.simps comp_def id_apply)
  note started = pool_start_inv [OF start]
  have "length (tp_ran (destroy_pool q)) = 11 \<and> stop_join 0 (destroy_pool q) = None"
    using pool_test_hangs [where stale = "\<lambda>_ _. replicate kSmallBuffer NUL" and tid = 1,
        OF p rtranclp.rtrancl_refl started(5,6) rtranclp.rtrancl_refl] by simp
  with p show ?thesis by auto
qed

end
