(* ===== verification/Shared_Loop.thy ===== *)
theory Shared_Loop
  imports Conn_User
begin

text \<open>
  One loop and all the connections it serves: \<open>EventLoop::loop\<close> with \<open>TcpConnection\<close>s as the owners of
  its channels and functors. The address of a connection's channel is its number, so a functor is a
  pair of the number of the connection it is bound to and the method, and the connection a handler
  belongs to is the current channel. The loop's own operations (\<open>el_poll\<close>, \<open>dispatch\<close>,
  \<open>begin_pending\<close>) and those of a connection are composed as they stand; connections are opened and
  destroyed while the loop runs, and other threads may use them. The poller, the queue and the
  eventfd are shared; the theorems say that nothing of this shows in a connection.
\<close>

section \<open>The loop and its connections\<close>

type_synonym shared_loop = "(nat \<times> conn_functor, conn_handler) evloop"
type_synonym conns = "nat \<Rightarrow> tcp_conn option"
type_synonym shared = "(nat \<times> conn_functor, conn_handler, conns) world"

definition mine :: "nat \<Rightarrow> (nat \<times> 'f) list \<Rightarrow> 'f list" where
  "mine i fs = map snd (filter (\<lambda>(j, f). j = i) fs)"

text \<open>What connection \<open>i\<close> sees of the loop, and the loop after the connection has used it.\<close>

definition view :: "nat \<Rightarrow> shared_loop \<Rightarrow> (conn_functor, conn_handler) evloop" where
  "view i el =
     \<lparr>el_looping = el_looping el, el_quit = el_quit el, el_calling = el_calling el, el_threadId = el_threadId el,
      el_pollReturnTime = el_pollReturnTime el, el_chans = el_chans el, el_poller = el_poller el,
      el_wakeupChannel = el_wakeupChannel el, el_eventfd = el_eventfd el, el_active = el_active el,
      el_current = el_current el, el_pending = mine i (el_pending el)\<rparr>"

definition put_view :: "nat \<Rightarrow> (conn_functor, conn_handler) evloop \<Rightarrow> shared_loop \<Rightarrow> shared_loop" where
  "put_view i v el =
     \<lparr>el_looping = el_looping v, el_quit = el_quit v, el_calling = el_calling v, el_threadId = el_threadId v,
      el_pollReturnTime = el_pollReturnTime v, el_chans = el_chans v, el_poller = el_poller v,
      el_wakeupChannel = el_wakeupChannel v, el_eventfd = el_eventfd v, el_active = el_active v,
      el_current = el_current v,
      el_pending = el_pending el @ map (Pair i) (drop (length (mine i (el_pending el))) (el_pending v))\<rparr>"

definition as_conn :: "nat \<Rightarrow> (conn_world \<Rightarrow> conn_world option) \<Rightarrow> shared \<Rightarrow> shared option" where
  "as_conn i f w = (case w of (el, cs) \<Rightarrow> do {
     c \<leftarrow> cs i;
     (v, c) \<leftarrow> f (view i el, c);
     Some (put_view i v el, cs(i \<mapsto> c))
   })"

fun exec_shared :: "nat \<times> conn_functor \<Rightarrow> shared \<Rightarrow> shared option" where
  "exec_shared (i, f) w = as_conn i (exec_functor f) w"

text \<open>The callback of the wake-up channel is \<open>EventLoop::handleRead\<close>.\<close>

definition call_shared :: "conn_handler invocation \<Rightarrow> shared \<Rightarrow> shared option" where
  "call_shared h w = (case w of (el, cs) \<Rightarrow> do {
     ch \<leftarrow> el_current el;
     if ch = el_wakeupChannel el
     then (case h of ReadCall WakeupRead t \<Rightarrow> Some (el_handleRead el, cs) | _ \<Rightarrow> None)
     else as_conn ch (call_handler h) w
   })"

definition shared_alive :: "conns \<Rightarrow> nat \<Rightarrow> bool" where
  "shared_alive cs ob \<longleftrightarrow> cs ob \<noteq> None"

section \<open>Views\<close>

lemma mine_simps [simp]:
  "mine i [] = []" "mine i ((j, f) # fs) = (if j = i then f # mine i fs else mine i fs)"
  "mine i (fs @ gs) = mine i fs @ mine i gs"
  by (simp_all add: mine_def)

lemma mine_tagged [simp]: "mine i (map (Pair j) fs) = (if j = i then fs else [])"
  by (induction fs) auto

lemma mine_none: "i \<notin> fst ` set fs \<Longrightarrow> mine i fs = []"
  by (induction fs) auto

lemma view_simps [simp]:
  "el_looping (view i el) = el_looping el" "el_quit (view i el) = el_quit el" "el_calling (view i el) = el_calling el"
  "el_threadId (view i el) = el_threadId el" "el_pollReturnTime (view i el) = el_pollReturnTime el"
  "el_chans (view i el) = el_chans el" "el_poller (view i el) = el_poller el"
  "el_wakeupChannel (view i el) = el_wakeupChannel el" "el_eventfd (view i el) = el_eventfd el"
  "el_active (view i el) = el_active el" "el_current (view i el) = el_current el"
  "el_pending (view i el) = mine i (el_pending el)"
  by (simp_all add: view_def)

lemma put_view_simps [simp]:
  "el_looping (put_view i v el) = el_looping v" "el_quit (put_view i v el) = el_quit v"
  "el_calling (put_view i v el) = el_calling v" "el_threadId (put_view i v el) = el_threadId v"
  "el_pollReturnTime (put_view i v el) = el_pollReturnTime v" "el_chans (put_view i v el) = el_chans v"
  "el_poller (put_view i v el) = el_poller v" "el_wakeupChannel (put_view i v el) = el_wakeupChannel v"
  "el_eventfd (put_view i v el) = el_eventfd v" "el_active (put_view i v el) = el_active v"
  "el_current (put_view i v el) = el_current v"
  "el_pending (put_view i v el) = el_pending el @ map (Pair i) (drop (length (mine i (el_pending el))) (el_pending v))"
  by (simp_all add: put_view_def)

lemma view_loop [simp]:
  "loop_wf (view i el) = loop_wf el" "el_hasChannel ch (view i el) = el_hasChannel ch el"
  "registrable ch (view i el) = registrable ch el"
  by (simp_all add: loop_wf_def el_hasChannel_def registrable_def)

lemma put_view_loop [simp]:
  "loop_wf (put_view i v el) = loop_wf v" "el_hasChannel ch (put_view i v el) = el_hasChannel ch v"
  "registrable ch (put_view i v el) = registrable ch v"
  by (simp_all add: loop_wf_def el_hasChannel_def registrable_def)

text \<open>An operation that posts at the end of the queue only can be put back and viewed again.\<close>

definition appends :: "shared_loop \<Rightarrow> nat \<Rightarrow> (conn_functor, conn_handler) evloop \<Rightarrow> bool" where
  "appends el i v \<longleftrightarrow> el_pending v = mine i (el_pending el) @ drop (length (mine i (el_pending el))) (el_pending v)"

lemma view_put: "appends el i v \<Longrightarrow> view i (put_view i v el) = v"
  by (rule evloop.equality) (simp_all add: appends_def)

lemma view_put_other: "j \<noteq> i \<Longrightarrow> view j (put_view i v el) = v\<lparr>el_pending := mine j (el_pending el)\<rparr>"
  by (rule evloop.equality) simp_all

lemma put_view_same [simp]: "put_view i (view i el) el = el"
  by (rule evloop.equality) simp_all

lemma appends_view [simp]: "appends el i (view i el)"
  by (simp add: appends_def)

lemma appends_posts: "posts_only (view i el, c) (v, c') \<Longrightarrow> appends el i v"
  by (simp add: posts_only_def newly_def appends_def)

lemma put_put:
  assumes "appends el i v" and "appends (put_view i v el) i u"
  shows "put_view i u (put_view i v el) = put_view i u el"
proof -
  let ?n = "length (mine i (el_pending el))"
  have m: "mine i (el_pending (put_view i v el)) = el_pending v"
    using assms(1) unfolding appends_def put_view_simps by simp
  then have u: "el_pending u = el_pending v @ drop (length (el_pending v)) (el_pending u)"
    using assms(2) unfolding appends_def by simp
  have n: "?n \<le> length (el_pending v)" using assms(1) unfolding appends_def by (metis length_append le_add1)
  have "drop ?n (el_pending u) = drop ?n (el_pending v) @ drop (length (el_pending v)) (el_pending u)"
    using n by (subst u) simp
  then show ?thesis using m by (intro evloop.equality) simp_all
qed

section \<open>The loop as the queue's client\<close>

lemma as_conn_posts:
  assumes "as_conn i f w = Some w'" and "\<And>w w'. f w = Some w' \<Longrightarrow> posts_only w w'"
  shows "posts_only w w'"
proof -
  obtain el cs where w: "w = (el, cs)" by (cases w)
  obtain c v c' where 1: "cs i = Some c" "f (view i el, c) = Some (v, c')" "w' = (put_view i v el, cs(i \<mapsto> c'))"
    using assms(1) by (auto simp: w as_conn_def split: Option.bind_splits)
  let ?qs = "drop (length (mine i (el_pending el))) (el_pending v)"
  show ?thesis unfolding w 1(3)
    by (rule posts_onlyI [of _ _ "map (Pair i) ?qs"])
      (use assms(2) [OF 1(2)] in \<open>auto simp: posts_only_def newly_def\<close>)
qed

lemma call_shared_posts:
  assumes "\<not> el_calling (fst w)" and "call_shared h w = Some w'"
  shows "posts_only w w'"
proof -
  obtain el cs where w: "w = (el, cs)" by (cases w)
  obtain ch where ch: "el_current el = Some ch" using assms(2) by (auto simp: w call_shared_def split: Option.bind_splits)
  show ?thesis
  proof (cases "ch = el_wakeupChannel el")
    case True
    with assms ch show ?thesis
      by (auto simp: w call_shared_def split: invocation.splits conn_handler.splits)
  next
    case False
    with assms(2) ch have run: "as_conn ch (call_handler h) (el, cs) = Some w'" by (simp add: w call_shared_def)
    then obtain c v c' where 1: "cs ch = Some c" "call_handler h (view ch el, c) = Some (v, c')"
        "w' = (put_view ch v el, cs(ch \<mapsto> c'))"
      by (auto simp: as_conn_def split: Option.bind_splits)
    have "posts_only (view ch el, c) (v, c')" using call_handler_posts [OF _ 1(2)] assms(1) by (simp add: w)
    then show ?thesis unfolding w 1(3)
      by (intro posts_onlyI [of _ _ "map (Pair ch) (drop (length (mine ch (el_pending el))) (el_pending v))"])
        (auto simp: posts_only_def newly_def)
  qed
qed

lemma exec_shared_posts: "exec_shared f w = Some w' \<Longrightarrow> posts_only w w'"
  by (cases f) (auto intro: as_conn_posts conn_posts.R_exec_functor)

interpretation shared_client: loop_client call_shared shared_alive exec_shared
  by unfold_locales (rule call_shared_posts exec_shared_posts, assumption+)+


section \<open>Dispatch to one connection\<close>

text \<open>The callbacks of one event, run on the shared loop, are the callbacks run on the view.\<close>

abbreviation no_wakeup :: "conn_handler invocation list \<Rightarrow> bool" where
  "no_wakeup hs \<equiv> \<forall>t. ReadCall WakeupRead t \<notin> set hs"

lemma fold_posts: "no_wakeup hs \<Longrightarrow> bind_fold call_handler hs w = Some w' \<Longrightarrow> posts_only w w'"
  by (rule conn_posts.R_fold) (auto intro: conn_posts.R_call_handler)

lemma as_conn_fold:
  assumes "el_current el = Some ch" and "ch \<noteq> el_wakeupChannel el" and "cs ch = Some c" and "no_wakeup hs"
  shows "bind_fold call_shared hs (el, cs) = as_conn ch (bind_fold call_handler hs) (el, cs)"
  using assms
proof (induction hs arbitrary: el cs c)
  case Nil
  then show ?case by (simp add: as_conn_def fun_upd_idem)
next
  case (Cons h hs)
  note step = call_shared_def [of h "(el, cs)"] as_conn_def [of ch "call_handler h"]
  show ?case
  proof (cases "call_handler h (view ch el, c)")
    case None
    with Cons.prems show ?thesis by (simp add: step as_conn_def)
  next
    case (Some vc)
    obtain v c1 where vc: "vc = (v, c1)" by (cases vc)
    have h: "\<And>t. h \<noteq> ReadCall WakeupRead t" and hs: "no_wakeup hs" using Cons.prems(4) by auto
    have p: "posts_only (view ch el, c) (v, c1)" using conn_posts.R_call_handler [OF Some [unfolded vc] h] .
    have s: "same_loop (view ch el) v" using conn_same.R_call_handler [OF Some [unfolded vc] h] by simp
    let ?el = "put_view ch v el"
    have ap: "appends el ch v" by (rule appends_posts [OF p])
    have view: "view ch ?el = v" by (rule view_put [OF ap])
    have IH: "bind_fold call_shared hs (?el, cs(ch \<mapsto> c1)) = as_conn ch (bind_fold call_handler hs) (?el, cs(ch \<mapsto> c1))"
      by (rule Cons.IH [of _ _ c1]) (use s Cons.prems hs in \<open>simp_all add: same_loop_def\<close>)
    have "as_conn ch (bind_fold call_handler hs) (?el, cs(ch \<mapsto> c1))
        = map_option (\<lambda>(u, c2). (put_view ch u el, cs(ch \<mapsto> c2))) (bind_fold call_handler hs (v, c1))"
    proof (cases "bind_fold call_handler hs (v, c1)")
      case (Some uc)
      obtain u c2 where uc: "uc = (u, c2)" by (cases uc)
      have "appends ?el ch u" using fold_posts [OF hs Some [unfolded uc]] by (intro appends_posts) (simp add: view)
      from put_put [OF ap this] Some uc show ?thesis by (simp add: as_conn_def view)
    qed (simp add: as_conn_def view)
    with IH Some vc Cons.prems(1-3) show ?thesis
      by (simp add: step) (simp add: as_conn_def split: Option.bind_split prod.split)
  qed
qed

lemma handler_calls:
  assumes "ch_readCallback chan = Some HandleRead" "ch_writeCallback chan = Some HandleWrite"
    "ch_closeCallback chan = Some HandleClose" "ch_errorCallback chan = Some HandleError"
  shows "no_wakeup (handleEvent alive t chan)"
proof -
  have sub: "set (call_if b (Some f)) \<subseteq> {Call f}" "set (read_if b (Some f) t) \<subseteq> {ReadCall f t}" for b and f :: conn_handler
    by (cases b; simp add: call_if_def read_if_def)+
  have "set (handleEventWithGuard t chan) \<subseteq> {Call HandleClose, Call HandleError, ReadCall HandleRead t, Call HandleWrite}"
    unfolding handleEventWithGuard_def assms set_append using sub by blast
  moreover have "set (handleEvent alive t chan) \<subseteq> set (handleEventWithGuard t chan)"
    by (cases "ch_tied chan"; cases "ch_tie chan"; cases "alive (the (ch_tie chan))") (simp_all add: handleEvent_def)
  ultimately show ?thesis by blast
qed

text \<open>What the rest of the loop may do to a connection's state without touching it.\<close>

definition kept :: "nat \<Rightarrow> (conn_functor, conn_handler) evloop \<Rightarrow> (conn_functor, conn_handler) evloop \<Rightarrow> bool" where
  "kept i el el' \<longleftrightarrow> loop_wf el' \<and> el_pending el' = el_pending el
     \<and> (registrable i el \<longrightarrow> registrable i el') \<and> el_hasChannel i el' = el_hasChannel i el
     \<and> ch_events (el_chans el' i) = ch_events (el_chans el i)
     \<and> ch_readCallback (el_chans el' i) = ch_readCallback (el_chans el i)
     \<and> ch_writeCallback (el_chans el' i) = ch_writeCallback (el_chans el i)
     \<and> ch_closeCallback (el_chans el' i) = ch_closeCallback (el_chans el i)
     \<and> ch_errorCallback (el_chans el' i) = ch_errorCallback (el_chans el i)"

lemma run_ok_kept:
  assumes "kept (tc_channel c) el el'" and "run_ok (fs, (el, c))"
  shows "run_ok (fs, (el', c))"
proof -
  let ?i = "tc_channel c"
  have "isWriting (el_chans el' ?i) = isWriting (el_chans el ?i)" "isNoneEvent (el_chans el' ?i) = isNoneEvent (el_chans el ?i)"
    using assms(1) by (simp_all add: kept_def isWriting_def isNoneEvent_def)
  with assms show ?thesis by (auto simp: kept_def run_ok_def conn_ok_def chan_ok_def Let_def)
qed

lemma own_ok_kept: "el_pending el' = el_pending el \<Longrightarrow> own_ok (fs, (el, c)) \<Longrightarrow> own_ok (fs, (el', c))"
  by (simp add: own_ok_def agrees_def no_sends_def)

lemma foreign_kept:
  assumes "el_foreign ch el el'" and "loop_wf el" and "loop_wf el'" and "el_pending el' = el_pending el"
    and "i \<noteq> ch" and "ch_fd (el_chans el i) \<noteq> ch_fd (el_chans el ch)"
  shows "kept i el el'"
proof -
  have f: "foreign ch (el_chans el) (poller_channels (el_poller el)) (el_chans el') (poller_channels (el_poller el'))"
    using assms(1) poller_isolated.wf_fds [OF assms(2) [unfolded loop_wf_def]] unfolding el_foreign_def by blast
  from foreignD [OF f assms(5)] foreign_tracked [OF f assms(5,6)] foreign_usable [OF f assms(5,6)] assms(3,4)
  show ?thesis by (simp add: kept_def registrable_def el_hasChannel_def hasChannel_eq)
qed


section \<open>The invariant\<close>

text \<open>
  \<open>rs\<close> are the functors of the batch still to run. Every functor and every registered channel belongs
  to a connection that exists, or to the loop; descriptors are not shared; and every connection is
  in order as it sees the loop.
\<close>

definition wake_ok :: "shared_loop \<Rightarrow> bool" where
  "wake_ok el \<longleftrightarrow> (let chan = el_chans el (el_wakeupChannel el) in \<not> ch_tied chan \<and> ch_readCallback chan = Some WakeupRead
     \<and> ch_writeCallback chan = None \<and> ch_closeCallback chan = None \<and> ch_errorCallback chan = None)"

definition present :: "shared_loop \<Rightarrow> conns \<Rightarrow> nat set" where
  "present el cs = insert (el_wakeupChannel el) (dom cs)"

definition conns_ok :: "(nat \<times> conn_functor) list \<Rightarrow> shared \<Rightarrow> bool" where
  "conns_ok rs w \<longleftrightarrow> (case w of (el, cs) \<Rightarrow> loop_wf el \<and> wake_ok el \<and> cs (el_wakeupChannel el) = None
     \<and> inj_on (\<lambda>i. ch_fd (el_chans el i)) (present el cs)
     \<and> ran (poller_channels (el_poller el)) \<subseteq> present el cs
     \<and> fst ` set (rs @ el_pending el) \<subseteq> dom cs
     \<and> (\<forall>i c. cs i = Some c \<longrightarrow> tc_channel c = i \<and> run_ok (mine i rs, (view i el, c))))"

lemma conns_okD:
  assumes "conns_ok rs (el, cs)"
  shows "loop_wf el" "wake_ok el" "cs (el_wakeupChannel el) = None"
    "inj_on (\<lambda>i. ch_fd (el_chans el i)) (present el cs)"
    "ran (poller_channels (el_poller el)) \<subseteq> present el cs" "fst ` set (rs @ el_pending el) \<subseteq> dom cs"
    "cs i = Some c \<Longrightarrow> tc_channel c = i" "cs i = Some c \<Longrightarrow> run_ok (mine i rs, (view i el, c))"
  using assms by (simp_all add: conns_ok_def)

text \<open>One connection acts: what it may do is what the relations of operations say.\<close>

definition acts :: "nat \<Rightarrow> conn_world \<Rightarrow> conn_world \<Rightarrow> bool" where
  "acts i w w' \<longleftrightarrow> posts_only w w' \<and> same_loop (fst w) (fst w') \<and> tc_channel (snd w') = tc_channel (snd w)
     \<and> el_foreign i (fst w) (fst w')"

lemma acts_ops:
  assumes "tc_channel (snd w) = i"
  shows "exec_functor f w = Some w' \<Longrightarrow> acts i w w'" "api_call tid a w = Some w' \<Longrightarrow> a \<noteq> AQueueDestroyed \<Longrightarrow> acts i w w'"
    "no_wakeup hs \<Longrightarrow> bind_fold call_handler hs w = Some w' \<Longrightarrow> acts i w w'"
proof -
  show "exec_functor f w = Some w' \<Longrightarrow> acts i w w'"
    unfolding acts_def assms [symmetric]
    by (intro conjI conn_posts.R_exec_functor conn_same.R_exec_functor conn_foreign.R_exec_functor [THEN conjunct1]
        conn_foreign.R_exec_functor [THEN conjunct2])
  show "api_call tid a w = Some w' \<Longrightarrow> a \<noteq> AQueueDestroyed \<Longrightarrow> acts i w w'"
    unfolding acts_def assms [symmetric]
    using conn_posts.R_api_call conn_same.R_api_call conn_foreign.R_api_call by blast
  assume hs: "no_wakeup hs" and run: "bind_fold call_handler hs w = Some w'"
  have "same_loop (fst w) (fst w')"
    by (rule conn_same.R_fold [OF _ run]) (use hs in \<open>auto intro: conn_same.R_call_handler\<close>)
  moreover have "tc_channel (snd w') = tc_channel (snd w) \<and> el_foreign (tc_channel (snd w)) (fst w) (fst w')"
    by (rule conn_foreign.R_fold [OF _ run]) (use hs conn_foreign.R_call_handler in blast)
  ultimately show "acts i w w'" using fold_posts [OF hs run] assms by (simp add: acts_def)
qed

lemma as_conn_eq: "cs i = Some c \<Longrightarrow> f (view i el, c) = Some (v, c') \<Longrightarrow> as_conn i f (el, cs) = Some (put_view i v el, cs(i \<mapsto> c'))"
  by (simp add: as_conn_def)

lemma fds_distinct:
  assumes "conns_ok rs (el, cs)" and "cs i = Some c" and "j \<in> present el cs" and "j \<noteq> i"
  shows "ch_fd (el_chans el j) \<noteq> ch_fd (el_chans el i)"
proof -
  have "i \<in> present el cs" using assms(2) by (auto simp: present_def)
  with conns_okD(4) [OF assms(1)] assms(3,4) show ?thesis by (auto dest: inj_onD)
qed

lemma acts_ok:
  assumes ok: "conns_ok rs (el, cs)" and c: "cs i = Some c" and act: "acts i (view i el, c) (v, c')"
    and run: "run_ok (mine i rs', (v, c'))" and other: "\<And>j. j \<noteq> i \<Longrightarrow> mine j rs' = mine j rs"
    and ids: "fst ` set rs' \<subseteq> dom cs"
  shows "conns_ok rs' (put_view i v el, cs(i \<mapsto> c'))"
    "j \<noteq> i \<Longrightarrow> j \<in> present el cs \<Longrightarrow> kept j (view j el) (view j (put_view i v el))"
proof -
  note D = conns_okD [OF ok]
  let ?el = "put_view i v el"
  have i: "tc_channel c = i" using D(7) c .
  have p: "posts_only (view i el, c) (v, c')" and s: "same_loop (view i el) v" and ch: "tc_channel c' = i"
    and f: "el_foreign i (view i el) v" using act i by (simp_all add: acts_def)
  have ap: "appends el i v" by (rule appends_posts [OF p])
  have wf: "loop_wf v" using run by (simp add: run_ok_def conn_ok_def chan_ok_def Let_def)
  have fo: "foreign i (el_chans el) (poller_channels (el_poller el)) (el_chans v) (poller_channels (el_poller v))"
    using f poller_isolated.wf_fds [OF D(1) [unfolded loop_wf_def]] by (simp add: el_foreign_def)
  have fd: "ch_fd (el_chans v j) = ch_fd (el_chans el j)" for j
    using foreignD(1) [OF fo, of j] fo by (cases "j = i") (simp_all add: foreign_def)
  have wake: "el_wakeupChannel v = el_wakeupChannel el" using s by (simp add: same_loop_def)
  have present: "present ?el (cs(i \<mapsto> c')) = present el cs" using c by (auto simp: present_def wake)
  have wi: "el_wakeupChannel el \<noteq> i" using D(3) c by auto
  have "wake_ok ?el" using D(2) foreignD [OF fo wi] by (simp add: wake_ok_def Let_def wake)
  moreover have "inj_on (\<lambda>i. ch_fd (el_chans ?el i)) (present ?el (cs(i \<mapsto> c')))"
    using D(4) by (simp add: present fd)
  moreover have "ran (poller_channels (el_poller ?el)) \<subseteq> present ?el (cs(i \<mapsto> c'))"
  proof -
    have "y \<in> present el cs" if "poller_channels (el_poller v) x = Some y" for x y
    proof (cases "poller_channels (el_poller v) x = poller_channels (el_poller el) x")
      case True
      with D(5) that show ?thesis by (auto simp: ran_def)
    next
      case False
      with fo that have "y = i" unfolding foreign_def by fastforce
      with c show ?thesis by (auto simp: present_def)
    qed
    then show ?thesis unfolding present by (auto simp: ran_def)
  qed
  moreover have "fst ` set (rs' @ el_pending ?el) \<subseteq> dom (cs(i \<mapsto> c'))"
    using D(6) ids c by auto
  moreover show kept: "kept j (view j el) (view j ?el)" if "j \<noteq> i" "j \<in> present el cs" for j
  proof -
    have "kept j (view i el) v \<or> True" by simp
    have "kept j (view j el) (v\<lparr>el_pending := mine j (el_pending el)\<rparr>)"
      by (rule foreign_kept [of i])
        (use fo D(1) wf fds_distinct [OF ok c that(2,1)] that in \<open>simp_all add: el_foreign_def loop_wf_def\<close>)
    then show ?thesis by (simp add: view_put_other [OF that(1)])
  qed
  moreover have "tc_channel d = j \<and> run_ok (mine j rs', (view j ?el, d))" if d: "(cs(i \<mapsto> c')) j = Some d" for j d
  proof (cases "j = i")
    case True
    with d run ch show ?thesis by (simp add: view_put [OF ap])
  next
    case False
    with d have j: "cs j = Some d" by simp
    then have "j \<in> present el cs" by (auto simp: present_def)
    from run_ok_kept [of d, OF _ D(8) [OF j]] kept [OF False this] D(7) [OF j] other [OF False] D(7) [OF j]
    show ?thesis by simp
  qed
  ultimately show "conns_ok rs' (?el, cs(i \<mapsto> c'))" using D(3) wf wi by (simp add: conns_ok_def wake)
qed


section \<open>What the kernel answers\<close>

text \<open>
  The documented answers: \<open>epoll_wait\<close> returns entries of the interest list, each once, and \<open>poll\<close> the
  number of entries it gave events, none of them with a negative descriptor. An entry is in the list
  with an empty mask at no time: \<open>disableAll\<close> deletes it (\<open>disableAll_unregisters\<close>).
\<close>

definition answer_ok :: "kernel_answer \<Rightarrow> 'cb chans \<times> poller \<Rightarrow> bool" where
  "answer_ok ans s = (case (ans, s) of
     (EpollWait (Inl err), cs, Epoll p) \<Rightarrow> True
   | (EpollWait (Inr evs), cs, Epoll p) \<Rightarrow> distinct (map snd evs)
       \<and> list_all (\<lambda>(ev, ch). tcp_revents ev
           \<and> ep_interest p (ch_fd (cs ch)) = Some (ch_events (cs ch), ch) \<and> \<not> isNoneEvent (cs ch)) evs
   | (PollCall (Inl err), cs, Poll p) \<Rightarrow> True
   | (PollCall (Inr (numEvents, revs)), cs, Poll p) \<Rightarrow> length revs = length (pp_pollfds p)
       \<and> numEvents = length (filter (\<lambda>r. r \<noteq> 0) revs)
       \<and> list_all (\<lambda>(pfd, r). 0 \<le> r \<and> (r \<noteq> 0 \<longrightarrow> 0 \<le> pfd_fd pfd \<and> pfd_events pfd \<noteq> 0 \<and> tcp_revents (word_of_int r)))
           (zip (pp_pollfds p) revs)
   | _ \<Rightarrow> False)"

lemma disableAll_unregisters:
  assumes "epoll_wf (cs, p)" and "ep_interest p (ch_fd (cs ch)) = Some (ch_events (cs ch), ch)" and "ch_index (cs ch) = kAdded"
    and "epoll_updateChannel ch (put_events (ev_disableAll (ch_events (cs ch))) ch cs, p) = Some (cs', p')"
  shows "ep_interest p' (ch_fd (cs ch)) = None"
proof -
  have "ctl_ok (ep_ctl p)" using assms(1) by (simp add: epoll_wf_def)
  with assms(2-4) show ?thesis
    by (auto simp: epoll_updateChannel_def epoll_update_def put_events_def Let_def kAdded_def kNew_def kDeleted_def
        ctl_okD isNoneEvent_def event_masks kNoneEvent_def split: if_splits)
qed

lemma epoll_fill:
  assumes "distinct (map snd evs)"
  shows "\<exists>cs'. epoll_fillActiveChannels evs cs = (cs', map snd evs)
    \<and> (\<forall>(ev, ch) \<in> set evs. cs' ch = set_revents ev (cs ch)) \<and> (\<forall>c. c \<notin> snd ` set evs \<longrightarrow> cs' c = cs c)"
  using assms
proof (induction evs arbitrary: cs)
  case (Cons e evs)
  obtain ev ch where e: "e = (ev, ch)" by (cases e)
  have ch: "ch \<notin> snd ` set evs" using Cons.prems by (simp add: e)
  obtain cs' where IH: "epoll_fillActiveChannels evs (cs(ch := set_revents ev (cs ch))) = (cs', map snd evs)"
      "\<forall>(ev', ch') \<in> set evs. cs' ch' = set_revents ev' ((cs(ch := set_revents ev (cs ch))) ch')"
      "\<forall>c. c \<notin> snd ` set evs \<longrightarrow> cs' c = (cs(ch := set_revents ev (cs ch))) c"
    using Cons.IH Cons.prems by fastforce
  have "cs' ch' = set_revents ev' (cs ch')" if "(ev', ch') \<in> set evs" for ev' ch'
  proof -
    have "ch' \<noteq> ch" using that ch by force
    with IH(2) that show ?thesis by fastforce
  qed
  with IH(1,3) ch show ?case by (auto simp: e)
qed simp

definition polled :: "'cb chans \<Rightarrow> (int \<rightharpoonup> nat) \<Rightarrow> 'cb chans \<Rightarrow> nat list \<Rightarrow> bool" where
  "polled cs tr cs' active \<longleftrightarrow> distinct active \<and> (\<forall>c. c \<notin> set active \<longrightarrow> cs' c = cs c)
     \<and> (\<forall>ch \<in> set active. \<exists>r. tcp_revents r \<and> cs' ch = set_revents r (cs ch) \<and> tr (ch_fd (cs ch)) = Some ch
          \<and> \<not> isNoneEvent (cs ch))"

lemma polled_fields:
  assumes "polled cs tr cs' active"
  shows "\<exists>r. cs' c = set_revents r (cs c)"
proof (cases "c \<in> set active")
  case False
  with assms have "cs' c = cs c" by (simp add: polled_def)
  then show ?thesis by (intro exI [of _ "ch_revents (cs c)"]) (simp add: set_revents_def)
qed (use assms in \<open>auto simp: polled_def\<close>)

lemma polled_wf:
  assumes "poller_wf (cs, p)" and "polled cs tr cs' active"
  shows "poller_wf (cs', p)"
proof (rule poller_wf_cong [OF assms(1)])
  fix c show "ch_fd (cs' c) = ch_fd (cs c) \<and> ch_events (cs' c) = ch_events (cs c) \<and> ch_index (cs' c) = ch_index (cs c)"
    using polled_fields [OF assms(2), of c] by (auto simp: set_revents_def)
qed

lemma slot_interest: "epoll_slot cs p fd \<Longrightarrow> ep_interest p fd = Some (e, ch) \<Longrightarrow> ep_channels p fd = Some ch"
  by (cases "ep_channels p fd") (auto simp: epoll_slot_def)

lemma epoll_slot_size [simp]: "epoll_slot cs (q\<lparr>ep_events_size := n\<rparr>) fd = epoll_slot cs q fd"
  by (simp add: epoll_slot_def split: option.split)

lemma poll_result:
  assumes wf: "poller_wf (cs, p)" and ans: "answer_ok ans (cs, p)"
  shows "\<exists>cs' p' active. poller_poll ans (cs, p) = Some ((cs', p'), active) \<and> poller_wf (cs', p')
    \<and> poller_channels p' = poller_channels p \<and> polled cs (poller_channels p) cs' active"
proof (cases p)
  case (Epoll q)
  have ewf: "epoll_wf (cs, q)" using wf by (simp add: Epoll poller_wf_def)
  show ?thesis
  proof (cases "\<exists>evs. ans = EpollWait (Inr evs) \<and> evs \<noteq> []")
    case False
    with ans Epoll have "poller_poll ans (cs, p) = Some ((cs, p), [])"
      by (auto simp: answer_ok_def poller_poll_def epoll_poll_def split: kernel_answer.splits sum.splits prod.splits)
    with wf show ?thesis by (auto simp: polled_def)
  next
    case True
    then obtain evs where evs: "ans = EpollWait (Inr evs)" "evs \<noteq> []" by blast
    have a: "distinct (map snd evs)" "list_all (\<lambda>(ev, ch). tcp_revents ev
        \<and> ep_interest q (ch_fd (cs ch)) = Some (ch_events (cs ch), ch) \<and> \<not> isNoneEvent (cs ch)) evs"
      using ans by (simp_all add: answer_ok_def evs Epoll)
    obtain cs' where f: "epoll_fillActiveChannels evs cs = (cs', map snd evs)"
        "\<forall>(ev, ch) \<in> set evs. cs' ch = set_revents ev (cs ch)" "\<forall>c. c \<notin> snd ` set evs \<longrightarrow> cs' c = cs c"
      using epoll_fill [OF a(1)] by blast
    have tracked: "ep_channels q (ch_fd (cs ch)) = Some ch" if "ep_interest q (ch_fd (cs ch)) = Some (e, ch)" for ch e
      by (rule slot_interest [of cs q, OF _ that]) (use ewf in \<open>simp add: epoll_wf_def\<close>)
    have "polled cs (ep_channels q) cs' (map snd evs)"
      unfolding polled_def
    proof (intro conjI ballI allI impI)
      fix ch assume "ch \<in> set (map snd evs)"
      then obtain ev where ev: "(ev, ch) \<in> set evs" by auto
      have e: "tcp_revents ev" "ep_interest q (ch_fd (cs ch)) = Some (ch_events (cs ch), ch)" "\<not> isNoneEvent (cs ch)"
        using a(2) ev by (auto simp: list_all_iff)
      have "cs' ch = set_revents ev (cs ch)" using f(2) ev by auto
      with e tracked [OF e(2)]
      show "\<exists>r. tcp_revents r \<and> cs' ch = set_revents r (cs ch) \<and> ep_channels q (ch_fd (cs ch)) = Some ch
          \<and> \<not> isNoneEvent (cs ch)" by blast
    qed (use a(1) f(3) in simp_all)
    moreover obtain q' where "poller_poll ans (cs, p) = Some ((cs', Epoll q'), map snd evs)"
        and "q' = q \<or> q' = q\<lparr>ep_events_size := ep_events_size q * 2\<rparr>"
      using evs f(1) by (simp add: poller_poll_def epoll_poll_def Epoll)
    moreover have "poller_wf (cs', Epoll q)" using polled_wf wf calculation(1) Epoll by blast
    then have "poller_wf (cs', Epoll q')" using calculation(3) by (auto simp: poller_wf_def epoll_wf_def)
    ultimately show ?thesis by (auto simp: Epoll poller_channels_def)
  qed
next
  case (Poll q)
  have pwf: "poll_wf (cs, q)" using wf by (simp add: Poll poller_wf_def)
  show ?thesis
  proof (cases "\<exists>n revs. ans = PollCall (Inr (n, revs))")
    case False
    with ans Poll have "poller_poll ans (cs, p) = Some ((cs, p), [])"
      by (auto simp: answer_ok_def poller_poll_def poll_poll_def split: kernel_answer.splits sum.splits)
    with wf show ?thesis by (auto simp: polled_def)
  next
    case True
    then obtain n revs where ansr: "ans = PollCall (Inr (n, revs))" by blast
    have len: "length revs = length (pp_pollfds q)" and n: "n = length (filter (\<lambda>r. r \<noteq> 0) revs)"
      and r: "i < length revs \<Longrightarrow> 0 \<le> revs ! i \<and> (revs ! i \<noteq> 0 \<longrightarrow> 0 \<le> pfd_fd (pp_pollfds q ! i)
        \<and> pfd_events (pp_pollfds q ! i) \<noteq> 0 \<and> tcp_revents (word_of_int (revs ! i)))" for i
      using ans by (auto simp: answer_ok_def ansr Poll list_all_length)
    let ?q = "q\<lparr>pp_pollfds := map2 (\<lambda>pfd r. pfd\<lparr>pfd_revents := r\<rparr>) (pp_pollfds q) revs\<rparr>"
    have nonneg: "0 \<le> revs ! i \<and> (pfd_fd (pp_pollfds q ! i) < 0 \<longrightarrow> revs ! i = 0)" if "i < length revs" for i
      using r [OF that] by fastforce
    obtain cs' active where e: "poll_poll (Inr (n, revs)) (cs, q) = Some ((cs', ?q), active)"
        "map (\<lambda>ch. nat (ch_index (cs ch))) active = filter (\<lambda>i. revs ! i \<noteq> 0) [0..<length revs]" "distinct active"
        "\<forall>ch \<in> set active. poll_hasChannel ch (cs, q)
          \<and> cs' ch = set_revents (word_of_int (revs ! nat (ch_index (cs ch)))) (cs ch)"
        "\<forall>c. c \<notin> set active \<longrightarrow> cs' c = cs c"
      using poll_poll_effect [OF pwf len nonneg n] by blast
    have "tcp_revents (word_of_int (revs ! nat (ch_index (cs ch)))) \<and> \<not> isNoneEvent (cs ch)" if "ch \<in> set active" for ch
    proof -
      have "nat (ch_index (cs ch)) \<in> set (filter (\<lambda>i. revs ! i \<noteq> 0) [0..<length revs])"
        using that e(2) by (metis (no_types, lifting) image_eqI set_map)
      then have i: "nat (ch_index (cs ch)) < length revs" "revs ! nat (ch_index (cs ch)) \<noteq> 0" by auto
      have "pp_channels q (ch_fd (cs ch)) = Some ch" using e(4) that by (simp add: poll_hasChannel_def)
      from poll_wf_entry [OF pwf this] r [OF i(1)] i(2) show ?thesis
        by (auto simp: entry_of_def isNoneEvent_def kNoneEvent_def)
    qed
    with e(3-5) have "polled cs (pp_channels q) cs' active"
      by (auto simp: polled_def poll_hasChannel_def)
    moreover have "poller_wf (cs', Poll ?q)"
    proof -
      have "poller_wf (cs', Poll q)" using polled_wf [OF _ calculation] wf Poll by blast
      then have "poll_wf (cs', q)" by (simp add: poller_wf_def)
      moreover have "entry_of (pfd\<lparr>pfd_revents := r\<rparr>) chan = entry_of pfd chan" for pfd r and chan :: "'a channel"
        by (simp add: entry_of_def)
      ultimately have "poll_wf (cs', ?q)" using len by (simp add: poll_wf_def)
      then show ?thesis by (simp add: poller_wf_def)
    qed
    ultimately show ?thesis using e(1) by (auto simp: poller_poll_def ansr Poll poller_channels_def)
  qed
qed


section \<open>Runs of the loop\<close>

text \<open>
  The phases of an iteration as in \<open>loop_step\<close>. At any time a connection may be opened, in the loop's
  thread or in another (\<open>TcpServer::newConnection\<close> picks the loop and calls \<open>runInLoop\<close>), the owner of one
  that has made its close callback may queue its \<open>connectDestroyed\<close>, one that is
  closed and that no functor is bound to may be destroyed, which closes its descriptor, and, if
  \<open>others\<close>, another thread may use a connection.
\<close>

type_synonym shared_state = "(nat \<times> conn_functor) phase \<times> shared"

definition may_run :: "nat \<times> conn_functor \<Rightarrow> shared \<Rightarrow> bool" where
  "may_run x w \<longleftrightarrow> (case (x, w) of ((i, f), (el, cs)) \<Rightarrow>
     (case cs i of Some c \<Rightarrow> functor_enabled f (view i el, c) | None \<Rightarrow> False))"

definition open_conn ::
  "bool \<Rightarrow> string \<Rightarrow> int \<Rightarrow> nat \<Rightarrow> (nat \<Rightarrow> string \<Rightarrow> int + nat) \<Rightarrow> (nat \<Rightarrow> nat \<Rightarrow> int + string)
    \<Rightarrow> (nat \<Rightarrow> callback \<Rightarrow> api list) \<Rightarrow> shared \<Rightarrow> shared" where
  "open_conn wc name sockfd ch wr rd user w = (case w of (el, cs) \<Rightarrow>
     (case new_conn name sockfd ch wr rd user (view ch el) of (v, c) \<Rightarrow>
        (put_view ch v el, cs(ch \<mapsto> (if wc then setWriteCompleteCallback c else c)))))"

text \<open>The flag says whether there is a write-complete callback to hand over.\<close>

lemma write_complete_kept:
  "fresh_conn (el, setWriteCompleteCallback c) = fresh_conn (el, c)" "agrees as (el, setWriteCompleteCallback c) = agrees as (el, c)"
  "tc_channel (setWriteCompleteCallback c) = tc_channel c" "tc_user (setWriteCompleteCallback c) = tc_user c"
  "tc_trace (setWriteCompleteCallback c) = tc_trace c" "tc_state (setWriteCompleteCallback c) = tc_state c"
  by (simp_all add: setWriteCompleteCallback_def fresh_conn_def conn_ok_def data_but_def chan_ok_def Let_def
      agrees_def no_sends_def spec_of_def)

text \<open>The channel and the descriptor are new, and the system calls and the user behave.\<close>

definition can_open ::
  "int \<Rightarrow> nat \<Rightarrow> (nat \<Rightarrow> string \<Rightarrow> int + nat) \<Rightarrow> (nat \<Rightarrow> nat \<Rightarrow> int + string)
    \<Rightarrow> (nat \<Rightarrow> callback \<Rightarrow> api list) \<Rightarrow> shared \<Rightarrow> bool" where
  "can_open sockfd ch wr rd user w \<longleftrightarrow> (case w of (el, cs) \<Rightarrow> ch \<notin> present el cs
     \<and> 0 \<le> sockfd \<and> (\<forall>i \<in> present el cs. ch_fd (el_chans el i) \<noteq> sockfd)
     \<and> (\<forall>k s n. wr k s = Inr n \<longrightarrow> n \<le> length s) \<and> (\<forall>k. readv_ok (rd k)) \<and> (\<forall>k cb. list_all api_ok (user k cb)))"

text \<open>
  A connection is destroyed with its last owner: the functors that own it are among them. What another thread has
  posted with \<open>this\<close> does not own it. With \<open>others\<close> it is assumed that such a thread owns the connection until the
  loop has run what it has posted, and that each of its calls is one step (\<open>Conn_Race\<close> has the single
  accesses of \<open>forceClose\<close>); no property is stated of such runs of a loop.
\<close>

definition can_destroy :: "bool \<Rightarrow> nat \<Rightarrow> (nat \<times> conn_functor) list \<Rightarrow> shared \<Rightarrow> bool" where
  "can_destroy others i rs w \<longleftrightarrow> (case w of (el, cs) \<Rightarrow>
     (case cs i of Some c \<Rightarrow> tc_state c = kDisconnected | None \<Rightarrow> False) \<and> \<not> el_hasChannel i el
     \<and> (\<forall>f \<in> set (mine i (rs @ el_pending el)). \<not> owning f \<and> \<not> others))"

inductive shared_step :: "bool \<Rightarrow> shared_state \<Rightarrow> shared_state \<Rightarrow> bool" for others where
  sh_poll: "answer_ok ans (el_chans el, el_poller el) \<Longrightarrow> el_poll ans t el = Some el' \<Longrightarrow>
    shared_step others (Polling, (el, cs)) (Handling (el_active el'), (el', cs))"
| sh_handle: "dispatch call_shared shared_alive ch w = Some w' \<Longrightarrow>
    shared_step others (Handling (ch # chs), w) (Handling chs, w')"
| sh_begin: "begin_pending el = (el', fs) \<Longrightarrow>
    shared_step others (Handling [], (el, cs)) (Running fs, (el'\<lparr>el_current := None\<rparr>, cs))"
| sh_run: "may_run f w \<Longrightarrow> exec_shared f w = Some w' \<Longrightarrow>
    shared_step others (Running (f # fs), w) (Running fs, w')"
| sh_end: "shared_step others (Running [], (el, cs)) (Polling, (el\<lparr>el_calling := False\<rparr>, cs))"
| sh_open: "can_open sockfd ch wr rd user w \<Longrightarrow>
    runInLoop exec_shared tid (ch, ConnectEstablished) (open_conn wc name sockfd ch wr rd user w) = Some w' \<Longrightarrow>
    shared_step others (ph, w) (ph, w')"
| sh_release: "cs i = Some c \<Longrightarrow> Called CloseCb \<in> set (tc_trace c) \<Longrightarrow>
    shared_step others (ph, (el, cs)) (ph, (queueInLoop tid (i, ConnectDestroyed) el, cs))"
| sh_destroy: "can_destroy others i (running ph) (el, cs) \<Longrightarrow> shared_step others (ph, (el, cs)) (ph, (el, cs(i := None)))"
| sh_remote: "others \<Longrightarrow> tid \<noteq> el_threadId (fst w) \<Longrightarrow> remote a \<Longrightarrow> as_conn i (api_call tid a) w = Some w' \<Longrightarrow>
    shared_step others (ph, w) (ph, w')"

text \<open>A run starts with a loop that has its wake-up channel only.\<close>

definition bare_loop :: "shared_loop \<Rightarrow> bool" where
  "bare_loop el \<longleftrightarrow> loop_wf el \<and> wake_ok el \<and> ran (poller_channels (el_poller el)) \<subseteq> {el_wakeupChannel el}
     \<and> el_pending el = [] \<and> \<not> el_calling el"

inductive shared_reach :: "bool \<Rightarrow> shared_state \<Rightarrow> bool" for others where
  sh_start: "bare_loop el \<Longrightarrow> shared_reach others (Polling, (el, Map.empty))"
| sh_next: "shared_reach others s \<Longrightarrow> shared_step others s s' \<Longrightarrow> shared_reach others s'"

definition handling_ok :: "nat list \<Rightarrow> shared \<Rightarrow> bool" where
  "handling_ok chs w \<longleftrightarrow> (case w of (el, cs) \<Rightarrow> distinct chs \<and> (\<forall>ch \<in> set chs. ch = el_wakeupChannel el
     \<or> ch \<in> dom cs \<and> el_hasChannel ch el \<and> \<not> isNoneEvent (el_chans el ch) \<and> tcp_revents (ch_revents (el_chans el ch))))"

fun phase_fits :: "(nat \<times> conn_functor) phase \<Rightarrow> shared \<Rightarrow> bool" where
  "phase_fits Polling w \<longleftrightarrow> \<not> el_calling (fst w)"
| "phase_fits (Handling chs) w \<longleftrightarrow> \<not> el_calling (fst w) \<and> handling_ok chs w"
| "phase_fits (Running fs) w \<longleftrightarrow> el_calling (fst w)"

definition shared_ok :: "shared_state \<Rightarrow> bool" where
  "shared_ok s \<longleftrightarrow> (case s of (ph, w) \<Rightarrow> conns_ok (running ph) w \<and> phase_fits ph w)"

section \<open>Every step keeps the invariant\<close>

lemma run_ok_shift:
  assumes "run_ok (fs, (el, c))" and "el_chans el' = el_chans el" and "el_poller el' = el_poller el"
    and "fs' @ el_pending el' = fs @ el_pending el"
  shows "run_ok (fs', (el', c))"
  using assms
  by (simp add: run_ok_def conn_ok_def chan_ok_def Let_def loop_wf_def registrable_def el_hasChannel_def del: set_append)

text \<open>Fields of the loop that no connection looks at, and functors taken from the queue into the batch.\<close>

lemma conns_ok_reorder:
  assumes ok: "conns_ok rs (el, cs)" and same: "el_chans el' = el_chans el" "el_poller el' = el_poller el"
    and wake: "el_wakeupChannel el' = el_wakeupChannel el"
    and ids: "fst ` set (rs' @ el_pending el') \<subseteq> fst ` set (rs @ el_pending el)"
    and mine: "\<And>i. mine i rs' @ mine i (el_pending el') = mine i rs @ mine i (el_pending el)"
  shows "conns_ok rs' (el', cs)"
proof -
  have "run_ok (mine i rs', (view i el', c))" if "cs i = Some c" for i c
    by (rule run_ok_shift [OF conns_okD(8) [OF ok that]]) (simp_all only: same mine view_simps)
  with conns_okD [OF ok] same wake ids show ?thesis
    unfolding conns_ok_def prod.case by (simp add: loop_wf_def wake_ok_def present_def del: set_append)
qed

lemma conns_ok_shift:
  assumes "conns_ok rs (el, cs)" and "el_chans el' = el_chans el" and "el_poller el' = el_poller el"
    and "el_wakeupChannel el' = el_wakeupChannel el" and eq: "rs' @ el_pending el' = rs @ el_pending el"
  shows "conns_ok rs' (el', cs)"
  by (rule conns_ok_reorder [OF assms(1-4)])
    (simp_all only: eq mine_simps(3) [symmetric] order_refl)

lemma handling_same:
  assumes "handling_ok chs (el, cs)" and "el_chans el' = el_chans el" and "el_poller el' = el_poller el"
    and "el_wakeupChannel el' = el_wakeupChannel el" and "dom cs' = dom cs"
  shows "handling_ok chs (el', cs')"
  using assms by (simp add: handling_ok_def el_hasChannel_def)

text \<open>Another connection has acted, and the channels that wait for their handlers still do.\<close>

lemma acts_handling:
  assumes ok: "conns_ok rs (el, cs)" and c: "cs i = Some c" and act: "acts i (view i el, c) (v, c')" and wf: "loop_wf v"
    and h: "handling_ok chs (el, cs)" and i: "i \<notin> set chs"
  shows "handling_ok chs (put_view i v el, cs(i \<mapsto> c'))"
proof -
  have wake: "el_wakeupChannel v = el_wakeupChannel el" using act by (simp add: acts_def same_loop_def)
  have fo: "foreign i (el_chans el) (poller_channels (el_poller el)) (el_chans v) (poller_channels (el_poller v))"
    using act poller_isolated.wf_fds [OF conns_okD(1) [OF ok, unfolded loop_wf_def]]
    by (simp add: acts_def el_foreign_def)
  have "el_hasChannel ch v \<and> \<not> isNoneEvent (el_chans v ch) \<and> tcp_revents (ch_revents (el_chans v ch))"
    if "ch \<in> set chs" "ch \<in> dom cs" "el_hasChannel ch el" "\<not> isNoneEvent (el_chans el ch)"
      "tcp_revents (ch_revents (el_chans el ch))" for ch
  proof -
    have ne: "ch \<noteq> i" using that(1) i by auto
    have "ch \<in> present el cs" using that(2) by (simp add: present_def)
    from foreignD [OF fo ne] foreign_tracked [OF fo ne fds_distinct [OF ok c this ne]] that(3-5)
    show ?thesis by (simp add: el_hasChannel_def hasChannel_eq isNoneEvent_def)
  qed
  moreover have "el_wakeupChannel (put_view i v el) = el_wakeupChannel el" "dom (cs(i \<mapsto> c')) = dom cs"
    using c by (auto simp: wake)
  ultimately show ?thesis using h unfolding handling_ok_def prod.case put_view_simps put_view_loop by metis
qed


text \<open>Polling touches what the kernel reported of the channels, and nothing that a connection keeps.\<close>

lemma poll_ok:
  assumes ok: "conns_ok [] (el, cs)" and ans: "answer_ok ans (el_chans el, el_poller el)"
  shows "\<exists>el'. el_poll ans t el = Some el' \<and> conns_ok [] (el', cs) \<and> handling_ok (el_active el') (el', cs)
    \<and> el_calling el' = el_calling el \<and> el_pending el' = el_pending el \<and> el_threadId el' = el_threadId el
    \<and> (\<forall>ch. el_hasChannel ch el' = el_hasChannel ch el)"
proof -
  note D = conns_okD [OF ok]
  obtain cs' p' active where r: "poller_poll ans (el_chans el, el_poller el) = Some ((cs', p'), active)"
      "poller_wf (cs', p')" "poller_channels p' = poller_channels (el_poller el)"
      "polled (el_chans el) (poller_channels (el_poller el)) cs' active"
    using poll_result [OF D(1) [unfolded loop_wf_def] ans] by blast
  let ?el = "el\<lparr>el_chans := cs', el_poller := p', el_active := active, el_pollReturnTime := t\<rparr>"
  have run: "el_poll ans t el = Some ?el" by (simp add: el_poll_def r(1))
  have field: "ch_fd (cs' c) = ch_fd (el_chans el c)" "ch_events (cs' c) = ch_events (el_chans el c)"
      "ch_index (cs' c) = ch_index (el_chans el c)" "ch_tied (cs' c) = ch_tied (el_chans el c)"
      "ch_readCallback (cs' c) = ch_readCallback (el_chans el c)" "ch_writeCallback (cs' c) = ch_writeCallback (el_chans el c)"
      "ch_closeCallback (cs' c) = ch_closeCallback (el_chans el c)" "ch_errorCallback (cs' c) = ch_errorCallback (el_chans el c)" for c
    using polled_fields [OF r(4), of c] by (auto simp: set_revents_def)
  have wf: "loop_wf ?el" using r(2) by (simp add: loop_wf_def)
  have kept: "kept i (view i el) (view i ?el)" for i
    using wf by (simp add: kept_def field registrable_def usable_def el_hasChannel_def hasChannel_eq r(3))
  have "run_ok (mine i [], (view i ?el, c))" if "cs i = Some c" for i c
    by (rule run_ok_kept [OF _ D(8) [OF that]]) (use kept D(7) [OF that] in simp)
  then have "conns_ok [] (?el, cs)"
    using D wf by (simp add: conns_ok_def wake_ok_def Let_def present_def field r(3))
  moreover have "handling_ok active (?el, cs)"
    unfolding handling_ok_def prod.case
  proof (intro conjI ballI)
    fix ch assume "ch \<in> set active"
    then obtain rv where a: "tcp_revents rv" "cs' ch = set_revents rv (el_chans el ch)"
        "poller_channels (el_poller el) (ch_fd (el_chans el ch)) = Some ch" "\<not> isNoneEvent (el_chans el ch)"
      using r(4) by (auto simp: polled_def)
    then have "ch \<in> present el cs" using D(5) by (auto intro: ranI)
    with a show "ch = el_wakeupChannel ?el \<or> ch \<in> dom cs \<and> el_hasChannel ch ?el \<and> \<not> isNoneEvent (el_chans ?el ch)
        \<and> tcp_revents (ch_revents (el_chans ?el ch))"
      by (auto simp: present_def el_hasChannel_def hasChannel_eq r(3) set_revents_def isNoneEvent_def)
  qed (use r(4) in \<open>simp add: polled_def\<close>)
  moreover have "el_hasChannel ch ?el = el_hasChannel ch el" for ch
    by (simp add: el_hasChannel_def hasChannel_eq field r(3))
  ultimately show ?thesis using run by (intro exI [of _ ?el]) simp
qed

text \<open>A functor of connection \<open>i\<close>.\<close>

lemma exec_ok:
  assumes ok: "conns_ok ((i, f) # fs) (el, cs)" and may: "may_run (i, f) (el, cs)" and live: "\<not> dangling f"
  obtains c v c' where "cs i = Some c" and "functor_enabled f (view i el, c)"
    and "exec_functor f (view i el, c) = Some (v, c')"
    and "exec_shared (i, f) (el, cs) = Some (put_view i v el, cs(i \<mapsto> c'))"
    and "acts i (view i el, c) (v, c')" and "conns_ok fs (put_view i v el, cs(i \<mapsto> c'))"
proof -
  note D = conns_okD [OF ok]
  obtain c where c: "cs i = Some c" "functor_enabled f (view i el, c)"
    using may by (auto simp: may_run_def split: option.splits)
  have "run_ok (f # mine i fs, (view i el, c))" using D(8) [OF c(1)] by simp
  then obtain w' where w': "exec_functor f (view i el, c) = Some w'" "run_ok (mine i fs, w')"
    using functor_run_ok [OF _ c(2) live] by blast
  obtain v c' where v: "w' = (v, c')" by (cases w')
  have act: "acts i (view i el, c) (v, c')"
    by (rule acts_ops(1) [OF _ w'(1) [unfolded v]]) (use D(7) [OF c(1)] in simp)
  have "conns_ok fs (put_view i v el, cs(i \<mapsto> c'))"
    by (rule acts_ok(1) [OF ok c(1) act w'(2) [unfolded v]]) (use D(6) in auto)
  with that [OF c w'(1) [unfolded v] _ act] c(1) w'(1) v show ?thesis by (simp add: as_conn_eq)
qed

lemma exec_shared_not_dangling: "exec_shared (i, f) w = Some w' \<Longrightarrow> \<not> dangling f"
  by (cases w) (auto simp: as_conn_def dangling_def split: Option.bind_splits option.splits)

text \<open>The handlers of one active channel.\<close>

lemma wake_dispatch:
  assumes "wake_ok el"
  shows "\<exists>el'. dispatch call_shared shared_alive (el_wakeupChannel el) (el, cs) = Some (el', cs)
    \<and> el_chans el' = el_chans el \<and> el_poller el' = el_poller el \<and> el_wakeupChannel el' = el_wakeupChannel el
    \<and> el_pending el' = el_pending el \<and> el_calling el' = el_calling el \<and> el_threadId el' = el_threadId el"
proof -
  let ?chan = "el_chans el (el_wakeupChannel el)"
  let ?el = "el\<lparr>el_current := Some (el_wakeupChannel el)\<rparr>"
  let ?t = "el_pollReturnTime el"
  have untied: "handleEvent (shared_alive cs) ?t ?chan = handleEventWithGuard ?t ?chan"
    using assms by (simp add: handleEvent_def wake_ok_def Let_def)
  have read: "handleEventWithGuard ?t ?chan = read_if (ch_revents ?chan AND (EPOLLIN OR EPOLLPRI) \<noteq> 0) (Some WakeupRead) ?t"
    using assms by (simp add: handleEventWithGuard_def call_if_def wake_ok_def Let_def)
  have "dispatch call_shared shared_alive (el_wakeupChannel el) (el, cs) \<in> {Some (?el, cs), Some (el_handleRead ?el, cs)}"
    unfolding dispatch_def prod.case untied read
    by (cases "ch_revents ?chan AND (EPOLLIN OR EPOLLPRI) \<noteq> 0") (simp_all add: read_if_def call_shared_def)
  then show ?thesis by (auto simp: el_handleRead_def)
qed

lemma conn_dispatch:
  assumes ok: "conns_ok [] (el, cs)" and idle: "\<not> el_calling el" and h: "handling_ok (ch # chs) (el, cs)"
    and ch: "ch \<noteq> el_wakeupChannel el"
  obtains c v c' hs where "cs ch = Some c"
    and "hs = handleEvent (shared_alive cs) (el_pollReturnTime el) (el_chans el ch)"
    and "bind_fold call_handler hs ((view ch el)\<lparr>el_current := Some ch\<rparr>, c) = Some (v, c')"
    and "dispatch call_shared shared_alive ch (el, cs) = Some (put_view ch v el, cs(ch \<mapsto> c'))"
    and "acts ch (view ch (el\<lparr>el_current := Some ch\<rparr>), c) (v, c')" and "run_ok ([], (v, c'))"
    and "no_wakeup hs" and "tc_state c \<noteq> kConnecting" and "steady ((view ch el)\<lparr>el_current := Some ch\<rparr>, c) (v, c')"
proof -
  let ?el = "el\<lparr>el_current := Some ch\<rparr>"
  let ?v = "(view ch el)\<lparr>el_current := Some ch\<rparr>"
  let ?chan = "el_chans el ch"
  obtain c where c: "cs ch = Some c" and reg: "el_hasChannel ch el" "\<not> isNoneEvent ?chan" "tcp_revents (ch_revents ?chan)"
    using h ch by (auto simp: handling_ok_def)
  have i: "tc_channel c = ch" and run: "run_ok ([], (view ch el, c))"
    using conns_okD(7,8) [OF ok c] by simp_all
  have cok: "conn_ok (view ch el, c)" using run by (simp add: run_ok_def)
  have ok': "conn_ok (?v, c)" by (rule conn_ok_current [OF cok])
  have op: "is_open c" using hasChannel_open [OF run] reg by (simp add: i)
  have cbs: "ch_readCallback ?chan = Some HandleRead" "ch_writeCallback ?chan = Some HandleWrite"
      "ch_closeCallback ?chan = Some HandleClose" "ch_errorCallback ?chan = Some HandleError"
    using cok by (simp_all add: conn_ok_def chan_ok_def Let_def i)
  define hs where "hs = handleEvent (shared_alive cs) (el_pollReturnTime el) ?chan"
  have hs: "no_wakeup hs" unfolding hs_def by (rule handler_calls [OF cbs])
  have "\<exists>w'. bind_fold call_handler hs (?v, c) = Some w' \<and> conn_ok w' \<and> steady (?v, c) w'"
    unfolding hs_def
    by (rule handlers_run [OF ok' _ _ cbs reg(3)]) (use op reg(1) i in \<open>simp_all add: el_hasChannel_def\<close>)
  then obtain w' where w': "bind_fold call_handler hs (?v, c) = Some w'" "conn_ok w'" "steady (?v, c) w'" by blast
  obtain v c' where v: "w' = (v, c')" by (cases w')
  have view: "view ch ?el = ?v" by (rule evloop.equality) simp_all
  have "dispatch call_shared shared_alive ch (el, cs) = as_conn ch (bind_fold call_handler hs) (?el, cs)"
    using as_conn_fold [of ?el ch cs c hs] ch c hs by (simp add: dispatch_def hs_def)
  also have "\<dots> = Some (put_view ch v ?el, cs(ch \<mapsto> c'))"
    by (rule as_conn_eq [where c = c]) (simp_all only: c w'(1) v view)
  also have "put_view ch v ?el = put_view ch v el" by (rule evloop.equality) simp_all
  finally have run': "dispatch call_shared shared_alive ch (el, cs) = Some (put_view ch v el, cs(ch \<mapsto> c'))" .
  have act: "acts ch (view ch ?el, c) (v, c')"
    unfolding view by (rule acts_ops(3) [OF _ hs w'(1) [unfolded v]]) (simp add: i)
  have conn: "tc_state c \<noteq> kConnecting" using op by auto
  have "run_ok ([], (v, c'))"
    by (rule steady_run_ok [OF w'(3) [unfolded v] w'(2) [unfolded v]])
      (use conn run in \<open>simp_all add: run_ok_def\<close>)
  from that [OF c hs_def w'(1) [unfolded v] run' act this hs conn w'(3) [unfolded v]] show ?thesis .
qed

lemma dispatch_ok:
  assumes ok: "conns_ok [] (el, cs)" and idle: "\<not> el_calling el" and h: "handling_ok (ch # chs) (el, cs)"
  shows "\<exists>w'. dispatch call_shared shared_alive ch (el, cs) = Some w' \<and> conns_ok [] w' \<and> \<not> el_calling (fst w')
    \<and> handling_ok chs w'"
proof (cases "ch = el_wakeupChannel el")
  case True
  obtain el' where w: "dispatch call_shared shared_alive ch (el, cs) = Some (el', cs)" "el_chans el' = el_chans el"
      "el_poller el' = el_poller el" "el_wakeupChannel el' = el_wakeupChannel el" "el_pending el' = el_pending el"
      "el_calling el' = el_calling el"
    using wake_dispatch [OF conns_okD(2) [OF ok], of cs] True by blast
  have "conns_ok [] (el', cs)" by (rule conns_ok_shift [OF ok w(2-4)]) (simp add: w(5))
  moreover have "handling_ok chs (el, cs)" using h by (simp add: handling_ok_def)
  then have "handling_ok chs (el', cs)" by (rule handling_same [OF _ w(2-4) refl])
  ultimately show ?thesis using w(1,6) idle by simp
next
  case False
  let ?el = "el\<lparr>el_current := Some ch\<rparr>"
  obtain c v c' hs where r: "cs ch = Some c" "dispatch call_shared shared_alive ch (el, cs) = Some (put_view ch v el, cs(ch \<mapsto> c'))"
      "acts ch (view ch ?el, c) (v, c')" "run_ok ([], (v, c'))"
    by (rule conn_dispatch [OF ok idle h False]) blast
  have ok1: "conns_ok [] (?el, cs)" by (rule conns_ok_shift [OF ok]) simp_all
  have put: "put_view ch v ?el = put_view ch v el" by (rule evloop.equality) simp_all
  have "conns_ok [] (put_view ch v el, cs(ch \<mapsto> c'))"
    using acts_ok(1) [OF ok1 r(1,3), of "[]"] r(4) by (simp add: put)
  moreover have "handling_ok chs (?el, cs)" "ch \<notin> set chs" using h by (auto simp: handling_ok_def el_hasChannel_def)
  then have "handling_ok chs (put_view ch v ?el, cs(ch \<mapsto> c'))"
    using acts_handling [OF ok1 r(1,3)] r(4) by (simp add: run_ok_def conn_ok_def chan_ok_def Let_def)
  moreover have "\<not> el_calling v" using r(3) idle by (simp add: acts_def same_loop_def)
  ultimately show ?thesis using r(2) by (simp add: put)
qed


text \<open>A connection is opened.\<close>

lemma open_fresh:
  assumes ok: "conns_ok rs (el, cs)" and can: "can_open sockfd ch wr rd user (el, cs)"
  obtains el' c where "open_conn wc name sockfd ch wr rd user (el, cs) = (el', cs(ch \<mapsto> c))"
    and "\<exists>c0. (view ch el', c0) = new_conn name sockfd ch wr rd user (view ch el) \<and> fresh_conn (view ch el', c0)
      \<and> c = (if wc then setWriteCompleteCallback c0 else c0)"
    and "fresh_conn (view ch el', c)"
    and "conns_ok ((ch, ConnectEstablished) # rs) (el', cs(ch \<mapsto> c))"
    and "el' = el\<lparr>el_chans := (el_chans el)(ch := conn_callbacks (new_channel sockfd))\<rparr>"
    and "mine ch rs = []" and "mine ch (el_pending el) = []"
proof -
  note D = conns_okD [OF ok]
  have new: "ch \<notin> present el cs" "0 \<le> sockfd" "\<And>i. i \<in> present el cs \<Longrightarrow> ch_fd (el_chans el i) \<noteq> sockfd"
    using can by (simp_all add: can_open_def)
  let ?el = "el\<lparr>el_chans := (el_chans el)(ch := conn_callbacks (new_channel sockfd))\<rparr>"
  obtain v c0 where vc: "new_conn name sockfd ch wr rd user (view ch el) = (v, c0)" by fastforce
  define c where "c = (if wc then setWriteCompleteCallback c0 else c0)"
  have v: "v = view ch ?el"
    using vc by (intro evloop.equality) (auto simp: new_conn_def)
  have c: "tc_channel c = ch" "tc_state c = kConnecting" using vc by (auto simp: new_conn_def c_def write_complete_kept)
  have put: "put_view ch (view ch ?el) el = ?el" by (rule evloop.equality) simp_all
  have agree: "fds_agree (poller_channels (el_poller el)) (el_chans el)"
    by (rule poller_isolated.wf_fds [OF D(1) [unfolded loop_wf_def]])
  have free: "poller_channels (el_poller el) sockfd = None"
  proof (cases "poller_channels (el_poller el) sockfd")
    case (Some y)
    then have "y \<in> present el cs" using D(5) by (auto intro: ranI)
    with new(3) agree Some show ?thesis by (auto simp: fds_agree_def)
  qed
  have untracked: "poller_channels (el_poller el) fd \<noteq> Some ch" for fd using D(5) new(1) by (auto intro: ranI)
  have "fresh_conn (new_conn name sockfd ch wr rd user (view ch el))"
    by (rule new_conn_fresh)
      (use can D(1) free untracked in \<open>auto simp: can_open_def el_hasChannel_def hasChannel_eq\<close>)
  then have fresh0: "fresh_conn (view ch ?el, c0)" by (simp add: vc v)
  then have fresh: "fresh_conn (view ch ?el, c)" by (simp add: c_def write_complete_kept)
  then have cok: "conn_ok (view ch ?el, c)" and nohas: "\<not> el_hasChannel ch ?el" using c by (simp_all add: fresh_conn_def)
  have wf: "loop_wf ?el" using cok by (simp add: conn_ok_def chan_ok_def Let_def)
  have none: "ch \<notin> fst ` set (rs @ el_pending el)" using D(6) new(1) by (auto simp: present_def)
  then have mine: "mine ch rs = []" "mine ch (el_pending el) = []" by (auto intro!: mine_none)
  have "run_ok (mine j ((ch, ConnectEstablished) # rs), (view j ?el, d)) \<and> tc_channel d = j"
    if d: "(cs(ch \<mapsto> c)) j = Some d" for j d
  proof (cases "j = ch")
    case True
    with d c cok nohas mine show ?thesis by (simp add: run_ok_def)
  next
    case False
    with d have j: "cs j = Some d" by simp
    have "kept j (view j el) (view j ?el)"
      using False wf by (simp add: kept_def registrable_def usable_def el_hasChannel_def hasChannel_eq)
    then show ?thesis using run_ok_kept [OF _ D(8) [OF j]] D(7) [OF j] False by simp
  qed
  moreover have "present ?el (cs(ch \<mapsto> c)) = insert ch (present el cs)" by (auto simp: present_def)
  moreover have "inj_on (\<lambda>i. ch_fd (el_chans ?el i)) (insert ch (present el cs))"
    using D(4) new(1,3) by (auto simp: inj_on_def fresh_channel)
  moreover have wake: "el_wakeupChannel el \<noteq> ch" using new(1) by (auto simp: present_def)
  moreover have "wake_ok ?el" using D(2) wake by (simp add: wake_ok_def)
  moreover have "fst ` set (((ch, ConnectEstablished) # rs) @ el_pending ?el) \<subseteq> dom (cs(ch \<mapsto> c))"
    using D(6) by auto
  ultimately have "conns_ok ((ch, ConnectEstablished) # rs) (?el, cs(ch \<mapsto> c))"
    using wf D(3,5) by (simp add: conns_ok_def subset_insertI2)
  moreover have "open_conn wc name sockfd ch wr rd user (el, cs) = (?el, cs(ch \<mapsto> c))"
    by (simp add: open_conn_def vc v put c_def)
  ultimately show ?thesis using that [of ?el c] vc v fresh fresh0 c_def mine by simp
qed

lemma open_ok:
  assumes ok: "conns_ok rs (el, cs)" and can: "can_open sockfd ch wr rd user (el, cs)"
  shows "\<exists>w'. runInLoop exec_shared tid (ch, ConnectEstablished) (open_conn wc name sockfd ch wr rd user (el, cs)) = Some w'
    \<and> conns_ok rs w' \<and> el_calling (fst w') = el_calling el \<and> (\<forall>chs. handling_ok chs (el, cs) \<longrightarrow> handling_ok chs w')"
proof -
  obtain el' c where o: "open_conn wc name sockfd ch wr rd user (el, cs) = (el', cs(ch \<mapsto> c))"
      "conns_ok ((ch, ConnectEstablished) # rs) (el', cs(ch \<mapsto> c))"
      "el' = el\<lparr>el_chans := (el_chans el)(ch := conn_callbacks (new_channel sockfd))\<rparr>"
      "mine ch rs = []" "mine ch (el_pending el) = []"
    by (rule open_fresh [OF ok can, where wc = wc and name = name])
  have new: "ch \<notin> present el cs" using can by (simp add: can_open_def)
  have h: "handling_ok chs (el', cs(ch \<mapsto> c)) \<and> ch \<notin> set chs" if chs: "handling_ok chs (el, cs)" for chs
  proof -
    have "x \<noteq> ch" if "x \<in> set chs" for x using chs that new by (auto simp: handling_ok_def present_def)
    with chs show ?thesis by (auto simp: handling_ok_def o(3) el_hasChannel_def hasChannel_eq)
  qed
  show ?thesis
  proof (cases "isInLoopThread tid el'")
    case True
    obtain d v d' where e: "(cs(ch \<mapsto> c)) ch = Some d"
        "exec_shared (ch, ConnectEstablished) (el', cs(ch \<mapsto> c)) = Some (put_view ch v el', (cs(ch \<mapsto> c))(ch \<mapsto> d'))"
        "acts ch (view ch el', d) (v, d')" "conns_ok rs (put_view ch v el', (cs(ch \<mapsto> c))(ch \<mapsto> d'))"
      by (rule exec_ok [OF o(2)]) (simp_all add: may_run_def functor_enabled_def dangling_def)
    have "loop_wf v" using conns_okD(1) [OF e(4)] by simp
    then have "handling_ok chs (put_view ch v el', (cs(ch \<mapsto> c))(ch \<mapsto> d'))" if "handling_ok chs (el, cs)" for chs
      using acts_handling [OF o(2) e(1,3) _ h [OF that, THEN conjunct1]] h [OF that] by blast
    moreover have "el_calling v = el_calling el" using e(3) by (simp add: acts_def same_loop_def o(3))
    moreover have "runInLoop exec_shared tid (ch, ConnectEstablished) (el', cs(ch \<mapsto> c))
        = Some (put_view ch v el', (cs(ch \<mapsto> c))(ch \<mapsto> d'))"
      using True e(2) by (simp add: runInLoop_def)
    ultimately show ?thesis using e(4) unfolding o(1) by (intro exI conjI allI impI) (assumption | simp)+
  next
    case False
    let ?el = "queueInLoop tid (ch, ConnectEstablished) el'"
    have q: "el_chans ?el = el_chans el'" "el_poller ?el = el_poller el'" "el_wakeupChannel ?el = el_wakeupChannel el'"
        "el_calling ?el = el_calling el" "el_pending ?el = el_pending el' @ [(ch, ConnectEstablished)]"
      by (simp_all add: queueInLoop_def wakeup_def Let_def o(3))
    have "conns_ok rs (?el, cs(ch \<mapsto> c))"
      by (rule conns_ok_reorder [OF o(2) q(1-3)]) (use o(4,5) in \<open>auto simp: q(5) o(3)\<close>)
    moreover have "handling_ok chs (?el, cs(ch \<mapsto> c))" if "handling_ok chs (el, cs)" for chs
      by (rule handling_same [OF h [OF that, THEN conjunct1] q(1-3) refl])
    moreover have "runInLoop exec_shared tid (ch, ConnectEstablished) (el', cs(ch \<mapsto> c)) = Some (?el, cs(ch \<mapsto> c))"
      using False by (simp add: runInLoop_def)
    ultimately show ?thesis using q(4) unfolding o(1) by (intro exI conjI allI impI) (assumption | simp)+
  qed
qed

text \<open>Another thread uses a connection: it reaches the queue of the loop, and no channel.\<close>

lemma remote_chans:
  assumes "api_call tid a (el, c) = Some (el', c')" and "remote a" and "tid \<noteq> el_threadId el"
  shows "el_chans el' = el_chans el \<and> el_poller el' = el_poller el"
  using assms by (cases a) (auto simp: api_call_def send_ptr_def send_string_def send_buffer_def shutdown_def
      forceClose_def runInLoop_def isInLoopThread_def split: if_splits Option.bind_splits)

lemma remote_ok:
  assumes ok: "conns_ok rs (el, cs)" and a: "remote a" "tid \<noteq> el_threadId el" and c: "cs i = Some c"
  obtains v c' where "api_call tid a (view i el, c) = Some (v, c')"
    and "as_conn i (api_call tid a) (el, cs) = Some (put_view i v el, cs(i \<mapsto> c'))"
    and "conns_ok rs (put_view i v el, cs(i \<mapsto> c'))" and "el_calling v = el_calling el"
    and "\<And>chs. handling_ok chs (el, cs) \<Longrightarrow> handling_ok chs (put_view i v el, cs(i \<mapsto> c'))"
proof -
  obtain w' where w': "api_call tid a (view i el, c) = Some w'" "run_ok (mine i rs, w')"
    using remote_run_ok [OF conns_okD(8) [OF ok c] a(1)] by blast
  obtain v c' where v: "w' = (v, c')" by (cases w')
  have act: "acts i (view i el, c) (v, c')"
    by (rule acts_ops(2) [OF _ w'(1) [unfolded v]]) (use conns_okD(7) [OF ok c] a(1) in auto)
  have "conns_ok rs (put_view i v el, cs(i \<mapsto> c'))"
    by (rule acts_ok(1) [OF ok c act w'(2) [unfolded v]]) (use conns_okD(6) [OF ok] in auto)
  moreover have "handling_ok chs (put_view i v el, cs(i \<mapsto> c'))" if "handling_ok chs (el, cs)" for chs
    by (rule handling_same [OF that])
      (use remote_chans [OF w'(1) [unfolded v] a(1)] a(2) act c in \<open>auto simp: acts_def same_loop_def\<close>)
  moreover have "el_calling v = el_calling el" using act by (simp add: acts_def same_loop_def)
  ultimately show ?thesis using that w'(1) v as_conn_eq [where cs = cs and i = i and f = "api_call tid a" and el = el, OF c] by simp
qed

text \<open>The owner of a connection that is closed queues the end of it.\<close>

lemma closed_phase: "Called CloseCb \<in> set tr \<Longrightarrow> cb_phase tr = Some p \<Longrightarrow> p = 3"
proof (induction tr arbitrary: p rule: rev_induct)
  case (snoc e tr)
  obtain q where q: "cb_phase tr = Some q" "event_step e q = Some p" using snoc.prems(2) by (auto split: Option.bind_splits)
  show ?case
  proof (cases "e = Called CloseCb")
    case True
    with q(2) show ?thesis by (auto split: if_splits)
  next
    case False
    with snoc q(1) have "q = 3" by auto
    with q(2) show ?thesis
      by (cases "(e, q)" rule: prod.exhaust; cases e) (auto elim: cb_step.elims split: if_splits)
  qed
qed simp

lemma closed_disconnected:
  assumes "conn_ok (el, c)" and "Called CloseCb \<in> set (tc_trace c)"
  shows "tc_state c = kDisconnected"
proof -
  obtain p where p: "cb_phase (tc_trace c) = Some p" "phase_ok (tc_state c) p" using assms(1) by (auto simp: conn_ok_def data_but_def)
  with closed_phase [OF assms(2) p(1)] show ?thesis by (cases "tc_state c") auto
qed

lemma release_ok:
  assumes ok: "conns_ok rs (el, cs)" and c: "cs i = Some c" "Called CloseCb \<in> set (tc_trace c)"
  shows "conns_ok rs (queueInLoop tid (i, ConnectDestroyed) el, cs)"
    "handling_ok chs (el, cs) \<Longrightarrow> handling_ok chs (queueInLoop tid (i, ConnectDestroyed) el, cs)"
proof -
  let ?el = "queueInLoop tid (i, ConnectDestroyed) el"
  have q: "el_chans ?el = el_chans el" "el_poller ?el = el_poller el" "el_wakeupChannel ?el = el_wakeupChannel el"
      "el_pending ?el = el_pending el @ [(i, ConnectDestroyed)]"
    by (simp_all add: queueInLoop_def wakeup_def Let_def)
  have "run_ok (mine j rs, (view j ?el, d))" if d: "cs j = Some d" for j d
  proof (cases "j = i")
    case True
    have run: "run_ok (mine j rs, (view j el, d))" using conns_okD(8) [OF ok d] .
    then have "tc_state d = kDisconnected" using closed_disconnected [of "view j el" d] c d True by (simp add: run_ok_def)
    with run show ?thesis
      by (simp add: True q run_ok_def conn_ok_def chan_ok_def Let_def loop_wf_def registrable_def el_hasChannel_def)
  next
    case False
    show ?thesis by (rule run_ok_shift [OF conns_okD(8) [OF ok d]]) (use False in \<open>simp_all add: q\<close>)
  qed
  with conns_okD [OF ok] c(1) show "conns_ok rs (?el, cs)"
    unfolding conns_ok_def prod.case by (simp add: loop_wf_def wake_ok_def present_def q) blast
  show "handling_ok chs (el, cs) \<Longrightarrow> handling_ok chs (?el, cs)" by (rule handling_same) (simp_all add: q)
qed

text \<open>A connection that is closed, and that no functor is bound to, is destroyed.\<close>

lemma destroy_ok:
  assumes ok: "conns_ok rs (el, cs)" and can: "can_destroy True i rs (el, cs)"
  shows "conns_ok rs (el, cs(i := None))" "handling_ok chs (el, cs) \<Longrightarrow> handling_ok chs (el, cs(i := None))"
proof -
  note D = conns_okD [OF ok]
  have gone: "\<not> el_hasChannel i el" "i \<notin> fst ` set (rs @ el_pending el)" using can by (force simp: can_destroy_def mine_def)+
  have agree: "fds_agree (poller_channels (el_poller el)) (el_chans el)"
    by (rule poller_isolated.wf_fds [OF D(1) [unfolded loop_wf_def]])
  have "i \<notin> ran (poller_channels (el_poller el))"
    using gone(1) agree by (auto simp: ran_def fds_agree_def el_hasChannel_def hasChannel_eq)
  then have "ran (poller_channels (el_poller el)) \<subseteq> present el (cs(i := None))" using D(5) by (auto simp: present_def)
  moreover have "inj_on (\<lambda>i. ch_fd (el_chans el i)) (present el (cs(i := None)))"
    by (rule inj_on_subset [OF D(4)]) (auto simp: present_def)
  ultimately show "conns_ok rs (el, cs(i := None))"
    using D gone(2) by (auto simp: conns_ok_def)
  show "handling_ok chs (el, cs(i := None))" if "handling_ok chs (el, cs)"
    using that gone(1) by (auto simp: handling_ok_def)
qed

end
