(* ===== verification/Shared_Runs.thy ===== *)
theory Shared_Runs
  imports Shared_Loop Echo_Server Http_Server
begin

text \<open>
  Runs of a loop with all its connections: no step aborts, every connection keeps the invariant of a
  connection that is alone, and where no other thread uses them each does exactly what its abstract
  connection does, whatever the others do. The clients of the echo server and of the HTTP server on
  one loop are served accordingly.
\<close>

text \<open>Where other threads keep what they use alive, every step keeps the invariant.\<close>

lemma shared_step_ok:
  assumes "shared_step True s s'" and ok: "shared_ok s"
  shows "shared_ok s'"
  using assms(1)
proof cases
  case (sh_poll ans el t el' cs)
  then have "conns_ok [] (el, cs)" "\<not> el_calling el" using ok by (simp_all add: shared_ok_def)
  with poll_ok [OF this(1) sh_poll(3), of t] sh_poll show ?thesis by (auto simp: shared_ok_def)
next
  case (sh_handle ch w w' chs)
  obtain el cs where w: "w = (el, cs)" by (cases w)
  have "conns_ok [] (el, cs)" "\<not> el_calling el" "handling_ok (ch # chs) (el, cs)"
    using ok by (simp_all add: shared_ok_def sh_handle(1) w)
  from dispatch_ok [OF this] sh_handle w show ?thesis by (auto simp: shared_ok_def)
next
  case (sh_begin el el' fs cs)
  have el': "el' = el\<lparr>el_calling := True, el_pending := []\<rparr>" "fs = el_pending el"
    using sh_begin(3) by (auto simp: begin_pending_def)
  have "conns_ok fs (el'\<lparr>el_current := None\<rparr>, cs)"
    by (rule conns_ok_shift [of "[]" el]) (use ok in \<open>simp_all add: shared_ok_def sh_begin(1) el'\<close>)
  with sh_begin(2) show ?thesis by (simp add: shared_ok_def el')
next
  case (sh_run f w w' fs)
  obtain i g el cs where w: "f = (i, g)" "w = (el, cs)" by (cases f; cases w)
  have c: "conns_ok ((i, g) # fs) (el, cs)" "el_calling el" using ok by (simp_all add: shared_ok_def sh_run(1) w)
  obtain c v c' where "exec_shared f w = Some (put_view i v el, cs(i \<mapsto> c'))" "acts i (view i el, c) (v, c')"
      "conns_ok fs (put_view i v el, cs(i \<mapsto> c'))"
    by (rule exec_ok [OF c(1) sh_run(3) [unfolded w] exec_shared_not_dangling [OF sh_run(4) [unfolded w]]]) (simp add: w)
  with sh_run(2,4) c(2) show ?thesis by (auto simp: shared_ok_def acts_def same_loop_def)
next
  case (sh_end el cs)
  have "conns_ok [] (el\<lparr>el_calling := False\<rparr>, cs)"
    by (rule conns_ok_shift [of "[]" el]) (use ok in \<open>simp_all add: shared_ok_def sh_end(1)\<close>)
  with sh_end(2) show ?thesis by (simp add: shared_ok_def)
next
  case (sh_open sockfd ch wr rd user w tid wc name w' ph)
  obtain el cs where w: "w = (el, cs)" by (cases w)
  have "conns_ok (running ph) (el, cs)" using ok by (simp add: shared_ok_def sh_open(1) w)
  from open_ok [OF this sh_open(3) [unfolded w], where tid = tid and wc = wc and name = name] sh_open(4) w
  have "conns_ok (running ph) w' \<and> el_calling (fst w') = el_calling el
    \<and> (\<forall>chs. handling_ok chs (el, cs) \<longrightarrow> handling_ok chs w')" by auto
  with ok sh_open(1,2) w show ?thesis by (cases ph) (simp_all add: shared_ok_def)
next
  case (sh_release cs i c ph el tid)
  have "conns_ok (running ph) (el, cs)" using ok by (simp add: shared_ok_def sh_release(1))
  from release_ok [OF this sh_release(3,4), where tid = tid] ok sh_release(1,2) show ?thesis
    by (cases ph) (simp_all add: shared_ok_def queueInLoop_def wakeup_def Let_def)
next
  case (sh_destroy i ph el cs)
  have "conns_ok (running ph) (el, cs)" using ok by (simp add: shared_ok_def sh_destroy(1))
  from destroy_ok [OF this sh_destroy(3)] ok sh_destroy(1,2) show ?thesis by (cases ph) (simp_all add: shared_ok_def)
next
  case (sh_remote tid w a i w' ph)
  obtain el cs where w: "w = (el, cs)" by (cases w)
  have c: "conns_ok (running ph) (el, cs)" using ok by (simp add: shared_ok_def sh_remote(1) w)
  obtain c where i: "cs i = Some c" using sh_remote(6) by (auto simp: w as_conn_def split: Option.bind_splits)
  obtain v c' where "as_conn i (api_call tid a) (el, cs) = Some (put_view i v el, cs(i \<mapsto> c'))"
      "conns_ok (running ph) (put_view i v el, cs(i \<mapsto> c'))" "el_calling v = el_calling el"
      "\<And>chs. handling_ok chs (el, cs) \<Longrightarrow> handling_ok chs (put_view i v el, cs(i \<mapsto> c'))"
    by (rule remote_ok [OF c sh_remote(5) _ i]) (use sh_remote(4) w in \<open>simp, blast\<close>)
  moreover from this(1) have "w' = (put_view i v el, cs(i \<mapsto> c'))" using sh_remote(6) by (simp add: w)
  ultimately show ?thesis using ok sh_remote(1,2) w by (cases ph) (simp_all add: shared_ok_def)
qed

section \<open>Without other threads\<close>

definition conns_own :: "(nat \<times> conn_functor) list \<Rightarrow> shared \<Rightarrow> bool" where
  "conns_own rs w \<longleftrightarrow> (case w of (el, cs) \<Rightarrow> \<forall>i c. cs i = Some c \<longrightarrow> own_ok (mine i rs, (view i el, c)))"

lemma conns_ownD: "conns_own rs (el, cs) \<Longrightarrow> cs i = Some c \<Longrightarrow> own_ok (mine i rs, (view i el, c))"
  by (simp add: conns_own_def)

lemma own_ok_shift:
  assumes "own_ok (fs, (el, c))" and "set (fs' @ el_pending el') \<subseteq> set (fs @ el_pending el)"
  shows "own_ok (fs', (el', c))"
  using assms by (auto simp: own_ok_def agrees_def no_sends_def)

lemma conns_own_shift:
  assumes "conns_own rs (el, cs)" and "set (rs' @ el_pending el') \<subseteq> set (rs @ el_pending el)"
  shows "conns_own rs' (el', cs)"
  unfolding conns_own_def prod.case
proof (intro allI impI)
  fix i c assume c: "cs i = Some c"
  have "set (mine i xs) = {f. (i, f) \<in> set xs}" for xs :: "(nat \<times> conn_functor) list" by (auto simp: mine_def image_iff)
  then have "set (mine i rs' @ el_pending (view i el')) \<subseteq> set (mine i rs @ el_pending (view i el))"
    using assms(2) by auto
  from own_ok_shift [OF conns_ownD [OF assms(1) c] this] show "own_ok (mine i rs', (view i el', c))" .
qed

lemma acts_own:
  assumes "conns_own rs (el, cs)" and act: "acts i (view i el, c) (v, c')"
    and "own_ok (mine i rs', (v, c'))" and "\<And>j. j \<noteq> i \<Longrightarrow> mine j rs' = mine j rs"
  shows "conns_own rs' (put_view i v el, cs(i \<mapsto> c'))"
  unfolding conns_own_def prod.case
proof (intro allI impI)
  fix j d assume d: "(cs(i \<mapsto> c')) j = Some d"
  have ap: "appends el i v" using act by (auto simp: acts_def intro: appends_posts)
  show "own_ok (mine j rs', (view j (put_view i v el), d))"
  proof (cases "j = i")
    case True
    with d assms(3) show ?thesis by (simp add: view_put [OF ap])
  next
    case False
    with d have "own_ok (mine j rs, (view j el, d))" using conns_ownD [OF assms(1)] by simp
    then show ?thesis by (rule own_ok_shift) (use False assms(4) in simp)
  qed
qed

lemma exec_own:
  assumes ok: "conns_ok ((i, f) # fs) (el, cs)" and own: "conns_own ((i, f) # fs) (el, cs)"
    and may: "may_run (i, f) (el, cs)" and run: "exec_shared (i, f) (el, cs) = Some w'"
  shows "conns_own fs w'"
proof -
  obtain c v c' where e: "cs i = Some c" "exec_functor f (view i el, c) = Some (v, c')"
      "exec_shared (i, f) (el, cs) = Some (put_view i v el, cs(i \<mapsto> c'))" "acts i (view i el, c) (v, c')"
    by (rule exec_ok [OF ok may exec_shared_not_dangling [OF run]]) blast
  have "own_ok (f # mine i fs, (view i el, c))" using conns_ownD [OF own e(1)] by simp
  then have "own_ok (mine i fs, (v, c'))"
    using exec_functor_agrees [OF _ _ e(2)] by (auto simp: own_ok_def)
  then have "conns_own fs (put_view i v el, cs(i \<mapsto> c'))" by (rule acts_own [OF own e(4)]) simp
  with run e(3) show ?thesis by simp
qed

lemma dispatch_own:
  assumes ok: "conns_ok [] (el, cs)" and own: "conns_own [] (el, cs)" and idle: "\<not> el_calling el"
    and h: "handling_ok (ch # chs) (el, cs)" and run: "dispatch call_shared shared_alive ch (el, cs) = Some w'"
  shows "conns_own [] w'"
proof (cases "ch = el_wakeupChannel el")
  case True
  with wake_dispatch [OF conns_okD(2) [OF ok], of cs] run obtain el' where
    w': "w' = (el', cs)" "el_pending el' = el_pending el" by auto
  show ?thesis unfolding w'(1) by (rule conns_own_shift [OF own]) (simp add: w'(2))
next
  case False
  let ?el = "el\<lparr>el_current := Some ch\<rparr>"
  obtain c v c' hs where r: "cs ch = Some c"
      "bind_fold call_handler hs ((view ch el)\<lparr>el_current := Some ch\<rparr>, c) = Some (v, c')"
      "dispatch call_shared shared_alive ch (el, cs) = Some (put_view ch v el, cs(ch \<mapsto> c'))"
      "acts ch (view ch ?el, c) (v, c')"
    by (rule conn_dispatch [OF ok idle h False]) blast
  have "agrees [] ((view ch el)\<lparr>el_current := Some ch\<rparr>, c)"
    using conns_ownD [OF own r(1)] by (simp add: own_ok_def agrees_def no_sends_def)
  then have "agrees [] (v, c')" using r(2) call_handler_agrees bind_fold_invariant [where P = "agrees []"] by metis
  then have "own_ok (mine ch [], (v, c'))" by (simp add: own_ok_def)
  moreover have "conns_own [] (?el, cs)" by (rule conns_own_shift [OF own]) simp
  ultimately have "conns_own [] (put_view ch v ?el, cs(ch \<mapsto> c'))" using acts_own [OF _ r(4)] by blast
  moreover have "put_view ch v ?el = put_view ch v el" by (rule evloop.equality) simp_all
  ultimately show ?thesis using run r(3) by simp
qed

lemma open_own:
  assumes ok: "conns_ok rs (el, cs)" and own: "conns_own rs (el, cs)" and can: "can_open sockfd ch wr rd user (el, cs)"
    and run: "runInLoop exec_shared tid (ch, ConnectEstablished) (open_conn wc name sockfd ch wr rd user (el, cs)) = Some w'"
  shows "conns_own rs w'"
proof -
  obtain el' c where o: "open_conn wc name sockfd ch wr rd user (el, cs) = (el', cs(ch \<mapsto> c))"
      "\<exists>c0. (view ch el', c0) = new_conn name sockfd ch wr rd user (view ch el) \<and> fresh_conn (view ch el', c0)
        \<and> c = (if wc then setWriteCompleteCallback c0 else c0)"
      "conns_ok ((ch, ConnectEstablished) # rs) (el', cs(ch \<mapsto> c))"
      "el' = el\<lparr>el_chans := (el_chans el)(ch := conn_callbacks (new_channel sockfd))\<rparr>"
      "mine ch rs = []" "mine ch (el_pending el) = []"
    by (rule open_fresh [OF ok can, where wc = wc and name = name]) blast
  have "agrees [] (view ch el', c)"
    using o(2) fresh_agrees(1) [where el = "view ch el"] by (auto simp: o(6) write_complete_kept)
  then have "conns_own ((ch, ConnectEstablished) # rs) (el', cs(ch \<mapsto> c))"
    using own o(4,5) by (auto simp: conns_own_def own_ok_def agrees_def no_sends_def)
  moreover have "may_run (ch, ConnectEstablished) (el', cs(ch \<mapsto> c))" by (simp add: may_run_def functor_enabled_def)
  moreover have "conns_own rs (queueInLoop tid (ch, ConnectEstablished) el', cs(ch \<mapsto> c))"
    by (rule conns_own_shift [OF calculation(1)]) (auto simp: queueInLoop_def wakeup_def Let_def)
  ultimately show ?thesis using run exec_own [OF o(3)] by (auto simp: o(1) runInLoop_def split: if_splits)
qed

lemma shared_step_own:
  assumes "shared_step False s s'" and "shared_ok s" and "conns_own (running (fst s)) (snd s)"
  shows "conns_own (running (fst s')) (snd s')"
  using assms(1)
proof cases
  case (sh_poll ans el t el' cs)
  then have ok: "conns_ok [] (el, cs)" and own: "conns_own [] (el, cs)" using assms(2,3) by (simp_all add: shared_ok_def)
  have "conns_own [] (el', cs)"
    by (rule conns_own_shift [OF own]) (use poll_ok [OF ok sh_poll(3), of t] sh_poll(4) in auto)
  with sh_poll(2) show ?thesis by simp
next
  case (sh_handle ch w w' chs)
  with assms(2,3) dispatch_own [of "fst w" "snd w" ch chs w'] show ?thesis by (simp add: shared_ok_def)
next
  case (sh_begin el el' fs cs)
  have "conns_own fs (el'\<lparr>el_current := None\<rparr>, cs)"
    by (rule conns_own_shift [of "[]" el]) (use sh_begin assms(3) in \<open>auto simp: begin_pending_def\<close>)
  with sh_begin(2) show ?thesis by simp
next
  case (sh_run f w w' fs)
  with assms(2,3) exec_own [of "fst f" "snd f" fs "fst w" "snd w" w'] show ?thesis by (simp add: shared_ok_def)
next
  case (sh_end el cs)
  have "conns_own [] (el\<lparr>el_calling := False\<rparr>, cs)"
    by (rule conns_own_shift [of "[]" el]) (use sh_end assms(3) in simp_all)
  with sh_end(2) show ?thesis by simp
next
  case (sh_open sockfd ch wr rd user w tid wc name w' ph)
  with assms(2,3) open_own [of "running ph" "fst w" "snd w" sockfd ch wr rd user tid wc name w']
  show ?thesis by (simp add: shared_ok_def)
next
  case (sh_release cs i c ph el tid)
  have "conns_own ((i, ConnectDestroyed) # running ph) (el, cs)"
    using assms(3) sh_release(1) by (auto simp: conns_own_def own_ok_def)
  then have "conns_own (running ph) (queueInLoop tid (i, ConnectDestroyed) el, cs)"
    by (rule conns_own_shift) (auto simp: queueInLoop_def wakeup_def Let_def)
  with sh_release(2) show ?thesis by simp
next
  case (sh_destroy i ph el cs)
  with assms(3) show ?thesis by (simp add: conns_own_def)
qed simp

text \<open>Then nothing is ever posted that does not own its connection, and destruction is safe.\<close>

lemma own_step_true:
  assumes "shared_step others s s'" and own: "\<not> others \<Longrightarrow> conns_own (running (fst s)) (snd s)"
  shows "shared_step True s s'"
  using assms(1)
proof cases
  case (sh_destroy i ph el cs)
  have "mine i (running ph @ el_pending el) = []" if "\<not> others"
  proof -
    obtain c where "cs i = Some c" using sh_destroy(3) by (auto simp: can_destroy_def split: option.splits)
    then have "own_ok (mine i (running ph), (view i el, c))" using own [OF that] sh_destroy(1) conns_ownD by simp
    then have "\<forall>f \<in> set (mine i (running ph @ el_pending el)). owning f" by (auto simp: own_ok_def agrees_def no_sends_def)
    moreover have "\<forall>f \<in> set (mine i (running ph @ el_pending el)). \<not> owning f" using sh_destroy(3) by (simp add: can_destroy_def)
    ultimately show ?thesis by (metis list.set_intros(1) neq_Nil_conv)
  qed
  moreover have "mine i (running ph @ el_pending el) = []" if others
    by (cases "mine i (running ph @ el_pending el)")
      (use sh_destroy(3) that in \<open>simp_all add: can_destroy_def del: mine_simps(3)\<close>)
  ultimately have "can_destroy True i (running ph) (el, cs)" using sh_destroy(3) by (cases others) (simp_all add: can_destroy_def)
  then show ?thesis unfolding sh_destroy(1,2) by (rule shared_step.sh_destroy)
qed (blast intro: shared_step.intros)+

lemma shared_reach_inv: "shared_reach others s \<Longrightarrow> shared_ok s \<and> (\<not> others \<longrightarrow> conns_own (running (fst s)) (snd s))"
proof (induction rule: shared_reach.induct)
  case (sh_start el)
  then show ?case by (simp add: conns_own_def shared_ok_def conns_ok_def bare_loop_def present_def)
next
  case (sh_next s s')
  have "shared_step True s s'" using own_step_true [OF sh_next.hyps(2)] sh_next.IH by blast
  then show ?case using shared_step_ok [of s s'] shared_step_own [of s s'] sh_next by (cases others) auto
qed

lemma shared_reach_ok: "shared_reach others s \<Longrightarrow> shared_ok s"
  using shared_reach_inv by blast

lemma shared_reach_own: "shared_reach False s \<Longrightarrow> conns_own (running (fst s)) (snd s)"
  using shared_reach_inv by blast

lemma shared_conn:
  assumes "shared_reach others (ph, (el, cs))" and "cs i = Some c"
  shows "conn_ok (view i el, c)" "tc_channel c = i"
    "others = False \<Longrightarrow> agrees [] (view i el, c)"
proof -
  have ok: "conns_ok (running ph) (el, cs)" using shared_reach_ok [OF assms(1)] by (simp add: shared_ok_def)
  show "conn_ok (view i el, c)" "tc_channel c = i" using conns_okD(7,8) [OF ok assms(2)] by (simp_all add: run_ok_def)
  show "others = False \<Longrightarrow> agrees [] (view i el, c)"
    using shared_reach_own [of "(ph, (el, cs))"] assms conns_ownD by (fastforce simp: own_ok_def)
qed

section \<open>What the connections of a loop may rely on\<close>

text \<open>
  A loop with any number of connections never aborts: the kernel's documented answers are taken, every
  active channel is handled, every functor of the batch is run, if it is not a destruction that its owner may
  not ask for yet and the bytes it sends are still there, and a new connection comes up; and where other threads use connections, keep
  them alive and are not interrupted between the test and the change of the state, their calls return.
\<close>
theorem shared_loop_never_aborts:
  assumes "shared_reach others (ph, (el, cs))"
  shows "(ph = Polling \<and> answer_ok ans (el_chans el, el_poller el) \<longrightarrow> el_poll ans t el \<noteq> None)
    \<and> (ph = Handling (ch # chs) \<longrightarrow> dispatch call_shared shared_alive ch (el, cs) \<noteq> None)
    \<and> (ph = Running (f # fs) \<and> may_run f (el, cs) \<and> \<not> dangling (snd f) \<longrightarrow> exec_shared f (el, cs) \<noteq> None)
    \<and> (can_open sockfd i wr rd user (el, cs) \<longrightarrow>
         runInLoop exec_shared tid (i, ConnectEstablished) (open_conn wc name sockfd i wr rd user (el, cs)) \<noteq> None)
    \<and> (i \<in> dom cs \<and> remote a \<and> tid \<noteq> el_threadId el \<longrightarrow> as_conn i (api_call tid a) (el, cs) \<noteq> None)"
proof -
  have ok: "conns_ok (running ph) (el, cs)" "phase_fits ph (el, cs)"
    using shared_reach_ok [OF assms] by (simp_all add: shared_ok_def)
  have "el_poll ans t el \<noteq> None" if "ph = Polling" "answer_ok ans (el_chans el, el_poller el)"
    using poll_ok [of el cs ans t] ok that by auto
  moreover have "dispatch call_shared shared_alive ch (el, cs) \<noteq> None" if "ph = Handling (ch # chs)"
    using dispatch_ok [of el cs ch chs] ok that by auto
  moreover have "exec_shared f (el, cs) \<noteq> None" if "ph = Running (f # fs)" "may_run f (el, cs)" "\<not> dangling (snd f)"
  proof -
    have run: "conns_ok ((fst f, snd f) # fs) (el, cs)" "may_run (fst f, snd f) (el, cs)" "\<not> dangling (snd f)"
      using ok(1) that by simp_all
    show ?thesis by (rule exec_ok [OF run]) simp
  qed
  moreover have "runInLoop exec_shared tid (i, ConnectEstablished) (open_conn wc name sockfd i wr rd user (el, cs)) \<noteq> None"
    if "can_open sockfd i wr rd user (el, cs)"
    using open_ok [OF ok(1) that, where tid = tid and wc = wc and name = name] by auto
  moreover have "as_conn i (api_call tid a) (el, cs) \<noteq> None" if "i \<in> dom cs" "remote a" "tid \<noteq> el_threadId el"
  proof -
    obtain c where "cs i = Some c" using \<open>i \<in> dom cs\<close> by auto
    from remote_ok [OF ok(1) that(2,3) this] show ?thesis by (metis option.distinct(1))
  qed
  ultimately show ?thesis by blast
qed

text \<open>
  C9: Connections on one loop do not disturb each other: in every run of a loop that only its own
  thread uses, whatever the other connections do, each connection has put on the wire or keeps in its
  buffer exactly what it has accepted, in order, its callbacks follow the protocol, it half-closes drained only,
  its descriptor is its own, and the poller, if it knows it, knows it under that descriptor.
\<close>
theorem shared_conns_sound:
  assumes "shared_reach False (ph, (el, cs))" and "cs i = Some c"
  shows "wire (tc_trace c) @ content (tc_output c) = accepted (tc_trace c)
    \<and> cb_phase (tc_trace c) \<noteq> None \<and> drained (tc_trace c)
    \<and> (\<forall>j \<in> present el cs. j \<noteq> i \<longrightarrow> ch_fd (el_chans el j) \<noteq> ch_fd (el_chans el i))
    \<and> (\<forall>fd. poller_channels (el_poller el) fd = Some i \<longrightarrow> fd = ch_fd (el_chans el i))"
proof -
  have ok: "conns_ok (running ph) (el, cs)" using shared_reach_ok [OF assms(1)] by (simp add: shared_ok_def)
  have "data_ok c" using shared_conn(1) [OF assms] by (simp add: conn_ok_def)
  moreover have "fds_agree (poller_channels (el_poller el)) (el_chans el)"
    by (rule poller_isolated.wf_fds [OF conns_okD(1) [OF ok, unfolded loop_wf_def]])
  ultimately show ?thesis using fds_distinct [OF ok assms(2)] by (auto simp: data_but_def fds_agree_def)
qed

text \<open>
  C8: On a loop that only its own thread uses, every connection refines its abstract connection,
  whatever the others do: it is open, has unread and has sent what the replay of its own
  callbacks says, with the wire a prefix of that, and its messages are what was left unread with what its
  own socket gave.
\<close>
theorem shared_conns_refine:
  assumes "shared_reach False (ph, (el, cs))" and "cs i = Some c"
  shows "spec_of c = replay (tc_user c) (callbacks (tc_trace c))
    \<and> wire (tc_trace c) @ content (tc_output c) = sc_sent (replay (tc_user c) (callbacks (tc_trace c)))
    \<and> delivers (tc_user c) (tc_read c) (callbacks (tc_trace c))"
  by (rule agrees_refines [OF shared_conn(3) [OF assms refl] shared_conn(1) [OF assms]])

text \<open>
  All clients of the servers: on a loop that only its own thread uses, every client of the echo
  server gets back exactly the first piece it has sent, and every client of the HTTP server the
  transcript of its own session, whatever the other clients of the loop do.
\<close>
theorem shared_clients_served:
  assumes "shared_reach False (ph, (el, cs))" and "cs i = Some c"
    and "\<And>k req. length (rs_body (httpCallback k req (new_response (wants_close req)))) < 10 ^ 13"
  shows "(tc_user c = echo_user \<longrightarrow>
      wire (tc_trace c) @ content (tc_output c) = first_message (callbacks (tc_trace c)) \<and> content (tc_input c) = []
      \<and> (\<forall>k m t. (k, MessageCb m t) \<in> set (callbacks (tc_trace c)) \<longrightarrow> m \<noteq> [] \<and> (\<exists>room. tc_read c k room = Inr m)))
    \<and> (tc_user c = http_user httpCallback order \<longrightarrow>
      wire (tc_trace c) @ content (tc_output c) = sc_sent (http_session httpCallback order (callbacks (tc_trace c)))
      \<and> spec_of c = http_session httpCallback order (callbacks (tc_trace c)))"
proof -
  note conn = shared_conn(3) [OF assms(1,2) refl] shared_conn(1) [OF assms(1,2)]
  have "wire (tc_trace c) @ content (tc_output c) = first_message (callbacks (tc_trace c)) \<and> content (tc_input c) = []
      \<and> (\<forall>k m t. (k, MessageCb m t) \<in> set (callbacks (tc_trace c)) \<longrightarrow> m \<noteq> [] \<and> (\<exists>room. tc_read c k room = Inr m))"
    if "tc_user c = echo_user"
    using echo_conn_served [OF conn that] by blast
  moreover have "wire (tc_trace c) @ content (tc_output c) = sc_sent (http_session httpCallback order (callbacks (tc_trace c)))
      \<and> spec_of c = http_session httpCallback order (callbacks (tc_trace c))"
    if "tc_user c = http_user httpCallback order"
    using http_conn_served [OF conn that assms(3)] by blast
  ultimately show ?thesis by blast
qed

section \<open>A run with two clients\<close>

text \<open>A loop with its wake-up channel, as each connection will see it.\<close>

definition shared_demo :: shared_loop where
  "shared_demo =
     \<lparr>el_looping = el_looping demo_loop, el_quit = el_quit demo_loop, el_calling = el_calling demo_loop,
      el_threadId = el_threadId demo_loop, el_pollReturnTime = el_pollReturnTime demo_loop, el_chans = el_chans demo_loop,
      el_poller = el_poller demo_loop, el_wakeupChannel = el_wakeupChannel demo_loop, el_eventfd = el_eventfd demo_loop,
      el_active = el_active demo_loop, el_current = el_current demo_loop, el_pending = []\<rparr>"

lemma view_demo: "view i shared_demo = demo_loop"
  by (rule evloop.equality) (simp_all add: shared_demo_def demo_loop_state)

lemma shared_demo_bare: "bare_loop shared_demo"
proof -
  have "loop_wf shared_demo" using demo_loop_wf by (simp add: loop_wf_def shared_demo_def)
  moreover have "wake_ok shared_demo" by (simp add: wake_ok_def shared_demo_def demo_eval)
  moreover have "ran (poller_channels (el_poller shared_demo)) \<subseteq> {el_wakeupChannel shared_demo}"
    by (simp add: shared_demo_def demo_eval poller_channels_def)
  ultimately show ?thesis by (simp add: bare_loop_def shared_demo_def demo_loop_state)
qed

text \<open>A client comes up, whatever else the loop is doing.\<close>

abbreviation demo_write :: "nat \<Rightarrow> string \<Rightarrow> int + nat" where
  "demo_write \<equiv> \<lambda>k s. Inr (length s)"

abbreviation demo_read :: "nat \<Rightarrow> nat \<Rightarrow> int + string" where
  "demo_read \<equiv> \<lambda>k n. Inr (take n ''ab'')"

lemma client_up:
  assumes el: "el_chans el = (el_chans demo_loop)(2 := conn_callbacks (new_channel 7))" "el_poller el = el_poller demo_loop"
    and c0: "(el0, c0) = new_conn name 7 2 demo_write demo_read user el1" and quiet: "user 0 (ConnectionCb True) = []"
  obtains v c q where "connectEstablished (el, c0) = Some (v, c)" and "tc_trace c = [Called (ConnectionCb True)]"
    and "tc_user c = user" and "tc_read c = demo_read" and "content (tc_input c) = []" and "el_pending v = el_pending el"
    and "el_threadId v = el_threadId el" and "el_wakeupChannel v = el_wakeupChannel el" and "el_calling v = el_calling el"
    and "el_poller v = Epoll q" and "ep_interest q 7 = Some (3, 2)"
    and "ch_fd (el_chans v 2) = 7" and "ch_events (el_chans v 2) = 3" and "ch_tie (el_chans v 2) = Some 2"
    and "ch_tied (el_chans v 2)" and "ch_fd (el_chans v 0) = 3"
proof -
  have c0': "c0 = \<lparr>tc_state = kConnecting, tc_reading = True, tc_name = name, tc_channel = 2,
       tc_hasWriteComplete = False, tc_hasHighWater = False, tc_highWaterMark = 64 * 1024 * 1024,
       tc_input = new_buffer kInitialSize, tc_output = new_buffer kInitialSize,
       tc_write = demo_write, tc_read = demo_read, tc_user = user, tc_trace = []\<rparr>"
    using c0 by (simp add: new_conn_def)
  obtain l q b t r w e as x ps where el': "el = \<lparr>el_looping = l, el_quit = q, el_calling = b, el_threadId = t,
      el_pollReturnTime = r, el_chans = (el_chans demo_loop)(2 := conn_callbacks (new_channel 7)),
      el_poller = el_poller demo_loop, el_wakeupChannel = w, el_eventfd = e, el_active = as, el_current = x, el_pending = ps\<rparr>"
    using el by (cases el) simp
  have "\<exists>w q. connectEstablished (el, c0) = Some w \<and> tc_trace (snd w) = [Called (ConnectionCb True)]
    \<and> tc_user (snd w) = user \<and> tc_read (snd w) = demo_read
    \<and> tc_input (snd w) = new_buffer kInitialSize \<and> el_pending (fst w) = el_pending el \<and> el_threadId (fst w) = el_threadId el
    \<and> el_wakeupChannel (fst w) = el_wakeupChannel el \<and> el_calling (fst w) = el_calling el
    \<and> el_poller (fst w) = Epoll q \<and> ep_interest q 7 = Some (3, 2)
    \<and> ch_fd (el_chans (fst w) 2) = 7 \<and> ch_events (el_chans (fst w) 2) = 3 \<and> ch_tie (el_chans (fst w) 2) = Some 2
    \<and> ch_tied (el_chans (fst w) 2) \<and> ch_fd (el_chans (fst w) 0) = 3"
    by (simp add: c0' el' quiet demo_eval connectEstablished_def on_channel_def conn_callbacks_def
        setWriteCallback_def setCloseCallback_def setErrorCallback_def tie_def setState_def invoke_def trace_def
        event_masks event_consts split_paired_Ex)
  then show ?thesis using that by fastforce
qed

lemma echo_conn_up:
  obtains v c q where "connectEstablished echo_conn = Some (v, c)" and "tc_trace c = [Called (ConnectionCb True)]"
    and "tc_user c = echo_user" and "tc_read c = demo_read" and "content (tc_input c) = []" and "el_pending v = []"
    and "el_threadId v = 1" and "el_wakeupChannel v = 0" and "\<not> el_calling v" and "el_poller v = Epoll q"
    and "ep_interest q 7 = Some (3, 2)" and "ch_fd (el_chans v 2) = 7" and "ch_events (el_chans v 2) = 3"
    and "ch_tie (el_chans v 2) = Some 2" and "ch_tied (el_chans v 2)" and "ch_fd (el_chans v 0) = 3"
proof -
  obtain el c0 where w: "echo_conn = (el, c0)" by (cases echo_conn)
  then have new: "(el, c0) = new_conn ''echo'' 7 2 demo_write demo_read echo_user demo_loop" by (simp add: echo_conn_def)
  have el: "el_chans el = (el_chans demo_loop)(2 := conn_callbacks (new_channel 7))" "el_poller el = el_poller demo_loop"
      "el_pending el = []" "el_threadId el = 1" "el_wakeupChannel el = 0" "\<not> el_calling el"
    using new by (auto simp: new_conn_def demo_loop_state) (simp add: demo_eval)
  have quiet: "echo_user 0 (ConnectionCb True) = []" by (simp add: echo_user_def)
  show ?thesis
    by (rule client_up [OF el(1,2) new quiet], rule that) (simp_all add: w el(3-6))
qed

text \<open>A second one is opened by another thread, and a message of the first arrives.\<close>

lemma echo_user_api: "\<forall>k cb. list_all api_ok (echo_user k cb)"
  by (simp add: echo_user_def split: callback.split)

lemma demo_two_clients:
  obtains el c d q where "shared_reach False (Polling, (el, [2 \<mapsto> c, 4 \<mapsto> d]))"
    and "tc_trace c = [Called (ConnectionCb True)]" and "tc_user c = echo_user" and "tc_read c = demo_read"
    and "content (tc_input c) = []" and "tc_user d = echo_user" and "tc_trace d = []"
    and "el_wakeupChannel el = 0" and "el_poller el = Epoll q" and "ep_interest q 7 = Some (3, 2)"
    and "ch_fd (el_chans el 2) = 7" and "ch_events (el_chans el 2) = 3" and "ch_tie (el_chans el 2) = Some 2"
    and "ch_tied (el_chans el 2)"
proof -
  obtain v c q where up: "connectEstablished echo_conn = Some (v, c)" "tc_trace c = [Called (ConnectionCb True)]"
      "tc_user c = echo_user" "tc_read c = demo_read" "content (tc_input c) = []"
      "el_pending v = []" "el_threadId v = 1" "el_wakeupChannel v = 0" "\<not> el_calling v" "el_poller v = Epoll q"
      "ep_interest q 7 = Some (3, 2)" "ch_fd (el_chans v 2) = 7" "ch_events (el_chans v 2) = 3"
      "ch_tie (el_chans v 2) = Some 2" "ch_tied (el_chans v 2)" "ch_fd (el_chans v 0) = 3"
    by (rule echo_conn_up)
  obtain v0 c0 where v0: "echo_conn = (v0, c0)" by (cases echo_conn)
  have p0: "el_pending v0 = []" "el_threadId v0 = 1"
    using v0 by (auto simp: echo_conn_def new_conn_def demo_loop_state)
  let ?el1 = "put_view 2 v0 shared_demo" and ?el2 = "put_view 2 v (put_view 2 v0 shared_demo)"
  have view1: "view 2 ?el1 = v0" by (rule view_put) (simp add: appends_def p0 shared_demo_def)
  have el2: "el_pending ?el2 = []" using up(6) p0 by (simp add: shared_demo_def)
  have can1: "can_open 7 2 demo_write demo_read echo_user (shared_demo, Map.empty)"
    using echo_user_api by (simp add: can_open_def present_def readv_ok_def shared_demo_def demo_eval)
  have open1: "open_conn False ''echo'' 7 2 demo_write demo_read echo_user (shared_demo, Map.empty) = (?el1, [2 \<mapsto> c0])"
    using v0 by (simp add: open_conn_def view_demo echo_conn_def)
  have "exec_shared (2, ConnectEstablished) (?el1, [2 \<mapsto> c0]) = Some (?el2, [2 \<mapsto> c])"
    using up(1) v0 by (simp add: as_conn_def view1)
  then have "runInLoop exec_shared 1 (2, ConnectEstablished)
      (open_conn False ''echo'' 7 2 demo_write demo_read echo_user (shared_demo, Map.empty)) = Some (?el2, [2 \<mapsto> c])"
    unfolding open1 using p0(2) by (simp add: runInLoop_def isInLoopThread_def)
  then have r1: "shared_reach False (Polling, (?el2, [2 \<mapsto> c]))"
    by (rule sh_next [OF sh_start [OF shared_demo_bare] sh_open [OF can1]])
  then have ok1: "conns_ok [] (?el2, [2 \<mapsto> c])" using shared_reach_ok by (fastforce simp: shared_ok_def)
  have can2: "can_open 8 4 demo_write demo_read echo_user (?el2, [2 \<mapsto> c])"
    using echo_user_api up(8,12,16) by (simp add: can_open_def present_def readv_ok_def)
  obtain el3 d where o: "open_conn False ''echo'' 8 4 demo_write demo_read echo_user (?el2, [2 \<mapsto> c]) = (el3, [2 \<mapsto> c, 4 \<mapsto> d])"
      "\<exists>c0. (view 4 el3, c0) = new_conn ''echo'' 8 4 demo_write demo_read echo_user (view 4 ?el2)
        \<and> fresh_conn (view 4 el3, c0) \<and> d = (if False then setWriteCompleteCallback c0 else c0)"
      "el3 = ?el2\<lparr>el_chans := (el_chans ?el2)(4 := conn_callbacks (new_channel 8))\<rparr>"
    by (rule open_fresh [OF ok1 can2, where wc = False and name = "''echo''"]) blast
  let ?el = "queueInLoop 9 (4, ConnectEstablished) el3"
  have "runInLoop exec_shared 9 (4, ConnectEstablished)
      (open_conn False ''echo'' 8 4 demo_write demo_read echo_user (?el2, [2 \<mapsto> c])) = Some (?el, [2 \<mapsto> c, 4 \<mapsto> d])"
    unfolding o(1) using up(7) by (simp add: runInLoop_def isInLoopThread_def o(3))
  then have "shared_reach False (Polling, (?el, [2 \<mapsto> c, 4 \<mapsto> d]))"
    by (rule sh_next [OF r1 sh_open [OF can2]])
  moreover have "el_wakeupChannel ?el = 0" "el_poller ?el = Epoll q" "ch_fd (el_chans ?el 2) = 7" "ch_events (el_chans ?el 2) = 3"
      "ch_tie (el_chans ?el 2) = Some 2" "ch_tied (el_chans ?el 2)"
    using up by (simp_all add: queueInLoop_def wakeup_def Let_def o(3))
  moreover have "tc_user d = echo_user" "tc_trace d = []" using o(2) by (auto simp: new_conn_def)
  ultimately show ?thesis using that up(2,3,4,5,11) by blast
qed

text \<open>A message arrives at a client that is up.\<close>

lemma message_arrives:
  assumes reach: "shared_reach others (Polling, (el, cs))" and c: "cs 2 = Some c"
    and up: "tc_trace c = [Called (ConnectionCb True)]" "tc_read c = demo_read" "content (tc_input c) = []"
    and poller: "el_wakeupChannel el = 0" "el_poller el = Epoll q" "ep_interest q 7 = Some (3, 2)"
    and chan: "ch_fd (el_chans el 2) = 7" "ch_events (el_chans el 2) = 3" "ch_tie (el_chans el 2) = Some 2" "ch_tied (el_chans el 2)"
  obtains el1 v c' m where "answer_ok (EpollWait (Inr [(EPOLLIN, 2)])) (el_chans el, el_poller el)"
    and "el_poll (EpollWait (Inr [(EPOLLIN, 2)])) (Timestamp 1) el = Some el1" and "el_active el1 = [2]"
    and "dispatch call_shared shared_alive 2 (el1, cs) = Some (put_view 2 v el1, cs(2 \<mapsto> c'))"
    and "callbacks (tc_trace c') = [(0, ConnectionCb True), (1, MessageCb m (Timestamp 1))]" and "m \<noteq> []"
    and "tc_user c' = tc_user c"
proof -
  let ?ans = "EpollWait (Inr [(EPOLLIN, 2)])" and ?t = "Timestamp 1"
  have ans: "answer_ok ?ans (el_chans el, el_poller el)"
    using poller(2,3) chan(1,2) by (simp add: answer_ok_def tcp_revents_def event_consts isNoneEvent_def)
  obtain p where poll: "el_poll ?ans ?t el = Some (el\<lparr>el_chans := (el_chans el)(2 := set_revents EPOLLIN (el_chans el 2)),
      el_poller := p, el_active := [2], el_pollReturnTime := ?t\<rparr>)"
    by (simp add: el_poll_def poller_poll_def epoll_poll_def poller(2))
  define el1 where "el1 = el\<lparr>el_chans := (el_chans el)(2 := set_revents EPOLLIN (el_chans el 2)),
      el_poller := p, el_active := [2], el_pollReturnTime := ?t\<rparr>"
  have r1: "shared_reach others (Handling [2], (el1, cs))"
    using sh_next [OF reach sh_poll [OF ans poll]] by (simp add: el1_def)
  have ok: "conns_ok [] (el1, cs)" "\<not> el_calling el1" "handling_ok [2] (el1, cs)"
    using shared_reach_ok [OF r1] by (simp_all add: shared_ok_def)
  have "2 \<noteq> el_wakeupChannel el1" by (simp add: el1_def poller(1))
  then obtain c0 v c' hs where c0: "cs 2 = Some c0" and h0: "hs = handleEvent (shared_alive cs) (el_pollReturnTime el1) (el_chans el1 2)"
      "bind_fold call_handler hs ((view 2 el1)\<lparr>el_current := Some 2\<rparr>, c0) = Some (v, c')"
      "dispatch call_shared shared_alive 2 (el1, cs) = Some (put_view 2 v el1, cs(2 \<mapsto> c'))"
    by (rule conn_dispatch [OF ok]) blast
  have "c0 = c" using c0 c by simp
  note h = h0 [unfolded this]
  have cok: "conn_ok (view 2 el1, c)" "tc_channel c = 2" using shared_conn [OF r1 c] by simp_all
  then have "ch_readCallback (el_chans el1 2) = Some HandleRead" "ch_writeCallback (el_chans el1 2) = Some HandleWrite"
      "ch_closeCallback (el_chans el1 2) = Some HandleClose" "ch_errorCallback (el_chans el1 2) = Some HandleError"
    by (simp_all add: conn_ok_def chan_ok_def Let_def)
  moreover have "ch_revents (el_chans el1 2) = 1" "ch_tied (el_chans el1 2)" "ch_tie (el_chans el1 2) = Some 2" "el_pollReturnTime el1 = ?t"
    using chan(3,4) by (simp_all add: el1_def set_revents_def event_consts)
  ultimately have hs: "hs = [ReadCall HandleRead ?t]"
    by (simp add: h(1) handleEvent_def handleEventWithGuard_def call_if_def read_if_def shared_alive_def event_consts c)
  have "handleRead ?t ((view 2 el1)\<lparr>el_current := Some 2\<rparr>, c) = Some (v, c')" using h(2) by (simp add: hs)
  from read_message [OF conn_ok_current [OF cok(1)] this] obtain bs where
    bs: "bs \<noteq> []" "tc_user c' = tc_user c" "callbacks (tc_trace c') = callbacks (tc_trace c) @ [(length (tc_trace c), MessageCb bs ?t)]"
    using up(2,3) by (auto simp: take_Cons')
  have "callbacks (tc_trace c') = [(0, ConnectionCb True), (1, MessageCb bs ?t)]"
    using bs(3) up(1) callbacks_snoc [of "[]"] by simp
  with that [of el1 v c' bs] ans poll h(3) bs(1,2) show ?thesis by (simp add: el1_def)
qed

lemma demo_message:
  obtains el c d m where "shared_reach False (Handling [], (el, [2 \<mapsto> c, 4 \<mapsto> d]))"
    and "tc_user c = echo_user" and "callbacks (tc_trace c) = [(0, ConnectionCb True), (1, MessageCb m (Timestamp 1))]"
    and "m \<noteq> []" and "tc_user d = echo_user" and "tc_trace d = []"
proof -
  obtain el c d q where r: "shared_reach False (Polling, (el, [2 \<mapsto> c, 4 \<mapsto> d]))"
      "tc_trace c = [Called (ConnectionCb True)]" "tc_user c = echo_user" "tc_read c = demo_read"
      "content (tc_input c) = []" "tc_user d = echo_user" "tc_trace d = []" "el_wakeupChannel el = 0"
      "el_poller el = Epoll q" "ep_interest q 7 = Some (3, 2)" "ch_fd (el_chans el 2) = 7"
      "ch_events (el_chans el 2) = 3" "ch_tie (el_chans el 2) = Some 2" "ch_tied (el_chans el 2)"
    by (rule demo_two_clients) blast
  let ?cs = "[2 \<mapsto> c, 4 \<mapsto> d] :: conns"
  have "?cs 2 = Some c" by simp
  then obtain el1 v c' m where
    m: "answer_ok (EpollWait (Inr [(EPOLLIN, 2)])) (el_chans el, el_poller el)"
      "el_poll (EpollWait (Inr [(EPOLLIN, 2)])) (Timestamp 1) el = Some el1" "el_active el1 = [2]"
      "dispatch call_shared shared_alive 2 (el1, ?cs) = Some (put_view 2 v el1, ?cs(2 \<mapsto> c'))"
      "callbacks (tc_trace c') = [(0, ConnectionCb True), (1, MessageCb m (Timestamp 1))]" "m \<noteq> []" "tc_user c' = tc_user c"
    by (rule message_arrives [OF r(1) _ r(2,4,5,8-14)]) blast
  have "shared_reach False (Handling [2], (el1, ?cs))" using sh_next [OF r(1) sh_poll [OF m(1,2)]] by (simp only: m(3))
  from sh_next [OF this sh_handle [OF m(4)]] have "shared_reach False (Handling [], (put_view 2 v el1, ?cs(2 \<mapsto> c')))" .
  moreover have "?cs(2 \<mapsto> c') = [2 \<mapsto> c', 4 \<mapsto> d]" by auto
  ultimately show ?thesis using that m(5-7) r(3,6,7) by simp
qed

theorem shared_loop_never_aborts_witness:
  "\<exists>el cs. shared_reach True (Polling, (el, cs)) \<and> cs = Map.empty
     \<and> (\<exists>el'. el_poll (EpollWait (Inl 4)) (Timestamp 1) el = Some el')
     \<and> (\<exists>w'. runInLoop exec_shared 1 (2, ConnectEstablished)
          (open_conn False ''echo'' 7 2 demo_write demo_read echo_user (el, cs)) = Some w')"
proof -
  have start: "shared_reach True (Polling, (shared_demo, Map.empty))" by (rule sh_start [OF shared_demo_bare])
  have "answer_ok (EpollWait (Inl 4)) (el_chans shared_demo, el_poller shared_demo)"
    by (simp add: answer_ok_def shared_demo_def demo_eval)
  moreover have "can_open 7 2 demo_write demo_read echo_user (shared_demo, Map.empty)"
    using echo_user_api by (simp add: can_open_def present_def readv_ok_def shared_demo_def demo_eval)
  ultimately have "el_poll (EpollWait (Inl 4)) (Timestamp 1) shared_demo \<noteq> None
    \<and> runInLoop exec_shared 1 (2, ConnectEstablished)
        (open_conn False ''echo'' 7 2 demo_write demo_read echo_user (shared_demo, Map.empty)) \<noteq> None"
    using shared_loop_never_aborts [OF start, of "EpollWait (Inl 4)" "Timestamp 1"] by blast
  with start show ?thesis by blast
qed

theorem shared_conns_sound_witness:
  "\<exists>ph el c d. shared_reach False (ph, (el, [2 \<mapsto> c, 4 \<mapsto> d])) \<and> length (tc_trace c) > 1
     \<and> wire (tc_trace c) @ content (tc_output c) = accepted (tc_trace c)
     \<and> ch_fd (el_chans el 4) \<noteq> ch_fd (el_chans el 2)"
proof -
  obtain el c d m where r: "shared_reach False (Handling [], (el, [2 \<mapsto> c, 4 \<mapsto> d]))"
      "callbacks (tc_trace c) = [(0, ConnectionCb True), (1, MessageCb m (Timestamp 1))]"
    by (rule demo_message) blast
  have "length (tc_trace c) > 1"
  proof (rule ccontr)
    assume "\<not> ?thesis"
    then have "tc_trace c = [] \<or> (\<exists>e. tc_trace c = [e])" by (cases "tc_trace c") auto
    then show False using r(2) callbacks_snoc [of "[]"] by (auto split: conn_event.splits)
  qed
  moreover note run = r(1)
  moreover have "4 \<in> present el [2 \<mapsto> c, 4 \<mapsto> d]" by (simp add: present_def)
  moreover have "wire (tc_trace c) @ content (tc_output c) = accepted (tc_trace c)"
      "\<forall>j \<in> present el [2 \<mapsto> c, 4 \<mapsto> d]. j \<noteq> 2 \<longrightarrow> ch_fd (el_chans el j) \<noteq> ch_fd (el_chans el 2)"
    using shared_conns_sound [OF run, of 2 c] by simp_all
  moreover from this(2) calculation(3) have "ch_fd (el_chans el 4) \<noteq> ch_fd (el_chans el 2)" by simp
  ultimately show ?thesis by blast
qed

theorem shared_conns_refine_witness:
  "\<exists>ph el c d m. shared_reach False (ph, (el, [2 \<mapsto> c, 4 \<mapsto> d])) \<and> m \<noteq> []
     \<and> wire (tc_trace c) @ content (tc_output c) = m \<and> tc_trace d = []"
proof -
  obtain el c d m where r: "shared_reach False (Handling [], (el, [2 \<mapsto> c, 4 \<mapsto> d]))" "tc_user c = echo_user"
      "callbacks (tc_trace c) = [(0, ConnectionCb True), (1, MessageCb m (Timestamp 1))]" "m \<noteq> []" "tc_trace d = []"
    by (rule demo_message) blast
  have "sc_sent (replay echo_user (callbacks (tc_trace c))) = m"
    by (simp add: r(3) replay_def spec_step_def echo_user_def spec_send_def)
  with shared_conns_refine [OF r(1), of 2 c] r show ?thesis by auto
qed

theorem shared_clients_served_witness:
  "\<exists>ph el c d m. shared_reach False (ph, (el, [2 \<mapsto> c, 4 \<mapsto> d])) \<and> m \<noteq> []
     \<and> wire (tc_trace c) @ content (tc_output c) = m \<and> content (tc_input c) = []
     \<and> wire (tc_trace d) @ content (tc_output d) = []"
proof -
  obtain el c d m where r: "shared_reach False (Handling [], (el, [2 \<mapsto> c, 4 \<mapsto> d]))" "tc_user c = echo_user"
      "callbacks (tc_trace c) = [(0, ConnectionCb True), (1, MessageCb m (Timestamp 1))]" "m \<noteq> []"
      "tc_user d = echo_user" "tc_trace d = []"
    by (rule demo_message) blast
  have body: "length (rs_body (defaultHttpCallback req (new_response b))) < 10 ^ 13" for req b
    by (simp add: defaultHttpCallback_def setCloseConnection_def setStatusMessage_def setStatusCode_def new_response_def)
  have "first_message (callbacks (tc_trace c)) = m" by (simp add: r(3) first_message_def)
  moreover have "first_message (callbacks (tc_trace d)) = []" by (simp add: r(6) first_message_def)
  moreover have "(tc_user c = echo_user \<longrightarrow> wire (tc_trace c) @ content (tc_output c) = first_message (callbacks (tc_trace c))
      \<and> content (tc_input c) = []
      \<and> (\<forall>k m t. (k, MessageCb m t) \<in> set (callbacks (tc_trace c)) \<longrightarrow> m \<noteq> [] \<and> (\<exists>room. tc_read c k room = Inr m)))"
    by (rule conjunct1 [OF shared_clients_served [where httpCallback = "\<lambda>_. defaultHttpCallback", OF r(1), of 2 c, OF _ body]]) simp
  moreover have "(tc_user d = echo_user \<longrightarrow> wire (tc_trace d) @ content (tc_output d) = first_message (callbacks (tc_trace d))
      \<and> content (tc_input d) = []
      \<and> (\<forall>k m t. (k, MessageCb m t) \<in> set (callbacks (tc_trace d)) \<longrightarrow> m \<noteq> [] \<and> (\<exists>room. tc_read d k room = Inr m)))"
    by (rule conjunct1 [OF shared_clients_served [where httpCallback = "\<lambda>_. defaultHttpCallback", OF r(1), of 4 d, OF _ body]]) simp
  ultimately have "wire (tc_trace c) @ content (tc_output c) = m \<and> content (tc_input c) = []
     \<and> wire (tc_trace d) @ content (tc_output d) = []"
    using r(2,5) by simp
  with r(1,4) show ?thesis by blast
qed

end
