(* ===== verification/Server_System.thy ===== *)
theory Server_System
  imports Shared_Runs
begin

text \<open>
  A \<open>TcpServer\<close> with everything below it: the base loop accepts and keeps the table, each loop of
  the pool runs the connections that were handed to it (\<open>Shared_Loop\<close>), and functors carry what one
  has to tell the other. Here the close callback of a connection is \<open>TcpServer::removeConnection\<close>,
  which queues to the base loop, and \<open>connectDestroyed\<close> comes back from there. Nothing is assumed of when a
  functor may be run or of when an object is freed: a batch is run as it is, and a
  \<open>TcpConnection\<close> goes with its last reference. The pool has threads, so that the base loop has no
  connections of its own.
\<close>

section \<open>The state\<close>

text \<open>
  \<open>sy_conns\<close> lists the connections that were made, \<open>sy_chan\<close> gives the channel of those that still
  exist, and \<open>sy_io\<close> is the phase and the world of each loop of the pool.
\<close>

record system =
  sy_server :: tcp_server
  sy_base :: srv_loop
  sy_conns :: "conn_obj list"
  sy_chan :: "nat \<Rightarrow> nat option"
  sy_io :: "nat \<Rightarrow> shared_state"

definition base_loop :: "system \<Rightarrow> nat" where
  "base_loop s = ts_loop (sy_server s)"

definition home :: "system \<Rightarrow> nat \<Rightarrow> nat" where
  "home s i = co_loop (sy_conns s ! i)"

definition sy_el :: "system \<Rightarrow> nat \<Rightarrow> shared_loop" where
  "sy_el s l = fst (snd (sy_io s l))"

definition sy_cs :: "system \<Rightarrow> nat \<Rightarrow> conns" where
  "sy_cs s l = snd (snd (sy_io s l))"

definition has_closed :: "tcp_conn \<Rightarrow> bool" where
  "has_closed c \<longleftrightarrow> Called CloseCb \<in> set (tc_trace c)"

section \<open>The operations\<close>

text \<open>The user's callbacks; the close callback is the server's.\<close>

definition server_user :: "(nat \<Rightarrow> callback \<Rightarrow> api list) \<Rightarrow> nat \<Rightarrow> callback \<Rightarrow> api list" where
  "server_user user k cb = (if cb = CloseCb then [] else user k cb)"

definition sys_newConnection ::
  "int \<Rightarrow> sockaddr_in \<Rightarrow> sockaddr_in \<Rightarrow> nat \<Rightarrow> (nat \<Rightarrow> string \<Rightarrow> int + nat) \<Rightarrow> (nat \<Rightarrow> nat \<Rightarrow> int + string)
    \<Rightarrow> (nat \<Rightarrow> callback \<Rightarrow> api list) \<Rightarrow> system \<Rightarrow> system option" where
  "sys_newConnection sockfd peerAddr localAddr ch wr rd user s = do {
     let srv = sy_server s;
     (ioLoop, pool) \<leftarrow> getNextLoop (ts_pool srv);
     let connName = conn_name srv;
     let i = length (sy_conns s);
     (if ts_nextConnId srv = INT_MAX then None
      else do {
        w \<leftarrow> runInLoop exec_shared (el_threadId (sy_base s)) (ch, ConnectEstablished)
               (open_conn (uc_writeComplete (ts_callbacks srv)) connName sockfd ch wr rd (server_user user) (snd (sy_io s ioLoop)));
        Some (s\<lparr>sy_server := srv\<lparr>ts_pool := pool, ts_nextConnId := ts_nextConnId srv + 1,
                  ts_connections := (ts_connections srv)(connName \<mapsto> i)\<rparr>,
                sy_conns := sy_conns s @ [\<lparr>co_name = connName, co_loop = ioLoop, co_sockfd = sockfd,
                  co_local = localAddr, co_peer = peerAddr, co_callbacks = ts_callbacks srv\<rparr>],
                sy_chan := (sy_chan s)(i \<mapsto> ch),
                sy_io := (sy_io s)(ioLoop := (fst (sy_io s ioLoop), w))\<rparr>)
      })
   }"

text \<open>A connection that does not exist any more would be used after it was freed.\<close>

definition sys_removeConnectionInLoop :: "nat \<Rightarrow> system \<Rightarrow> system option" where
  "sys_removeConnectionInLoop i s = do {
     let srv = sy_server s;
     let l = co_loop (sy_conns s ! i);
     ch \<leftarrow> sy_chan s i;
     Some (s\<lparr>sy_server := srv\<lparr>ts_connections := (ts_connections srv)(co_name (sy_conns s ! i) := None)\<rparr>,
             sy_io := (sy_io s)(l := apsnd (apfst (queueInLoop (el_threadId (sy_base s)) (ch, ConnectDestroyed))) (sy_io s l))\<rparr>)
   }"

text \<open>\<open>removeConnection\<close>, called in the thread of loop \<open>l\<close>.\<close>

definition sys_removeConnection :: "nat \<Rightarrow> nat \<Rightarrow> system \<Rightarrow> system option" where
  "sys_removeConnection l i s =
     (let tid = el_threadId (sy_el s l) in
      if isInLoopThread tid (sy_base s) then sys_removeConnectionInLoop i s
      else Some (s\<lparr>sy_base := queueInLoop tid (RemoveInLoop i) (sy_base s)\<rparr>))"

text \<open>It is called by the connections whose close callback is made in a step of the loop to \<open>t\<close>.\<close>

definition close_called :: "conns \<Rightarrow> conns \<Rightarrow> nat \<Rightarrow> bool" where
  "close_called cs cs' ch \<longleftrightarrow> (case (cs ch, cs' ch) of (Some c, Some c') \<Rightarrow> \<not> has_closed c \<and> has_closed c' | _ \<Rightarrow> False)"

definition closing :: "nat \<Rightarrow> shared_state \<Rightarrow> system \<Rightarrow> nat list" where
  "closing l t s = filter (\<lambda>i. home s i = l \<and>
     (case sy_chan s i of Some ch \<Rightarrow> close_called (sy_cs s l) (snd (snd t)) ch | None \<Rightarrow> False)) [0..<length (sy_conns s)]"

definition io_done :: "nat \<Rightarrow> shared_state \<Rightarrow> system \<Rightarrow> system option" where
  "io_done l t s = bind_fold (sys_removeConnection l) (closing l t s) (s\<lparr>sy_io := (sy_io s)(l := t)\<rparr>)"

section \<open>Steps\<close>

text \<open>A loop of the pool by itself. Whether a functor of the batch may be run is not asked.\<close>

inductive io_step :: "shared_state \<Rightarrow> shared_state \<Rightarrow> bool" where
  io_poll: "answer_ok ans (el_chans el, el_poller el) \<Longrightarrow> el_poll ans t el = Some el' \<Longrightarrow>
    io_step (Polling, (el, cs)) (Handling (el_active el'), (el', cs))"
| io_handle: "dispatch call_shared shared_alive ch w = Some w' \<Longrightarrow> io_step (Handling (ch # chs), w) (Handling chs, w')"
| io_begin: "begin_pending el = (el', fs) \<Longrightarrow> io_step (Handling [], (el, cs)) (Running fs, (el'\<lparr>el_current := None\<rparr>, cs))"
| io_run: "exec_shared f w = Some w' \<Longrightarrow> io_step (Running (f # fs), w) (Running fs, w')"
| io_end: "io_step (Running [], (el, cs)) (Polling, (el\<lparr>el_calling := False\<rparr>, cs))"

text \<open>
  The references to a connection: the table, the queue of the base loop, and the functors of its own loop that
  are bound to a \<open>shared_ptr\<close>. Those bound to \<open>this\<close> do not keep it.
\<close>

definition referenced :: "nat \<Rightarrow> nat \<Rightarrow> system \<Rightarrow> bool" where
  "referenced i ch s \<longleftrightarrow> ts_connections (sy_server s) (co_name (sy_conns s ! i)) = Some i
     \<or> RemoveInLoop i \<in> set (el_pending (sy_base s))
     \<or> (\<exists>f. (ch, f) \<in> set (running (fst (sy_io s (home s i))) @ el_pending (sy_el s (home s i))) \<and> owning f)"

definition free_conn :: "nat \<Rightarrow> nat \<Rightarrow> system \<Rightarrow> system" where
  "free_conn i ch s = s\<lparr>sy_chan := (sy_chan s)(i := None),
     sy_io := (sy_io s)(home s i := apsnd (apsnd (\<lambda>cs. cs(ch := None))) (sy_io s (home s i)))\<rparr>"

text \<open>
  The base loop accepts a connection, whose descriptor and channel are new, or runs the first functor of
  its queue; a loop of the pool makes a step; a connection without references is freed; and,
  if \<open>others\<close>, any other thread uses a connection, each call in one step (which the code does not
  ensure, see \<open>Conn_Race\<close>). Functors that are bound to \<open>this\<close> are not references.
\<close>

inductive sys_step :: "bool \<Rightarrow> system \<Rightarrow> system \<Rightarrow> bool" for others where
  sys_accept: "getNextLoop (ts_pool (sy_server s)) = Some (l, pool) \<Longrightarrow>
    can_open sockfd ch wr rd (server_user user) (snd (sy_io s l)) \<Longrightarrow> leaves_destruction (server_user user) \<Longrightarrow>
    sys_newConnection sockfd peerAddr localAddr ch wr rd user s = Some s' \<Longrightarrow> sys_step others s s'"
| sys_base: "el_pending (sy_base s) = RemoveInLoop i # fs \<Longrightarrow>
    sys_removeConnectionInLoop i (s\<lparr>sy_base := (sy_base s)\<lparr>el_pending := fs\<rparr>\<rparr>) = Some s' \<Longrightarrow> sys_step others s s'"
| sys_loop: "l \<noteq> base_loop s \<Longrightarrow> io_step (sy_io s l) t \<Longrightarrow> io_done l t s = Some s' \<Longrightarrow> sys_step others s s'"
| sys_free: "sy_chan s i = Some ch \<Longrightarrow> \<not> referenced i ch s \<Longrightarrow> sys_step others s (free_conn i ch s)"
| sys_remote: "others \<Longrightarrow> l \<noteq> base_loop s \<Longrightarrow> tid \<noteq> el_threadId (sy_el s l) \<Longrightarrow> remote a \<Longrightarrow>
    as_conn ch (api_call tid a) (snd (sy_io s l)) = Some w' \<Longrightarrow>
    sys_step others s (s\<lparr>sy_io := (sy_io s)(l := (fst (sy_io s l), w'))\<rparr>)"

text \<open>
  It starts with a server that listens (\<open>TcpServer::start\<close> in the thread of the base loop), whose pool has loops
  of other threads with nothing in them yet.
\<close>

definition sys_start :: "srv_world \<Rightarrow> system \<Rightarrow> bool" where
  "sys_start w s \<longleftrightarrow> srv_init w \<and> ac_hasCallback (sw_acceptor w) \<and> (\<forall>l. el_pending (sw_loops w l) = [])
     \<and> sy_server s = sw_server w \<and> sy_base s = sw_loops w (base_loop s) \<and> sy_conns s = [] \<and> sy_chan s = Map.empty
     \<and> base_loop s \<notin> set (getAllLoops (ts_pool (sy_server s)))
     \<and> (\<forall>l. l \<noteq> base_loop s \<longrightarrow> (\<exists>el. sy_io s l = (Polling, (el, Map.empty)) \<and> bare_loop el
          \<and> el_threadId el = el_threadId (sw_loops w l)))"

inductive sys_reach :: "bool \<Rightarrow> srv_world \<Rightarrow> system \<Rightarrow> bool" for others w where
  sys_first: "sys_start w s \<Longrightarrow> sys_reach others w s"
| sys_next: "sys_reach others w s \<Longrightarrow> sys_step others s s' \<Longrightarrow> sys_reach others w s'"

section \<open>The server alone\<close>

text \<open>
  How a state of the system looks as a state of the server alone (\<open>srv_world\<close>): each loop's queue
  is what is left of the batch and the queue of functors that take connections up and down, a connection
  is closed when its close callback has been made, and up and not down as long as its channel is
  registered. While the close callback of \<open>hold\<close> is being made, the server does not know it yet.
\<close>

definition io_queue :: "shared_state \<Rightarrow> (nat \<times> conn_functor) list" where
  "io_queue t = running (fst t) @ el_pending (fst (snd t))"

definition takes :: "nat \<times> conn_functor \<Rightarrow> bool" where
  "takes x \<longleftrightarrow> snd x = ConnectEstablished \<or> snd x = ConnectDestroyed"

definition stands_for :: "system \<Rightarrow> nat \<Rightarrow> nat \<times> conn_functor \<Rightarrow> srv_functor \<Rightarrow> bool" where
  "stands_for s l x g \<longleftrightarrow> (\<exists>i. i < length (sy_conns s) \<and> home s i = l \<and> sy_chan s i = Some (fst x)
     \<and> g = (if snd x = ConnectEstablished then Established i else Destroyed i))"

definition conn_sim :: "nat option \<Rightarrow> srv_world \<Rightarrow> nat \<Rightarrow> shared_loop \<Rightarrow> nat \<Rightarrow> tcp_conn \<Rightarrow> bool" where
  "conn_sim hold w i el ch c \<longleftrightarrow> leaves_destruction (tc_user c) \<and> (i \<in> set (sw_closed w) \<longleftrightarrow> has_closed c \<and> hold \<noteq> Some i)
     \<and> (el_hasChannel ch el \<longleftrightarrow> log_of w i = [Up i])"

definition loop_sim :: "system \<Rightarrow> srv_world \<Rightarrow> nat \<Rightarrow> bool" where
  "loop_sim s w l \<longleftrightarrow> el_threadId (sw_loops w l) = el_threadId (sy_el s l) \<and> shared_ok (sy_io s l)
     \<and> list_all2 (stands_for s l) (filter takes (io_queue (sy_io s l))) (el_pending (sw_loops w l))"

definition sys_sim :: "nat option \<Rightarrow> system \<Rightarrow> srv_world \<Rightarrow> bool" where
  "sys_sim hold s w \<longleftrightarrow> srv_inv w \<and> ac_hasCallback (sw_acceptor w) \<and> sw_server w = sy_server s \<and> sw_conns w = sy_conns s
     \<and> base_loop s \<notin> set (getAllLoops (ts_pool (sy_server s))) \<and> (\<forall>i < length (sy_conns s). home s i \<noteq> base_loop s)
     \<and> el_threadId (sw_loops w (base_loop s)) = el_threadId (sy_base s)
     \<and> el_pending (sw_loops w (base_loop s)) = el_pending (sy_base s) \<and> set (el_pending (sy_base s)) \<subseteq> range RemoveInLoop
     \<and> (\<forall>l. l \<noteq> base_loop s \<longrightarrow> loop_sim s w l)
     \<and> (\<forall>i ch. sy_chan s i = Some ch \<longrightarrow> i < length (sy_conns s)
          \<and> (\<exists>c. sy_cs s (home s i) ch = Some c \<and> conn_sim hold w i (sy_el s (home s i)) ch c))
     \<and> (\<forall>i j ch. sy_chan s i = Some ch \<longrightarrow> sy_chan s j = Some ch \<longrightarrow> home s i = home s j \<longrightarrow> i = j)
     \<and> (\<forall>l ch. l \<noteq> base_loop s \<longrightarrow> ch \<in> dom (sy_cs s l) \<longrightarrow> (\<exists>i. sy_chan s i = Some ch \<and> home s i = l))
     \<and> (\<forall>i < length (sy_conns s). sy_chan s i = None \<longrightarrow> log_of w i = [Up i, Down i])"

text \<open>
  What is bound to \<open>this\<close> and still waits for a connection that is in the table no more has a functor behind it
  that owns the connection: \<open>connectDestroyed\<close>.
\<close>

fun covered :: "conn_functor list \<Rightarrow> bool" where
  "covered [] = True"
| "covered (f # fs) = ((owning f \<or> ConnectDestroyed \<in> set fs) \<and> covered fs)"

definition tabled :: "nat \<Rightarrow> system \<Rightarrow> bool" where
  "tabled i s \<longleftrightarrow> ts_connections (sy_server s) (co_name (sy_conns s ! i)) = Some i"

definition raw_covered :: "system \<Rightarrow> bool" where
  "raw_covered s \<longleftrightarrow> (\<forall>i ch. sy_chan s i = Some ch \<longrightarrow> tabled i s \<or> covered (mine ch (io_queue (sy_io s (home s i)))))"

lemma covered_snoc: "covered (fs @ [ConnectDestroyed])"
  by (induction fs) auto

lemma covered_drop: "covered fs \<Longrightarrow> covered (drop n fs)"
  by (induction fs arbitrary: n) (simp, case_tac n, auto)

lemma covered_unowned: "covered fs \<Longrightarrow> \<forall>f \<in> set fs. \<not> owning f \<Longrightarrow> fs = []"
  by (cases fs) auto

lemma sys_simD:
  assumes "sys_sim hold s w"
  shows "srv_inv w" "ac_hasCallback (sw_acceptor w)" "sw_server w = sy_server s" "sw_conns w = sy_conns s"
    "base_loop s \<notin> set (getAllLoops (ts_pool (sy_server s)))" "i < length (sy_conns s) \<Longrightarrow> home s i \<noteq> base_loop s"
    "el_threadId (sw_loops w (base_loop s)) = el_threadId (sy_base s)"
    "el_pending (sw_loops w (base_loop s)) = el_pending (sy_base s)" "set (el_pending (sy_base s)) \<subseteq> range RemoveInLoop"
    "l \<noteq> base_loop s \<Longrightarrow> el_threadId (sw_loops w l) = el_threadId (sy_el s l)" "l \<noteq> base_loop s \<Longrightarrow> shared_ok (sy_io s l)"
    "l \<noteq> base_loop s \<Longrightarrow> list_all2 (stands_for s l) (filter takes (io_queue (sy_io s l))) (el_pending (sw_loops w l))"
    "sy_chan s i = Some ch \<Longrightarrow> i < length (sy_conns s)"
    "sy_chan s i = Some ch \<Longrightarrow> \<exists>c. sy_cs s (home s i) ch = Some c \<and> conn_sim hold w i (sy_el s (home s i)) ch c"
    "sy_chan s i = Some ch \<Longrightarrow> sy_chan s j = Some ch \<Longrightarrow> home s i = home s j \<Longrightarrow> i = j"
    "l \<noteq> base_loop s \<Longrightarrow> sy_cs s l ch = Some c \<Longrightarrow> \<exists>i. sy_chan s i = Some ch \<and> home s i = l"
    "i < length (sy_conns s) \<Longrightarrow> sy_chan s i = None \<Longrightarrow> log_of w i = [Up i, Down i]"
  using assms unfolding sys_sim_def loop_sim_def by blast+

lemma sim_names:
  assumes "sys_sim hold s w"
  shows "distinct (map co_name (sy_conns s))"
proof -
  note D = sys_simD [OF assms]
  have "map co_name (sw_conns w) = map (names_from (sw_server w)) [0..<length (sw_conns w)]"
    using D(1) unfolding srv_inv_def by blast
  then have "distinct (map co_name (sw_conns w))" by (simp add: distinct_map inj_on_def names_inj)
  then show ?thesis by (simp only: D(4))
qed

text \<open>A loop of the pool has moved, and the server with it.\<close>

lemma sim_move:
  assumes sim: "sys_sim None s w" and l: "l \<noteq> base_loop s"
    and t: "shared_ok t" "el_threadId (fst (snd t)) = el_threadId (sy_el s l)" "dom (snd (snd t)) = dom (sy_cs s l)"
    and w': "srv_inv w'" "sw_acceptor w' = sw_acceptor w" "sw_server w' = sw_server w" "sw_conns w' = sw_conns w"
      "sw_closed w' = sw_closed w" "loop_tid w' = loop_tid w" "\<And>l'. l' \<noteq> l \<Longrightarrow> sw_loops w' l' = sw_loops w l'"
    and queue: "list_all2 (stands_for s l) (filter takes (io_queue t)) (el_pending (sw_loops w' l))"
    and conns: "\<And>i ch c'. sy_chan s i = Some ch \<Longrightarrow> home s i = l \<Longrightarrow> snd (snd t) ch = Some c'
      \<Longrightarrow> conn_sim hold w' i (fst (snd t)) ch c'"
    and others: "\<And>i. sy_chan s i = None \<or> home s i \<noteq> l \<Longrightarrow> log_of w' i = log_of w i \<and> hold \<noteq> Some i"
  shows "sys_sim hold (s\<lparr>sy_io := (sy_io s)(l := t)\<rparr>) w'"
proof -
  let ?s = "s\<lparr>sy_io := (sy_io s)(l := t)\<rparr>"
  note D = sys_simD [OF sim]
  have v [simp]: "base_loop ?s = base_loop s" "home ?s = home s" "sy_el ?s l = fst (snd t)" "sy_cs ?s l = snd (snd t)"
      "\<And>l'. l' \<noteq> l \<Longrightarrow> sy_el ?s l' = sy_el s l'" "\<And>l'. l' \<noteq> l \<Longrightarrow> sy_cs ?s l' = sy_cs s l'" "stands_for ?s = stands_for s"
    by (auto simp: base_loop_def home_def sy_el_def sy_cs_def stands_for_def fun_eq_iff)
  have tid: "el_threadId (sw_loops w' l') = el_threadId (sw_loops w l')" for l'
    using fun_cong [OF w'(6), of l'] by (simp add: loop_tid_def)
  have "loop_sim ?s w' l'" if "l' \<noteq> base_loop s" for l'
  proof (cases "l' = l")
    case True
    with t queue D(10) [OF l] show ?thesis by (simp add: loop_sim_def tid)
  next
    case False
    with D(10-12) [OF that] w'(7) show ?thesis by (simp add: loop_sim_def)
  qed
  moreover have "\<exists>c. sy_cs ?s (home s i) ch = Some c \<and> conn_sim hold w' i (sy_el ?s (home s i)) ch c"
    if ch: "sy_chan s i = Some ch" for i ch
  proof (cases "home s i = l")
    case True
    from D(14) [OF ch] obtain c where "sy_cs s l ch = Some c" using True by blast
    then have "ch \<in> dom (snd (snd t))" using t(3) by auto
    then obtain c' where "snd (snd t) ch = Some c'" by auto
    with conns [OF ch True] True show ?thesis by simp
  next
    case False
    with D(14) [OF ch] others [of i] show ?thesis by (auto simp: conn_sim_def w'(5))
  qed
  moreover have "\<exists>i. sy_chan s i = Some ch \<and> home s i = l'" if "l' \<noteq> base_loop s" "ch \<in> dom (sy_cs ?s l')" for l' ch
  proof -
    have "ch \<in> dom (sy_cs s l')" using that(2) t(3) by (cases "l' = l") auto
    with D(16) [OF that(1)] show ?thesis by blast
  qed
  moreover have "el_pending (sw_loops w' (base_loop s)) = el_pending (sw_loops w (base_loop s))" using w'(7) l by metis
  ultimately show ?thesis
    using D(1-9,13,15,17) w'(1-4) others unfolding sys_sim_def v by (simp add: tid)
qed

text \<open>A move that the server does not see: no connection has changed, nor a queue.\<close>

lemma sim_unseen:
  assumes sim: "sys_sim None s w" and l: "l \<noteq> base_loop s"
    and t: "shared_ok t" "el_threadId (fst (snd t)) = el_threadId (sy_el s l)" "snd (snd t) = sy_cs s l"
      "io_queue t = io_queue (sy_io s l)"
    and has: "\<And>ch. el_hasChannel ch (fst (snd t)) = el_hasChannel ch (sy_el s l)"
  shows "sys_sim None (s\<lparr>sy_io := (sy_io s)(l := t)\<rparr>) w"
proof (rule sim_move [OF sim l t(1,2)])
  note D = sys_simD [OF sim]
  show "list_all2 (stands_for s l) (filter takes (io_queue t)) (el_pending (sw_loops w l))" using D(12) [OF l] t(4) by simp
  show "conn_sim None w i (fst (snd t)) ch c'"
    if ch: "sy_chan s i = Some ch" "home s i = l" "snd (snd t) ch = Some c'" for i ch c'
    using D(14) [OF ch(1)] ch(2,3) t(3) by (auto simp: conn_sim_def has)
qed (use sys_simD(1) [OF sim] t(3) in simp_all)

text \<open>An object that is up in the server's eyes when its \<open>connectEstablished\<close> is not queued any more.\<close>

lemma sim_stage:
  assumes "sys_sim hold s w" and "i < length (sy_conns s)"
  obtains st where "at_stage w i st"
  using assms sys_simD(1,4) [OF assms(1)] by (auto simp: srv_inv_def)

lemma stage_pendingD:
  assumes "at_stage w i st"
  shows "Established i \<in> set (el_pending (sw_loops w l)) \<Longrightarrow> st = Queued"
    "RemoveInLoop i \<in> set (el_pending (sw_loops w l)) \<Longrightarrow> st = Closing"
    "Destroyed i \<in> set (el_pending (sw_loops w l)) \<Longrightarrow> st = Removed"
proof -
  have p: "g \<in> set (stage_pending st w i l)" if "g \<in> set (el_pending (sw_loops w l))" "about g = Some i" for g
  proof -
    have "g \<in> set (pending_of w i l)" using that by (simp add: pending_of_def)
    with assms show ?thesis by (simp add: at_stage_def)
  qed
  show "Established i \<in> set (el_pending (sw_loops w l)) \<Longrightarrow> st = Queued" using p by (cases st) (fastforce split: if_splits)+
  show "RemoveInLoop i \<in> set (el_pending (sw_loops w l)) \<Longrightarrow> st = Closing" using p by (cases st) (fastforce split: if_splits)+
  show "Destroyed i \<in> set (el_pending (sw_loops w l)) \<Longrightarrow> st = Removed" using p by (cases st) (fastforce split: if_splits)+
qed

lemma stands_forD:
  assumes all: "list_all2 (stands_for s l) (filter takes xs) gs" and inj: "\<And>j. sy_chan s j = Some ch \<Longrightarrow> home s j = l \<Longrightarrow> j = i"
  shows "(ch, ConnectEstablished) \<in> set xs \<Longrightarrow> Established i \<in> set gs" "(ch, ConnectDestroyed) \<in> set xs \<Longrightarrow> Destroyed i \<in> set gs"
proof -
  have "\<exists>g \<in> set gs. stands_for s l x g" if "x \<in> set xs" "takes x" for x
  proof -
    have "x \<in> set (filter takes xs)" using that by simp
    then obtain k where "k < length (filter takes xs)" "filter takes xs ! k = x" by (metis in_set_conv_nth)
    with all show ?thesis by (metis list_all2_conv_all_nth nth_mem)
  qed
  then show "(ch, ConnectEstablished) \<in> set xs \<Longrightarrow> Established i \<in> set gs" "(ch, ConnectDestroyed) \<in> set xs \<Longrightarrow> Destroyed i \<in> set gs"
    using inj by (fastforce simp: takes_def stands_for_def)+
qed

lemma stands_for_back:
  assumes all: "list_all2 (stands_for s l) (filter takes xs) gs" and ch: "sy_chan s i = Some ch"
  shows "Established i \<in> set gs \<Longrightarrow> (ch, ConnectEstablished) \<in> set xs" "Destroyed i \<in> set gs \<Longrightarrow> (ch, ConnectDestroyed) \<in> set xs"
proof -
  have "\<exists>x \<in> set (filter takes xs). stands_for s l x g" if "g \<in> set gs" for g
    using all that by (metis in_set_conv_nth list_all2_conv_all_nth)
  then show "Established i \<in> set gs \<Longrightarrow> (ch, ConnectEstablished) \<in> set xs" "Destroyed i \<in> set gs \<Longrightarrow> (ch, ConnectDestroyed) \<in> set xs"
    using ch by (fastforce simp: takes_def stands_for_def split: if_splits)+
qed

text \<open>What is known of a connection that exists.\<close>

lemma sim_conn:
  assumes sim: "sys_sim hold s w" and ch: "sy_chan s i = Some ch"
  obtains c where "sy_cs s (home s i) ch = Some c" and "conn_sim hold w i (sy_el s (home s i)) ch c"
    and "home s i \<noteq> base_loop s" and "i < length (sy_conns s)"
    and "run_ok (mine ch (running (fst (sy_io s (home s i)))), (view ch (sy_el s (home s i)), c))"
    and "tc_channel c = ch" and "has_closed c \<longleftrightarrow> cb_phase (tc_trace c) = Some 3" and "has_closed c \<Longrightarrow> tc_state c = kDisconnected"
    and "tc_state c \<noteq> kConnecting \<Longrightarrow> Established i \<notin> set (el_pending (sw_loops w (home s i)))"
proof -
  let ?l = "home s i"
  note D = sys_simD [OF sim]
  obtain c where c: "sy_cs s ?l ch = Some c" "conn_sim hold w i (sy_el s ?l) ch c" using D(14) [OF ch] by blast
  have i: "i < length (sy_conns s)" by (rule D(13) [OF ch])
  have l: "?l \<noteq> base_loop s" by (rule D(6) [OF i])
  have ok: "conns_ok (running (fst (sy_io s ?l))) (sy_el s ?l, sy_cs s ?l)"
    using D(11) [OF l] by (cases "sy_io s ?l") (simp add: shared_ok_def sy_el_def sy_cs_def)
  note run = conns_okD(8) [OF ok c(1)] and tc = conns_okD(7) [OF ok c(1)]
  then have cok: "conn_ok (view ch (sy_el s ?l), c)" by (simp add: run_ok_def)
  have phase: "has_closed c \<longleftrightarrow> cb_phase (tc_trace c) = Some 3"
  proof
    assume "has_closed c"
    moreover obtain p where "cb_phase (tc_trace c) = Some p" using cok by (auto simp: conn_ok_def data_but_def)
    ultimately show "cb_phase (tc_trace c) = Some 3" using closed_phase by (auto simp: has_closed_def)
  next
    have "Called CloseCb \<in> set tr" if "cb_phase tr = Some 3" for tr
      using that
    proof (induction tr rule: rev_induct)
      case (snoc e tr)
      then obtain q where q: "cb_phase tr = Some q" "event_step e q = Some 3" by (auto split: Option.bind_splits)
      show ?case
      proof (cases "q = 3")
        case False
        with q(2) show ?thesis by (cases e) (auto elim: cb_step.elims split: if_splits)
      qed (use q snoc.IH in simp)
    qed simp
    then show "cb_phase (tc_trace c) = Some 3 \<Longrightarrow> has_closed c" by (simp add: has_closed_def)
  qed
  have dis: "has_closed c \<Longrightarrow> tc_state c = kDisconnected" using closed_disconnected [OF cok] by (simp add: has_closed_def)
  have est: "Established i \<notin> set (el_pending (sw_loops w ?l))" if "tc_state c \<noteq> kConnecting"
  proof
    assume "Established i \<in> set (el_pending (sw_loops w ?l))"
    then have "(ch, ConnectEstablished) \<in> set (io_queue (sy_io s ?l))" by (rule stands_for_back(1) [OF D(12) [OF l] ch])
    then have "ConnectEstablished \<in> set (mine ch (running (fst (sy_io s ?l))) @ mine ch (el_pending (sy_el s ?l)))"
      by (force simp: io_queue_def sy_el_def mine_def)
    with run that show False by (auto simp: run_ok_def)
  qed
  from that [OF c l i run tc phase dis est] show ?thesis .
qed

text \<open>The close callback of a connection tells the server.\<close>

lemma sim_close:
  assumes sim: "sys_sim (Some i) s w" and ch: "sy_chan s i = Some ch" and c: "sy_cs s (home s i) ch = Some c" "has_closed c"
  shows "\<exists>s' w'. sys_removeConnection (home s i) i s = Some s' \<and> sy_io s' = sy_io s \<and> sy_server s' = sy_server s
    \<and> sy_chan s' = sy_chan s \<and> sy_conns s' = sy_conns s \<and> srv_step w w' \<and> sys_sim None s' w'"
proof -
  let ?l = "home s i" and ?b = "base_loop s"
  note D = sys_simD [OF sim]
  have l: "?l \<noteq> ?b" "i < length (sy_conns s)" and st: "tc_state c = kDisconnected" and notc: "i \<notin> set (sw_closed w)"
    and est: "Established i \<notin> set (el_pending (sw_loops w ?l))"
    by (rule sim_conn [OF sim ch]; use c in \<open>auto simp: conn_sim_def\<close>)+
  obtain stg where stg: "at_stage w i stg" by (rule sim_stage [OF sim l(2)])
  have "stg \<noteq> Queued"
  proof
    assume "stg = Queued"
    then have "pending_of w i ?l = [Established i]" using stg D(4) by (simp add: at_stage_def home_def)
    with est show False by (auto simp: pending_of_def filter_eq_Cons_iff)
  qed
  with stg notc have "log_of w i = [Up i]" by (cases stg) (auto simp: at_stage_def)
  then have up: "Up i \<in> set (sw_log w)" by (auto simp: log_of_def filter_eq_Cons_iff)
  let ?tid = "el_threadId (sy_el s ?l)" and ?w = "w\<lparr>sw_closed := sw_closed w @ [i]\<rparr>"
  let ?w' = "post ?tid ?b (RemoveInLoop i) ?w"
  have tid: "loop_tid w ?l = ?tid" using D(10) [OF l(1)] by (simp add: loop_tid_def)
  have "inj (loop_tid w)" using D(1) unfolding srv_inv_def by blast
  then have "loop_tid w ?l \<noteq> loop_tid w ?b" using l(1) by (auto dest: injD)
  then have "\<not> isInLoopThread ?tid (sw_loops w ?b)" unfolding tid by (simp add: isInLoopThread_def loop_tid_def)
  then have "removeConnection (loop_tid w (co_loop (sw_conns w ! i))) i ?w = Some ?w'"
    using D(3,4) tid by (simp add: removeConnection_def srv_runInLoop_def base_loop_def home_def)
  from srv_close [OF up notc this] have step: "srv_step w ?w'" .
  have inv: "srv_inv ?w'" by (rule srv_step_inv [OF step D(1)])
  let ?s = "s\<lparr>sy_base := queueInLoop ?tid (RemoveInLoop i) (sy_base s)\<rparr>"
  have "\<not> isInLoopThread ?tid (sy_base s)"
    using \<open>\<not> isInLoopThread ?tid (sw_loops w ?b)\<close> D(7) by (simp add: isInLoopThread_def)
  then have run: "sys_removeConnection ?l i s = Some ?s" by (simp add: sys_removeConnection_def)
  have v [simp]: "base_loop ?s = ?b" "home ?s = home s" "sy_el ?s = sy_el s" "sy_cs ?s = sy_cs s" "stands_for ?s = stands_for s"
      "sy_io ?s = sy_io s" "sy_chan ?s = sy_chan s" "sy_conns ?s = sy_conns s" "sy_server ?s = sy_server s"
    by (auto simp: base_loop_def home_def sy_el_def sy_cs_def stands_for_def fun_eq_iff)
  have "loop_sim ?s ?w' l'" if "l' \<noteq> ?b" for l' using D(10-12) [OF that] that by (simp add: loop_sim_def)
  moreover have "\<exists>c. sy_cs s (home s j) ch' = Some c \<and> conn_sim None ?w' j (sy_el s (home s j)) ch' c"
    if j: "sy_chan s j = Some ch'" for j ch'
  proof (cases "j = i")
    case True
    with D(14) [OF j] ch c j show ?thesis by (auto simp: conn_sim_def log_of_def)
  next
    case False
    with D(14) [OF j] show ?thesis by (auto simp: conn_sim_def log_of_def)
  qed
  ultimately have "sys_sim None ?s ?w'"
    using D(2-9,13,15-17) inv unfolding sys_sim_def v by (auto simp: log_of_def)
  with run step v(6-9) show ?thesis by blast
qed

text \<open>
  What is to be shown of a step of a loop: the close callbacks that it makes return, and leave a state
  that the server can follow to.
\<close>

definition io_follows :: "srv_world \<Rightarrow> nat \<Rightarrow> shared_state \<Rightarrow> system \<Rightarrow> bool" where
  "io_follows w l t s \<longleftrightarrow> (\<exists>s' w'. io_done l t s = Some s' \<and> sy_io s' = (sy_io s)(l := t) \<and> sy_server s' = sy_server s
     \<and> sy_chan s' = sy_chan s \<and> sy_conns s' = sy_conns s \<and> srv_step\<^sup>*\<^sup>* w w' \<and> sys_sim None s' w')"

lemma io_follows_quiet:
  assumes "closing l t s = []" and "sys_sim None (s\<lparr>sy_io := (sy_io s)(l := t)\<rparr>) w"
  shows "io_follows w l t s"
  unfolding io_follows_def
  by (intro exI [of _ "s\<lparr>sy_io := (sy_io s)(l := t)\<rparr>"] exI [of _ w])
    (use assms in \<open>simp add: io_done_def\<close>)

lemma io_follows_step: "srv_step w w' \<Longrightarrow> io_follows w' l t s \<Longrightarrow> io_follows w l t s"
  unfolding io_follows_def by (meson converse_rtranclp_into_rtranclp)

text \<open>One connection of a loop has acted.\<close>

lemma acts_others:
  assumes ok: "conns_ok rs (el, cs)" and c: "cs i = Some c" and act: "acts i (view i el, c) (v, c')"
    and j: "j \<noteq> i" "j \<in> dom cs"
  shows "el_hasChannel j v = el_hasChannel j el"
proof -
  have fo: "foreign i (el_chans el) (poller_channels (el_poller el)) (el_chans v) (poller_channels (el_poller v))"
    using act poller_isolated.wf_fds [OF conns_okD(1) [OF ok, unfolded loop_wf_def]]
    by (simp add: acts_def el_foreign_def)
  have "j \<in> present el cs" using j(2) by (simp add: present_def)
  from foreignD [OF fo j(1)] foreign_tracked [OF fo j(1) fds_distinct [OF ok c this j(1)]]
  show ?thesis by (simp add: el_hasChannel_def hasChannel_eq)
qed

lemma filter_upt_eq: "i < n \<Longrightarrow> filter (\<lambda>j. j = i) [0..<n] = [i]"
  by (induction n) (auto simp: less_Suc_eq filter_empty_conv)

lemma closing_one:
  assumes sim: "sys_sim hold s w" and ch: "sy_chan s i = Some ch" "home s i = l" and c: "sy_cs s l ch = Some c"
    and t: "snd (snd t) = (sy_cs s l)(ch \<mapsto> c')"
  shows "closing l t s = (if \<not> has_closed c \<and> has_closed c' then [i] else [])"
proof -
  note D = sys_simD [OF sim]
  have i: "i < length (sy_conns s)" by (rule D(13) [OF ch(1)])
  have same: "\<not> close_called cs cs ch'" for cs ch' by (auto simp: close_called_def split: option.splits)
  have "(home s j = l \<and> (case sy_chan s j of Some ch \<Rightarrow> close_called (sy_cs s l) (snd (snd t)) ch | None \<Rightarrow> False))
      \<longleftrightarrow> j = i \<and> \<not> has_closed c \<and> has_closed c'" for j
  proof (cases "sy_chan s j")
    case None
    with ch show ?thesis by auto
  next
    case (Some ch')
    show ?thesis
    proof (cases "ch' = ch")
      case True
      then have "home s j = l \<longleftrightarrow> j = i" using D(15) [OF Some [unfolded True] ch(1)] ch(2) by auto
      then show ?thesis using Some True c t by (auto simp: close_called_def)
    next
      case False
      then have "close_called (sy_cs s l) (snd (snd t)) ch' = close_called (sy_cs s l) (sy_cs s l) ch'"
        by (simp add: close_called_def t)
      with False Some ch show ?thesis by (auto simp: same)
    qed
  qed
  moreover have "filter (\<lambda>j. j = i \<and> b) [0..<length (sy_conns s)] = (if b then [i] else [])" for b
    using filter_upt_eq [OF i] by (cases b) simp_all
  ultimately show ?thesis by (simp add: closing_def)
qed

lemma sim_act:
  assumes sim: "sys_sim None s w" and l: "l \<noteq> base_loop s" and io: "sy_io s l = (ph, (el, cs))"
    and ch: "sy_chan s i = Some ch" "home s i = l" and c: "cs ch = Some c"
    and el1: "el_pending el1 = el_pending el" "el_threadId el1 = el_threadId el" "\<And>j. el_hasChannel j el1 = el_hasChannel j el"
      "conns_ok rs (el1, cs)"
    and act: "acts ch (view ch el1, c) (v, c')" and cont: "continues c c'"
    and new: "ConnectEstablished \<notin> set (newly (view ch el1, c) (v, c'))" "ConnectDestroyed \<notin> set (newly (view ch el1, c) (v, c'))"
    and t: "t = (ph', (put_view ch v el, cs(ch \<mapsto> c')))" "shared_ok t"
    and w': "srv_inv w'" "sw_acceptor w' = sw_acceptor w" "sw_server w' = sw_server w" "sw_conns w' = sw_conns w"
      "sw_closed w' = sw_closed w" "loop_tid w' = loop_tid w" "\<And>l'. l' \<noteq> l \<Longrightarrow> sw_loops w' l' = sw_loops w l'"
      "\<And>j. j \<noteq> i \<Longrightarrow> log_of w' j = log_of w j"
    and queue: "list_all2 (stands_for s l) (filter takes (running ph' @ el_pending el)) (el_pending (sw_loops w' l))"
    and has: "el_hasChannel ch v \<longleftrightarrow> log_of w' i = [Up i]"
  shows "io_follows w' l t s"
proof -
  note D = sys_simD [OF sim]
  let ?s = "s\<lparr>sy_io := (sy_io s)(l := t)\<rparr>" and ?news = "newly (view ch el1, c) (v, c')"
  define hold where "hold = (if \<not> has_closed c \<and> has_closed c' then Some i else None)"
  have sy: "sy_el s l = el" "sy_cs s l = cs" by (simp_all add: sy_el_def sy_cs_def io)
  have mono: "has_closed c \<Longrightarrow> has_closed c'" using cont by (auto simp: has_closed_def continues_def dest: set_mono_prefix)
  have same: "same_loop (view ch el1) v" using act by (simp add: acts_def)
  have el': "el_pending (put_view ch v el) = el_pending el @ map (Pair ch) ?news" by (simp add: newly_def el1(1))
  have "filter takes (map (Pair ch) ?news) = []" using new by (auto simp: filter_empty_conv takes_def)
  then have "filter takes (io_queue t) = filter takes (running ph' @ el_pending el)"
    by (simp only: io_queue_def t(1) fst_conv snd_conv el' filter_append append_Nil2)
  then have queue': "list_all2 (stands_for s l) (filter takes (io_queue t)) (el_pending (sw_loops w' l))" using queue by (simp only:)
  obtain c0 where c0: "sy_cs s (home s i) ch = Some c0" "conn_sim None w i (sy_el s (home s i)) ch c0" using D(14) [OF ch(1)] by blast
  then have csim: "conn_sim None w i el ch c" using c ch(2) sy by simp
  have "sys_sim hold ?s w'"
  proof (rule sim_move [OF sim l t(2) _ _ w'(1-7) queue'])
    show "el_threadId (fst (snd t)) = el_threadId (sy_el s l)" using same el1(2) by (simp add: t(1) sy same_loop_def)
    show "dom (snd (snd t)) = dom (sy_cs s l)" using c by (auto simp: t(1) sy)
    show "log_of w' j = log_of w j \<and> hold \<noteq> Some j" if "sy_chan s j = None \<or> home s j \<noteq> l" for j
      using that ch w'(8) [of j] by (cases "j = i") (auto simp: hold_def)
    show "conn_sim hold w' j (fst (snd t)) ch' d"
      if j: "sy_chan s j = Some ch'" "home s j = l" "snd (snd t) ch' = Some d" for j ch' d
    proof (cases "ch' = ch")
      case True
      then have "j = i" "d = c'" using j ch D(15) [of j ch i] t(1) by simp_all
      with csim has cont mono show ?thesis by (auto simp: conn_sim_def True t(1) hold_def w'(5) continues_def)
    next
      case False
      then have ne: "j \<noteq> i" and d: "cs ch' = Some d" using j ch t(1) by auto
      have "el_hasChannel ch' v = el_hasChannel ch' el"
        using acts_others [OF el1(4) c act False] d el1(3) by auto
      moreover have "conn_sim None w j el ch' d" using D(14) [OF j(1)] j(2) d sy by auto
      ultimately show ?thesis using ne w'(8) [OF ne] by (simp add: conn_sim_def t(1) hold_def w'(5))
    qed
  qed
  moreover have cl: "closing l t s = (if hold = None then [] else [i])"
    using closing_one [OF sim ch, of c t c'] c by (simp add: sy t(1) hold_def)
  ultimately show ?thesis
  proof (cases hold)
    case None
    with \<open>sys_sim hold ?s w'\<close> cl show ?thesis by (intro io_follows_quiet) simp_all
  next
    case (Some j)
    then have hold: "hold = Some i" and "has_closed c'" by (auto simp: hold_def split: if_splits)
    have v: "home ?s i = l" "sy_cs ?s l ch = Some c'" using ch(2) by (simp_all add: home_def sy_cs_def t(1))
    have "\<exists>s' w''. sys_removeConnection (home ?s i) i ?s = Some s' \<and> sy_io s' = sy_io ?s \<and> sy_server s' = sy_server ?s
        \<and> sy_chan s' = sy_chan ?s \<and> sy_conns s' = sy_conns ?s \<and> srv_step w' w'' \<and> sys_sim None s' w''"
      by (rule sim_close [where ch = ch and c = c']) (use \<open>sys_sim hold ?s w'\<close> ch(1) v \<open>has_closed c'\<close> hold in simp_all)
    then obtain s' w'' where s': "sys_removeConnection l i ?s = Some s'" "sy_io s' = (sy_io s)(l := t)" "sy_server s' = sy_server s"
        "sy_chan s' = sy_chan s" "sy_conns s' = sy_conns s" "srv_step w' w''" "sys_sim None s' w''"
      unfolding v(1) by auto
    have "io_done l t s = Some s'" using s'(1) by (simp add: io_done_def cl hold)
    with s'(2-7) show ?thesis unfolding io_follows_def by blast
  qed
qed

section \<open>Each step is one of the loops' and one of the server's\<close>

text \<open>A connection that is down has nothing to do with the loop's channels any more.\<close>

lemma api_call_down:
  assumes "tc_state (snd w) = kDisconnected" and "api_call tid a w = Some w'"
  shows "tc_state (snd w') = kDisconnected \<and> el_chans (fst w') = el_chans (fst w) \<and> el_poller (fst w') = el_poller (fst w)"
  using assms
  by (cases w; cases a)
    (auto simp: api_call_def send_ptr_def send_string_def send_buffer_def shutdown_def forceClose_def)

lemma invoke_down:
  assumes st: "tc_state (snd w) = kDisconnected" and run: "invoke cb w = Some w'"
  shows "el_chans (fst w') = el_chans (fst w) \<and> el_poller (fst w') = el_poller (fst w)"
proof -
  have "tc_state (snd w') = kDisconnected \<and> el_chans (fst w') = el_chans (fst w) \<and> el_poller (fst w') = el_poller (fst w)"
  proof (rule bind_fold_invariant [where P = "\<lambda>w'. tc_state (snd w') = kDisconnected \<and> el_chans (fst w') = el_chans (fst w)
      \<and> el_poller (fst w') = el_poller (fst w)"])
    show "bind_fold (api_call (el_threadId (fst w))) (tc_user (snd w) (length (tc_trace (snd w))) cb)
        (apsnd (trace (Called cb)) w) = Some w'"
      using run by (simp add: invoke_def)
  qed (use st api_call_down in \<open>auto simp: apsnd_def\<close>)
  then show ?thesis by simp
qed

lemma functor_down:
  assumes "tc_state (snd w) = kDisconnected" and "exec_functor f w = Some w'" and "f \<noteq> ConnectEstablished" "f \<noteq> ConnectDestroyed"
  shows "el_hasChannel ch (fst w') = el_hasChannel ch (fst w)"
proof -
  have "el_chans (fst w') = el_chans (fst w) \<and> el_poller (fst w') = el_poller (fst w)"
    by (cases f) (use assms invoke_down [OF assms(1)] in
      \<open>auto simp: send_bound_def sendInLoop_def shutdownInLoop_def forceCloseInLoop_def split: if_splits option.splits\<close>)
  then show ?thesis by (simp add: el_hasChannel_def)
qed

lemma functor_steady:
  assumes "run_ok (f # fs, w)" and "exec_functor f w = Some w'" and "f \<noteq> ConnectDestroyed"
  shows "steady w w'" "f = ConnectEstablished \<Longrightarrow> el_hasChannel (tc_channel (snd w)) (fst w')"
proof -
  have "steady w w' \<and> (f = ConnectEstablished \<longrightarrow> el_hasChannel (tc_channel (snd w)) (fst w'))"
  proof (cases "tc_state (snd w) = kConnecting")
    case True
    then have "f = ConnectEstablished" "conn_ok w" using assms(1) by (auto simp: run_ok_def)
    with connectEstablished_ok [OF this(2) True] assms(2) show ?thesis by auto
  next
    case False
    then have "f \<noteq> ConnectEstablished" "conn_ok w" using assms(1) by (auto simp: run_ok_def)
    with exec_functor_ok [OF this(2) False this(1) assms(3) exec_not_dangling [OF assms(2)]] assms(2) show ?thesis by auto
  qed
  then show "steady w w'" "f = ConnectEstablished \<Longrightarrow> el_hasChannel (tc_channel (snd w)) (fst w')" by blast+
qed

lemma destroyed_gone:
  assumes "run_ok (ConnectDestroyed # fs, w)" and "functor_enabled ConnectDestroyed w" and "connectDestroyed w = Some w'"
  shows "after_destroy w w'"
proof -
  have "tc_state (snd w) \<noteq> kConnecting" using assms(1) by (auto simp: run_ok_def)
  then have st: "tc_state (snd w) = kConnected \<or> tc_state (snd w) = kDisconnected" and has: "el_hasChannel (tc_channel (snd w)) (fst w)"
    using assms(2) by (cases "tc_state (snd w)"; simp add: functor_enabled_def)+
  have "conn_ok w" using assms(1) by (simp add: run_ok_def)
  from connectDestroyed_ok [OF this st has] assms(3) show ?thesis by auto
qed

text \<open>A connection that is neither waiting to come up nor down is up for the server.\<close>

lemma sim_up:
  assumes sim: "sys_sim None s w" and ch: "sy_chan s i = Some ch" and c: "sy_cs s (home s i) ch = Some c"
    and st: "tc_state c \<noteq> kConnecting" "tc_state c \<noteq> kDisconnected"
  shows "log_of w i = [Up i]"
proof -
  have i: "i < length (sy_conns s)" and est: "Established i \<notin> set (el_pending (sw_loops w (home s i)))"
    and notc: "i \<notin> set (sw_closed w)"
    by (rule sim_conn [OF sim ch]; use c st in \<open>auto simp: conn_sim_def\<close>)+
  obtain stg where stg: "at_stage w i stg" by (rule sim_stage [OF sim i])
  have "stg \<noteq> Queued"
  proof
    assume "stg = Queued"
    then have "pending_of w i (home s i) = [Established i]" using stg sys_simD(4) [OF sim] by (simp add: at_stage_def home_def)
    with est show False by (auto simp: pending_of_def filter_eq_Cons_iff)
  qed
  with stg notc show ?thesis by (cases stg) (auto simp: at_stage_def)
qed

lemma closing_none:
  assumes "\<And>ch c'. snd (snd t) ch = Some c' \<Longrightarrow> has_closed c' \<Longrightarrow> (\<exists>c. sy_cs s l ch = Some c \<and> has_closed c)"
  shows "closing l t s = []"
proof -
  have "\<not> close_called (sy_cs s l) (snd (snd t)) ch" for ch
    using assms [of ch] by (auto simp: close_called_def split: option.splits)
  then show ?thesis by (auto simp: closing_def filter_empty_conv split: option.splits)
qed

text \<open>The functors that may be run are those that are there.\<close>

lemma sim_may_run:
  assumes sim: "sys_sim None s w" and l: "l \<noteq> base_loop s" and io: "sy_io s l = (Running ((ch, f) # fs), (el, cs))"
  obtains i c where "sy_chan s i = Some ch" and "home s i = l" and "cs ch = Some c"
    and "may_run (ch, f) (el, cs)" and "conn_sim None w i el ch c"
    and "i < length (sy_conns s)"
proof -
  note D = sys_simD [OF sim]
  have sy: "sy_el s l = el" "sy_cs s l = cs" by (simp_all add: sy_el_def sy_cs_def io)
  have ok: "conns_ok ((ch, f) # fs) (el, cs)" using D(11) [OF l] by (simp add: shared_ok_def io)
  then obtain c where c: "cs ch = Some c" using conns_okD(6) [OF ok] by auto
  then obtain i where i: "sy_chan s i = Some ch" "home s i = l" using D(16) [OF l] sy by blast
  obtain csim: "conn_sim None w i el ch c" and n: "i < length (sy_conns s)" and down: "has_closed c \<Longrightarrow> tc_state c = kDisconnected"
    by (rule sim_conn [OF sim i(1)]) (use c i sy in auto)
  have chc: "tc_channel c = ch" by (rule conns_okD(7) [OF ok c])
  have "functor_enabled f (view ch el, c)"
  proof (cases "f = ConnectDestroyed")
    case True
    then have "(ch, ConnectDestroyed) \<in> set (io_queue (sy_io s l))" by (simp add: io_queue_def io)
    from stands_forD(2) [OF D(12) [OF l] _ this] D(15) i have "Destroyed i \<in> set (el_pending (sw_loops w l))" by blast
    moreover obtain stg where "at_stage w i stg" by (rule sim_stage [OF sim n])
    ultimately have "log_of w i = [Up i]" "i \<in> set (sw_closed w)" using stage_pendingD(3) by (auto simp: at_stage_def)
    then have "el_hasChannel ch el" "tc_state c = kDisconnected" using csim down by (simp_all add: conn_sim_def)
    then show ?thesis by (simp add: functor_enabled_def chc)
  qed (simp add: functor_enabled_def)
  then have "may_run (ch, f) (el, cs)" by (simp add: may_run_def c)
  from that [OF i c this csim n] show ?thesis .
qed

lemma run_sim:
  assumes sim: "sys_sim None s w" and l: "l \<noteq> base_loop s" and io: "sy_io s l = (Running (x # fs), u)"
    and run: "exec_shared x u = Some u'"
  shows "shared_step others (sy_io s l) (Running fs, u') \<and> io_follows w l (Running fs, u') s"
proof -
  note D = sys_simD [OF sim]
  obtain ch f el cs where x: "x = (ch, f)" "u = (el, cs)" by (cases x; cases u)
  have io': "sy_io s l = (Running ((ch, f) # fs), (el, cs))" by (simp add: io x)
  obtain i c0 where i: "sy_chan s i = Some ch" "home s i = l" "cs ch = Some c0" "may_run (ch, f) (el, cs)" "conn_sim None w i el ch c0"
      "i < length (sy_conns s)"
    by (rule sim_may_run [OF sim l io'])
  have step: "shared_step oth (sy_io s l) (Running fs, u')" for oth unfolding io' using i(4) run by (intro sh_run) (simp_all add: x)
  have ok': "shared_ok (Running fs, u')" by (rule shared_step_ok [OF step D(11) [OF l]])
  have ok: "conns_ok ((ch, f) # fs) (el, cs)" using D(11) [OF l] by (simp add: shared_ok_def io')
  obtain c v c' where e: "cs ch = Some c" "functor_enabled f (view ch el, c)" "exec_functor f (view ch el, c) = Some (v, c')"
      "exec_shared (ch, f) (el, cs) = Some (put_view ch v el, cs(ch \<mapsto> c'))" "acts ch (view ch el, c) (v, c')"
    by (rule exec_ok [OF ok i(4) exec_shared_not_dangling [OF run [unfolded x]]]) blast
  have c0: "c0 = c" using e(1) i(3) by simp
  note csim = i(5) [unfolded c0]
  have t: "(Running fs, u') = (Running fs, (put_view ch v el, cs(ch \<mapsto> c')))" using e(4) run by (simp add: x)
  have run_ok: "run_ok (f # mine ch fs, (view ch el, c))" and chc: "tc_channel c = ch" using conns_okD(7,8) [OF ok e(1)] by simp_all
  have cont: "continues c c'" using conn_history.R_exec_functor [OF e(3)] by simp
  have nd: "ConnectDestroyed \<notin> set (newly (view ch el, c) (v, c'))"
    using conn_destruction.R_exec_functor [OF e(3)] csim by (simp add: conn_sim_def)
  have queue: "list_all2 (stands_for s l) (filter takes ((ch, f) # fs @ el_pending el)) (el_pending (sw_loops w l))"
    using D(12) [OF l] by (simp add: io_queue_def io')
  have act: "io_follows w' l (Running fs, u') s"
    if new: "ConnectEstablished \<notin> set (newly (view ch el, c) (v, c'))"
      and w': "srv_inv w'" "sw_acceptor w' = sw_acceptor w" "sw_server w' = sw_server w" "sw_conns w' = sw_conns w"
      "sw_closed w' = sw_closed w" "loop_tid w' = loop_tid w" "\<And>l'. l' \<noteq> l \<Longrightarrow> sw_loops w' l' = sw_loops w l'"
      "\<And>j. j \<noteq> i \<Longrightarrow> log_of w' j = log_of w j"
      and q: "list_all2 (stands_for s l) (filter takes (fs @ el_pending el)) (el_pending (sw_loops w' l))"
      and has: "el_hasChannel ch v \<longleftrightarrow> log_of w' i = [Up i]" for w'
    by (rule sim_act [OF sim l io' i(1,2) e(1) _ _ _ ok e(5) cont new nd t ok' w'])
      (use q has in simp_all)
  obtain stg where stg: "at_stage w i stg" by (rule sim_stage [OF sim i(6)])
  have "io_follows w l (Running fs, u') s"
  proof (cases "takes (ch, f)")
    case False
    then have f: "f \<noteq> ConnectEstablished" "f \<noteq> ConnectDestroyed" by (simp_all add: takes_def)
    have st: "steady (view ch el, c) (v, c')" by (rule functor_steady(1) [OF run_ok e(3) f(2)])
    have kc: "tc_state c \<noteq> kConnecting" using run_ok f(1) by (auto simp: run_ok_def)
    have "el_hasChannel ch v = el_hasChannel ch el"
    proof (cases "tc_state c = kDisconnected")
      case True
      with functor_down [OF _ e(3) f, of ch] show ?thesis by simp
    next
      case False
      have "log_of w i = [Up i]"
        by (rule sim_up [OF sim i(1) _ kc False]) (use i(2) e(1) in \<open>simp add: sy_cs_def io'\<close>)
      then have "el_hasChannel ch el" using csim by (simp add: conn_sim_def)
      with st show ?thesis by (simp add: steady_def chc)
    qed
    then show ?thesis
      using act [of w] D(1) st queue False csim by (simp add: steady_def conn_sim_def)
  next
    case True
    then obtain g gs where g: "el_pending (sw_loops w l) = g # gs" "stands_for s l (ch, f) g"
        "list_all2 (stands_for s l) (filter takes (fs @ el_pending el)) gs"
      using queue by (auto simp: list_all2_Cons1)
    have g': "g = (if f = ConnectEstablished then Established i else Destroyed i)"
      using g(2) D(15) [OF _ i(1)] i(2) by (fastforce simp: stands_for_def)
    let ?e = "if f = ConnectEstablished then Up i else Down i"
    let ?w' = "logged ?e (pop_pending l w)"
    have step': "srv_step w ?w'" by (rule srv_run [OF g(1)]) (simp add: g')
    have log: "log_of ?w' j = (if j = i then log_of w i @ [?e] else log_of w j)" for j
      by (simp add: log_of_def pop_pending_def)
    have stg': "stg = (if f = ConnectEstablished then Queued else Removed)"
      using stage_pendingD(1,3) [OF stg, of l] g(1) g' by (auto split: if_splits)
    have "ConnectEstablished \<notin> set (newly (view ch el, c) (v, c')) \<and> (el_hasChannel ch v \<longleftrightarrow> log_of ?w' i = [Up i])"
    proof (cases "f = ConnectEstablished")
      case True
      with functor_steady [OF run_ok e(3)] stg stg' log [of i] show ?thesis by (simp add: steady_def chc at_stage_def)
    next
      case False
      then have f: "f = ConnectDestroyed" using \<open>takes (ch, f)\<close> by (simp add: takes_def)
      have "after_destroy (view ch el, c) (v, c')"
        by (rule destroyed_gone [OF run_ok [unfolded f] e(2) [unfolded f]]) (use e(3) f in simp)
      with stg stg' f log [of i] show ?thesis by (simp add: after_destroy_def chc at_stage_def)
    qed
    moreover have "sw_loops ?w' l' = sw_loops w l'" if "l' \<noteq> l" for l' using that by (simp add: pop_pending_def)
    moreover have "loop_tid ?w' = loop_tid w" by (simp add: pop_pending_def loop_tid_def fun_eq_iff)
    moreover have "el_pending (sw_loops ?w' l) = gs" by (simp add: pop_pending_def g(1))
    ultimately have "io_follows ?w' l (Running fs, u') s"
      by (intro act) (use srv_step_inv [OF step' D(1)] g(3) log in \<open>simp_all add: pop_pending_def\<close>)
    with step' show ?thesis by (rule io_follows_step)
  qed
  with step show ?thesis by blast
qed

lemma handle_sim:
  assumes sim: "sys_sim None s w" and l: "l \<noteq> base_loop s" and io: "sy_io s l = (Handling (ch # chs), u)"
    and run: "dispatch call_shared shared_alive ch u = Some u'"
  shows "io_follows w l (Handling chs, u') s"
proof -
  note D = sys_simD [OF sim]
  obtain el cs where u: "u = (el, cs)" by (cases u)
  have sy: "sy_el s l = el" "sy_cs s l = cs" by (simp_all add: sy_el_def sy_cs_def io u)
  have "shared_step others (sy_io s l) (Handling chs, u')" for others unfolding io by (rule sh_handle [OF run])
  then have ok': "shared_ok (Handling chs, u')" using shared_step_ok D(11) [OF l] by blast
  have ok: "conns_ok [] (el, cs)" "\<not> el_calling el" "handling_ok (ch # chs) (el, cs)"
    using D(11) [OF l] by (simp_all add: shared_ok_def io u)
  show ?thesis
  proof (cases "ch = el_wakeupChannel el")
    case True
    obtain el' where el': "dispatch call_shared shared_alive ch (el, cs) = Some (el', cs)" "el_chans el' = el_chans el"
        "el_poller el' = el_poller el" "el_pending el' = el_pending el" "el_threadId el' = el_threadId el"
      using wake_dispatch [OF conns_okD(2) [OF ok(1)], of cs] True by blast
    have u': "u' = (el', cs)" using el'(1) run by (simp add: u)
    have "sys_sim None (s\<lparr>sy_io := (sy_io s)(l := (Handling chs, u'))\<rparr>) w"
      by (rule sim_unseen [OF sim l ok'])
        (simp_all add: u' sy el'(2-5) io_queue_def io u el_hasChannel_def)
    then show ?thesis by (intro io_follows_quiet closing_none) (auto simp: u' sy)
  next
    case False
    let ?el = "el\<lparr>el_current := Some ch\<rparr>"
    obtain c v c' hs where r: "cs ch = Some c" "hs = handleEvent (shared_alive cs) (el_pollReturnTime el) (el_chans el ch)"
        "bind_fold call_handler hs ((view ch el)\<lparr>el_current := Some ch\<rparr>, c) = Some (v, c')"
        "dispatch call_shared shared_alive ch (el, cs) = Some (put_view ch v el, cs(ch \<mapsto> c'))"
        "acts ch (view ch ?el, c) (v, c')" "run_ok ([], (v, c'))" "no_wakeup hs"
        "steady ((view ch el)\<lparr>el_current := Some ch\<rparr>, c) (v, c')"
      by (rule conn_dispatch [OF ok False])
    have view: "view ch ?el = (view ch el)\<lparr>el_current := Some ch\<rparr>" by (rule evloop.equality) simp_all
    obtain i where i: "sy_chan s i = Some ch" "home s i = l" using D(16) [OF l] r(1) sy by blast
    have csim: "conn_sim None w i el ch c" and n: "i < length (sy_conns s)"
      by (rule sim_conn [OF sim i(1)]; use r(1) i sy in auto)+
    have ok1: "conns_ok [] (?el, cs)" by (rule conns_ok_shift [OF ok(1)]) simp_all
    have cont: "continues c c'"
      using conn_history.R_fold [OF _ r(3)] conn_history.R_call_handler r(7) by fastforce
    have nd: "ConnectDestroyed \<notin> set (newly ((view ch el)\<lparr>el_current := Some ch\<rparr>, c) (v, c'))"
      using conn_destruction.R_fold [OF _ r(3)] conn_destruction.R_call_handler r(7) csim by (fastforce simp: conn_sim_def)
    have has: "el_hasChannel ch el" using ok(3) False by (simp add: handling_ok_def)
    moreover have "tc_channel c = ch" by (rule conns_okD(7) [OF ok(1) r(1)])
    ultimately have "el_hasChannel ch v" using r(8) by (simp add: steady_def el_hasChannel_def)
    moreover have "log_of w i = [Up i]" using has csim by (simp add: conn_sim_def)
    moreover have "list_all2 (stands_for s l) (filter takes (el_pending el)) (el_pending (sw_loops w l))"
      using D(12) [OF l] by (simp add: io_queue_def io u)
    moreover have t: "(Handling chs, u') = (Handling chs, (put_view ch v el, cs(ch \<mapsto> c')))" using r(4) run by (simp add: u)
    moreover have "el_hasChannel j ?el = el_hasChannel j el" for j by (simp add: el_hasChannel_def)
    ultimately show ?thesis
      by (intro sim_act [OF sim l io [unfolded u] i r(1) _ _ _ ok1 r(5) cont _ _ t ok' D(1)])
        (use r(8) nd in \<open>simp_all add: view steady_def\<close>)
  qed
qed

lemma loop_sim_step:
  assumes sim: "sys_sim None s w" and l: "l \<noteq> base_loop s" and step: "io_step (sy_io s l) t"
  shows "shared_step others (sy_io s l) t \<and> io_follows w l t s"
proof -
  note D = sys_simD [OF sim]
  have unseen: "io_follows w l t s"
    if "shared_step True (sy_io s l) t" "el_threadId (fst (snd t)) = el_threadId (sy_el s l)" "snd (snd t) = sy_cs s l"
      "io_queue t = io_queue (sy_io s l)" "\<And>ch. el_hasChannel ch (fst (snd t)) = el_hasChannel ch (sy_el s l)"
    using sim_unseen [OF sim l _ that(2-5)] shared_step_ok [OF that(1) D(11) [OF l]] that(3)
    by (intro io_follows_quiet closing_none) auto
  from step show ?thesis
  proof cases
    case (io_poll ans el ti el' cs)
    have st: "shared_step oth (sy_io s l) t" for oth unfolding io_poll(1,2) by (rule sh_poll [OF io_poll(3,4)])
    have "conns_ok [] (el, cs)" using D(11) [OF l] by (simp add: shared_ok_def io_poll(1))
    with poll_ok [OF this io_poll(3), of ti] io_poll(4)
    have "el_pending el' = el_pending el" "el_threadId el' = el_threadId el" "\<And>ch. el_hasChannel ch el' = el_hasChannel ch el"
      by auto
    with st show ?thesis by (intro conjI unseen) (simp_all add: io_poll(1,2) sy_el_def sy_cs_def io_queue_def)
  next
    case (io_handle ch u u' chs)
    have "shared_step others (sy_io s l) t" unfolding io_handle(1,2) by (rule sh_handle [OF io_handle(3)])
    with handle_sim [OF sim l io_handle(1,3)] io_handle(2) show ?thesis by simp
  next
    case (io_begin el el' fs cs)
    have st: "shared_step oth (sy_io s l) t" for oth unfolding io_begin(1,2) by (rule sh_begin [OF io_begin(3)])
    have "el' = el\<lparr>el_calling := True, el_pending := []\<rparr>" "fs = el_pending el" using io_begin(3) by (auto simp: begin_pending_def)
    with st show ?thesis
      by (intro conjI unseen) (simp_all add: io_begin(1,2) sy_el_def sy_cs_def io_queue_def el_hasChannel_def)
  next
    case (io_run f u u' fs)
    with run_sim [OF sim l io_run(1,3)] show ?thesis by simp
  next
    case (io_end el cs)
    have st: "shared_step oth (sy_io s l) t" for oth unfolding io_end(1,2) by (rule sh_end)
    then show ?thesis by (intro conjI unseen) (simp_all add: io_end(1,2) sy_el_def sy_cs_def io_queue_def el_hasChannel_def)
  qed
qed

text \<open>The base loop accepts.\<close>

lemma next_loop_pool:
  assumes sim: "sys_sim hold s w" and nxt: "getNextLoop (ts_pool (sy_server s)) = Some (l, pool)"
  shows "l \<noteq> base_loop s" "getAllLoops pool = getAllLoops (ts_pool (sy_server s))"
proof -
  note D = sys_simD [OF sim]
  have lp: "lp_ok (ts_pool (sy_server s))" using D(1,3) unfolding srv_inv_def by auto
  have pool: "l = getAllLoops (ts_pool (sy_server s)) ! lp_next (ts_pool (sy_server s))"
      "getAllLoops pool = getAllLoops (ts_pool (sy_server s))"
    using getNextLoop_ok(1,3) [OF lp] nxt by auto
  have "lp_next (ts_pool (sy_server s)) < length (getAllLoops (ts_pool (sy_server s)))"
    using lp by (auto simp: lp_ok_def getAllLoops_def)
  from nth_mem [OF this] show "l \<noteq> base_loop s" using D(5) pool(1) by metis
  show "getAllLoops pool = getAllLoops (ts_pool (sy_server s))" by (rule pool(2))
qed

lemma accept_sim:
  assumes sim: "sys_sim None s w" and nxt: "getNextLoop (ts_pool (sy_server s)) = Some (l, pool)"
    and can: "can_open sockfd ch wr rd (server_user user) (snd (sy_io s l))" and user: "leaves_destruction (server_user user)"
    and run: "sys_newConnection sockfd peer loc ch wr rd user s = Some s'"
  shows "l \<noteq> base_loop s \<and> shared_step others (sy_io s l) (sy_io s' l) \<and> (\<forall>l'. l' \<noteq> l \<longrightarrow> sy_io s' l' = sy_io s l')
    \<and> base_loop s' = base_loop s \<and> (\<exists>w'. srv_step w w' \<and> sys_sim None s' w') \<and> (raw_covered s \<longrightarrow> raw_covered s')"
proof -
  note D = sys_simD [OF sim]
  let ?b = "base_loop s" and ?n = "length (sy_conns s)" and ?srv = "sy_server s" and ?tid = "el_threadId (sy_base s)"
  have lp: "inj (loop_tid w)" using D(1) unfolding srv_inv_def by blast
  note l = next_loop_pool(1) [OF sim nxt] and pool = next_loop_pool(2) [OF sim nxt]
  obtain ph el cs where io: "sy_io s l = (ph, (el, cs))" by (cases "sy_io s l") auto
  have sy: "sy_el s l = el" "sy_cs s l = cs" by (simp_all add: sy_el_def sy_cs_def io)
  have ok: "conns_ok (running ph) (el, cs)" using D(11) [OF l] by (simp add: shared_ok_def io)
  have can': "can_open sockfd ch wr rd (server_user user) (el, cs)" using can by (simp add: io)
  let ?wc = "uc_writeComplete (ts_callbacks ?srv)"
  obtain el' c where o: "open_conn ?wc (conn_name ?srv) sockfd ch wr rd (server_user user) (el, cs) = (el', cs(ch \<mapsto> c))"
      "\<exists>c0. (view ch el', c0) = new_conn (conn_name ?srv) sockfd ch wr rd (server_user user) (view ch el) \<and> fresh_conn (view ch el', c0)
        \<and> c = (if ?wc then setWriteCompleteCallback c0 else c0)" "fresh_conn (view ch el', c)"
      "el' = el\<lparr>el_chans := (el_chans el)(ch := conn_callbacks (new_channel sockfd))\<rparr>"
      "mine ch (running ph) = []" "mine ch (el_pending el) = []"
    by (rule open_fresh [OF ok can', where wc = ?wc and name = "conn_name ?srv"])
  have tid: "?tid \<noteq> el_threadId el"
    using injD [OF lp, of ?b l] l D(7) D(10) [OF l] sy by (auto simp: loop_tid_def)
  let ?el = "queueInLoop ?tid (ch, ConnectEstablished) el'"
  have max: "ts_nextConnId ?srv \<noteq> INT_MAX" using run by (auto simp: sys_newConnection_def nxt Let_def)
  have inloop: "runInLoop exec_shared ?tid (ch, ConnectEstablished)
      (open_conn ?wc (conn_name ?srv) sockfd ch wr rd (server_user user) (el, cs)) = Some (?el, cs(ch \<mapsto> c))"
    unfolding o(1) using tid by (simp add: runInLoop_def isInLoopThread_def o(4))
  have q: "el_threadId ?el = el_threadId el" "el_pending ?el = el_pending el @ [(ch, ConnectEstablished)]"
      "el_chans ?el = el_chans el'" "el_poller ?el = el_poller el"
    by (simp_all add: queueInLoop_def wakeup_def Let_def o(4))
  define srv' where "srv' = ?srv\<lparr>ts_pool := pool, ts_nextConnId := ts_nextConnId ?srv + 1,
      ts_connections := (ts_connections ?srv)(conn_name ?srv \<mapsto> ?n)\<rparr>"
  define conn where "conn = \<lparr>co_name = conn_name ?srv, co_loop = l, co_sockfd = sockfd,
      co_local = loc, co_peer = peer, co_callbacks = ts_callbacks ?srv\<rparr>"
  have s': "s' = s\<lparr>sy_server := srv', sy_conns := sy_conns s @ [conn], sy_chan := (sy_chan s)(?n \<mapsto> ch),
      sy_io := (sy_io s)(l := (ph, (?el, cs(ch \<mapsto> c))))\<rparr>"
    using run inloop max by (simp add: sys_newConnection_def nxt Let_def io srv'_def conn_def)
  have shared: "shared_step oth (sy_io s l) (sy_io s' l)" for oth
    unfolding s' io using sh_open [OF can' inloop] by simp
  have ok': "shared_ok (ph, (?el, cs(ch \<mapsto> c)))" using shared_step_ok [OF shared D(11) [OF l]] by (simp add: s')
  let ?w1 = "w\<lparr>sw_server := srv', sw_conns := sw_conns w @ [conn]\<rparr>"
  let ?w' = "post ?tid l (Established ?n) ?w1"
  have "\<not> isInLoopThread ?tid (sw_loops w l)" using D(10) [OF l] tid sy by (simp add: isInLoopThread_def)
  then have "newConnection ?tid sockfd peer loc w = Some ?w'"
    using max by (simp add: newConnection_def D(3,4) nxt Let_def srv_runInLoop_def srv'_def conn_def)
  moreover have "0 \<le> sockfd" using can' by (simp add: can_open_def)
  ultimately have "acceptor_handleRead (loop_tid w (ts_loop (sw_server w))) (sockfd, peer) peer loc w = Some ?w'"
    using D(2,3,7) by (simp add: acceptor_handleRead_def sock_accept_def loop_tid_def base_loop_def)
  from srv_accept [OF this] have step: "srv_step w ?w'" .
  have inv: "srv_inv ?w'" by (rule srv_step_inv [OF step D(1)])
  have fresh: "log_of w ?n = []" "?n \<notin> set (sw_closed w)"
    using D(1,4) unfolding srv_inv_def log_of_def by (auto simp: filter_empty_conv)
  have new: "ch \<notin> dom cs" using can' by (simp add: can_open_def present_def)
  have nth: "home s' i = (if i = ?n then l else home s i)" if "i \<le> ?n" for i
    using that by (auto simp: home_def s' nth_append conn_def)
  have chan: "sy_chan s' i = (if i = ?n then Some ch else sy_chan s i)" for i by (simp add: s')
  have v: "base_loop s' = ?b" "sy_base s' = sy_base s" "length (sy_conns s') = Suc ?n" "sy_el s' l = ?el" "sy_cs s' l = cs(ch \<mapsto> c)"
      "\<And>l'. l' \<noteq> l \<Longrightarrow> sy_io s' l' = sy_io s l'" "\<And>l'. l' \<noteq> l \<Longrightarrow> sy_el s' l' = sy_el s l'" "\<And>l'. l' \<noteq> l \<Longrightarrow> sy_cs s' l' = sy_cs s l'"
      "getAllLoops (ts_pool (sy_server s')) = getAllLoops (ts_pool ?srv)" "sy_io s' l = (ph, (?el, cs(ch \<mapsto> c)))"
    by (simp_all add: s' base_loop_def sy_el_def sy_cs_def srv'_def pool)
  have none: "sy_chan s ?n = None" using D(13) [of ?n] by (cases "sy_chan s ?n") auto
  have stands: "stands_for s' l' x g" if old: "stands_for s l' x g" for l' x g
  proof -
    obtain i where "i < ?n" "home s i = l'" "sy_chan s i = Some (fst x)"
        "g = (if snd x = ConnectEstablished then Established i else Destroyed i)"
      using old unfolding stands_for_def by blast
    then show ?thesis unfolding stands_for_def v(3) by (intro exI [of _ i]) (simp add: nth chan)
  qed
  have has: "el_hasChannel j ?el = el_hasChannel j el" if "j \<noteq> ch" for j
    using that by (simp add: el_hasChannel_def hasChannel_eq q o(4))
  have c: "tc_user c = server_user user" "tc_trace c = []" "tc_channel c = ch"
    using o(2) by (auto simp: new_conn_def write_complete_kept)
  have nohas: "\<not> el_hasChannel ch ?el" using o(3) c(3) by (simp add: fresh_conn_def el_hasChannel_def q o(4))
  have loops: "loop_sim s' ?w' l'" if "l' \<noteq> ?b" for l'
  proof (cases "l' = l")
    case True
    have "list_all2 (stands_for s' l) (filter takes (io_queue (sy_io s l))) (el_pending (sw_loops w l))"
      by (rule list_all2_mono [OF D(12) [OF l] stands])
    moreover have "io_queue (sy_io s' l) = io_queue (sy_io s l) @ [(ch, ConnectEstablished)]"
      by (simp add: io_queue_def v io q o(4))
    moreover have "stands_for s' l (ch, ConnectEstablished) (Established ?n)"
      by (auto simp: stands_for_def v(3) nth chan intro!: exI [of _ ?n])
    ultimately have "list_all2 (stands_for s' l) (filter takes (io_queue (sy_io s' l))) (el_pending (sw_loops w l) @ [Established ?n])"
      by (simp add: takes_def list_all2_appendI)
    with True D(10) [OF l] ok' show ?thesis by (simp add: loop_sim_def v sy) (simp add: o(4))
  next
    case False
    with D(10-12) [OF that] list_all2_mono [OF D(12) [OF that] stands] show ?thesis by (simp add: loop_sim_def v)
  qed
  have conns: "\<exists>d. sy_cs s' (home s' i) ch' = Some d \<and> conn_sim None ?w' i (sy_el s' (home s' i)) ch' d"
    if i: "sy_chan s' i = Some ch'" for i ch'
  proof (cases "i = ?n")
    case True
    with i nohas fresh user c show ?thesis by (simp add: nth v chan conn_sim_def has_closed_def log_of_def)
  next
    case False
    then have i': "sy_chan s i = Some ch'" "i < ?n" using i D(13) by (auto simp: chan)
    then have h: "home s' i = home s i" by (simp add: nth)
    obtain d where d: "sy_cs s (home s i) ch' = Some d" "conn_sim None w i (sy_el s (home s i)) ch' d" using D(14) [OF i'(1)] by blast
    show ?thesis
    proof (cases "home s i = l")
      case True
      then have "ch' \<noteq> ch" using d(1) new sy by auto
      with d has True sy h show ?thesis by (simp add: v conn_sim_def log_of_def)
    next
      case False
      with d h show ?thesis by (simp add: v conn_sim_def log_of_def)
    qed
  qed
  have inj: "i = j" if ij: "sy_chan s' i = Some ch'" "sy_chan s' j = Some ch'" "home s' i = home s' j" for i j ch'
  proof -
    have lt: "i \<le> ?n" "j \<le> ?n" using ij(1,2) D(13) by (auto simp: chan split: if_splits dest: less_imp_le)
    have old: "\<not> (sy_chan s k = Some ch \<and> home s k = l)" for k using D(14) [of k ch] new sy by auto
    from ij lt show ?thesis using D(15) old by (auto simp: chan nth split: if_splits)
  qed
  have doms: "\<exists>i. sy_chan s' i = Some ch' \<and> home s' i = l'" if dm: "l' \<noteq> ?b" "ch' \<in> dom (sy_cs s' l')" for l' ch'
  proof (cases "l' = l \<and> ch' = ch")
    case True
    then show ?thesis by (intro exI [of _ ?n]) (simp add: chan nth)
  next
    case False
    then have "ch' \<in> dom (sy_cs s l')" using dm(2) by (cases "l' = l") (auto simp: v sy)
    then obtain i where "sy_chan s i = Some ch'" "home s i = l'" using D(16) [OF dm(1)] by blast
    moreover from this have "i < ?n" using D(13) by blast
    ultimately show ?thesis by (intro exI [of _ i]) (simp add: chan nth)
  qed
  have "sys_sim None s' ?w'"
    unfolding sys_sim_def v(1,2,3,9)
  proof (intro conjI allI impI)
    show "sw_server ?w' = sy_server s'" "sw_conns ?w' = sy_conns s'" by (simp_all add: s' D(4))
    show "home s' i \<noteq> ?b" if "i < Suc ?n" for i using that l D(6) by (auto simp: nth)
    show "i < Suc ?n" if "sy_chan s' i = Some ch'" for i ch' using that D(13) [of i ch'] by (auto simp: chan split: if_splits)
    show "log_of ?w' i = [Up i, Down i]" if "i < Suc ?n" "sy_chan s' i = None" for i
      using that D(17) [of i] by (auto simp: chan log_of_def split: if_splits)
  qed (use inv D(2,5,7-9) l loops conns inj doms in \<open>auto\<close>)
  moreover have "raw_covered s'" if raw: "raw_covered s"
    unfolding raw_covered_def
  proof (intro allI impI)
    fix i ch' assume i: "sy_chan s' i = Some ch'"
    have dist: "distinct (map co_name (sy_conns s'))" by (rule sim_names [OF calculation])
    have tab: "ts_connections (sy_server s') = (ts_connections ?srv)(conn_name ?srv \<mapsto> ?n)" "co_name (sy_conns s' ! ?n) = conn_name ?srv"
      by (simp_all add: s' srv'_def conn_def)
    show "tabled i s' \<or> covered (mine ch' (io_queue (sy_io s' (home s' i))))"
    proof (cases "i = ?n")
      case True
      with tab show ?thesis by (simp add: tabled_def)
    next
      case False
      then have i': "sy_chan s i = Some ch'" "i < ?n" using i D(13) by (auto simp: chan)
      then have h: "home s' i = home s i" by (simp add: nth)
      have nm: "co_name (sy_conns s' ! i) = co_name (sy_conns s ! i)" using i'(2) by (simp add: s' nth_append)
      have "co_name (sy_conns s' ! i) \<noteq> co_name (sy_conns s' ! ?n)"
        using nth_eq_iff_index_eq [OF dist, of i ?n] i'(2) v(3) by simp
      then have "tabled i s' = tabled i s" using nm tab by (auto simp: tabled_def)
      moreover have "mine ch' (io_queue (sy_io s' (home s i))) = mine ch' (io_queue (sy_io s (home s i)))"
      proof (cases "home s i = l")
        case True
        then have "ch' \<noteq> ch" using D(14) [OF i'(1)] new sy by auto
        with True show ?thesis by (simp add: io_queue_def v io q o(4))
      next
        case False
        then show ?thesis by (simp add: v)
      qed
      ultimately show ?thesis using raw i'(1) h by (auto simp: raw_covered_def)
    qed
  qed
  ultimately show ?thesis using l shared v step by blast
qed

end
