(* ===== verification/Server_Runs.thy ===== *)
theory Server_Runs
  imports Server_System
begin

text \<open>
  Runs of a server with its loops: every step of the system is one of the server alone and leaves
  each loop in a state that a loop by itself can reach; so what is known of both holds here, without
  assumptions on when functors run and objects are freed.
\<close>

section \<open>A connection that is down posts nothing\<close>

lemma api_call_silent:
  assumes "tc_state (snd w) = kDisconnected" and "a \<noteq> AQueueDestroyed" and "api_call tid a w = Some w'"
  shows "tc_state (snd w') = kDisconnected \<and> el_pending (fst w') = el_pending (fst w)"
  using assms
  by (cases w; cases a)
    (auto simp: api_call_def send_ptr_def send_string_def send_buffer_def shutdown_def forceClose_def)

lemma invoke_silent:
  assumes st: "tc_state (snd w) = kDisconnected" and user: "leaves_destruction (tc_user (snd w))" and run: "invoke cb w = Some w'"
  shows "el_pending (fst w') = el_pending (fst w)"
proof -
  have calls: "bind_fold (api_call tid) as u = Some u' \<Longrightarrow> tc_state (snd u) = kDisconnected \<Longrightarrow> AQueueDestroyed \<notin> set as
      \<Longrightarrow> el_pending (fst u') = el_pending (fst u)" for tid as u u'
  proof (induction as arbitrary: u)
    case (Cons a as)
    then obtain v where v: "api_call tid a u = Some v" "bind_fold (api_call tid) as v = Some u'"
      by (auto split: Option.bind_splits)
    have "tc_state (snd v) = kDisconnected \<and> el_pending (fst v) = el_pending (fst u)"
      using api_call_silent [OF Cons.prems(2) _ v(1)] Cons.prems(3) by auto
    with Cons.IH [OF v(2)] Cons.prems(3) show ?case by simp
  qed simp
  from calls [OF run [unfolded invoke_def]] st user show ?thesis by (simp add: leaves_destruction_def)
qed

lemma functor_silent:
  assumes st: "tc_state (snd w) = kDisconnected" and user: "leaves_destruction (tc_user (snd w))"
    and f: "f \<noteq> ConnectEstablished" and run: "exec_functor f w = Some w'"
  shows "el_pending (fst w') = el_pending (fst w)"
  by (cases f) (use st f run invoke_silent [OF st user] in
      \<open>auto simp: send_bound_def sendInLoop_def shutdownInLoop_def forceCloseInLoop_def connectDestroyed_def on_channel_def
        dest: removeChannel_queue split: if_splits Option.bind_splits option.splits\<close>)

section \<open>What waits for a connection that is to go\<close>

definition leaving :: "nat \<Rightarrow> nat \<Rightarrow> system \<Rightarrow> bool" where
  "leaving i ch s \<longleftrightarrow> sy_chan s i = Some ch \<and> (\<exists>c. sy_cs s (home s i) ch = Some c \<and> has_closed c)"

lemma step_leaving:
  assumes sim: "sys_sim None s w" and go: "leaving i ch s" and step: "io_step (sy_io s (home s i)) t"
  shows "\<exists>c. snd (snd t) ch = Some c \<and> has_closed c"
    "mine ch (el_pending (sy_el s (home s i))) = [] \<Longrightarrow> mine ch (el_pending (fst (snd t))) = []"
    "\<exists>n. mine ch (io_queue t) = drop n (mine ch (io_queue (sy_io s (home s i))))"
proof -
  note D = sys_simD [OF sim]
  let ?l = "home s i"
  obtain c where c: "sy_cs s ?l ch = Some c" "has_closed c" and ch: "sy_chan s i = Some ch" using go by (auto simp: leaving_def)
  have l: "?l \<noteq> base_loop s" and down: "tc_state c = kDisconnected" and user: "leaves_destruction (tc_user c)"
    by (rule sim_conn [OF sim ch]; use c in \<open>auto simp: conn_sim_def\<close>)+
  obtain ph el cs where io: "sy_io s ?l = (ph, (el, cs))" by (cases "sy_io s ?l") auto
  have sy: "sy_el s ?l = el" "sy_cs s ?l = cs" by (simp_all add: sy_el_def sy_cs_def io)
  have ok: "conns_ok (running ph) (el, cs)" "phase_fits ph (el, cs)" using D(11) [OF l] by (simp_all add: shared_ok_def io)
  have cc: "cs ch = Some c" using c(1) sy by simp
  have "(\<exists>c. snd (snd t) ch = Some c \<and> has_closed c) \<and> (mine ch (el_pending el) = [] \<longrightarrow> mine ch (el_pending (fst (snd t))) = [])
      \<and> (mine ch (io_queue t) = mine ch (io_queue (ph, (el, cs))) \<or> mine ch (io_queue t) = tl (mine ch (io_queue (ph, (el, cs)))))"
    using step unfolding io
  proof cases
    case (io_poll ans ti el')
    with poll_ok [of el cs ans ti] ok cc c(2) show ?thesis by (auto simp: io_queue_def)
  next
    case (io_handle k w' chs)
    have h: "conns_ok [] (el, cs)" "\<not> el_calling el" "handling_ok (k # chs) (el, cs)" using ok by (simp_all add: io_handle(1))
    show ?thesis
    proof (cases "k = el_wakeupChannel el")
      case True
      with wake_dispatch [OF conns_okD(2) [OF h(1)], of cs] io_handle cc c(2) show ?thesis by (auto simp: io_queue_def)
    next
      case False
      obtain d v d' where r: "dispatch call_shared shared_alive k (el, cs) = Some (put_view k v el, cs(k \<mapsto> d'))" "cs k = Some d"
        by (rule conn_dispatch [OF h False]) blast
      have "chan_ok (view ch el) c" "tc_channel c = ch"
        using conns_okD(7,8) [OF h(1) cc] by (simp_all add: run_ok_def conn_ok_def)
      then have "isNoneEvent (el_chans el ch)" using down by (simp add: chan_ok_def Let_def)
      moreover have "\<not> isNoneEvent (el_chans el k)" using h(3) False by (auto simp: handling_ok_def)
      ultimately have "k \<noteq> ch" by auto
      with r io_handle cc c(2) show ?thesis by (simp add: io_queue_def)
    qed
  next
    case (io_begin el' fs)
    with cc c(2) show ?thesis by (auto simp: begin_pending_def io_queue_def)
  next
    case (io_run f w' fs)
    obtain k g where f: "f = (k, g)" by (cases f)
    have io': "sy_io s ?l = (Running ((k, g) # fs), (el, cs))" by (simp add: io io_run(1) f)
    obtain may: "may_run (k, g) (el, cs)" by (rule sim_may_run [OF sim l io']) blast
    have h: "conns_ok ((k, g) # fs) (el, cs)" using ok(1) by (simp add: io_run(1) f)
    obtain d v d' where e: "cs k = Some d" "exec_functor g (view k el, d) = Some (v, d')"
        "exec_shared (k, g) (el, cs) = Some (put_view k v el, cs(k \<mapsto> d'))"
      by (rule exec_ok [OF h may exec_shared_not_dangling [OF io_run(3) [unfolded f]]]) blast
    have t: "snd t = (put_view k v el, cs(k \<mapsto> d'))" using io_run e(3) f by simp
    show ?thesis
    proof (cases "k = ch")
      case False
      with t cc c(2) io_run(1,2) f show ?thesis by (simp add: io_queue_def)
    next
      case True
      then have d: "d = c" using e(1) cc by simp
      have "continues d d'" using conn_history.R_exec_functor [OF e(2)] by simp
      then have "has_closed d'" using c(2) d by (auto simp: has_closed_def continues_def dest: set_mono_prefix)
      moreover have "run_ok (g # mine k fs, (view k el, d))" using conns_okD(8) [OF h e(1)] by simp
      then have "g \<noteq> ConnectEstablished" using down d by (auto simp: run_ok_def)
      from functor_silent [OF _ _ this e(2)] have "el_pending v = mine k (el_pending el)" using down user d by simp
      ultimately show ?thesis using True t io_run(1,2) f by (simp add: io_queue_def)
    qed
  next
    case io_end
    with cc c(2) show ?thesis by (auto simp: io_queue_def)
  qed
  then show "\<exists>c. snd (snd t) ch = Some c \<and> has_closed c"
    "mine ch (el_pending (sy_el s ?l)) = [] \<Longrightarrow> mine ch (el_pending (fst (snd t))) = []"
    using sy by simp_all
  have "\<exists>n. tl xs = drop n xs" "\<exists>n. xs = drop n xs" for xs :: "conn_functor list"
    by (metis drop_Suc drop_0) (metis drop_0)
  with \<open>(\<exists>c. snd (snd t) ch = Some c \<and> has_closed c) \<and> _ \<and> _\<close>
  show "\<exists>n. mine ch (io_queue t) = drop n (mine ch (io_queue (sy_io s ?l)))" unfolding io by metis
qed


lemma untabled_leaving:
  assumes sim: "sys_sim None s w" and ch: "sy_chan s i = Some ch" and un: "\<not> tabled i s"
  shows "leaving i ch s"
proof -
  note D = sys_simD [OF sim]
  obtain c where c: "sy_cs s (home s i) ch = Some c" "conn_sim None w i (sy_el s (home s i)) ch c" and n: "i < length (sy_conns s)"
    by (rule sim_conn [OF sim ch]) blast
  obtain st where st: "at_stage w i st" by (rule sim_stage [OF sim n])
  have "\<not> in_table w i" using un D(3,4) by (simp add: in_table_def tabled_def)
  then have "i \<in> set (sw_closed w)" using st by (cases st) (simp_all add: at_stage_def)
  with c ch show ?thesis by (auto simp: leaving_def conn_sim_def)
qed

text \<open>A step of a loop of the pool posts nothing for it.\<close>

lemma loop_covered:
  assumes sim: "sys_sim None s w" and step: "io_step (sy_io s l) t" and raw: "raw_covered s"
    and s': "sy_io s' = (sy_io s)(l := t)" "sy_server s' = sy_server s" "sy_chan s' = sy_chan s" "sy_conns s' = sy_conns s"
  shows "raw_covered s'"
  unfolding raw_covered_def
proof (intro allI impI)
  fix i ch assume "sy_chan s' i = Some ch"
  then have ch: "sy_chan s i = Some ch" using s'(3) by simp
  have same: "tabled i s' = tabled i s" "home s' i = home s i" using s'(2,4) by (simp_all add: tabled_def home_def)
  show "tabled i s' \<or> covered (mine ch (io_queue (sy_io s' (home s' i))))"
  proof (cases "tabled i s")
    case False
    then have cov: "covered (mine ch (io_queue (sy_io s (home s i))))" using raw ch by (auto simp: raw_covered_def)
    show ?thesis
    proof (cases "home s i = l")
      case True
      obtain n where "mine ch (io_queue t) = drop n (mine ch (io_queue (sy_io s (home s i))))"
        using step_leaving(3) [OF sim untabled_leaving [OF sim ch False]] step True by blast
      with covered_drop [OF cov] show ?thesis by (simp add: same(2) s'(1) True)
    next
      case False
      with cov show ?thesis by (simp add: same(2) s'(1))
    qed
  qed (simp add: same(1))
qed

section \<open>The other steps\<close>

text \<open>The base loop removes a connection from the table and sends it its end.\<close>

lemma base_sim:
  assumes sim: "sys_sim None s w" and pend: "el_pending (sy_base s) = RemoveInLoop i # fs"
  defines "s0 \<equiv> s\<lparr>sy_base := (sy_base s)\<lparr>el_pending := fs\<rparr>\<rparr>"
  shows "\<exists>s' w'. sys_removeConnectionInLoop i s0 = Some s' \<and> shared_step others (sy_io s (home s i)) (sy_io s' (home s i))
    \<and> home s i \<noteq> base_loop s \<and> (\<forall>l. l \<noteq> home s i \<longrightarrow> sy_io s' l = sy_io s l) \<and> base_loop s' = base_loop s
    \<and> srv_step w w' \<and> sys_sim None s' w' \<and> (raw_covered s \<longrightarrow> raw_covered s')"
proof -
  note D = sys_simD [OF sim]
  let ?b = "base_loop s" and ?l = "home s i" and ?tid = "el_threadId (sy_base s)"
  have wb: "el_pending (sw_loops w ?b) = RemoveInLoop i # fs" using D(8) pend by simp
  then have "i < length (sw_conns w)" using D(1) unfolding srv_inv_def by (metis about.simps(3) list.set_intros(1))
  then have n: "i < length (sy_conns s)" using D(4) by simp
  obtain stg where stg: "at_stage w i stg" by (rule sim_stage [OF sim n])
  have st: "stg = Closing" by (rule stage_pendingD(2) [OF stg, of ?b]) (use wb in simp)
  then have log: "log_of w i = [Up i]" "i \<in> set (sw_closed w)" using stg by (simp_all add: at_stage_def)
  then obtain ch where ch: "sy_chan s i = Some ch" using D(17) [OF n] by (cases "sy_chan s i") auto
  obtain c where c: "sy_cs s ?l ch = Some c" "conn_sim None w i (sy_el s ?l) ch c" and l: "?l \<noteq> ?b"
    by (rule sim_conn [OF sim ch])
  obtain ph el cs where io: "sy_io s ?l = (ph, (el, cs))" by (cases "sy_io s ?l") auto
  have sy: "sy_el s ?l = el" "sy_cs s ?l = cs" by (simp_all add: sy_el_def sy_cs_def io)
  have cl: "cs ch = Some c" "Called CloseCb \<in> set (tc_trace c)" using c log(2) sy by (simp_all add: conn_sim_def has_closed_def)
  let ?el = "queueInLoop ?tid (ch, ConnectDestroyed) el"
  have q: "el_threadId ?el = el_threadId el" "el_pending ?el = el_pending el @ [(ch, ConnectDestroyed)]"
      "\<And>j. el_hasChannel j ?el = el_hasChannel j el"
    by (simp_all add: queueInLoop_def wakeup_def Let_def el_hasChannel_def)
  define srv' where "srv' = (sy_server s)\<lparr>ts_connections := (ts_connections (sy_server s))(co_name (sy_conns s ! i) := None)\<rparr>"
  define s' where "s' = s0\<lparr>sy_server := srv', sy_io := (sy_io s)(?l := (ph, (?el, cs)))\<rparr>"
  have run: "sys_removeConnectionInLoop i s0 = Some s'"
    using ch io by (simp add: sys_removeConnectionInLoop_def s0_def s'_def srv'_def home_def Let_def)
  have shared: "shared_step oth (sy_io s ?l) (sy_io s' ?l)" for oth
    unfolding io s'_def using sh_release [where cs = cs and i = ch, OF cl] by simp
  have ok': "shared_ok (ph, (?el, cs))" using shared_step_ok [OF shared D(11) [OF l]] by (simp add: s'_def)
  let ?w' = "removeConnectionInLoop (loop_tid w ?b) i (pop_pending ?b w)"
  have step: "srv_step w ?w'" by (rule srv_run [OF wb]) simp
  have inv: "srv_inv ?w'" by (rule srv_step_inv [OF step D(1)])
  have w': "sw_server ?w' = srv'" "sw_conns ?w' = sw_conns w" "sw_acceptor ?w' = sw_acceptor w" "sw_closed ?w' = sw_closed w"
      "log_of ?w' = log_of w"
    using D(3,4) by (auto simp: removeConnectionInLoop_def Let_def pop_pending_def srv'_def log_of_def fun_eq_iff)
  have loops: "el_threadId (sw_loops ?w' l') = el_threadId (sw_loops w l')"
      "el_pending (sw_loops ?w' l') = (if l' = ?b then fs else if l' = ?l then el_pending (sw_loops w l') @ [Destroyed i]
        else el_pending (sw_loops w l'))" for l'
    using l wb D(4) by (auto simp: removeConnectionInLoop_def Let_def pop_pending_def home_def)
  have v: "base_loop s' = ?b" "sy_conns s' = sy_conns s" "sy_chan s' = sy_chan s" "home s' = home s" "sy_cs s' = sy_cs s"
      "\<And>l'. l' \<noteq> ?l \<Longrightarrow> sy_io s' l' = sy_io s l'" "\<And>l'. l' \<noteq> ?l \<Longrightarrow> sy_el s' l' = sy_el s l'" "sy_el s' ?l = ?el"
      "stands_for s' = stands_for s" "sy_base s' = (sy_base s)\<lparr>el_pending := fs\<rparr>" "ts_pool (sy_server s') = ts_pool (sy_server s)"
      "sy_server s' = srv'" "sy_io s' ?l = (ph, (?el, cs))"
    by (auto simp: s'_def s0_def srv'_def base_loop_def home_def sy_cs_def sy_el_def stands_for_def fun_eq_iff io [unfolded home_def])
  have "loop_sim s' ?w' l'" if "l' \<noteq> ?b" for l'
  proof (cases "l' = ?l")
    case True
    have "stands_for s ?l (ch, ConnectDestroyed) (Destroyed i)" using n ch by (auto simp: stands_for_def)
    moreover have "filter takes (io_queue (ph, (?el, cs))) = filter takes (io_queue (sy_io s ?l)) @ [(ch, ConnectDestroyed)]"
      by (simp add: io_queue_def io q(2) takes_def)
    ultimately have "list_all2 (stands_for s ?l) (filter takes (io_queue (ph, (?el, cs)))) (el_pending (sw_loops w ?l) @ [Destroyed i])"
      using D(12) [OF l] by (simp add: list_all2_appendI)
    with True l D(10) [OF l] ok' show ?thesis by (simp add: loop_sim_def v loops sy)
  next
    case False
    with that D(10-12) [OF that] show ?thesis by (simp add: loop_sim_def v loops)
  qed
  moreover have "sy_el s' l' = sy_el s l' \<or> (\<forall>j. el_hasChannel j (sy_el s' l') = el_hasChannel j (sy_el s l'))" for l'
    by (cases "l' = ?l") (simp_all add: v q(3) sy)
  then have "conn_sim None ?w' j (sy_el s' l') ch' d = conn_sim None w j (sy_el s l') ch' d" for j l' ch' d
    unfolding conn_sim_def w'(4,5) by metis
  moreover have "ts_pool srv' = ts_pool (sy_server s)" by (simp add: srv'_def)
  ultimately have "sys_sim None s' ?w'"
    using D(2,3,5-9,13-17) inv pend unfolding sys_sim_def v w' by (auto simp: loops D(4))
  moreover have "raw_covered s'" if raw: "raw_covered s"
    unfolding raw_covered_def
  proof (intro allI impI)
    fix j ch' assume j': "sy_chan s' j = Some ch'"
    then have j: "sy_chan s j = Some ch'" "j < length (sy_conns s)" using D(13) by (simp_all add: v)
    show "tabled j s' \<or> covered (mine ch' (io_queue (sy_io s' (home s' j))))"
    proof (cases "j = i")
      case True
      then have "mine ch' (io_queue (sy_io s' (home s' j))) = mine ch' (running ph @ el_pending el) @ [ConnectDestroyed]"
        using j(1) ch by (simp add: v io_queue_def q(2))
      then show ?thesis by (simp only: covered_snoc simp_thms)
    next
      case False
      have "co_name (sy_conns s ! j) \<noteq> co_name (sy_conns s ! i)"
        using nth_eq_iff_index_eq [OF sim_names [OF sim], of j i] False j(2) n by simp
      then have "tabled j s' = tabled j s" by (simp add: tabled_def v srv'_def)
      moreover have "mine ch' (io_queue (sy_io s' (home s j))) = mine ch' (io_queue (sy_io s (home s j)))"
      proof (cases "home s j = ?l")
        case True
        then have "ch' \<noteq> ch" using D(15) [OF j(1)] ch False by blast
        with True show ?thesis by (simp add: v io io_queue_def q(2))
      next
        case False
        then show ?thesis by (simp add: v)
      qed
      ultimately show ?thesis using raw j(1) by (auto simp: raw_covered_def v)
    qed
  qed
  ultimately show ?thesis using run shared l v step by blast
qed

text \<open>A connection without references is freed: the server has taken it down.\<close>

lemma free_sim:
  assumes sim: "sys_sim None s w" and ch: "sy_chan s i = Some ch" and free: "\<not> referenced i ch s"
    and raw: "raw_covered s"
  shows "can_destroy others ch (running (fst (sy_io s (home s i)))) (snd (sy_io s (home s i)))"
    "log_of w i = [Up i, Down i]" "ch \<notin> fst ` set (io_queue (sy_io s (home s i)))"
proof -
  note D = sys_simD [OF sim]
  let ?l = "home s i"
  obtain c where c: "sy_cs s ?l ch = Some c" "conn_sim None w i (sy_el s ?l) ch c" and l: "?l \<noteq> base_loop s"
    and n: "i < length (sy_conns s)" and down: "has_closed c \<Longrightarrow> tc_state c = kDisconnected"
    by (rule sim_conn [OF sim ch]) blast
  obtain stg where stg: "at_stage w i stg" by (rule sim_stage [OF sim n])
  then have p: "pending_of w i = stage_pending stg w i" and tab: "in_table w i = (stg \<in> {Queued, Opened, Closing})"
    by (simp_all add: at_stage_def)
  have tabl: "\<not> tabled i s" using free by (simp add: referenced_def tabled_def)
  have "\<forall>f \<in> set (mine ch (io_queue (sy_io s ?l))). \<not> owning f"
    using free by (auto simp: referenced_def io_queue_def sy_el_def mine_def)
  moreover have "covered (mine ch (io_queue (sy_io s ?l)))" using raw ch tabl by (auto simp: raw_covered_def)
  ultimately have none_left: "mine ch (io_queue (sy_io s ?l)) = []" by (intro covered_unowned)
  have no: "ch \<notin> fst ` set (io_queue (sy_io s ?l))" "RemoveInLoop i \<notin> set (el_pending (sy_base s))" "\<not> in_table w i"
    using none_left free tabl D(3,4) by (auto simp: referenced_def mine_def filter_empty_conv in_table_def tabled_def)
  then have none: "Established i \<notin> set (el_pending (sw_loops w ?l))" "Destroyed i \<notin> set (el_pending (sw_loops w ?l))"
    using stands_for_back [OF D(12) [OF l] ch] by force+
  have mem: "g \<in> set (el_pending (sw_loops w l'))" if "g \<in> set (stage_pending stg w i l')" for g l'
    using that p by (metis (no_types, lifting) filter_is_subset pending_of_def subsetD)
  have "stg = Gone"
  proof (cases stg)
    case Removed
    then have "Destroyed i \<in> set (el_pending (sw_loops w ?l))" by (intro mem) (simp add: home_def D(4))
    with none show ?thesis by blast
  qed (use tab no(3) in auto)
  with stg show log: "log_of w i = [Up i, Down i]" by (simp add: at_stage_def)
  show "ch \<notin> fst ` set (io_queue (sy_io s ?l))" by (rule no(1))
  have "i \<in> set (sw_closed w)" using stg \<open>stg = Gone\<close> by (simp add: at_stage_def)
  with c log down have "tc_state c = kDisconnected" "\<not> el_hasChannel ch (sy_el s ?l)" by (simp_all add: conn_sim_def)
  with c(1) no(1) show "can_destroy others ch (running (fst (sy_io s ?l))) (snd (sy_io s ?l))"
    using none_left by (cases "sy_io s ?l") (simp add: can_destroy_def sy_cs_def sy_el_def io_queue_def)
qed

lemma freed_sim:
  assumes sim: "sys_sim None s w" and ch: "sy_chan s i = Some ch" and free: "\<not> referenced i ch s"
    and raw: "raw_covered s"
  shows "sys_sim None (free_conn i ch s) w" "shared_step others (sy_io s (home s i)) (sy_io (free_conn i ch s) (home s i))"
    "raw_covered (free_conn i ch s)"
proof -
  note D = sys_simD [OF sim] and F = free_sim [OF sim ch free raw]
  let ?l = "home s i" and ?s = "free_conn i ch s"
  obtain ph el cs where io: "sy_io s ?l = (ph, (el, cs))" by (cases "sy_io s ?l") auto
  have n: "i < length (sy_conns s)" and l: "?l \<noteq> base_loop s" using D(6,13) ch by blast+
  have sy: "sy_el s ?l = el" "sy_cs s ?l = cs" by (simp_all add: sy_el_def sy_cs_def io)
  have io': "sy_io ?s ?l = (ph, (el, cs(ch := None)))" by (simp add: free_conn_def io)
  show shared: "shared_step others (sy_io s ?l) (sy_io ?s ?l)" for others
    unfolding io' io using F(1) by (intro sh_destroy) (simp add: io)
  have ok': "shared_ok (ph, (el, cs(ch := None)))" using shared_step_ok [OF shared D(11) [OF l]] by (simp add: io')
  have v: "base_loop ?s = base_loop s" "sy_conns ?s = sy_conns s" "home ?s = home s" "sy_el ?s = sy_el s" "sy_server ?s = sy_server s"
      "\<And>l'. l' \<noteq> ?l \<Longrightarrow> sy_io ?s l' = sy_io s l'" "\<And>l'. l' \<noteq> ?l \<Longrightarrow> sy_cs ?s l' = sy_cs s l'" "sy_cs ?s ?l = cs(ch := None)"
      "sy_base ?s = sy_base s" "sy_chan ?s = (sy_chan s)(i := None)"
    by (auto simp: free_conn_def base_loop_def home_def sy_cs_def sy_el_def fun_eq_iff io [unfolded home_def])
  have notch: "fst x \<noteq> ch" if "x \<in> set (io_queue (sy_io s ?l))" for x
    using that F(3) by auto
  have stands: "stands_for ?s l' x g" if st: "stands_for s l' x g" "x \<in> set (io_queue (sy_io s l'))" for l' x g
  proof -
    obtain k where k: "k < length (sy_conns s)" "home s k = l'" "sy_chan s k = Some (fst x)"
        "g = (if snd x = ConnectEstablished then Established k else Destroyed k)"
      using st(1) unfolding stands_for_def by blast
    moreover have "k \<noteq> i" using k(2,3) ch st(2) notch [of x] by auto
    ultimately show ?thesis unfolding stands_for_def v by (intro exI [of _ k]) simp
  qed
  have all: "list_all2 (stands_for ?s l') (filter takes (io_queue (sy_io s l'))) (el_pending (sw_loops w l'))" if "l' \<noteq> base_loop s" for l'
    by (rule list.rel_mono_strong [OF D(12) [OF that]]) (auto intro: stands)
  have "loop_sim ?s w l'" if "l' \<noteq> base_loop s" for l'
  proof (cases "l' = ?l")
    case True
    have "io_queue (ph, (el, cs(ch := None))) = io_queue (sy_io s ?l)" by (simp add: io_queue_def io)
    with True all [OF l] D(10) [OF l] ok' show ?thesis by (simp add: loop_sim_def v io' sy)
  next
    case False
    with all [OF that] D(10,11) [OF that] show ?thesis by (simp add: loop_sim_def v)
  qed
  moreover have "\<exists>d. sy_cs ?s (home s j) ch' = Some d \<and> conn_sim None w j (sy_el s (home s j)) ch' d"
    if j: "j \<noteq> i" "sy_chan s j = Some ch'" for j ch'
  proof -
    obtain d where d: "sy_cs s (home s j) ch' = Some d" "conn_sim None w j (sy_el s (home s j)) ch' d" using D(14) [OF j(2)] by blast
    show ?thesis
    proof (cases "home s j = ?l")
      case True
      then have "ch' \<noteq> ch" using D(15) [OF j(2)] ch j(1) by blast
      with d True sy show ?thesis by (simp add: v)
    next
      case False
      with d show ?thesis by (simp add: v)
    qed
  qed
  moreover have "\<exists>j. j \<noteq> i \<and> sy_chan s j = Some ch' \<and> home s j = l'"
    if dm: "l' \<noteq> base_loop s" "sy_cs ?s l' ch' = Some d" for l' ch' d
  proof -
    have "ch' \<in> dom (sy_cs s l')" "l' = ?l \<longrightarrow> ch' \<noteq> ch" using dm(2) by (cases "l' = ?l"; auto simp: v sy split: if_splits)+
    then obtain j where j: "sy_chan s j = Some ch'" "home s j = l'" using D(16) [OF dm(1)] by blast
    moreover have "j \<noteq> i" using j ch \<open>l' = ?l \<longrightarrow> ch' \<noteq> ch\<close> by auto
    ultimately show ?thesis by blast
  qed
  ultimately show "sys_sim None ?s w"
    using D(1-9,13,15,17) F(2) unfolding sys_sim_def v by (auto split: if_splits) blast
  have "io_queue (sy_io ?s l') = io_queue (sy_io s l')" for l' by (cases "l' = ?l") (simp_all add: v io io' io_queue_def)
  moreover have "tabled j ?s = tabled j s" for j by (simp add: tabled_def v)
  ultimately show "raw_covered ?s" using raw by (auto simp: raw_covered_def v split: if_splits)
qed

text \<open>Another thread uses a connection of a loop.\<close>

lemma remote_trace:
  assumes "api_call tid a (el, c) = Some (el', c')" and "remote a" and "tid \<noteq> el_threadId el"
  shows "tc_trace c' = tc_trace c"
  using assms by (cases a) (auto simp: api_call_def send_ptr_def send_string_def send_buffer_def shutdown_def
      forceClose_def runInLoop_def isInLoopThread_def split: if_splits Option.bind_splits)

lemma remote_sim:
  assumes sim: "sys_sim None s w" and l: "l \<noteq> base_loop s" and tid: "tid \<noteq> el_threadId (sy_el s l)" and a: "remote a"
    and run: "as_conn ch (api_call tid a) (snd (sy_io s l)) = Some u'"
  shows "shared_step True (sy_io s l) (fst (sy_io s l), u')"
    "\<exists>w'. srv_step\<^sup>*\<^sup>* w w' \<and> sys_sim None (s\<lparr>sy_io := (sy_io s)(l := (fst (sy_io s l), u'))\<rparr>) w'"
    "raw_covered s \<Longrightarrow> raw_covered (s\<lparr>sy_io := (sy_io s)(l := (fst (sy_io s l), u'))\<rparr>)"
proof -
  note D = sys_simD [OF sim]
  obtain ph el cs where io: "sy_io s l = (ph, (el, cs))" by (cases "sy_io s l") auto
  have sy: "sy_el s l = el" "sy_cs s l = cs" by (simp_all add: sy_el_def sy_cs_def io)
  show shared: "shared_step True (sy_io s l) (fst (sy_io s l), u')"
    unfolding io fst_conv by (rule sh_remote [OF TrueI _ a]) (use tid run in \<open>simp_all add: sy io\<close>)
  have ok: "conns_ok (running ph) (el, cs)" using D(11) [OF l] by (simp add: shared_ok_def io)
  obtain c where c: "cs ch = Some c" using run by (auto simp: io as_conn_def split: Option.bind_splits)
  obtain i where i: "sy_chan s i = Some ch" "home s i = l" using D(16) [OF l] c sy by blast
  have csim: "conn_sim None w i el ch c" by (rule sim_conn [OF sim i(1)]) (use c i sy in auto)
  have tid': "tid \<noteq> el_threadId el" using tid sy by simp
  obtain v c' where r: "api_call tid a (view ch el, c) = Some (v, c')"
      "as_conn ch (api_call tid a) (el, cs) = Some (put_view ch v el, cs(ch \<mapsto> c'))"
    by (rule remote_ok [OF ok a tid' c]) blast
  have u': "u' = (put_view ch v el, cs(ch \<mapsto> c'))" using r(2) run by (simp add: io)
  have na: "a \<noteq> AQueueDestroyed" using a by auto
  have run_ok: "run_ok (mine ch (running ph), (view ch el, c))" and chc: "tc_channel c = ch" using conns_okD(7,8) [OF ok c] by simp_all
  have act: "acts ch (view ch el, c) (v, c')" by (rule acts_ops(2) [OF _ r(1) na]) (simp add: chc)
  have "api_ok a" using a by (cases a) auto
  with api_call_ok [of "(view ch el, c)" a tid] run_ok r(1) have st: "steady (view ch el, c) (v, c')" by (simp add: run_ok_def)
  have nd: "ConnectDestroyed \<notin> set (newly (view ch el, c) (v, c'))"
    using conn_destruction.R_api_call [OF r(1)] na csim by (simp add: conn_sim_def)
  have tr: "tc_trace c' = tc_trace c" using remote_trace [OF r(1) a] tid' by simp
  have "el_hasChannel ch v = el_hasChannel ch el" using remote_chans [OF r(1) a] tid' by (simp add: el_hasChannel_def)
  moreover have "list_all2 (stands_for s l) (filter takes (running ph @ el_pending el)) (el_pending (sw_loops w l))"
    using D(12) [OF l] by (simp add: io_queue_def io)
  ultimately have "io_follows w l (ph, u') s"
    using shared_step_ok [OF shared D(11) [OF l]] csim st nd
    by (intro sim_act [OF sim l io i c _ _ _ ok act api_call_continues [OF r(1), unfolded snd_conv] _ _ _ _ D(1)])
      (simp_all add: u' steady_def conn_sim_def io del: filter_append)
  moreover have "closing l (ph, u') s = []"
    using closing_one [OF sim i, of c "(ph, u')" c'] c by (simp add: sy u' has_closed_def tr)
  ultimately show "\<exists>w'. srv_step\<^sup>*\<^sup>* w w' \<and> sys_sim None (s\<lparr>sy_io := (sy_io s)(l := (fst (sy_io s l), u'))\<rparr>) w'"
    by (auto simp: io_follows_def io_done_def io)
  let ?s = "s\<lparr>sy_io := (sy_io s)(l := (fst (sy_io s l), u'))\<rparr>"
  assume raw: "raw_covered s"
  have same: "tabled j ?s = tabled j s" "home ?s j = home s j" for j by (simp_all add: tabled_def home_def)
  have "tabled j s \<or> covered (mine k (io_queue (sy_io ?s (home s j))))" if j: "sy_chan s j = Some k" for j k
  proof (cases "tabled j s")
    case False
    then have cov: "covered (mine k (io_queue (sy_io s (home s j))))" using raw j by (auto simp: raw_covered_def)
    show ?thesis
    proof (cases "home s j = l \<and> k = ch")
      case True
      obtain d where "sy_cs s (home s j) k = Some d" "has_closed d"
        using untabled_leaving [OF sim j False] by (auto simp: leaving_def)
      then have "has_closed c" using True c sy by simp
      then have "tc_state c = kDisconnected" using closed_disconnected [of "view ch el" c] run_ok by (auto simp: run_ok_def has_closed_def)
      then have "el_pending v = mine ch (el_pending el)" using api_call_silent [OF _ na r(1)] by simp
      with cov True show ?thesis by (simp add: io io_queue_def u')
    next
      case False
      then have "mine k (io_queue (sy_io ?s (home s j))) = mine k (io_queue (sy_io s (home s j)))"
        by (cases "home s j = l") (auto simp: io io_queue_def u')
      with cov show ?thesis by (simp only: simp_thms)
    qed
  qed simp
  then show "raw_covered ?s" by (auto simp: raw_covered_def same)
qed

section \<open>Reachable states\<close>

lemma sys_step_sim:
  assumes "sys_step others s s'" and sim: "sys_sim None s w" and raw: "raw_covered s"
  shows "base_loop s' = base_loop s \<and> (\<forall>l. l \<noteq> base_loop s \<longrightarrow> sy_io s' l = sy_io s l \<or> shared_step others (sy_io s l) (sy_io s' l))
    \<and> (\<exists>w'. srv_step\<^sup>*\<^sup>* w w' \<and> sys_sim None s' w') \<and> raw_covered s'"
  using assms(1)
proof cases
  case (sys_accept l pool sockfd ch wr rd user peerAddr localAddr)
  with accept_sim [OF sim sys_accept] raw show ?thesis by (metis r_into_rtranclp)
next
  case (sys_base i fs)
  from base_sim [OF sim sys_base(1)] sys_base(2) raw show ?thesis by (metis option.inject r_into_rtranclp)
next
  case (sys_loop l t)
  obtain w' where f: "sy_io s' = (sy_io s)(l := t)" "sy_server s' = sy_server s" "sy_chan s' = sy_chan s" "sy_conns s' = sy_conns s"
      "srv_step\<^sup>*\<^sup>* w w'" "sys_sim None s' w'"
    using loop_sim_step [OF sim sys_loop(1,2), of others] sys_loop(3) by (auto simp: io_follows_def)
  have "shared_step others (sy_io s l) t" using loop_sim_step [OF sim sys_loop(1,2)] by blast
  with f loop_covered [OF sim sys_loop(2) raw f(1-4)] show ?thesis by (auto simp: base_loop_def)
next
  case (sys_free i ch)
  have "base_loop s' = base_loop s" "\<And>l. l \<noteq> home s i \<Longrightarrow> sy_io s' l = sy_io s l" by (simp_all add: sys_free(1) free_conn_def base_loop_def)
  with freed_sim [OF sim sys_free(2,3) raw] sys_free(1) show ?thesis by (metis rtranclp.rtrancl_refl)
next
  case (sys_remote l tid a ch u')
  from remote_sim [OF sim sys_remote(3-6)] sys_remote(1,2) raw show ?thesis by (auto simp: base_loop_def)
qed

lemma sys_start_sim:
  assumes "sys_start w s"
  shows "sys_sim None s w"
proof -
  have start: "srv_init w" "\<And>l. el_pending (sw_loops w l) = []" "sy_conns s = []" "sy_chan s = Map.empty"
      "\<And>l. l \<noteq> base_loop s \<Longrightarrow> \<exists>el. sy_io s l = (Polling, (el, Map.empty)) \<and> bare_loop el
          \<and> el_threadId el = el_threadId (sw_loops w l)"
    using assms by (simp_all add: sys_start_def)
  have "loop_sim s w l \<and> sy_cs s l = Map.empty" if l: "l \<noteq> base_loop s" for l
  proof -
    obtain el where el: "sy_io s l = (Polling, (el, Map.empty))" "bare_loop el" "el_threadId el = el_threadId (sw_loops w l)"
      using start(5) [OF l] by blast
    have "shared_ok (sy_io s l)" unfolding el(1) by (rule shared_reach_ok [OF sh_start [OF el(2), of False]])
    with el start(2) show ?thesis by (simp add: loop_sim_def sy_el_def sy_cs_def io_queue_def bare_loop_def)
  qed
  with assms srv_init_inv [OF start(1)] show ?thesis
    unfolding sys_sim_def sys_start_def by (auto simp: srv_init_def)
qed

lemma sys_reach_inv:
  assumes "sys_reach others w0 s"
  shows "(\<exists>w. srv_reach w0 w \<and> sys_sim None s w) \<and> raw_covered s \<and> (\<forall>l. l \<noteq> base_loop s \<longrightarrow> shared_reach others (sy_io s l))"
  using assms
proof (induction rule: sys_reach.induct)
  case (sys_first s)
  then have "srv_reach w0 w0" by (simp add: sys_start_def srv_reach_def)
  moreover have "shared_reach others (sy_io s l)" if "l \<noteq> base_loop s" for l
    using sys_first that sh_start by (metis sys_start_def)
  moreover have "raw_covered s" using sys_first by (simp add: raw_covered_def sys_start_def)
  ultimately show ?case using sys_start_sim [OF sys_first] by blast
next
  case (sys_next s s')
  then obtain w where w: "srv_reach w0 w" "sys_sim None s w" "raw_covered s" by blast
  from sys_step_sim [OF sys_next.hyps(2) w(2,3)] obtain w' where w': "srv_step\<^sup>*\<^sup>* w w'" "sys_sim None s' w'" "raw_covered s'"
      "base_loop s' = base_loop s" "\<And>l. l \<noteq> base_loop s \<Longrightarrow> sy_io s' l = sy_io s l \<or> shared_step others (sy_io s l) (sy_io s' l)"
    by blast
  have "srv_reach w0 w'" using w(1) w'(1) unfolding srv_reach_def by (meson rtranclp_trans)
  moreover have "shared_reach others (sy_io s' l)" if "l \<noteq> base_loop s'" for l
    using w'(4) w'(5) [of l] sys_next.IH that sh_next by metis
  ultimately show ?case using w'(2,3) by blast
qed

lemma sys_reach_sim:
  assumes "sys_reach others w0 s"
  shows "(\<exists>w. srv_reach w0 w \<and> sys_sim None s w) \<and> (\<forall>l. l \<noteq> base_loop s \<longrightarrow> shared_reach others (sy_io s l))"
  using sys_reach_inv [OF assms] by blast

section \<open>What the server and its users may rely on\<close>

text \<open>Where the connections are used by their loops' threads only, no functor has lost its bytes.\<close>

lemma sys_own_live:
  assumes "sys_reach False w0 s" and "l \<noteq> base_loop s" and "sy_io s l = (Running ((ch, f) # fs), (el, cs))"
    and "may_run (ch, f) (el, cs)"
  shows "\<not> dangling f"
proof -
  have "shared_reach False (sy_io s l)" using sys_reach_sim [OF assms(1)] assms(2) by blast
  from shared_reach_own [OF this] have "conns_own ((ch, f) # fs) (el, cs)" by (simp add: assms(3))
  moreover obtain c where "cs ch = Some c" using assms(4) by (auto simp: may_run_def split: option.splits)
  ultimately have "own_ok (f # mine ch fs, (view ch el, c))" using conns_ownD by fastforce
  then show ?thesis by (cases f) (simp_all add: own_ok_def dangling_def)
qed

text \<open>
  C3: The server with everything below it refines the server alone: every run of the base loop, the
  loops of the pool and their connections, each used by the thread of its loop only, in any interleaving, is a
  run of the table and its functors in which a connection has been closed exactly when its close
  callback has been made, and is up and not yet down exactly while its channel is registered with the
  poller of its loop; and each loop goes through states that a loop with its connections can reach.
\<close>
theorem system_refines_server:
  assumes "sys_reach False w0 s"
  shows "(\<exists>w. srv_reach w0 w \<and> sw_server w = sy_server s \<and> sw_conns w = sy_conns s
      \<and> el_pending (sw_loops w (base_loop s)) = el_pending (sy_base s)
      \<and> (\<forall>i < length (sy_conns s). case sy_chan s i of
          Some ch \<Rightarrow> (\<exists>c. sy_cs s (home s i) ch = Some c \<and> (i \<in> set (sw_closed w) \<longleftrightarrow> has_closed c)
            \<and> (log_of w i = [Up i] \<longleftrightarrow> el_hasChannel ch (sy_el s (home s i))))
        | None \<Rightarrow> log_of w i = [Up i, Down i]))
    \<and> (\<forall>l. l \<noteq> base_loop s \<longrightarrow> shared_reach False (sy_io s l))"
proof -
  obtain w where w: "srv_reach w0 w" "sys_sim None s w" using sys_reach_sim [OF assms] by blast
  note D = sys_simD [OF w(2)]
  have "case sy_chan s i of
      Some ch \<Rightarrow> (\<exists>c. sy_cs s (home s i) ch = Some c \<and> (i \<in> set (sw_closed w) \<longleftrightarrow> has_closed c)
        \<and> (log_of w i = [Up i] \<longleftrightarrow> el_hasChannel ch (sy_el s (home s i))))
    | None \<Rightarrow> log_of w i = [Up i, Down i]" if "i < length (sy_conns s)" for i
    using D(14) [of i] D(17) [OF that] by (auto simp: conn_sim_def split: option.split)
  with w(1) D(3,4,8) sys_reach_sim [OF assms] show ?thesis by blast
qed

text \<open>
  C4: No part of a running server whose connections are used by the threads of their loops only aborts or
  uses a connection that was freed, and nothing is assumed of when functors run: every documented answer of the
  kernel is taken, every active channel is handled, every functor of a batch is run, whatever it is, the close
  callbacks return, the base loop runs every functor of its queue, a new connection is accepted unless the counter
  of names is at its end, and a connection that loses its last owner, functors bound to \<open>this\<close> not
  counted, is down, its channel not registered any more and no functor waits for it.
\<close>
theorem system_never_aborts:
  assumes "sys_reach False w0 s" and "l \<noteq> base_loop s"
  shows "(\<forall>ans t. fst (sy_io s l) = Polling \<and> answer_ok ans (el_chans (sy_el s l), el_poller (sy_el s l)) \<longrightarrow>
        el_poll ans t (sy_el s l) \<noteq> None)
    \<and> (\<forall>ch chs. fst (sy_io s l) = Handling (ch # chs) \<longrightarrow> dispatch call_shared shared_alive ch (snd (sy_io s l)) \<noteq> None)
    \<and> (\<forall>f fs. fst (sy_io s l) = Running (f # fs) \<longrightarrow> exec_shared f (snd (sy_io s l)) \<noteq> None)
    \<and> (\<forall>t. io_step (sy_io s l) t \<longrightarrow> io_done l t s \<noteq> None)
    \<and> (\<forall>f fs. el_pending (sy_base s) = f # fs \<longrightarrow> (\<exists>i. f = RemoveInLoop i
        \<and> sys_removeConnectionInLoop i (s\<lparr>sy_base := (sy_base s)\<lparr>el_pending := fs\<rparr>\<rparr>) \<noteq> None))
    \<and> (\<forall>l pool. getNextLoop (ts_pool (sy_server s)) = Some (l, pool) \<and> ts_nextConnId (sy_server s) \<noteq> INT_MAX
        \<and> can_open sockfd ch wr rd (server_user user) (snd (sy_io s l)) \<longrightarrow>
        sys_newConnection sockfd peer loc ch wr rd user s \<noteq> None)
    \<and> (\<forall>i ch. sy_chan s i = Some ch \<and> \<not> referenced i ch s \<longrightarrow>
        (\<exists>c. sy_cs s (home s i) ch = Some c \<and> tc_state c = kDisconnected \<and> \<not> el_hasChannel ch (sy_el s (home s i)))
        \<and> ch \<notin> fst ` set (io_queue (sy_io s (home s i))))"
proof -
  obtain w where sim: "sys_sim None s w" and raw: "raw_covered s" using sys_reach_inv [OF assms(1)] by blast
  note D = sys_simD [OF sim]
  obtain ph el cs where io: "sy_io s l = (ph, (el, cs))" by (cases "sy_io s l") auto
  have sy: "sy_el s l = el" "sy_cs s l = cs" by (simp_all add: sy_el_def sy_cs_def io)
  have ok: "conns_ok (running ph) (el, cs)" "phase_fits ph (el, cs)" using D(11) [OF assms(2)] by (simp_all add: shared_ok_def io)
  have "el_poll ans t el \<noteq> None" if "ph = Polling" "answer_ok ans (el_chans el, el_poller el)" for ans t
    using poll_ok [of el cs ans t] ok that by auto
  moreover have "dispatch call_shared shared_alive ch (el, cs) \<noteq> None" if "ph = Handling (ch # chs)" for ch chs
    using dispatch_ok [of el cs ch chs] ok that by auto
  moreover have "exec_shared f (el, cs) \<noteq> None" if f: "ph = Running (f # fs)" for f fs
  proof -
    obtain k g where fg: "f = (k, g)" by (cases f)
    have run: "sy_io s l = (Running ((k, g) # fs), (el, cs))" by (simp add: io f fg)
    have may: "may_run (k, g) (el, cs)" by (rule sim_may_run [OF sim assms(2) run]) blast
    have live: "\<not> dangling g" by (rule sys_own_live [OF assms run may])
    show ?thesis unfolding fg by (rule exec_ok [OF _ may live, of fs]) (use ok(1) f fg in simp_all)
  qed
  moreover have "io_done l t s \<noteq> None" if "io_step (sy_io s l) t" for t
    using loop_sim_step [OF sim assms(2) that, of False] by (auto simp: io_follows_def)
  moreover have "\<exists>i. f = RemoveInLoop i
      \<and> sys_removeConnectionInLoop i (s\<lparr>sy_base := (sy_base s)\<lparr>el_pending := fs\<rparr>\<rparr>) \<noteq> None"
    if f: "el_pending (sy_base s) = f # fs" for f fs
  proof -
    obtain i where "f = RemoveInLoop i" using D(9) f by auto
    with base_sim [OF sim f [unfolded this], of False] show ?thesis by auto
  qed
  moreover have "sys_newConnection sockfd peer loc ch wr rd user s \<noteq> None"
    if a: "getNextLoop (ts_pool (sy_server s)) = Some (l', pool)" "ts_nextConnId (sy_server s) \<noteq> INT_MAX"
      "can_open sockfd ch wr rd (server_user user) (snd (sy_io s l'))" for l' pool
  proof -
    have l': "l' \<noteq> base_loop s" by (rule next_loop_pool(1) [OF sim a(1)])
    obtain ph' el' cs' where io': "sy_io s l' = (ph', (el', cs'))" by (cases "sy_io s l'") auto
    have "conns_ok (running ph') (el', cs')" using D(11) [OF l'] by (simp add: shared_ok_def io')
    from open_ok [OF this a(3) [unfolded io' snd_conv], where wc = "uc_writeComplete (ts_callbacks (sy_server s))"] obtain u where
      "runInLoop exec_shared (el_threadId (sy_base s)) (ch, ConnectEstablished)
        (open_conn (uc_writeComplete (ts_callbacks (sy_server s))) (conn_name (sy_server s)) sockfd ch wr rd (server_user user) (el', cs')) = Some u" by blast
    with a(1,2) io' show ?thesis by (simp add: sys_newConnection_def Let_def)
  qed
  moreover have "(\<exists>c. sy_cs s (home s i) ch = Some c \<and> tc_state c = kDisconnected \<and> \<not> el_hasChannel ch (sy_el s (home s i)))
      \<and> ch \<notin> fst ` set (io_queue (sy_io s (home s i)))"
    if i: "sy_chan s i = Some ch" "\<not> referenced i ch s" for i ch
    using free_sim(1) [OF sim i raw, of False] free_sim(3) [OF sim i raw] by (cases "sy_io s (home s i)") (auto simp: can_destroy_def sy_cs_def sy_el_def split: option.splits)
  ultimately show ?thesis by (simp add: io sy)
qed

text \<open>
  C5: The table and the loops agree: connections have different names; one that is in the table
  exists; and when no functor that takes it up or down is under way, a connection whose close
  callback has been made is in no table and its channel in no poller, and any other is in the table
  and its channel registered with the poller of its loop. (Calls of other threads are single steps.)
\<close>
theorem system_tracks_connections:
  assumes "sys_reach others w0 s" and "i < length (sy_conns s)"
  defines "listed \<equiv> ts_connections (sy_server s) (co_name (sy_conns s ! i)) = Some i"
  shows "distinct (map co_name (sy_conns s)) \<and> (listed \<longrightarrow> sy_chan s i \<noteq> None)
    \<and> (\<forall>ch. sy_chan s i = Some ch \<longrightarrow> (\<exists>c. sy_cs s (home s i) ch = Some c
        \<and> (RemoveInLoop i \<notin> set (el_pending (sy_base s)) \<and> ch \<notin> fst ` set (filter takes (io_queue (sy_io s (home s i)))) \<longrightarrow>
            (if has_closed c then \<not> listed \<and> \<not> el_hasChannel ch (sy_el s (home s i))
             else listed \<and> el_hasChannel ch (sy_el s (home s i))))))"
proof -
  obtain w where sim: "sys_sim None s w" using sys_reach_sim [OF assms(1)] by blast
  note D = sys_simD [OF sim]
  obtain st where st: "at_stage w i st" by (rule sim_stage [OF sim assms(2)])
  have tab: "listed \<longleftrightarrow> in_table w i" by (simp add: listed_def in_table_def D(3,4))
  have "distinct (map co_name (sw_conns w))" using sim_names [OF sim] D(4) by simp
  moreover have "sy_chan s i \<noteq> None" if listed
  proof
    assume "sy_chan s i = None"
    with D(17) [OF assms(2)] st have "st = Gone" by (cases st) (simp_all add: at_stage_def)
    with st that tab show False by (simp add: at_stage_def)
  qed
  moreover have "\<exists>c. sy_cs s (home s i) ch = Some c
      \<and> (RemoveInLoop i \<notin> set (el_pending (sy_base s)) \<and> ch \<notin> fst ` set (filter takes (io_queue (sy_io s (home s i)))) \<longrightarrow>
          (if has_closed c then \<not> listed \<and> \<not> el_hasChannel ch (sy_el s (home s i))
           else listed \<and> el_hasChannel ch (sy_el s (home s i))))" if ch: "sy_chan s i = Some ch" for ch
  proof -
    obtain c where c: "sy_cs s (home s i) ch = Some c" "conn_sim None w i (sy_el s (home s i)) ch c" "home s i \<noteq> base_loop s"
      by (rule sim_conn [OF sim ch]) blast
    have "st = Opened \<or> st = Gone" if q: "RemoveInLoop i \<notin> set (el_pending (sy_base s))"
      "ch \<notin> fst ` set (filter takes (io_queue (sy_io s (home s i))))"
    proof -
      have "Established i \<notin> set (el_pending (sw_loops w (home s i)))" "Destroyed i \<notin> set (el_pending (sw_loops w (home s i)))"
        using stands_for_back [OF D(12) [OF c(3)] ch] q(2) by (force simp: takes_def)+
      moreover have mem: "g \<in> set (el_pending (sw_loops w l))" if "g \<in> set (stage_pending st w i l)" for g l
        using that st by (metis (no_types, lifting) at_stage_def filter_is_subset pending_of_def subsetD)
      ultimately show ?thesis using q(1) D(3,4,8) mem [of _ "home s i"] mem [of _ "base_loop s"]
        by (cases st) (auto simp: home_def base_loop_def)
    qed
    with c st tab show ?thesis by (auto simp: at_stage_def conn_sim_def)
  qed
  ultimately show ?thesis using D(4) by metis
qed

text \<open>
  The user of a connection whose close callback queues \<open>connectDestroyed\<close> itself and the one whose close
  callback is the server's have the same abstract connection.
\<close>

lemma server_user_spec:
  assumes "\<And>k. set (u k CloseCb) \<subseteq> {AQueueDestroyed}"
  shows "spec_step (server_user u) = spec_step u"
proof (intro ext)
  fix x :: "nat \<times> callback" and a
  obtain k cb where x: "x = (k, cb)" by (cases x)
  have "fold spec_call as b = b" if "set as \<subseteq> {AQueueDestroyed}" for as b
    using that by (induction as) auto
  with assms show "spec_step (server_user u) x a = spec_step u x a" by (auto simp: x spec_step_def server_user_def)
qed

lemma as_single_loop:
  assumes ag: "agrees [] (el, c)" and ok: "conn_ok (el, c)" and user: "tc_user c = server_user u"
    and close: "\<And>k. set (u k CloseCb) \<subseteq> {AQueueDestroyed}"
  shows "agrees [] (el, c\<lparr>tc_user := u\<rparr>)" "conn_ok (el, c\<lparr>tc_user := u\<rparr>)"
proof -
  note spec = server_user_spec [of u, OF close]
  have "replay (server_user u) = replay u" by (simp add: replay_def spec fun_eq_iff)
  then have replay: "replay (server_user u) cbs = replay u cbs" "delivers (server_user u) rd cbs = delivers u rd cbs" for cbs rd
    by (simp_all add: delivers_def)
  have api: "list_all api_ok (u k cb)" for k cb
  proof (cases "cb = CloseCb")
    case True
    with close [of k] show ?thesis by (auto simp: list_all_iff)
  next
    case False
    moreover have "list_all api_ok (server_user u k cb)" using ag user by (simp add: agrees_def)
    ultimately show ?thesis by (simp add: server_user_def)
  qed
  then show "agrees [] (el, c\<lparr>tc_user := u\<rparr>)"
    using ag user by (simp add: agrees_def replay no_sends_def spec_of_def)
  have "list_all (\<lambda>a. case a of ASendBuffer b \<Rightarrow> buf_inv b | _ \<Rightarrow> True) (u k cb)" for k cb
    using api [of k cb] by (rule list.pred_mono_strong) (auto split: api.splits)
  with ok show "conn_ok (el, c\<lparr>tc_user := u\<rparr>)"
    by (simp add: conn_ok_def data_but_def chan_ok_def Let_def)
qed

text \<open>
  C6: All clients of a server with any number of loops: whatever the other clients and loops do,
  every client of the echo server gets back exactly the first piece it has sent, and every client of the
  HTTP server the transcript of its own session.
\<close>
theorem system_clients_served:
  assumes "sys_reach False w0 s" and "l \<noteq> base_loop s" and "sy_cs s l ch = Some c"
    and "\<And>k req. length (rs_body (httpCallback k req (new_response (wants_close req)))) < 10 ^ 13"
  shows "(tc_user c = server_user echo_user \<longrightarrow>
      wire (tc_trace c) @ content (tc_output c) = first_message (callbacks (tc_trace c)) \<and> content (tc_input c) = []
      \<and> (\<forall>k m t. (k, MessageCb m t) \<in> set (callbacks (tc_trace c)) \<longrightarrow> m \<noteq> [] \<and> (\<exists>room. tc_read c k room = Inr m)))
    \<and> (tc_user c = server_user (http_user httpCallback order) \<longrightarrow>
      wire (tc_trace c) @ content (tc_output c) = sc_sent (http_session httpCallback order (callbacks (tc_trace c)))
      \<and> spec_of c = http_session httpCallback order (callbacks (tc_trace c)))"
proof -
  obtain ph el cs where io: "sy_io s l = (ph, (el, cs))" by (cases "sy_io s l") auto
  then have c: "cs ch = Some c" using assms(3) by (simp add: sy_cs_def)
  have reach: "shared_reach False (ph, (el, cs))" using sys_reach_sim [OF assms(1)] assms(2) io by metis
  note conn = shared_conn(3) [OF reach c refl] shared_conn(1) [OF reach c]
  have "wire (tc_trace c) @ content (tc_output c) = first_message (callbacks (tc_trace c)) \<and> content (tc_input c) = []
      \<and> (\<forall>k m t. (k, MessageCb m t) \<in> set (callbacks (tc_trace c)) \<longrightarrow> m \<noteq> [] \<and> (\<exists>room. tc_read c k room = Inr m))"
    if "tc_user c = server_user echo_user"
  proof -
    have "set (echo_user k CloseCb) \<subseteq> {AQueueDestroyed}" for k by (simp add: echo_user_def)
    from echo_conn_served [OF as_single_loop [OF conn that this]] show ?thesis by simp
  qed
  moreover have "wire (tc_trace c) @ content (tc_output c) = sc_sent (http_session httpCallback order (callbacks (tc_trace c)))
      \<and> spec_of c = http_session httpCallback order (callbacks (tc_trace c))"
    if "tc_user c = server_user (http_user httpCallback order)"
  proof -
    have "set (http_user httpCallback order k CloseCb) \<subseteq> {AQueueDestroyed}" for k by (simp add: http_user_def)
    from http_conn_served [where httpCallback = httpCallback and order = order, OF as_single_loop [OF conn that this] _ assms(4)] show ?thesis by (simp add: spec_of_def)
  qed
  ultimately show ?thesis by blast
qed

end
