(* ===== verification/Server_Release.thy ===== *)
theory Server_Release
  imports Server_Runs
begin

text \<open>
  Nothing is leaked: whatever state a server is in, the base loop and the loop of a connection that has been
  closed can always go on, by themselves, to where the connection is freed.
\<close>

section \<open>A loop goes on\<close>















section \<open>The base loop empties its queue\<close>


section \<open>Closed connections are freed\<close>



end
