(* ===== verification/Server_Demo.thy ===== *)
theory Server_Demo
  imports Server_Release
begin

text \<open>
  A run of a server with two loops: a client is accepted, comes up in the first loop and sends
  something. Its peer hangs up in the end. The properties of \<open>Server_Runs\<close> and \<open>Server_Release\<close> are applied to its states.
\<close>

section \<open>Start\<close>

definition demo_pool :: srv_world where
  "demo_pool = demo_srv\<lparr>sw_server := (sw_server demo_srv)\<lparr>ts_pool := lp_start Suc False (lp_setThreadNum 2 (new_loop_pool 0 ''srv''))\<rparr>\<rparr>"

definition demo_io :: "nat \<Rightarrow> shared_loop" where
  "demo_io l = shared_demo\<lparr>el_threadId := int l\<rparr>"

definition demo_system :: system where
  "demo_system = \<lparr>sy_server = sw_server demo_pool, sy_base = idle_loop 0, sy_conns = [], sy_chan = Map.empty,
     sy_io = \<lambda>l. (Polling, (demo_io l, Map.empty))\<rparr>"

lemma demo_threads: "lp_start Suc False (lp_setThreadNum 2 (new_loop_pool 0 ''srv'')) =
    \<lparr>lp_baseLoop = 0, lp_name = ''srv'', lp_started = True, lp_numThreads = 2, lp_next = 0, lp_threads = [''srv0'', ''srv1''],
     lp_loops = [1, 2], lp_called = []\<rparr>"
  by code_simp

lemma demo_io_bare: "bare_loop (demo_io l)"
  using shared_demo_bare by (simp add: bare_loop_def demo_io_def loop_wf_def wake_ok_def)

lemma demo_system_start: "sys_start demo_pool demo_system"
proof -
  have "srv_init demo_pool"
    using demo_srv_init by (simp add: srv_init_def demo_pool_def demo_threads lp_ok_def loop_tid_def inj_def)
  then show ?thesis
    by (auto simp: sys_start_def demo_system_def demo_pool_def demo_srv_def idle_loop_def base_loop_def demo_threads getAllLoops_def
        demo_io_bare) (simp_all add: demo_io_def)
qed

lemma demo_base: "base_loop demo_system = 0"
  by (simp add: base_loop_def demo_system_def demo_pool_def demo_srv_def)

section \<open>A client is accepted and comes up\<close>

lemma echo_server_user:
  "\<forall>k cb. list_all api_ok (server_user echo_user k cb)" "leaves_destruction (server_user echo_user)"
  "server_user echo_user 0 (ConnectionCb True) = []"
  by (simp_all add: server_user_def echo_user_def leaves_destruction_def split: callback.split)

lemma demo_can_open: "can_open 7 2 demo_write demo_read (server_user echo_user) (demo_io l, Map.empty)"
  using echo_server_user(1) by (simp add: can_open_def present_def readv_ok_def demo_io_def shared_demo_def demo_eval)

lemma demo_next: "\<exists>pool. getNextLoop (ts_pool (sy_server demo_system)) = Some (1, pool)"
  by (simp add: demo_system_def demo_pool_def demo_srv_def demo_threads getNextLoop_def Let_def)

lemma demo_accepted:
  obtains s el c el0 el1 where "sys_reach others demo_pool s" and "base_loop s = 0" and "sy_io s 1 = (Polling, (el, [2 \<mapsto> c]))"
    and "(el0, c) = new_conn (conn_name (sw_server demo_pool)) 7 2 demo_write demo_read (server_user echo_user) el1"
    and "el_chans el = (el_chans demo_loop)(2 := conn_callbacks (new_channel 7))" and "el_poller el = el_poller demo_loop"
    and "el_pending el = [(2, ConnectEstablished)]" and "el_threadId el = 1" and "el_wakeupChannel el = 0"
    and "\<not> el_calling el" and "length (sy_conns s) = 1" and "home s 0 = 1" and "sy_chan s = [0 \<mapsto> 2]"
    and "el_pending (sy_base s) = []" and "sy_io s 2 = (Polling, (demo_io 2, Map.empty))"
proof -
  let ?name = "conn_name (sw_server demo_pool)" and ?user = "server_user echo_user"
  let ?wc = "uc_writeComplete (ts_callbacks (sw_server demo_pool))"
  have wc: "\<not> ?wc" by (simp add: demo_pool_def demo_srv_def)
  have sys: "sy_io demo_system = (\<lambda>l. (Polling, (demo_io l, Map.empty)))" "sy_conns demo_system = []" "sy_chan demo_system = Map.empty"
      "el_threadId (sy_base demo_system) = 0" "el_pending (sy_base demo_system) = []" "sy_server demo_system = sw_server demo_pool"
    by (simp_all add: demo_system_def idle_loop_def)
  have loop: "el_chans (demo_io l) = el_chans demo_loop" "el_poller (demo_io l) = el_poller demo_loop" "el_pending (demo_io l) = []"
      "el_threadId (demo_io l) = int l" "el_wakeupChannel (demo_io l) = 0" "\<not> el_calling (demo_io l)" for l
    by (simp_all add: demo_io_def shared_demo_def) (simp_all add: demo_eval)
  have "conns_ok [] (demo_io 1, Map.empty)"
    using shared_reach_ok [OF sh_start [OF demo_io_bare, of False]] by (simp add: shared_ok_def)
  from open_fresh [OF this demo_can_open, where wc = ?wc and name = ?name] wc obtain el c where
    o: "open_conn ?wc ?name 7 2 demo_write demo_read ?user (demo_io 1, Map.empty) = (el, [2 \<mapsto> c])"
      "(view 2 el, c) = new_conn ?name 7 2 demo_write demo_read ?user (view 2 (demo_io 1))"
      "el = (demo_io 1)\<lparr>el_chans := (el_chans (demo_io 1))(2 := conn_callbacks (new_channel 7))\<rparr>"
    by (metis (no_types, lifting))
  let ?el = "queueInLoop 0 (2, ConnectEstablished) el"
  have run: "runInLoop exec_shared 0 (2, ConnectEstablished)
      (open_conn ?wc ?name 7 2 demo_write demo_read ?user (demo_io 1, Map.empty)) = Some (?el, [2 \<mapsto> c])"
    unfolding o(1) by (simp add: runInLoop_def isInLoopThread_def o(3) loop)
  obtain pool where nxt: "getNextLoop (ts_pool (sy_server demo_system)) = Some (1, pool)" using demo_next by blast
  have id: "ts_nextConnId (sw_server demo_pool) \<noteq> INT_MAX" by (simp add: demo_pool_def demo_srv_def INT_MAX_def)
  obtain s where new: "sys_newConnection 7 demo_addr demo_addr 2 demo_write demo_read echo_user demo_system = Some s"
      and s: "sy_io s = (sy_io demo_system)(1 := (Polling, (?el, [2 \<mapsto> c])))" "sy_chan s = [0 \<mapsto> 2]" "sy_base s = sy_base demo_system"
        "length (sy_conns s) = 1" "co_loop (sy_conns s ! 0) = 1" "ts_loop (sy_server s) = ts_loop (sw_server demo_pool)"
    using nxt id run by (simp add: sys_newConnection_def sys Let_def)
  have can: "can_open 7 2 demo_write demo_read ?user (snd (sy_io demo_system 1))" using demo_can_open by (simp add: sys)
  have "sys_reach others demo_pool s"
    by (rule sys_next [OF sys_first [OF demo_system_start] sys_accept [OF nxt can echo_server_user(2) new]])
  moreover have "base_loop s = 0" using demo_base by (simp add: base_loop_def s(6) sys(6))
  moreover have "el_chans ?el = (el_chans demo_loop)(2 := conn_callbacks (new_channel 7))" "el_poller ?el = el_poller demo_loop"
      "el_pending ?el = [(2, ConnectEstablished)]" "el_threadId ?el = 1" "el_wakeupChannel ?el = 0" "\<not> el_calling ?el"
    by (simp_all add: queueInLoop_def wakeup_def Let_def o(3) loop)
  ultimately show ?thesis using that [OF _ _ _ o(2)] s by (simp add: sys home_def)
qed

text \<open>A step in which no close callback is made.\<close>

lemma quiet_step:
  assumes "sys_reach others w s" and "l \<noteq> base_loop s" and "io_step (sy_io s l) t"
    and "\<And>ch c. snd (snd t) ch = Some c \<Longrightarrow> \<not> has_closed c"
  shows "sys_reach others w (s\<lparr>sy_io := (sy_io s)(l := t)\<rparr>)"
  proof (rule sys_next [OF assms(1) sys_loop [OF assms(2,3)]])
  have "closing l t s = []" by (rule closing_none) (use assms(4) in blast)
  then show "io_done l t s = Some (s\<lparr>sy_io := (sy_io s)(l := t)\<rparr>)" by (simp add: io_done_def)
qed


lemma not_closed: "tc_trace c = [] \<Longrightarrow> \<not> has_closed c" "tc_trace c = [Called (ConnectionCb True)] \<Longrightarrow> \<not> has_closed c"
  by (simp_all add: has_closed_def)

lemma demo_client_up:
  obtains s el c q where "sys_reach others demo_pool s" and "base_loop s = 0" and "sy_io s 1 = (Polling, (el, [2 \<mapsto> c]))"
    and "tc_trace c = [Called (ConnectionCb True)]" and "tc_user c = server_user echo_user" and "tc_read c = demo_read"
    and "content (tc_input c) = []" and "el_pending el = []" and "el_wakeupChannel el = 0" and "el_poller el = Epoll q"
    and "ep_interest q 7 = Some (3, 2)" and "ch_fd (el_chans el 2) = 7" and "ch_events (el_chans el 2) = 3"
    and "ch_tie (el_chans el 2) = Some 2" and "ch_tied (el_chans el 2)"
    and "length (sy_conns s) = 1" and "home s 0 = 1" and "sy_chan s = [0 \<mapsto> 2]" and "el_pending (sy_base s) = []"
    and "el_threadId el = 1"
proof -
  obtain s el c el0 el1 where a: "sys_reach others demo_pool s" "base_loop s = 0" "sy_io s 1 = (Polling, (el, [2 \<mapsto> c]))"
      and new: "(el0, c) = new_conn (conn_name (sw_server demo_pool)) 7 2 demo_write demo_read (server_user echo_user) el1"
      and el: "el_chans el = (el_chans demo_loop)(2 := conn_callbacks (new_channel 7))" "el_poller el = el_poller demo_loop"
        "el_pending el = [(2, ConnectEstablished)]" "el_threadId el = 1" "el_wakeupChannel el = 0" "\<not> el_calling el"
      and s: "length (sy_conns s) = 1" "home s 0 = 1" "sy_chan s = [0 \<mapsto> 2]" "el_pending (sy_base s) = []"
    by (rule demo_accepted [of others]) blast
  have quiet: "\<not> has_closed c" using new by (intro not_closed) (simp add: new_conn_def)
  have l: "(1::nat) \<noteq> base_loop s" using a(2) by simp
  let ?ans = "EpollWait (Inl 4)" and ?t = "Timestamp 1"
  have ans: "answer_ok ?ans (el_chans el, el_poller el)" by (simp add: answer_ok_def el(2)) (simp add: demo_eval)
  define el1 where "el1 = el\<lparr>el_poller := el_poller demo_loop, el_active := [], el_pollReturnTime := ?t\<rparr>"
  have poll: "el_poll ?ans ?t el = Some el1"
    by (simp add: el_poll_def poller_poll_def epoll_poll_def el(2) el1_def) (simp add: demo_eval)
  have poll_step: "io_step (sy_io s 1) (Handling [], (el1, [2 \<mapsto> c]))" 
    unfolding a(3) using io_poll [OF ans poll] by (simp add: el1_def)
  define el2 where "el2 = el1\<lparr>el_calling := True, el_pending := [], el_current := None\<rparr>"
  have begin_step: "io_step (Handling [], (el1, [2 \<mapsto> c])) (Running [(2, ConnectEstablished)], (el2, [2 \<mapsto> c]))"
    using io_begin [of el1 "el1\<lparr>el_calling := True, el_pending := []\<rparr>" "[(2, ConnectEstablished)]"]
    by (simp add: begin_pending_def el1_def el2_def el)
  have view: "el_chans (view 2 el2) = (el_chans demo_loop)(2 := conn_callbacks (new_channel 7))" "el_poller (view 2 el2) = el_poller demo_loop"
    by (simp_all add: el2_def el1_def el)
  obtain v c' q where up: "connectEstablished (view 2 el2, c) = Some (v, c')" "tc_trace c' = [Called (ConnectionCb True)]"
      "tc_user c' = server_user echo_user" "tc_read c' = demo_read" "content (tc_input c') = []" "el_pending v = el_pending (view 2 el2)"
      "el_threadId v = el_threadId (view 2 el2)" "el_wakeupChannel v = el_wakeupChannel (view 2 el2)"
      "el_calling v = el_calling (view 2 el2)" "el_poller v = Epoll q" "ep_interest q 7 = Some (3, 2)"
      "ch_fd (el_chans v 2) = 7" "ch_events (el_chans v 2) = 3" "ch_tie (el_chans v 2) = Some 2" "ch_tied (el_chans v 2)"
    by (rule client_up [OF view new echo_server_user(3)]) blast
  define el3 where "el3 = put_view 2 v el2"
  have run_step: "io_step (Running [(2, ConnectEstablished)], (el2, [2 \<mapsto> c])) (Running [], (el3, [2 \<mapsto> c']))"
    by (rule io_run) (simp add: as_conn_def up(1) el3_def)
  let ?el = "el3\<lparr>el_calling := False\<rparr>"
  have end_step: "io_step (Running [], (el3, [2 \<mapsto> c'])) (Polling, (?el, [2 \<mapsto> c']))" by (rule io_end)
  have quiet': "\<not> has_closed c'" by (rule not_closed(2) [OF up(2)])
  let ?s = "\<lambda>t. s\<lparr>sy_io := (sy_io s)(1 := t)\<rparr>"
  have go: "sys_reach others demo_pool (?s t)"
    if "sys_reach others demo_pool (?s u)" "io_step u t" "\<And>ch d. snd (snd t) ch = Some d \<Longrightarrow> \<not> has_closed d" for u t
    using quiet_step [OF that(1), of 1 t] that(2,3) l by (simp add: base_loop_def)
  have r1: "sys_reach others demo_pool (?s (Handling [], (el1, [2 \<mapsto> c])))"
    by (rule quiet_step [OF a(1) l poll_step]) (use quiet in \<open>simp split: if_splits\<close>)
  have r2: "sys_reach others demo_pool (?s (Running [(2, ConnectEstablished)], (el2, [2 \<mapsto> c])))"
    by (rule go [OF r1 begin_step]) (use quiet in \<open>simp split: if_splits\<close>)
  have r3: "sys_reach others demo_pool (?s (Running [], (el3, [2 \<mapsto> c'])))"
    by (rule go [OF r2 run_step]) (use quiet' in \<open>simp split: if_splits\<close>)
  have r4: "sys_reach others demo_pool (?s (Polling, (?el, [2 \<mapsto> c'])))"
    by (rule go [OF r3 end_step]) (use quiet' in \<open>simp split: if_splits\<close>)
  have "el_wakeupChannel ?el = 0" "el_pending ?el = []" "el_poller ?el = Epoll q" "el_chans ?el = el_chans v" "el_threadId ?el = 1"
    using up(6-8,10) by (simp_all add: el3_def el2_def el1_def el)
  with that [OF r4, of ?el c' q] up(2-5,11-15) a(2) s show ?thesis by (simp add: base_loop_def home_def)
qed


text \<open>It sends something.\<close>

lemma demo_client_served:
  obtains s el c m where "sys_reach False demo_pool s" and "base_loop s = 0" and "sy_io s 1 = (Handling [], (el, [2 \<mapsto> c]))"
    and "tc_user c = server_user echo_user" and "callbacks (tc_trace c) = [(0, ConnectionCb True), (1, MessageCb m (Timestamp 1))]"
    and "m \<noteq> []"
proof -
  obtain s el c q where up: "sys_reach False demo_pool s" "base_loop s = 0" "sy_io s 1 = (Polling, (el, [2 \<mapsto> c]))"
      "tc_trace c = [Called (ConnectionCb True)]" "tc_user c = server_user echo_user" "tc_read c = demo_read"
      "content (tc_input c) = []" "el_wakeupChannel el = 0" "el_poller el = Epoll q"
      "ep_interest q 7 = Some (3, 2)" "ch_fd (el_chans el 2) = 7" "ch_events (el_chans el 2) = 3"
      "ch_tie (el_chans el 2) = Some 2" "ch_tied (el_chans el 2)"
    by (rule demo_client_up [of False]) blast
  have l: "(1::nat) \<noteq> base_loop s" using up(2) by simp
  have "shared_reach False (sy_io s 1)" using sys_reach_sim [OF up(1)] l by blast
  then have reach: "shared_reach False (Polling, (el, [2 \<mapsto> c]))" unfolding up(3) .
  let ?cs = "[2 \<mapsto> c] :: conns" and ?ans = "EpollWait (Inr [(EPOLLIN, 2)])" and ?t = "Timestamp 1"
  have c: "?cs 2 = Some c" by simp
  obtain el1 v c' m where m: "answer_ok ?ans (el_chans el, el_poller el)" "el_poll ?ans ?t el = Some el1" "el_active el1 = [2]"
      "dispatch call_shared shared_alive 2 (el1, ?cs) = Some (put_view 2 v el1, ?cs(2 \<mapsto> c'))"
      "callbacks (tc_trace c') = [(0, ConnectionCb True), (1, MessageCb m ?t)]" "m \<noteq> []" "tc_user c' = tc_user c"
    by (rule message_arrives [OF reach c up(4,6,7,8-14)]) blast
  have "io_step (sy_io s 1) (Handling [2], (el1, ?cs))" unfolding up(3) using io_poll [OF m(1,2)] by (simp add: m(3))
  then have r1: "sys_reach False demo_pool (s\<lparr>sy_io := (sy_io s)(1 := (Handling [2], (el1, ?cs)))\<rparr>)"
    by (rule quiet_step [OF up(1) l]) (use not_closed(2) [OF up(4)] in \<open>simp split: if_splits\<close>)
  let ?s = "s\<lparr>sy_io := (sy_io s)(1 := (Handling [2], (el1, ?cs)))\<rparr>" and ?w = "(put_view 2 v el1, ?cs(2 \<mapsto> c'))"
  have "io_step (sy_io ?s 1) (Handling [], ?w)" using io_handle [OF m(4), of "[]"] by simp
  moreover have l1: "(1::nat) \<noteq> base_loop ?s" using l by (simp add: base_loop_def)
  moreover obtain w where "sys_sim None ?s w" using sys_reach_sim [OF r1] by blast
  from loop_sim_step [OF this l1 calculation(1), of False] obtain s' where
    s': "io_done 1 (Handling [], ?w) ?s = Some s'" "sy_io s' = (sy_io ?s)(1 := (Handling [], ?w))" "sy_server s' = sy_server ?s"
    unfolding io_follows_def by blast
  ultimately have r2: "sys_reach False demo_pool s'" using sys_next [OF r1 sys_loop] by blast
  show ?thesis
    by (rule that [OF r2 _ _ _ m(5,6), of "put_view 2 v el1"]) (use m(7) up(2,5) s'(2,3) in \<open>simp_all add: base_loop_def\<close>)
qed



section \<open>The properties at this run\<close>

theorem system_refines_server_witness:
  "\<exists>s c. sys_reach False demo_pool s \<and> sy_cs s 1 2 = Some c \<and> tc_trace c \<noteq> []
     \<and> (\<exists>w. srv_reach demo_pool w \<and> sw_conns w = sy_conns s \<and> length (sw_conns w) = 1 \<and> 0 \<notin> set (sw_closed w))"
proof -
  obtain s el c where s: "sys_reach False demo_pool s" "sy_io s 1 = (Polling, (el, [2 \<mapsto> c]))"
      "tc_trace c = [Called (ConnectionCb True)]" "length (sy_conns s) = 1" "home s 0 = 1" "sy_chan s = [0 \<mapsto> 2]"
    by (rule demo_client_up [of False]) blast
  obtain w where w: "srv_reach demo_pool w" "sw_conns w = sy_conns s"
      "\<forall>i < length (sy_conns s). case sy_chan s i of
          Some ch \<Rightarrow> (\<exists>c. sy_cs s (home s i) ch = Some c \<and> (i \<in> set (sw_closed w) \<longleftrightarrow> has_closed c)
            \<and> (log_of w i = [Up i] \<longleftrightarrow> el_hasChannel ch (sy_el s (home s i))))
        | None \<Rightarrow> log_of w i = [Up i, Down i]"
    using system_refines_server [OF s(1)] by blast
  have c: "sy_cs s 1 2 = Some c" by (simp add: sy_cs_def s(2) [unfolded One_nat_def])
  from w(3) s(4,6) have "\<exists>d. sy_cs s (home s 0) 2 = Some d \<and> (0 \<in> set (sw_closed w) \<longleftrightarrow> has_closed d)" by force
  with c have "0 \<notin> set (sw_closed w)" using not_closed(2) [OF s(3)] by (simp add: s(5))
  with s(1,3,4) c w(1,2) show ?thesis by (intro exI [of _ s] exI [of _ c]) auto
qed

theorem system_never_aborts_witness:
  "\<exists>s el cs. sys_reach False demo_pool s \<and> sy_io s 1 = (Polling, (el, cs)) \<and> dom cs = {2}
     \<and> el_poll (EpollWait (Inl 4)) (Timestamp 1) el \<noteq> None"
proof -
  obtain s el c q where s: "sys_reach False demo_pool s" "base_loop s = 0" "sy_io s 1 = (Polling, (el, [2 \<mapsto> c]))" "el_poller el = Epoll q"
    by (rule demo_client_up [of False]) blast
  have "answer_ok (EpollWait (Inl 4)) (el_chans (sy_el s 1), el_poller (sy_el s 1))"
    by (simp add: answer_ok_def sy_el_def s(3,4) [unfolded One_nat_def])
  moreover have "fst (sy_io s 1) = Polling" "sy_el s 1 = el" "(1::nat) \<noteq> base_loop s" using s(2,3) by (simp_all add: sy_el_def)
  ultimately have "el_poll (EpollWait (Inl 4)) (Timestamp 1) el \<noteq> None"
    using conjunct1 [OF system_never_aborts [OF s(1), of 1]] by metis
  with s(1,3) show ?thesis by (intro exI [of _ s] exI [of _ el] exI [of _ "[2 \<mapsto> c]"]) simp
qed

theorem system_tracks_connections_witness:
  "\<exists>s. sys_reach False demo_pool s \<and> sy_chan s 0 = Some 2
     \<and> ts_connections (sy_server s) (co_name (sy_conns s ! 0)) = Some 0 \<and> el_hasChannel 2 (sy_el s 1)"
proof -
  obtain s el c where s: "sys_reach False demo_pool s" "sy_io s 1 = (Polling, (el, [2 \<mapsto> c]))"
      "tc_trace c = [Called (ConnectionCb True)]" "length (sy_conns s) = 1" "home s 0 = 1" "sy_chan s = [0 \<mapsto> 2]"
      "el_pending (sy_base s) = []" "el_pending el = []"
    by (rule demo_client_up [of False]) blast
  have c: "sy_cs s 1 2 = Some c" by (simp add: sy_cs_def s(2) [unfolded One_nat_def])
  have "io_queue (sy_io s 1) = []" unfolding s(2) using s(8) by (simp add: io_queue_def)
  moreover have "\<not> has_closed c" by (rule not_closed(2) [OF s(3)])
  moreover have n: "0 < length (sy_conns s)" using s(4) by simp
  ultimately show ?thesis
    using system_tracks_connections [OF s(1) n] c s(1,5-7) by (intro exI [of _ s]) auto
qed


theorem system_clients_served_witness:
  "\<exists>s c m. sys_reach False demo_pool s \<and> sy_cs s 1 2 = Some c \<and> m \<noteq> []
     \<and> wire (tc_trace c) @ content (tc_output c) = m \<and> content (tc_input c) = []"
proof -
  obtain s el c m where s: "sys_reach False demo_pool s" "base_loop s = 0" "sy_io s 1 = (Handling [], (el, [2 \<mapsto> c]))"
      "tc_user c = server_user echo_user" "callbacks (tc_trace c) = [(0, ConnectionCb True), (1, MessageCb m (Timestamp 1))]" "m \<noteq> []"
    by (rule demo_client_served) blast
  have c: "sy_cs s 1 2 = Some c" by (simp add: sy_cs_def s(3) [unfolded One_nat_def])
  have l: "(1::nat) \<noteq> base_loop s" using s(2) by simp
  have body: "length (rs_body (defaultHttpCallback req (new_response b))) < 10 ^ 13" for req b
    by (simp add: defaultHttpCallback_def setCloseConnection_def setStatusMessage_def setStatusCode_def new_response_def)
  have "wire (tc_trace c) @ content (tc_output c) = first_message (callbacks (tc_trace c)) \<and> content (tc_input c) = []"
    using system_clients_served [where httpCallback = "\<lambda>_. defaultHttpCallback", OF s(1) l c body] s(4) by blast
  moreover have "first_message (callbacks (tc_trace c)) = m" by (simp add: s(5) first_message_def)
  ultimately show ?thesis using s(1,6) c by blast
qed

end
