(* ===== verification/Conn_Race.thy ===== *)
theory Conn_Race
  imports Shared_Loop
begin

text \<open>
  \<open>TcpConnection::forceClose\<close> called by another thread, access by access. The test of \<open>_state\<close>, \<open>setState\<close>
  and \<open>queueInLoop\<close> are three steps, with no lock around them, and the loop's thread may take any
  number of its own steps in between (\<open>race_step\<close>). Everywhere else such a call is one step
  (\<open>forceClose_parts\<close>); here is what that leaves out. (\<open>_state\<close> is an ordinary member, so the accesses
  are a data race as well; here each of them still takes effect at once.)
\<close>

section \<open>The steps of forceClose\<close>

definition forceClose_test :: "conn_world \<Rightarrow> bool" where
  "forceClose_test w \<longleftrightarrow> tc_state (snd w) = kConnected \<or> tc_state (snd w) = kDisconnecting"

definition forceClose_mark :: "conn_world \<Rightarrow> conn_world" where
  "forceClose_mark w = apsnd (setState kDisconnecting) w"

definition forceClose_post :: "int \<Rightarrow> conn_world \<Rightarrow> conn_world" where
  "forceClose_post tid w = apfst (queueInLoop tid ForceCloseInLoop) w"

lemma forceClose_parts:
  "forceClose tid w = (if forceClose_test w then forceClose_post tid (forceClose_mark w) else w)"
  by (simp add: forceClose_def forceClose_test_def forceClose_mark_def forceClose_post_def)

text \<open>Where the other thread is, and a step of it or of the loop's thread.\<close>

datatype force_pc = FTest | FMark | FPost | FDone

inductive race_step ::
  "int \<Rightarrow> force_pc \<times> conn_functor list \<times> conn_world \<Rightarrow> force_pc \<times> conn_functor list \<times> conn_world \<Rightarrow> bool" for tid where
  race_loop: "own_step s s' \<Longrightarrow> race_step tid (pc, s) (pc, s')"
| race_test: "race_step tid (FTest, (fs, w)) (if forceClose_test w then FMark else FDone, (fs, w))"
| race_mark: "race_step tid (FMark, (fs, w)) (FPost, (fs, forceClose_mark w))"
| race_post: "race_step tid (FPost, (fs, w)) (FDone, (fs, forceClose_post tid w))"

lemma race_loops: "own_step\<^sup>*\<^sup>* s s' \<Longrightarrow> (race_step tid)\<^sup>*\<^sup>* (pc, s) (pc, s')"
  by (induction rule: rtranclp_induct) (blast intro: rtranclp.rtrancl_into_rtrancl race_loop)+

lemma own_steps_reach: "own_step\<^sup>*\<^sup>* s s' \<Longrightarrow> own_reach s \<Longrightarrow> own_reach s'"
  by (induction rule: rtranclp_induct) (blast intro: own_next)+

section \<open>Closing a second time\<close>

text \<open>On a connection that is down every call of the user's returns, and a callback with it.\<close>

lemma api_call_returns_down:
  assumes "tc_state (snd w) = kDisconnected"
  shows "api_call tid a w \<noteq> None"
  using assms by (cases w; cases a)
    (auto simp: api_call_def send_ptr_def send_string_def send_buffer_def shutdown_def)

lemma invoke_returns_down:
  assumes "tc_state (snd w) = kDisconnected"
  shows "\<exists>w'. invoke cb w = Some w' \<and> tc_state (snd w') = kDisconnected"
proof -
  have "\<exists>w'. bind_fold (api_call tid) as w = Some w' \<and> tc_state (snd w') = kDisconnected"
    if "tc_state (snd w) = kDisconnected" for tid as w
    using that
  proof (induction as arbitrary: w)
    case (Cons a as)
    from api_call_returns_down [OF Cons.prems] obtain w1 where 1: "api_call tid a w = Some w1" by blast
    with api_call_disconnected [OF Cons.prems 1] Cons.IH [of w1] show ?case by simp
  qed simp
  from this [of "apsnd (trace (Called cb)) w"] assms show ?thesis by (cases w) (simp add: invoke_def)
qed

lemma handleClose_again:
  assumes "loop_wf el" and "registrable (tc_channel c) el"
  obtains w' where "handleClose (el, c) = Some w'"
proof -
  let ?c = "setState kDisconnected c"
  obtain el1 where 1: "on_channel disableAll (el, ?c) = Some (el1, ?c)"
    unfolding disableAll_def by (rule on_channel_interest [of el ?c]) (use assms in simp_all)
  have "tc_state (snd (el1, ?c)) = kDisconnected" by simp
  from invoke_returns_down [OF this] obtain w2
    where 2: "invoke (ConnectionCb False) (el1, ?c) = Some w2" "tc_state (snd w2) = kDisconnected" by blast
  obtain w3 where "invoke CloseCb w2 = Some w3" using invoke_returns_down [OF 2(2)] by blast
  with 1 2 that show ?thesis by (simp add: handleClose_def)
qed

text \<open>
  C11: A closed connection can be closed again. If another thread calls \<open>forceClose\<close> and reads that the
  connection is up, the loop then closes it, in any way and with any callbacks, and the other thread only now
  sets \<open>kDisconnecting\<close> and posts its functor, then the loop can run that functor, and the user
  is told a second time that the connection is down and closed: what never happens to a connection
  that only its loop's thread uses. This is stated for a loop between two batches with nothing queued
  whose poller accepts the channel, as it does while the channel is registered.
\<close>
theorem forceClose_closes_twice:
  assumes "own_reach (fs, w)" and "forceClose_test w" and "own_step\<^sup>*\<^sup>* (fs, w) ([], (el, c))"
    and "Called CloseCb \<in> set (tc_trace c)" and "registrable (tc_channel c) el"
    and "el_pending el = []" and "\<not> el_calling el"
  shows "\<exists>el' c'. (race_step tid)\<^sup>*\<^sup>* (FTest, (fs, w)) (FDone, ([], (el', c')))
    \<and> tc_trace c' = tc_trace c @ [Called (ConnectionCb False), Called CloseCb]
    \<and> cb_phase (tc_trace c) = Some 3 \<and> cb_phase (tc_trace c') = None"
proof -
  have ok: "conn_ok (el, c)"
    using conn_reach_ok [OF own_reach_reach [OF own_steps_reach [OF assms(3,1)]]] by (simp add: run_ok_def)
  define el1 where "el1 = queueInLoop tid ForceCloseInLoop el"
  define el2 where "el2 = el1\<lparr>el_calling := True, el_pending := []\<rparr>"
  define c1 where "c1 = setState kDisconnecting c"
  have b: "begin_pending el1 = (el2, [ForceCloseInLoop])" "\<not> el_calling el1"
    using assms(6,7) by (simp_all add: begin_pending_def el1_def el2_def queueInLoop_def wakeup_def Let_def)
  have "loop_wf el2" "registrable (tc_channel c1) el2"
    using conn_okD(5) [OF ok] assms(5)
    by (simp_all add: el2_def el1_def c1_def loop_wf_def registrable_def)
  then obtain w3 where h: "handleClose (el2, c1) = Some w3" by (rule handleClose_again)
  obtain el3 c3 where w3: "w3 = (el3, c3)" by (cases w3)
  have "exec_functor ForceCloseInLoop (el2, c1) = Some (el3, c3)"
    using h by (simp add: forceCloseInLoop_def c1_def w3)
  then have "own_step ([ForceCloseInLoop], (el2, c1)) ([], (el3, c3))"
    by (intro own_run) (simp_all add: functor_enabled_def)
  moreover have "own_step ([], (el1, c1)) ([ForceCloseInLoop], (el2, c1))" by (rule own_begin [OF b(2,1)])
  ultimately have loop: "own_step\<^sup>*\<^sup>* ([], (el1, c1)) ([], (el3, c3))" by auto
  have "(race_step tid)\<^sup>*\<^sup>* (FTest, (fs, w)) (FMark, (fs, w))"
    using race_test [of tid fs w] assms(2) by auto
  also have "(race_step tid)\<^sup>*\<^sup>* (FMark, (fs, w)) (FMark, ([], (el, c)))" by (rule race_loops [OF assms(3)])
  also have "race_step tid (FMark, ([], (el, c))) (FPost, ([], (el, c1)))"
    using race_mark [of tid "[]" "(el, c)"] by (simp add: forceClose_mark_def c1_def)
  also have "race_step tid (FPost, ([], (el, c1))) (FDone, ([], (el1, c1)))"
    using race_post [of tid "[]" "(el, c1)"] by (simp add: forceClose_post_def el1_def)
  also have "(race_step tid)\<^sup>*\<^sup>* (FDone, ([], (el1, c1))) (FDone, ([], (el3, c3)))" by (rule race_loops [OF loop])
  finally have run: "(race_step tid)\<^sup>*\<^sup>* (FTest, (fs, w)) (FDone, ([], (el3, c3)))" .
  have tr: "tc_trace c3 = tc_trace c @ [Called (ConnectionCb False), Called CloseCb]"
    using handleClose_trace(1) [OF h] by (simp add: w3 c1_def)
  obtain p where p: "cb_phase (tc_trace c) = Some p" using ok by (auto simp: conn_ok_def data_but_def)
  with closed_phase [OF assms(4) p] have three: "cb_phase (tc_trace c) = Some 3" by simp
  then have "cb_phase (tc_trace c3) = None"
    unfolding tr using cb_phase_snoc [of "tc_trace c @ [Called (ConnectionCb False)]" "Called CloseCb"] by simp
  with run tr three show ?thesis by blast
qed

section \<open>Such a run\<close>

lemma handleClose_quiet:
  assumes run: "handleClose (el, c) = Some w'" and reg: "loop_wf el" "registrable (tc_channel c) el"
    and quiet: "\<And>k. tc_user c k (ConnectionCb False) = []" "\<And>k. tc_user c k CloseCb = []"
  shows "el_pending (fst w') = el_pending el" and "registrable (tc_channel (snd w')) (fst w')"
proof -
  let ?c = "setState kDisconnected c"
  obtain el1 where 1: "on_channel disableAll (el, ?c) = Some (el1, ?c)" "registrable (tc_channel ?c) el1"
    unfolding disableAll_def by (rule on_channel_interest [of el ?c]) (use reg in simp_all)
  have "w' = (el1, trace (Called CloseCb) (trace (Called (ConnectionCb False)) ?c))"
    using run 1(1) quiet by (simp add: handleClose_def invoke_def)
  moreover have "el_pending el1 = el_pending el"
    using 1(1) by (auto simp: on_channel_def disableAll_def set_interest_queue split: Option.bind_splits)
  ultimately show "el_pending (fst w') = el_pending el" "registrable (tc_channel (snd w')) (fst w')"
    using 1(2) by simp_all
qed

text \<open>The peer of an open connection hangs up, and its user has nothing to do.\<close>

lemma own_hangup:
  assumes reach: "own_reach ([], (el, c))" and rd: "readable (el, c)" and up: "tc_state c = kConnected"
    and pending: "el_pending el = []"
    and quiet: "\<And>k. tc_user c k (ConnectionCb False) = []" "\<And>k. tc_user c k CloseCb = []"
  obtains el' c' where "own_step ([], (el, c)) ([], (el', c'))" and "Called CloseCb \<in> set (tc_trace c')"
    and "el_pending el' = []" and "\<not> el_calling el'" and "registrable (tc_channel c') el'"
proof -
  let ?ch = "tc_channel c" and ?t = "Timestamp 2"
  let ?el1 = "fst (ready_channel EPOLLHUP ?t (el, c))\<lparr>el_current := Some ?ch\<rparr>"
  have en: "event_enabled EPOLLHUP (el, c)" using rd by (simp add: readable_def event_enabled_def tcp_revents_def event_consts)
  have ok: "run_ok ([], (el, c))" using conn_reach_ok own_reach_reach [OF reach] by blast
  obtain w' where w': "conn_event EPOLLHUP ?t (el, c) = Some w'" "conn_ok w'" "steady (el, c) w'"
    using conn_event_ok [OF ok en] by blast
  obtain el' c' where wc: "w' = (el', c')" by (cases w')
  have tied: "ch_tie (el_chans el ?ch) \<noteq> None" using rd by (simp add: readable_def)
  have "ch_closeCallback (el_chans el ?ch) = Some HandleClose"
    using ok by (simp add: run_ok_def conn_ok_def chan_ok_def Let_def)
  with tied have "handleEvent (conn_alive c) ?t (set_revents EPOLLHUP (el_chans el ?ch)) = [Call HandleClose]"
    by (auto simp: handleEvent_def handleEventWithGuard_def call_if_def read_if_def set_revents_def event_consts)
  then have h: "handleClose (?el1, c) = Some w'"
    using w'(1) by (simp add: conn_event_def dispatch_def ready_channel_def split: Option.bind_splits)
  have "own_step ([], (el, c)) ([], (el', c'))" using own_dispatch [OF en w'(1)] by (simp add: wc)
  moreover have "Called CloseCb \<in> set (tc_trace c')" using handleClose_trace(1) [OF h] by (simp add: wc)
  moreover have "\<not> el_calling el'"
    using w'(3) rd by (simp add: wc steady_def posts_only_def readable_def)
  moreover have "conn_ok (?el1, c)"
    using conn_ok_current [OF ready_channel_ok [of "(el, c)" EPOLLHUP ?t, unfolded ready_channel_def prod.case]] ok
    by (simp add: ready_channel_def run_ok_def)
  from conn_okD(5,6) [OF this] up have "loop_wf ?el1" "registrable ?ch ?el1" by simp_all
  from handleClose_quiet [OF h this] quiet pending
  have "el_pending el' = []" "registrable (tc_channel c') el'" by (simp_all add: wc ready_channel_def)
  ultimately show ?thesis using that by blast
qed

theorem forceClose_closes_twice_witness:
  "\<exists>el c el' c'. own_reach ([], (el, c)) \<and> tc_trace c = [Called (ConnectionCb True)]
     \<and> (race_step 9)\<^sup>*\<^sup>* (FTest, ([], (el, c))) (FDone, ([], (el', c')))
     \<and> cb_phase (tc_trace c') = None"
proof -
  obtain w where w: "own_reach ([], w)" "readable w" "tc_state (snd w) = kConnected"
      "tc_trace (snd w) = [Called (ConnectionCb True)]" "el_pending (fst w) = []"
      "tc_user (snd w) = (\<lambda>k cb. case cb of MessageCb s t \<Rightarrow> [ASendInput, AShutdown] | _ \<Rightarrow> [])"
    by (rule own_up [OF demo_conn_def demo_fresh]) (simp_all add: demo_loop_state)
  obtain el c where wc: "w = (el, c)" by (cases w)
  obtain el1 c1 where s: "own_step ([], (el, c)) ([], (el1, c1))" "Called CloseCb \<in> set (tc_trace c1)"
      "el_pending el1 = []" "\<not> el_calling el1" "registrable (tc_channel c1) el1"
    by (rule own_hangup [of el c]) (use w in \<open>simp_all add: wc\<close>)
  have "forceClose_test (el, c)" using w(3) by (simp add: forceClose_test_def wc)
  from forceClose_closes_twice [OF w(1) [unfolded wc] this r_into_rtranclp [of own_step, OF s(1)] s(2,5,3,4), of 9]
  obtain el' c' where "(race_step 9)\<^sup>*\<^sup>* (FTest, ([], (el, c))) (FDone, ([], (el', c')))" "cb_phase (tc_trace c') = None"
    by blast
  with w(1,4) show ?thesis unfolding wc by (metis snd_conv)
qed

end
