(* ===== verification/Spec2Isabelle.thy ===== *)
theory Spec2Isabelle
  imports Http_Context Http_Response Tcp_Connection Timer_Queue Async_Logging Logger_Line
    Worker_Pool Tcp_Client Http_Server Echo_Server Log_Program Pool_Program Server_Demo Conn_Race
begin

text \<open>
  A model of MyTCPServer, a C++ library for event-driven TCP servers and clients with an HTTP server and
  a logging library on top of it, and the theorems that make it correct or show where it is not.

  \<^bold>\<open>The program.\<close> Each thread runs at most one \<open>EventLoop\<close>. A loop waits in its \<open>Poller\<close> (epoll or poll) for
  its \<open>Channel\<close>s, lets the ready ones call their handlers, and then runs the functors that its own callbacks
  or other threads have queued; an eventfd wakes it up. A \<open>TcpServer\<close> accepts connections on its base loop
  (\<open>Acceptor\<close>), names them, puts them into a table and hands them in turn to the loops of its pool
  (\<open>EventLoopThreadPoll\<close>); a \<open>TcpConnection\<close> then lives on one loop, with an input and an output \<open>Buffer\<close>.
  An \<open>HttpServer\<close> is the user of such connections: it parses requests, calls back and prints responses. A
  \<open>TcpClient\<close> opens a connection through a \<open>Connector\<close> that retries. Timers are the \<open>TimerQueue\<close> of a loop.
  A \<open>Logger\<close> formats one line into a \<open>LogStream\<close>; \<open>AsyncLogging\<close> hands lines to a thread that writes them
  to a \<open>LogFile\<close>.

  \<^bold>\<open>The theories\<close> (paths are below \<open>src/\<close>; the code is in \<open>include/\<close> and \<open>src/\<close>):
  \<^item> \<open>Prelude\<close>: option-valued loops (\<open>bind_fold\<close>), slices, C++ arithmetic (\<open>sz_sub\<close>, \<open>cdiv\<close>, \<open>cmod\<close>), the fact
    collections \<open>model_defs\<close> and \<open>inv_intros\<close>. \<open>C_Format\<close>: decimal texts, \<open>snprintf\<close>, and that they read back.
  \<^item> \<open>Time_Stamp\<close>: \<open>Timestamp.h\<close>, \<open>base/Timestamp.cc\<close>.
  \<^item> \<open>Byte_Buffer\<close>: \<open>Buffer.h\<close>, \<open>net/Buffer.cc\<close>; the vector and its two indices against a queue of bytes
    (\<open>content\<close>), the interface locale \<open>byte_queue\<close> and its interpretation \<open>buffer_queue\<close>.
  \<^item> \<open>Http_Request\<close>, \<open>Http_Context\<close>, \<open>Http_Response\<close>, \<open>Http_Server\<close>: \<open>HttpRequest.h\<close>, \<open>HttpContext.h\<close>,
    \<open>HttpResponse.h\<close>, \<open>HttpServer.h\<close> and \<open>http/*.cc\<close>; the parser against a reference parser on lines, printing,
    and the server as a user of connections.
  \<^item> \<open>Event_Channel\<close>: \<open>Channel.h\<close>, \<open>net/Channel.cc\<close>. \<open>Pollers\<close>: \<open>Poller.h\<close>, \<open>net/Poller.cc\<close>, \<open>net/poller/*\<close>; both
    implementations of the locale \<open>poller_iface\<close>. \<open>Poller_Frame\<close>: what an operation on one channel leaves of the
    others, the locale \<open>isolated_poller\<close>, for both pollers.
  \<^item> \<open>Event_Loop\<close>: \<open>EventLoop.h\<close>, \<open>net/EventLoop.cc\<close>; what the functors and handlers of a client of the loop may do
    is the locale \<open>loop_client\<close>, interpreted on the connection (\<open>conn_loop\<close>) and on the timers.
  \<^item> \<open>Tcp_Connection\<close>: \<open>TcpConnection.h\<close>, \<open>net/TcpConnection.cc\<close>; one connection in any interleaving of events,
    functors and calls of other threads (\<open>conn_reach\<close>), with a trace of what it did. \<open>Conn_Frame\<close>: what a connection
    leaves of its loop; the locale \<open>conn_relation\<close> lifts a relation kept by the loop's primitives to every operation.
  \<^item> \<open>Conn_User\<close>: the same connection as its user sees it: an abstract connection with what is unread, what has been
    sent and whether it is open (\<open>spec_conn\<close>), replayed over the callbacks made so far, and the simulation, in the runs in which only the
    loop's own thread uses the connection (\<open>own_reach\<close>); there also the callback protocol.
  \<^item> \<open>Echo_Server\<close>: \<open>example/example.cc\<close>, a server and the user of its connections.
  \<^item> \<open>Shared_Loop\<close>, \<open>Shared_Runs\<close>: one loop with all the connections on it (\<open>shared_reach\<close>): polls, handlers, functors,
    connections that are opened and destroyed, calls of other threads, and what each connection may rely on.
  \<^item> \<open>Server_System\<close>, \<open>Server_Runs\<close>, \<open>Server_Release\<close>, \<open>Server_Demo\<close>: a \<open>TcpServer\<close> with everything below it (\<open>sys_reach\<close>): the base loop and
    its table, the loops of the pool and all their connections, whose close callback is the server's and whose
    \<open>shared_ptr\<close>s are counted; the simulation by the server alone (\<open>sys_sim\<close>); that closed connections can
    always be freed; and a run with a client.
  \<^item> \<open>Conn_Race\<close>: \<open>forceClose\<close> called by another thread, access by access, between the steps of the loop
    (\<open>race_step\<close>), and how it closes a connection twice.
  \<^item> \<open>Timer_Queue\<close>: \<open>Timer.h\<close>, \<open>TimerQueue.h\<close>, \<open>timer/*.cc\<close>.
  \<^item> \<open>Log_Stream\<close>, \<open>Log_File\<close>, \<open>Async_Logging\<close>, \<open>Logger_Line\<close>: \<open>LogStream.h\<close>, \<open>FileUtil.h\<close>, \<open>LogFile.h\<close>,
    \<open>AsyncLogging.h\<close>, \<open>Logger.h\<close> and \<open>log/*.cc\<close>. \<open>Log_Program\<close>: a program that logs, from the statement to the file,
    and \<open>log/test/test.cc\<close>. \<open>Pool_Program\<close>: \<open>base/test/test.cc\<close>.
  \<^item> \<open>Sockets\<close>: \<open>InetAddress\<close>, \<open>Socket\<close>, \<open>SocketOperation\<close>. \<open>Worker_Pool\<close>: \<open>Thread\<close>, \<open>CurrentThread\<close>, \<open>ThreadPool\<close>.
    \<open>Loop_Threads\<close>: \<open>EventLoopThread\<close>, \<open>EventLoopThreadPoll\<close>. \<open>Tcp_Server\<close>: \<open>Acceptor\<close>, \<open>TcpServer\<close>.
  \<^item> \<open>Tcp_Connector\<close>, \<open>Tcp_Client\<close>: \<open>Connector\<close>, \<open>TcpClient\<close>; the contract of the connector's owner is the locale
    \<open>connector_owner\<close>, interpreted on the client.

  \<^bold>\<open>How the code is represented.\<close> A class is a record named like it, a member \<open>_x\<close> a field with the class's
  prefix (\<open>tc_\<close>, \<open>el_\<close>, \<open>ts_\<close>, \<open>cn_\<close> and so on), a method a function of the same name where HOL allows it. A failed
  assert, \<open>LOG_FATAL\<close>, an access out of range or another undefined behaviour is \<^term>\<open>None\<close>. Pointers to channels,
  connections and loops are numbers. \<open>std::bind\<close> is a datatype of functors, run by one function per client. What a
  system call, the clock, the allocator, \<open>localtime\<close>, \<open>printf\<close> of a double, the order of an \<open>unordered_map\<close> or
  the library's user answers is an argument or a field, a function of how much has happened; what is relied on is a
  named hypothesis (\<open>readv_ok\<close>, \<open>ctl_ok\<close>, \<open>order_ok\<close>, \<open>fwrite_progress\<close>, \<open>fl_ok\<close>) with an instance in a witness.
  Threads are interleaved by step relations, at the granularity of lock regions and functors. The calls another
  thread makes on a connection are one step in \<open>conn_step\<close> and, where \<open>others\<close> is set, in \<open>shared_step\<close> and \<open>sys_step\<close>;
  the code does not ensure that, since \<open>shutdown\<close> and \<open>forceClose\<close> test \<open>_state\<close> and set it without a lock, and
  \<open>Conn_Race\<close> shows what can happen in between. Claims of the protocol, of refinement and of no abort are therefore
  made for connections that only the threads of their loops use. The functors of \<open>send\<close> and \<open>shutdown\<close> are bound to \<open>this\<close>
  and are no references (\<open>owning\<close>); the bytes another thread sends by \<open>c_str ()\<close> may be gone when the functor runs
  (\<open>SendInLoop None\<close>), which then has no result.

  \<^bold>\<open>Loops and bounds.\<close> No fuel is used. Loops that end are structural or have a measure; \<open>parseRequest\<close> and the
  loop of \<open>AppendFile::append\<close>, which may spin, are partial functions of the option type, and the theorems say
  exactly when they return (\<open>parseRequest_total\<close>, \<open>append_file_complete\<close>, \<open>append_file_spins\<close>). \<open>size_t\<close> is a
  natural number whose differences wrap (\<open>sz_sub\<close>), event masks and ports are words, counters that would overflow
  an \<open>int\<close> are checked. Bounds such as 21 bytes for an address text or \<open>10 ^ 13\<close> for a body are where the fixed
  arrays of the code stop truncating.

  \<^bold>\<open>What the theorems show.\<close> For connections: nothing accepted for sending is lost, doubled or reordered and the
  half-close is drained, also when other threads use them; used by their loops' threads only, the callback
  protocol and the refinement of the abstract connection, from which follow what
  the echo server returns and the whole transcript of an HTTP connection. All this holds for every connection of
  a loop with any number of them, whatever the other connections do; and for a whole server,
  where nothing is assumed of when a functor runs or an object is freed: the queues and references of the server
  guarantee what a loop by itself has to be told, no step aborts, and no closed connection is leaked. For the loop: no lost wake-up, functors run once in order. For buffers,
  pollers, timers: refinement of a queue, agreement with the kernel's interest list, due timers fire and are re-armed.
  For HTTP: whatever bytes come, the parser builds well-formed requests; printed requests are parsed back, answered whole and in order, and how split requests fail. For the
  server: every connection is named apart, taken up and down once and leaves the table in between. For the
  connector: growing delays, no socket closed twice. For logging: order of lines from the statement to the log, layout of a line, integers read
  back. Other theorems state where the code goes wrong: a connection that another thread closes a second time, pool workers that never run a task, a \<open>stop\<close> that deadlocks, a
  destructor that may wait for ever, stale indices in \<open>PollPoller\<close>, seconds cut off the time, lines lost by
  \<open>stop\<close>.

  \<^bold>\<open>Not modelled.\<close> \<open>noncopyable.h\<close> and the typedefs of \<open>Callback.h\<close> have no behaviour; \<open>build/\<close> holds CMake output.
  The pauses of the test programs are left out: their threads may be interleaved in any way. Log lines written by the network code are left out
  where they are its only effect, as are the failures of system calls that are only logged. Destructors that only
  close a descriptor appear as such in the component that owns it. The life time of objects is modelled for
  channels and for the connections of a server that stays: the functors a destroyed \<open>TcpServer\<close> leaves bound to
  \<open>this\<close> are not. A server whose pool has no threads keeps its connections on the base loop, which \<open>Shared_Loop\<close> covers;
  \<open>Server_System\<close> has at least one thread. In \<open>Server_System\<close> the acceptor's read handler and the wake-up of the base loop
  are the step \<open>sys_accept\<close> and the queue of the base loop; their own state is in \<open>Tcp_Server\<close>.
\<close>

section \<open>The loop with the connections it serves\<close>

text \<open>
  C14: Functors posted to a loop, by its own callbacks or by other threads in any interleaving,
  are run exactly once and in the order they were posted: what has been posted is what has been
  run, then the rest of the current batch, then the queue.
\<close>
theorem loop_runs_in_order:
  assumes "loop_reach call_handler conn_alive exec_functor w (ph, n, posted, finished, (el, c))"
    and "el_pending (fst w) = []" and "\<not> el_calling (fst w)"
  shows "posted = finished @ running ph @ el_pending el"
  using assms by (rule conn_loop.posted_in_order)

text \<open>
  C13: No lost wake-up: when the loop is about to wait in \<open>poll\<close> while work is queued, its
  eventfd is readable, or a thread that has queued work has yet to write to it.
\<close>
theorem loop_no_lost_wakeup:
  assumes "loop_reach call_handler conn_alive exec_functor w (Polling, n, posted, finished, (el, c))"
    and "el_pending (fst w) = []" and "\<not> el_calling (fst w)" and "el_pending el \<noteq> []"
  shows "0 < el_eventfd el \<or> 0 < n"
  using assms by (rule conn_loop.no_lost_wakeup)

text \<open>A loop to which another thread has posted one functor and signalled it.\<close>

definition posted_loop :: "(conn_functor, conn_handler) evloop" where
  "posted_loop = wakeup (demo_loop\<lparr>el_pending := el_pending demo_loop @ [ShutdownInLoop]\<rparr>)"

lemma posted_loop_reach:
  "loop_reach call_handler conn_alive exec_functor (demo_loop, c)
    (Polling, 0, [] @ [ShutdownInLoop], [], (posted_loop, c))"
  unfolding posted_loop_def by (rule loop_next [OF loop_next [OF loop_start post_append] post_wakeup])

theorem loop_runs_in_order_witness:
  "\<exists>el c. loop_reach call_handler conn_alive exec_functor (demo_loop, c)
      (Polling, 0, [ShutdownInLoop], [], (el, c)) \<and> [ShutdownInLoop] = [] @ running Polling @ el_pending el"
  using loop_runs_in_order [OF posted_loop_reach] posted_loop_reach by (auto simp: demo_loop_state)

theorem loop_no_lost_wakeup_witness:
  "el_pending posted_loop \<noteq> [] \<and> 0 < el_eventfd posted_loop"
proof -
  have "el_pending posted_loop \<noteq> []" by (simp add: posted_loop_def wakeup_def)
  with loop_no_lost_wakeup [OF posted_loop_reach] show ?thesis by (simp add: demo_loop_state)
qed

end
